(* ===== verification/Prelude.thy ===== *)
theory Prelude
  imports Complex_Main "HOL-Library.Multiset" "HOL-Library.AList" "HOL-Library.Sublist"
begin

text \<open>
  What the components share.

  \<^item> The interface of a deterministic component: a step function over its events, with the outputs
    of each step where it has any, and the invariants of its runs (locales \<open>event_machine\<close> and
    \<open>emitting_machine\<close>).
  \<^item> JavaScript's insertion-ordered \<open>Map\<close>, as an association list with distinct keys (locale
    \<open>ordered_map\<close>, interpreted on \<open>AList.update\<close> and \<open>AList.delete\<close>).
  \<^item> \<open>Array.prototype.sort\<close> with a comparator, which is stable (\<open>js_sort\<close>), and the first-match
    helpers \<open>find\<close>, \<open>findIndex\<close> and \<open>splice\<close>.

  Strings are lists of 8-bit code units: JavaScript strings whose code units are all below 256. On
  those, \<open>toLowerCase\<close>, \<open>trim\<close> and \<open>\\s\<close> are modelled exactly. Numbers are \<open>int\<close> where the
  code requires an integer and \<open>rat\<close> where it computes with fractions; the rounding of double
  arithmetic is not modelled.
\<close>

named_theorems step_defs "the operations of a component, unfolded to their branches"

section \<open>Components as event machines\<close>

text \<open>Every event of the sequence is enabled in the state it meets.\<close>

fun enabled_run :: "('s \<Rightarrow> 'e \<Rightarrow> 's) \<Rightarrow> ('s \<Rightarrow> 'e \<Rightarrow> bool) \<Rightarrow> 's \<Rightarrow> 'e list \<Rightarrow> bool" where
  "enabled_run step enabled s [] = True"
| "enabled_run step enabled s (e # es) \<longleftrightarrow> enabled s e \<and> enabled_run step enabled (step s e) es"

text \<open>A machine whose invariant needs something of the events, such as identifiers being fresh.\<close>

locale guarded_machine =
  fixes step :: "'s \<Rightarrow> 'e \<Rightarrow> 's"
    and good :: "'s \<Rightarrow> bool"
    and enabled :: "'s \<Rightarrow> 'e \<Rightarrow> bool"
  assumes enabled_good: "good s \<Longrightarrow> enabled s e \<Longrightarrow> good (step s e)"
begin

lemma enabled_run_good: "good s \<Longrightarrow> enabled_run step enabled s es \<Longrightarrow> good (foldl step s es)"
  by (induction es arbitrary: s) (auto intro: enabled_good)

end

locale event_machine =
  fixes step :: "'s \<Rightarrow> 'e \<Rightarrow> 's"
    and good :: "'s \<Rightarrow> bool"
  assumes step_good: "good s \<Longrightarrow> good (step s e)"
begin

lemma run_good: "good s \<Longrightarrow> good (foldl step s es)"
  by (induction es arbitrary: s) (auto intro: step_good)

lemma run_good_snoc: "good s \<Longrightarrow> good (step (foldl step s es) e)"
  by (intro step_good run_good)

end

sublocale event_machine \<subseteq> guarded_machine step good "\<lambda>s e. True"
  by unfold_locales (rule step_good)

text \<open>A machine whose steps also emit outputs, in order.\<close>

fun run_out :: "('s \<Rightarrow> 'e \<Rightarrow> 's \<times> 'o list) \<Rightarrow> 's \<Rightarrow> 'e list \<Rightarrow> 's \<times> 'o list" where
  "run_out stp s [] = (s, [])"
| "run_out stp s (e # es) =
     (let (s', os) = stp s e; (s'', os') = run_out stp s' es in (s'', os @ os'))"

lemma run_out_append:
  "run_out stp s (xs @ ys) =
     (let (s', os) = run_out stp s xs; (s'', os') = run_out stp s' ys in (s'', os @ os'))"
  by (induction xs arbitrary: s) (auto simp: Let_def split: prod.splits)

text \<open>Two stateful operations in sequence, with their outputs in order.\<close>

definition and_then :: "('s \<Rightarrow> 's \<times> 'o list) \<Rightarrow> ('s \<Rightarrow> 's \<times> 'o list) \<Rightarrow> 's \<Rightarrow> 's \<times> 'o list" where
  "and_then f g s = (let (s1, os) = f s; (s2, os') = g s1 in (s2, os @ os'))"

lemma fst_and_then [simp]: "fst (and_then f g s) = fst (g (fst (f s)))"
  by (simp add: and_then_def case_prod_beta Let_def)

lemma snd_and_then [simp]: "snd (and_then f g s) = snd (f s) @ snd (g (fst (f s)))"
  by (simp add: and_then_def case_prod_beta Let_def)

locale emitting_machine =
  fixes stp :: "'s \<Rightarrow> 'e \<Rightarrow> 's \<times> 'o list"
    and good :: "'s \<Rightarrow> bool"
  assumes stp_good: "good s \<Longrightarrow> good (fst (stp s e))"
begin

sublocale state: event_machine "\<lambda>s e. fst (stp s e)" good
  by unfold_locales (rule stp_good)

lemma fst_run_out: "fst (run_out stp s es) = foldl (\<lambda>s e. fst (stp s e)) s es"
proof (induction es arbitrary: s)
  case (Cons e es)
  then show ?case using Cons[of "fst (stp s e)"] by (simp add: Let_def case_prod_beta)
qed simp

lemma run_out_good: "good s \<Longrightarrow> good (fst (run_out stp s es))"
  by (simp add: fst_run_out state.run_good)

end

section \<open>Insertion-ordered maps\<close>

text \<open>
  A JavaScript \<open>Map\<close> iterates in insertion order; \<open>set\<close> on a present key keeps its place, \<open>delete\<close>
  drops it. The contract its clients rely on, and its model as an association list.
\<close>

locale ordered_map =
  fixes get :: "'m \<Rightarrow> 'k \<Rightarrow> 'v option"
    and put :: "'k \<Rightarrow> 'v \<Rightarrow> 'm \<Rightarrow> 'm"
    and del :: "'k \<Rightarrow> 'm \<Rightarrow> 'm"
    and entries :: "'m \<Rightarrow> ('k \<times> 'v) list"
    and ok :: "'m \<Rightarrow> bool"
  assumes get_put: "get (put k v m) = (get m)(k := Some v)"
    and get_del: "get (del k m) = (get m)(k := None)"
    and get_entries: "ok m \<Longrightarrow> get m k = Some v \<longleftrightarrow> (k, v) \<in> set (entries m)"
    and ok_put: "ok m \<Longrightarrow> ok (put k v m)"
    and ok_del: "ok m \<Longrightarrow> ok (del k m)"
    and put_old_keys: "get m k \<noteq> None \<Longrightarrow> map fst (entries (put k v m)) = map fst (entries m)"
    and put_new: "get m k = None \<Longrightarrow> entries (put k v m) = entries m @ [(k, v)]"
begin

lemma get_put_same: "get (put k v m) k = Some v"
  by (simp add: get_put)

lemma get_put_other: "k \<noteq> k' \<Longrightarrow> get (put k v m) k' = get m k'"
  by (simp add: get_put)

lemma get_None_entries: "ok m \<Longrightarrow> get m k = None \<longleftrightarrow> k \<notin> fst ` set (entries m)"
  using get_entries[of m k] by (cases "get m k") force+

lemma put_keys_subset: "ok m \<Longrightarrow> fst ` set (entries (put k v m)) = insert k (fst ` set (entries m))"
proof (cases "get m k")
  case None
  then show ?thesis by (simp add: put_new)
next
  case (Some w)
  assume "ok m"
  with Some have "k \<in> fst ` set (entries m)" by (force simp: get_entries)
  moreover have "set (map fst (entries (put k v m))) = set (map fst (entries m))"
    using Some put_old_keys[of m k v] by simp
  ultimately show ?thesis by (auto simp: insert_absorb)
qed

end

abbreviation jmap_ok :: "('k \<times> 'v) list \<Rightarrow> bool" where
  "jmap_ok m \<equiv> distinct (map fst m)"

lemma alist_update_new: "map_of m k = None \<Longrightarrow> AList.update k v m = m @ [(k, v)]"
  by (induction m) (auto split: if_splits)

lemma alist_update_old_keys: "map_of m k \<noteq> None \<Longrightarrow> map fst (AList.update k v m) = map fst m"
  by (induction m) (auto split: if_splits)

lemma alist_length_update:
  "length (AList.update k v m) = (if map_of m k = None then Suc (length m) else length m)"
  by (induction m) (auto split: if_splits)

lemma alist_update_map:
  "jmap_ok m \<Longrightarrow> map_of m k \<noteq> None \<Longrightarrow> AList.update k v m = map (\<lambda>(k', w). (k', if k' = k then v else w)) m"
proof (induction m)
  case (Cons p m)
  have id: "k \<notin> fst ` set m \<Longrightarrow> map (\<lambda>(k', w). (k', if k' = k then v else w)) m = m"
    by (rule map_idI) force
  show ?case
  proof (cases "fst p = k")
    case True
    with Cons.prems id show ?thesis by (cases p) auto
  next
    case False
    with Cons show ?thesis by (cases p) auto
  qed
qed simp

lemma alist_length_delete:
  "jmap_ok m \<Longrightarrow> map_of m k \<noteq> None \<Longrightarrow> Suc (length (AList.delete k m)) = length m"
proof (induction m)
  case (Cons p m)
  have "map_of m k = None \<Longrightarrow> AList.delete k m = m"
    by (simp add: map_of_eq_None_iff delete_idem)
  with Cons show ?case by (cases p) (force simp: map_of_eq_None_iff)
qed simp

lemma set_alist_update: "set (AList.update k v m) \<subseteq> insert (k, v) (set m)"
  by (induction m) auto

lemma set_alist_delete: "set (AList.delete k m) \<subseteq> set m"
  by (induction m) auto

lemma alist_update_ok: "jmap_ok m \<Longrightarrow> jmap_ok (AList.update k v m)"
  by (rule distinct_update)

lemma alist_delete_ok: "jmap_ok m \<Longrightarrow> jmap_ok (AList.delete k m)"
  by (rule distinct_delete)

interpretation jmap: ordered_map map_of AList.update AList.delete "\<lambda>m. m" "\<lambda>m. jmap_ok m"
proof (unfold_locales, goal_cases)
  case (1 k v m)
  show ?case by (rule update_conv')
next
  case (2 k m)
  show ?case by (rule delete_conv')
next
  case (3 m k v)
  then show ?case by simp
next
  case (4 m k v)
  then show ?case by (rule alist_update_ok)
next
  case (5 m k)
  then show ?case by (rule alist_delete_ok)
next
  case (6 m k v)
  then show ?case by (rule alist_update_old_keys)
next
  case (7 m k v)
  then show ?case by (rule alist_update_new)
qed

section \<open>First match and removal\<close>

text \<open>\<open>findIndex\<close> followed by \<open>splice(i, 1)\<close>: remove the first match, if any.\<close>

fun remove_first :: "('a \<Rightarrow> bool) \<Rightarrow> 'a list \<Rightarrow> 'a list" where
  "remove_first P [] = []"
| "remove_first P (x # xs) = (if P x then xs else x # remove_first P xs)"

lemma remove_first_none: "\<forall>x\<in>set xs. \<not> P x \<Longrightarrow> remove_first P xs = xs"
  by (induction xs) auto

lemma set_remove_first: "set (remove_first P xs) \<subseteq> set xs"
  by (induction xs) auto

lemma length_remove_first:
  "length (remove_first P xs) = length xs - (if \<exists>x\<in>set xs. P x then 1 else 0)"
proof (induction xs)
  case (Cons x xs)
  then show ?case by (cases xs) auto
qed simp

lemma remove_first_append:
  "remove_first P (xs @ ys) =
     (if \<exists>x\<in>set xs. P x then remove_first P xs @ ys else xs @ remove_first P ys)"
  by (induction xs) auto

text \<open>The last \<open>n\<close> elements of a list, for caps that drop the oldest.\<close>

definition lastn :: "nat \<Rightarrow> 'a list \<Rightarrow> 'a list" where
  "lastn n xs = drop (length xs - n) xs"

lemma length_lastn [simp]: "length (lastn n xs) = min n (length xs)"
  by (simp add: lastn_def)

lemma lastn_all: "length xs \<le> n \<Longrightarrow> lastn n xs = xs"
  by (simp add: lastn_def)

lemma lastn_0 [simp]: "lastn 0 xs = []"
  by (simp add: lastn_def)

lemma lastn_append_small: "n \<le> length ys \<Longrightarrow> lastn n (xs @ ys) = lastn n ys"
  by (simp add: lastn_def)

lemma lastn_append: "lastn n (xs @ ys) = lastn (n - length ys) xs @ lastn n ys"
proof (cases "length ys \<le> n")
  case True
  then have "length xs + length ys - n = length xs - (n - length ys)" by simp
  with True show ?thesis by (simp add: lastn_def)
qed (simp add: lastn_def)

lemma find_append: "find P (xs @ ys) = (case find P xs of Some x \<Rightarrow> Some x | None \<Rightarrow> find P ys)"
  by (induction xs) auto

lemma find_SomeD: "find P xs = Some x \<Longrightarrow> x \<in> set xs \<and> P x"
  by (induction xs) (auto split: if_splits)

lemma find_NoneD: "find P xs = None \<Longrightarrow> x \<in> set xs \<Longrightarrow> \<not> P x"
  by (auto simp: find_None_iff)

lemma map_list_update_same: "f x = f (xs ! i) \<Longrightarrow> map f (xs[i := x]) = map f xs"
proof (cases "i < length xs")
  case True
  assume "f x = f (xs ! i)"
  with True have "map f (xs[i := x]) = (map f xs)[i := map f xs ! i]" by (simp add: map_update)
  then show ?thesis by simp
qed (simp add: list_update_beyond)

text \<open>\<open>[...new Set(xs)]\<close>: each element at its first place.\<close>

fun js_dedup :: "'a list \<Rightarrow> 'a list" where
  "js_dedup [] = []"
| "js_dedup (x # xs) = x # filter (\<lambda>y. y \<noteq> x) (js_dedup xs)"

lemma set_js_dedup [simp]: "set (js_dedup xs) = set xs"
  by (induction xs) auto

lemma distinct_js_dedup [simp]: "distinct (js_dedup xs)"
  by (induction xs) auto

lemma js_dedup_id: "distinct xs \<Longrightarrow> js_dedup xs = xs"
  by (induction xs) (auto simp: filter_id_conv)

lemma js_dedup_Nil [simp]: "js_dedup xs = [] \<longleftrightarrow> xs = []"
  by (cases xs) auto

lemma length_js_dedup: "length (js_dedup xs) \<le> length xs"
proof (induction xs)
  case (Cons x xs)
  then show ?case by (simp add: le_trans[OF length_filter_le])
qed simp

lemma distinct_map_filter:
  assumes "\<And>i j. i < length xs \<Longrightarrow> j < length xs \<Longrightarrow> P (xs ! i) \<Longrightarrow> P (xs ! j) \<Longrightarrow> f (xs ! i) = f (xs ! j) \<Longrightarrow> i = j"
  shows "distinct (map f (filter P xs))"
proof -
  let ?is = "filter (\<lambda>i. P (xs ! i)) [0..<length xs]"
  have "map f (filter P xs) = map (\<lambda>i. f (xs ! i)) ?is"
    using filter_map[of P "(!) xs" "[0..<length xs]"] by (simp add: map_nth comp_def)
  moreover have "inj_on (\<lambda>i. f (xs ! i)) (set ?is)"
    using assms by (auto intro!: inj_onI)
  ultimately show ?thesis by (simp add: distinct_map)
qed

section \<open>Stable sorting by a comparator\<close>

text \<open>
  \<open>xs.sort((a, b) => \<dots>)\<close>; \<open>le a b\<close> is \<open>cmp(a, b) <= 0\<close>. The language requires a stable sort, so for
  a consistent comparator the result is determined, whatever algorithm the engine uses.
\<close>

fun js_insert :: "('a \<Rightarrow> 'a \<Rightarrow> bool) \<Rightarrow> 'a \<Rightarrow> 'a list \<Rightarrow> 'a list" where
  "js_insert le x [] = [x]"
| "js_insert le x (y # ys) = (if le x y then x # y # ys else y # js_insert le x ys)"

fun js_sort :: "('a \<Rightarrow> 'a \<Rightarrow> bool) \<Rightarrow> 'a list \<Rightarrow> 'a list" where
  "js_sort le [] = []"
| "js_sort le (x # xs) = js_insert le x (js_sort le xs)"

lemma mset_js_insert [simp]: "mset (js_insert le x xs) = add_mset x (mset xs)"
  by (induction xs) auto

lemma mset_js_sort [simp]: "mset (js_sort le xs) = mset xs"
  by (induction xs) auto

lemma set_js_sort [simp]: "set (js_sort le xs) = set xs"
  by (rule mset_eq_setD) simp

lemma length_js_sort [simp]: "length (js_sort le xs) = length xs"
  by (metis mset_js_sort size_mset)

lemma set_js_insert [simp]: "set (js_insert le x xs) = insert x (set xs)"
  by (induction xs) auto

lemma js_sort_eq_Nil [simp]: "js_sort le xs = [] \<longleftrightarrow> xs = []"
  by (metis length_0_conv length_js_sort)

text \<open>Mapping a function the comparator does not notice commutes with sorting.\<close>

lemma js_sort_map:
  assumes "\<And>x y. x \<in> set xs \<Longrightarrow> y \<in> set xs \<Longrightarrow> le (f x) (f y) = le x y"
  shows "js_sort le (map f xs) = map f (js_sort le xs)"
proof -
  have ins: "js_insert le (f x) (map f ys) = map f (js_insert le x ys)"
    if "\<forall>y\<in>set ys. le (f x) (f y) = le x y" for x ys
    using that by (induction ys) auto
  show ?thesis using assms by (induction xs) (auto simp: ins)
qed

locale comparator =
  fixes le :: "'a \<Rightarrow> 'a \<Rightarrow> bool"
  assumes le_trans: "le x y \<Longrightarrow> le y z \<Longrightarrow> le x z"
    and le_total: "le x y \<or> le y x"
begin

lemma le_refl: "le x x"
  using le_total[of x x] by simp

lemma sorted_js_insert: "sorted_wrt le xs \<Longrightarrow> sorted_wrt le (js_insert le x xs)"
proof (induction xs)
  case (Cons y ys)
  then show ?case
    using le_total[of x y] by (auto intro: le_trans)
qed simp

lemma sorted_js_sort: "sorted_wrt le (js_sort le xs)"
  by (induction xs) (auto intro: sorted_js_insert)

lemma hd_js_sort_least: "x \<in> set xs \<Longrightarrow> le (hd (js_sort le xs)) x"
proof -
  assume x: "x \<in> set xs"
  obtain y ys where ys: "js_sort le xs = y # ys"
    using x by (cases "js_sort le xs") auto
  have "x = y \<or> x \<in> set ys" using x ys set_js_sort[of le xs] by auto
  then show ?thesis
    using sorted_js_sort[of xs] ys le_refl by auto
qed

text \<open>Stability: elements the comparator calls equal keep their order.\<close>

lemma filter_js_insert:
  assumes "\<And>a b. P a \<Longrightarrow> P b \<Longrightarrow> le a b"
  shows "filter P (js_insert le x xs) = filter P (x # xs)"
  using assms by (induction xs) auto

lemma js_sort_stable:
  assumes "\<And>a b. P a \<Longrightarrow> P b \<Longrightarrow> le a b"
  shows "filter P (js_sort le xs) = filter P xs"
proof (induction xs)
  case (Cons x xs)
  then show ?case
    using filter_js_insert[of P x "js_sort le xs", OF assms] by simp
qed simp

end

text \<open>When the comparator never calls two different elements equal, the input order is irrelevant.\<close>

locale strict_comparator = comparator +
  assumes le_antisym: "le x y \<Longrightarrow> le y x \<Longrightarrow> x = y"
begin

lemma sorted_unique:
  "sorted_wrt le xs \<Longrightarrow> sorted_wrt le ys \<Longrightarrow> mset xs = mset ys \<Longrightarrow> xs = ys"
proof (induction xs arbitrary: ys)
  case Nil
  then show ?case by simp
next
  case (Cons x xs)
  then obtain y zs where ys: "ys = y # zs"
    by (cases ys) auto
  have "x \<in> set ys" "y \<in> set (x # xs)"
    using Cons.prems(3) ys by (metis list.set_intros(1) set_mset_mset)+
  then have "le x y" "le y x"
    using Cons.prems(1,2) ys le_refl by auto
  then have "x = y" by (rule le_antisym)
  then show ?case using Cons ys by auto
qed

lemma js_sort_perm: "mset xs = mset ys \<Longrightarrow> js_sort le xs = js_sort le ys"
  by (rule sorted_unique) (auto intro: sorted_js_sort)

end

interpretation num_order: strict_comparator "(\<le>) :: 'a::linorder \<Rightarrow> 'a \<Rightarrow> bool"
  by unfold_locales auto

lemma sorted_distinct_strict:
  fixes xs :: "'a::linorder list"
  assumes "distinct xs"
  shows "sorted_wrt (<) (js_sort (\<le>) xs)"
proof -
  have "distinct (js_sort (\<le>) xs)" using assms by (metis mset_eq_imp_distinct_iff mset_js_sort)
  then show ?thesis using num_order.sorted_js_sort[of xs] by (simp add: strict_sorted_iff)
qed


end
