(* ===== verification/Outbox.thy ===== *)
theory Outbox
  imports Prelude
begin

text \<open>
  The runner's outbound event buffer (\<open>apps/runner/src/outbox.ts\<close>): coalescing, the overflow cap, the
  drain order, and the flush over a transport that may fail part-way.

  A message is its discriminant, its session id (absent on runner-wide messages) and the rest of its
  fields. Projection and the transport are arguments of \<open>flush_outbox\<close>, as they are arguments of
  \<open>flushProjectedOutbox\<close>: \<open>project\<close> throws, drops or converts a message, and \<open>send\<close> acts on the
  transport's own state and may throw. The two error callbacks only record what happened; in the
  runner they log, and do not touch the buffer.
\<close>

section \<open>Model\<close>

record 'b ob_message =
  msg_type :: string
  msg_session :: "string option"
  msg_body :: 'b

record 'm outbox =
  ob_buffer :: "'m list"
  ob_max :: nat

definition MAX_OUTBOX :: nat where
  "MAX_OUTBOX = 1000"

definition new_outbox :: "nat \<Rightarrow> 'm outbox" where
  "new_outbox n = \<lparr>ob_buffer = [], ob_max = n\<rparr>"

definition ob_size :: "'m outbox \<Rightarrow> nat" where
  "ob_size b = length (ob_buffer b)"

text \<open>The three message types of which only the latest matters.\<close>

definition coalescable :: "'b ob_message \<Rightarrow> bool" where
  "coalescable m \<longleftrightarrow> msg_type m = ''session_status'' \<or> msg_type m = ''session_queue'' \<or>
     msg_type m = ''runner_capacity_status''"

definition same_slot :: "'b ob_message \<Rightarrow> 'b ob_message \<Rightarrow> bool" where
  "same_slot a b \<longleftrightarrow> msg_type a = msg_type b \<and> msg_session a = msg_session b"

definition ob_enqueue :: "'b ob_message outbox \<Rightarrow> 'b ob_message \<Rightarrow> 'b ob_message outbox" where
  "ob_enqueue b msg =
     (let kept = (if coalescable msg then remove_first (\<lambda>m. same_slot m msg) (ob_buffer b) else ob_buffer b);
          pushed = kept @ [msg]
      in b\<lparr>ob_buffer := (if length pushed > ob_max b then drop (length pushed - ob_max b) pushed else pushed)\<rparr>)"

definition ob_restore_front :: "'m outbox \<Rightarrow> 'm list \<Rightarrow> 'm outbox" where
  "ob_restore_front b messages =
     (if messages = [] then b
      else let joined = messages @ ob_buffer b
           in b\<lparr>ob_buffer := (if length joined > ob_max b then take (ob_max b) joined else joined)\<rparr>)"

definition ob_drain :: "'m outbox \<Rightarrow> 'm list \<times> 'm outbox" where
  "ob_drain b = (ob_buffer b, b\<lparr>ob_buffer := []\<rparr>)"

text \<open>What projecting a message does, and what the flush reports.\<close>

datatype ('e, 'u) projection = ProjectionThrows 'e | ProjectedNull | Projected 'u

datatype ('e, 'm) flush_report = ProjectionError 'e 'm | SendError 'e 'm

text \<open>
  The loop of \<open>flushProjectedOutbox\<close> over the drained messages: the unsent suffix to restore (empty
  when every message was dealt with), the transport's state, and the reports.
\<close>

fun flush_loop ::
  "('m \<Rightarrow> ('e, 'u) projection) \<Rightarrow> ('w \<Rightarrow> 'u \<Rightarrow> 'e option \<times> 'w) \<Rightarrow> 'w \<Rightarrow> 'm list
    \<Rightarrow> 'm list \<times> 'w \<times> ('e, 'm) flush_report list" where
  "flush_loop project send w [] = ([], w, [])"
| "flush_loop project send w (m # ms) =
     (case project m of
        ProjectionThrows e \<Rightarrow>
          (let (rest, w', rs) = flush_loop project send w ms in (rest, w', ProjectionError e m # rs))
      | ProjectedNull \<Rightarrow> flush_loop project send w ms
      | Projected u \<Rightarrow>
          (case send w u of
             (None, w') \<Rightarrow> flush_loop project send w' ms
           | (Some e, w') \<Rightarrow> (m # ms, w', [SendError e m])))"

definition flush_outbox ::
  "'m outbox \<Rightarrow> ('m \<Rightarrow> ('e, 'u) projection) \<Rightarrow> ('w \<Rightarrow> 'u \<Rightarrow> 'e option \<times> 'w) \<Rightarrow> 'w
    \<Rightarrow> 'm outbox \<times> 'w \<times> ('e, 'm) flush_report list" where
  "flush_outbox b project send w =
     (let (messages, b') = ob_drain b; (rest, w', rs) = flush_loop project send w messages
      in (ob_restore_front b' rest, w', rs))"

datatype 'm ob_event = Enqueue 'm | RestoreFront "'m list" | Drain

fun ob_step :: "'b ob_message outbox \<Rightarrow> 'b ob_message ob_event \<Rightarrow> 'b ob_message outbox" where
  "ob_step b (Enqueue m) = ob_enqueue b m"
| "ob_step b (RestoreFront ms) = ob_restore_front b ms"
| "ob_step b Drain = snd (ob_drain b)"

lemmas outbox_defs = new_outbox_def ob_size_def ob_enqueue_def ob_restore_front_def ob_drain_def
declare outbox_defs [step_defs]

section \<open>The cap\<close>

definition ob_within :: "'m outbox \<Rightarrow> bool" where
  "ob_within b \<longleftrightarrow> length (ob_buffer b) \<le> ob_max b"

lemma ob_max_step [simp]: "ob_max (ob_step b e) = ob_max b"
  by (cases e) (auto simp: outbox_defs Let_def)

lemma ob_step_within: "ob_within b \<Longrightarrow> ob_within (ob_step b e)"
  by (cases e) (auto simp: ob_within_def outbox_defs Let_def)

interpretation ob: event_machine ob_step ob_within
  by unfold_locales (rule ob_step_within)

lemma ob_max_run [simp]: "ob_max (foldl ob_step b es) = ob_max b"
  by (induction es arbitrary: b) auto

section \<open>Coalescing\<close>

text \<open>
  The specification of a run of enqueues: a coalescable message survives only if no later message
  has its slot, and of what survives the last \<open>max\<close> are kept.
\<close>

fun coalesced :: "'b ob_message list \<Rightarrow> 'b ob_message list" where
  "coalesced [] = []"
| "coalesced (m # ms) =
     (if coalescable m \<and> (\<exists>x\<in>set ms. same_slot m x) then coalesced ms else m # coalesced ms)"

lemma coalescable_same_slot: "same_slot m x \<Longrightarrow> coalescable m \<longleftrightarrow> coalescable x"
  by (simp add: same_slot_def coalescable_def)

lemma same_slot_sym: "same_slot a b \<longleftrightarrow> same_slot b a"
  by (auto simp: same_slot_def)

lemma same_slot_trans: "same_slot a b \<Longrightarrow> same_slot b c \<Longrightarrow> same_slot a c"
  by (simp add: same_slot_def)

lemma set_coalesced: "set (coalesced ms) \<subseteq> set ms"
  by (induction ms) auto

lemma coalesced_slot_iff:
  "(\<exists>x\<in>set (coalesced ms). same_slot x m) \<longleftrightarrow> (\<exists>x\<in>set ms. same_slot x m)"
proof (induction ms)
  case (Cons a ms)
  then show ?case
    by (auto dest: same_slot_trans) (metis same_slot_sym same_slot_trans)+
qed simp

text \<open>In what survives, a coalescable slot occurs once.\<close>

fun slots_distinct :: "'b ob_message list \<Rightarrow> bool" where
  "slots_distinct [] = True"
| "slots_distinct (m # ms) = ((coalescable m \<longrightarrow> (\<forall>x\<in>set ms. \<not> same_slot m x)) \<and> slots_distinct ms)"

lemma slots_distinct_coalesced: "slots_distinct (coalesced ms)"
  using set_coalesced by (induction ms) auto

lemma slots_distinct_append_right: "slots_distinct (xs @ ys) \<Longrightarrow> slots_distinct ys"
  by (induction xs) auto

lemma slots_distinct_drop: "slots_distinct ms \<Longrightarrow> slots_distinct (drop n ms)"
  by (metis append_take_drop_id slots_distinct_append_right)

lemma coalesced_snoc_plain: "\<not> coalescable m \<Longrightarrow> coalesced (ms @ [m]) = coalesced ms @ [m]"
  by (induction ms) (auto dest: coalescable_same_slot)

lemma coalesced_snoc_filter:
  "coalescable m \<Longrightarrow> coalesced (ms @ [m]) = filter (\<lambda>x. \<not> same_slot x m) (coalesced ms) @ [m]"
proof (induction ms)
  case (Cons a ms)
  then show ?case
    by (auto dest: coalescable_same_slot)
qed simp

lemma filter_slot_remove_first:
  "slots_distinct ms \<Longrightarrow> coalescable m \<Longrightarrow>
   filter (\<lambda>x. \<not> same_slot x m) ms = remove_first (\<lambda>x. same_slot x m) ms"
proof (induction ms)
  case (Cons a ms)
  show ?case
  proof (cases "same_slot a m")
    case True
    then have "coalescable a" using Cons.prems(2) coalescable_same_slot by blast
    then have "\<forall>x\<in>set ms. \<not> same_slot x m"
      using Cons.prems(1) True by (metis same_slot_sym same_slot_trans slots_distinct.simps(2))
    then show ?thesis using True by (simp add: filter_id_conv)
  qed (use Cons in auto)
qed simp

lemma ob_enqueue_buffer:
  "ob_buffer (ob_enqueue b m) =
     lastn (ob_max b) ((if coalescable m then remove_first (\<lambda>x. same_slot x m) (ob_buffer b) else ob_buffer b) @ [m])"
  by (auto simp: ob_enqueue_def lastn_def Let_def)

text \<open>Dropping the oldest and then coalescing is the same as coalescing and then dropping.\<close>

lemma lastn_remove_first_snoc:
  assumes once: "length (filter P xs) \<le> 1"
  shows "lastn n (remove_first P (lastn n xs) @ [m]) = lastn n (remove_first P xs @ [m])"
proof (cases "length xs \<le> n")
  case True
  then show ?thesis by (simp add: lastn_all)
next
  case False
  define us vs where "us = take (length xs - n) xs" and "vs = lastn n xs"
  have xs: "xs = us @ vs" by (simp add: us_def vs_def lastn_def)
  have len: "length vs = n" using False by (simp add: vs_def)
  show ?thesis
  proof (cases "\<exists>x\<in>set us. P x")
    case True
    then have "filter P us \<noteq> []" by (simp add: filter_empty_conv)
    with once have "filter P vs = []" by (cases "filter P us") (auto simp: xs)
    then have "remove_first P vs = vs" by (intro remove_first_none) (auto simp: filter_empty_conv)
    then show ?thesis
      using True len by (simp add: xs remove_first_append lastn_append lastn_all)
  next
    case False
    then have rem: "remove_first P xs = us @ remove_first P vs"
      by (simp add: xs remove_first_append)
    have "n \<le> length (remove_first P vs @ [m])"
      using len by (cases n) (auto simp: length_remove_first)
    from lastn_append_small[OF this, of us] show ?thesis
      unfolding vs_def[symmetric] rem by simp
  qed
qed

lemma slots_distinct_once:
  "slots_distinct ms \<Longrightarrow> coalescable m \<Longrightarrow> length (filter (\<lambda>x. same_slot x m) ms) \<le> 1"
proof (induction ms)
  case (Cons a ms)
  show ?case
  proof (cases "same_slot a m")
    case True
    then have "coalescable a" using Cons.prems(2) coalescable_same_slot by blast
    then have "\<forall>x\<in>set ms. \<not> same_slot x m"
      using Cons.prems(1) True by (metis same_slot_sym same_slot_trans slots_distinct.simps(2))
    then show ?thesis using True by (simp add: filter_False)
  qed (use Cons in auto)
qed simp

lemma lastn_lastn_le: "k \<le> n \<Longrightarrow> lastn k (lastn n xs) = lastn k xs"
  by (cases "length xs \<le> n") (auto simp: lastn_def)

lemma lastn_lastn: "lastn n (lastn n xs @ [m]) = lastn n (xs @ [m])"
  by (simp add: lastn_append lastn_lastn_le)

lemma ob_max_enqueue [simp]: "ob_max (ob_enqueue b m) = ob_max b"
  by (simp add: ob_enqueue_def Let_def)

lemma enqueue_run_coalesced:
  "ob_buffer (foldl ob_enqueue (new_outbox n) ms) = lastn n (coalesced ms)
   \<and> ob_max (foldl ob_enqueue (new_outbox n) ms) = n"
proof (induction ms rule: rev_induct)
  case Nil
  show ?case by (simp add: new_outbox_def lastn_def)
next
  case (snoc m ms)
  let ?b = "foldl ob_enqueue (new_outbox n) ms"
  have max: "ob_max (foldl ob_enqueue (new_outbox n) (ms @ [m])) = n"
    using snoc by simp
  show ?case
  proof (cases "coalescable m")
    case True
    note once = slots_distinct_once[OF slots_distinct_coalesced True, of ms]
    have "ob_buffer (ob_enqueue ?b m) = lastn n (remove_first (\<lambda>x. same_slot x m) (lastn n (coalesced ms)) @ [m])"
      using snoc True by (simp add: ob_enqueue_buffer)
    also have "\<dots> = lastn n (coalesced (ms @ [m]))"
      by (simp add: lastn_remove_first_snoc[OF once] coalesced_snoc_filter[OF True]
          filter_slot_remove_first[OF slots_distinct_coalesced True])
    finally show ?thesis using max by simp
  next
    case False
    then show ?thesis
      using snoc max by (simp add: ob_enqueue_buffer lastn_lastn coalesced_snoc_plain)
  qed
qed

section \<open>The flush\<close>

text \<open>What a message contributes to the transport, before any failure.\<close>

definition projected_of :: "('m \<Rightarrow> ('e, 'u) projection) \<Rightarrow> 'm list \<Rightarrow> 'u list" where
  "projected_of project ms =
     concat (map (\<lambda>m. case project m of Projected u \<Rightarrow> [u] | _ \<Rightarrow> []) ms)"

fun send_all :: "('w \<Rightarrow> 'u \<Rightarrow> 'e option \<times> 'w) \<Rightarrow> 'w \<Rightarrow> 'u list \<Rightarrow> 'w option" where
  "send_all send w [] = Some w"
| "send_all send w (u # us) = (case send w u of (None, w') \<Rightarrow> send_all send w' us | (Some e, w') \<Rightarrow> None)"

lemma projected_of_simps [simp]:
  "projected_of project [] = []"
  "projected_of project (m # ms) =
     (case project m of Projected u \<Rightarrow> [u] | _ \<Rightarrow> []) @ projected_of project ms"
  by (simp_all add: projected_of_def)

text \<open>
  The loop stops exactly at the first failing send: what precedes it was sent in order, and the rest,
  starting with the message that failed, is returned untouched.
\<close>

lemma flush_loop_split:
  "flush_loop project send w ms = (rest, w', rs) \<Longrightarrow>
   \<exists>done w1. ms = done @ rest \<and> send_all send w (projected_of project done) = Some w1 \<and>
     (rest = [] \<longrightarrow> w' = w1) \<and>
     (rest \<noteq> [] \<longrightarrow> (\<exists>u e. project (hd rest) = Projected u \<and> send w1 u = (Some e, w') \<and> SendError e (hd rest) \<in> set rs))"
proof (induction ms arbitrary: w rest w' rs)
  case Nil
  then show ?case by simp
next
  case (Cons m ms)
  show ?case
  proof (cases "project m")
    case (ProjectionThrows e)
    obtain r0 w0 rs0 where fl: "flush_loop project send w ms = (r0, w0, rs0)" by (metis prod_cases3)
    with Cons.prems ProjectionThrows have eqs: "rest = r0" "w' = w0" "rs = ProjectionError e m # rs0" by auto
    from Cons.IH[OF fl] obtain dn w1 where
      d: "ms = dn @ r0" "send_all send w (projected_of project dn) = Some w1"
         "r0 = [] \<longrightarrow> w0 = w1"
         "r0 \<noteq> [] \<longrightarrow> (\<exists>u e. project (hd r0) = Projected u \<and> send w1 u = (Some e, w0) \<and> SendError e (hd r0) \<in> set rs0)"
      by blast
    then show ?thesis
      by (intro exI[of _ "m # dn"] exI[of _ w1]) (auto simp: eqs ProjectionThrows)
  next
    case ProjectedNull
    with Cons.prems have fl: "flush_loop project send w ms = (rest, w', rs)" by simp
    from Cons.IH[OF fl] obtain dn w1 where
      d: "ms = dn @ rest" "send_all send w (projected_of project dn) = Some w1"
         "rest = [] \<longrightarrow> w' = w1"
         "rest \<noteq> [] \<longrightarrow> (\<exists>u e. project (hd rest) = Projected u \<and> send w1 u = (Some e, w') \<and> SendError e (hd rest) \<in> set rs)"
      by blast
    then show ?thesis
      by (intro exI[of _ "m # dn"] exI[of _ w1]) (auto simp: ProjectedNull)
  next
    case (Projected u)
    obtain oe w0 where sd: "send w u = (oe, w0)" by force
    show ?thesis
    proof (cases oe)
      case None
      with Cons.prems Projected sd have fl: "flush_loop project send w0 ms = (rest, w', rs)" by simp
      from Cons.IH[OF fl] obtain dn w1 where
        d: "ms = dn @ rest" "send_all send w0 (projected_of project dn) = Some w1"
           "rest = [] \<longrightarrow> w' = w1"
           "rest \<noteq> [] \<longrightarrow> (\<exists>u e. project (hd rest) = Projected u \<and> send w1 u = (Some e, w') \<and> SendError e (hd rest) \<in> set rs)"
        by blast
      then show ?thesis
        by (intro exI[of _ "m # dn"] exI[of _ w1]) (auto simp: Projected sd None)
    next
      case (Some e)
      with Cons.prems Projected sd show ?thesis
        by (intro exI[of _ "[]"] exI[of _ w]) auto
    qed
  qed
qed

lemma flush_restores_within:
  assumes "ob_within b" "flush_outbox b project send w = (b', w', rs)"
  shows "ob_buffer b' = fst (flush_loop project send w (ob_buffer b))" "ob_max b' = ob_max b"
proof -
  obtain rest w1 rs1 where fl: "flush_loop project send w (ob_buffer b) = (rest, w1, rs1)"
    by (metis prod_cases3)
  then obtain dn where "ob_buffer b = dn @ rest" using flush_loop_split[OF fl] by blast
  then have "length rest \<le> ob_max b" using assms(1) by (simp add: ob_within_def)
  with assms(2) fl show "ob_buffer b' = fst (flush_loop project send w (ob_buffer b))" "ob_max b' = ob_max b"
    by (auto simp: flush_outbox_def ob_drain_def ob_restore_front_def Let_def split: if_splits)
qed

section \<open>Properties\<close>

text \<open>
  Whatever sequence of enqueues, restores and drains a fresh outbox goes through, it never holds
  more than its cap of messages, so an outage cannot grow the buffer without bound.
\<close>

theorem outbox_never_exceeds_cap: "ob_size (foldl ob_step (new_outbox n) es) \<le> n"
proof -
  have "ob_within (new_outbox n)" by (simp add: ob_within_def new_outbox_def)
  from ob.run_good[OF this, of es] show ?thesis
    by (simp add: ob_within_def ob_size_def new_outbox_def)
qed

text \<open>
  Enqueuing any sequence of messages implements the coalescing policy: of each session's status
  and queue messages, and of the runner's capacity messages, only the latest stays, in its newest
  position; every other message stays in order; and of what remains the buffer holds the newest
  \<open>n\<close>, the order of drops and replacements making no difference.
\<close>

theorem outbox_implements_coalescing:
  "fst (ob_drain (foldl ob_enqueue (new_outbox n) ms)) = lastn n (coalesced ms)"
  by (simp add: ob_drain_def enqueue_run_coalesced)

text \<open>
  A flush loses nothing and reorders nothing. The buffered messages split into a prefix whose
  projections were all sent, in order and without a failure, and the suffix the outbox holds
  afterwards; that suffix is empty, or starts with exactly the message whose send failed, which was
  reported.
\<close>

theorem outbox_flush_keeps_unsent_suffix:
  assumes "ob_within b" and "flush_outbox b project send w = (b', w', rs)"
  shows "\<exists>done w1. ob_buffer b = done @ ob_buffer b' \<and>
     send_all send w (projected_of project done) = Some w1 \<and>
     (if ob_buffer b' = [] then w' = w1
      else \<exists>u e. project (hd (ob_buffer b')) = Projected u \<and> send w1 u = (Some e, w') \<and>
             SendError e (hd (ob_buffer b')) \<in> set rs)"
proof -
  obtain rest w2 rs2 where fl: "flush_loop project send w (ob_buffer b) = (rest, w2, rs2)"
    by (metis prod_cases3)
  have rest: "ob_buffer b' = rest" using flush_restores_within(1)[OF assms] fl by simp
  have "w2 = w'" "rs2 = rs"
    using assms(2) fl by (auto simp: flush_outbox_def ob_drain_def Let_def)
  with flush_loop_split[OF fl] show ?thesis by (auto simp: rest)
qed

text \<open>A transport that accepts one frame and then breaks.\<close>

theorem outbox_flush_keeps_unsent_suffix_witness:
  "let b = \<lparr>ob_buffer = [1, 2, 3::nat], ob_max = 5\<rparr>;
       send = (\<lambda>(k::nat) (u::nat). if k = 0 then (Some ''EPIPE'', 0) else (None, k - 1));
       project = (\<lambda>m. if m = 1 then ProjectedNull else Projected m)
   in ob_within b \<and> flush_outbox b project send 1 = (\<lparr>ob_buffer = [3], ob_max = 5\<rparr>, 0, [SendError ''EPIPE'' 3])
      \<and> (\<exists>done. [1, 2, 3] = done @ [3] \<and> send_all send 1 (projected_of project done) = Some 0)"
proof -
  define b where "b = \<lparr>ob_buffer = [1, 2, 3::nat], ob_max = 5\<rparr>"
  define send where "send = (\<lambda>(k::nat) (u::nat). if k = 0 then (Some ''EPIPE'', 0::nat) else (None, k - 1))"
  define project where
    "project = (\<lambda>m::nat. if m = 1 then (ProjectedNull :: (string, nat) projection) else Projected m)"
  have b: "ob_within b" by (simp add: b_def ob_within_def)
  have f: "flush_outbox b project send 1 = (\<lparr>ob_buffer = [3], ob_max = 5\<rparr>, 0, [SendError ''EPIPE'' 3])"
    by (simp add: b_def send_def project_def flush_outbox_def ob_drain_def ob_restore_front_def)
  from outbox_flush_keeps_unsent_suffix[OF b f]
  have "\<exists>done. [1, 2, 3] = done @ [3] \<and> send_all send 1 (projected_of project done) = Some 0"
    by (auto simp: b_def send_def split: if_splits)
  with b f show ?thesis by (simp add: b_def send_def project_def)
qed

end
