(* ===== verification/Text_Coalescer.thy ===== *)
theory Text_Coalescer
  imports Prelude
begin

text \<open>
  Runner-side coalescing of streamed text deltas (\<open>apps/runner/src/text-delta-coalescer.ts\<close>).

  A driver event is either of one of the two streamed-text kinds, with the fields a delta carries and
  the names of any other fields it has, or an event of another kind, which the coalescer only passes
  on. The clock is the time stamp of each call; the timer is the time it is due. The emissions of a
  call are its outputs. An emission that throws ends in \<open>onError\<close> or in the caller and changes
  nothing of the coalescer's state, which is cleared before emitting, so it is not modelled.
\<close>

section \<open>Model\<close>

datatype text_kind = AgentMessage | AgentThought

record text_event =
  te_kind :: text_kind
  te_text :: string
  te_final :: bool
  te_message_id :: "string option"
  te_parent :: "string option"
  te_extra :: "string list"

text \<open>\<open>TextEvent\<close> covers payloads whose \<open>text\<close> is a string; any other is \<open>OtherEvent\<close>.\<close>

datatype 'o payload = TextEvent text_event | OtherEvent 'o

definition TEXT_DELTA_WINDOW_MS :: int where
  "TEXT_DELTA_WINDOW_MS = 75"

definition TEXT_DELTA_MAX_PENDING_CHARS :: nat where
  "TEXT_DELTA_MAX_PENDING_CHARS = 4 * 1024"

fun is_coalescible :: "'o payload \<Rightarrow> bool" where
  "is_coalescible (TextEvent t) \<longleftrightarrow> \<not> te_final t \<and> te_extra t = []"
| "is_coalescible (OtherEvent e) \<longleftrightarrow> False"

definition or_empty :: "string option \<Rightarrow> string" where
  "or_empty s = (case s of None \<Rightarrow> '''' | Some t \<Rightarrow> t)"

definition same_stream :: "text_event \<Rightarrow> text_event \<Rightarrow> bool" where
  "same_stream a b \<longleftrightarrow> te_kind a = te_kind b \<and> or_empty (te_message_id a) = or_empty (te_message_id b) \<and>
     or_empty (te_parent a) = or_empty (te_parent b)"

record coalescer =
  co_window :: int
  co_max :: nat
  co_pending :: "text_event option"
  co_chunks :: "string list"
  co_chars :: nat
  co_last_emit :: "int option"   \<comment> \<open>\<open>None\<close> is minus infinity\<close>
  co_timer :: "int option"
  co_closed :: bool

definition new_coalescer :: "int \<Rightarrow> nat \<Rightarrow> coalescer" where
  "new_coalescer window maxc = \<lparr>co_window = window, co_max = maxc, co_pending = None, co_chunks = [],
     co_chars = 0, co_last_emit = None, co_timer = None, co_closed = False\<rparr>"

text \<open>\<open>flush()\<close> at a time \<open>now\<close>.\<close>

definition co_flush :: "int \<Rightarrow> coalescer \<Rightarrow> coalescer \<times> 'o payload list" where
  "co_flush now c =
     (let c1 = c\<lparr>co_timer := None\<rparr>
      in case co_pending c of
           None \<Rightarrow> (c1, [])
         | Some p \<Rightarrow>
             (c1\<lparr>co_pending := None, co_chunks := [], co_chars := 0, co_last_emit := Some now\<rparr>,
              [TextEvent (p\<lparr>te_text := concat (co_chunks c)\<rparr>)]))"

definition window_open :: "coalescer \<Rightarrow> int \<Rightarrow> bool" where
  "window_open c now \<longleftrightarrow> (case co_last_emit c of None \<Rightarrow> True | Some t \<Rightarrow> now - t \<ge> co_window c)"

text \<open>The check that flushes before a delta is merged.\<close>

definition must_flush :: "text_event \<Rightarrow> coalescer \<Rightarrow> bool" where
  "must_flush t c \<longleftrightarrow> (case co_pending c of None \<Rightarrow> False
     | Some q \<Rightarrow> \<not> same_stream q t \<or> co_chars c + length (te_text t) > co_max c)"

text \<open>The part of \<open>push\<close> after that check.\<close>

definition co_accept :: "int \<Rightarrow> text_event \<Rightarrow> coalescer \<Rightarrow> coalescer \<times> 'o payload list" where
  "co_accept now t c =
     (case co_pending c of
        Some p \<Rightarrow> (c\<lparr>co_chunks := co_chunks c @ [te_text t], co_chars := co_chars c + length (te_text t)\<rparr>, [])
      | None \<Rightarrow>
          if window_open c now then (c\<lparr>co_last_emit := Some now\<rparr>, [TextEvent t])
          else (c\<lparr>co_pending := Some t, co_chunks := [te_text t], co_chars := length (te_text t),
                  co_timer := Some (max now (the (co_last_emit c) + co_window c))\<rparr>, []))"

definition co_push :: "int \<Rightarrow> 'o payload \<Rightarrow> coalescer \<Rightarrow> coalescer \<times> 'o payload list" where
  "co_push now p c =
     (case p of
        OtherEvent e \<Rightarrow> (let (c1, os) = co_flush now c in (c1, os @ [p]))
      | TextEvent t \<Rightarrow>
          if co_closed c \<or> \<not> is_coalescible p then (let (c1, os) = co_flush now c in (c1, os @ [p]))
          else
            let (c1, os) = (if must_flush t c then co_flush now c else (c, []));
                (c2, os') = co_accept now t c1
            in (c2, os @ os'))"

definition co_close :: "int \<Rightarrow> coalescer \<Rightarrow> coalescer \<times> 'o payload list" where
  "co_close now c = co_flush now (c\<lparr>co_closed := True\<rparr>)"

text \<open>The timer's callback clears the timer and flushes; it runs only while a timer is set.\<close>

definition co_timer_fires :: "int \<Rightarrow> coalescer \<Rightarrow> coalescer \<times> 'o payload list" where
  "co_timer_fires now c = (if co_timer c = None then (c, []) else co_flush now (c\<lparr>co_timer := None\<rparr>))"

text \<open>
  The routed callbacks of \<open>coalesceDriverTextDeltas\<close>: \<open>onEvent\<close> pushes; every other callback flushes
  first, then runs, and what it records appears as an emitted marker; the capability query
  \<open>supportsWorkerAttention\<close> runs without a flush and records nothing.
\<close>

datatype 'o co_event =
    Push int "'o payload"
  | TimerFires int
  | Flush int
  | Callback int 'o
  | CapabilityQuery
  | Close int

fun co_step :: "coalescer \<Rightarrow> 'o co_event \<Rightarrow> coalescer \<times> 'o payload list" where
  "co_step c (Push now p) = co_push now p c"
| "co_step c (TimerFires now) = co_timer_fires now c"
| "co_step c (Flush now) = co_flush now c"
| "co_step c (Callback now x) = (let (c1, os) = co_flush now c in (c1, os @ [OtherEvent x]))"
| "co_step c CapabilityQuery = (c, [])"
| "co_step c (Close now) = co_close now c"

lemmas coalescer_defs = co_flush_def co_accept_def co_push_def co_close_def co_timer_fires_def
declare coalescer_defs [step_defs]

section \<open>The well-formed states\<close>

text \<open>
  Text is pending exactly while a timer is set and the chunks are not empty; the counter is their
  length; only plain deltas are pending; and more than one chunk never exceeds the cap.
\<close>

definition co_good :: "coalescer \<Rightarrow> bool" where
  "co_good c \<longleftrightarrow>
     (co_timer c \<noteq> None \<longleftrightarrow> co_pending c \<noteq> None) \<and>
     (co_chunks c \<noteq> [] \<longleftrightarrow> co_pending c \<noteq> None) \<and>
     co_chars c = length (concat (co_chunks c)) \<and>
     (\<forall>p. co_pending c = Some p \<longrightarrow> \<not> te_final p \<and> te_extra p = [] \<and> co_last_emit c \<noteq> None) \<and>
     (length (co_chunks c) > 1 \<longrightarrow> co_chars c \<le> co_max c) \<and>
     (co_closed c \<longrightarrow> co_pending c = None)"

lemma co_good_new [simp]: "co_good (new_coalescer w m)"
  by (simp add: co_good_def new_coalescer_def)

lemma co_flush_good: "co_good c \<Longrightarrow> co_good (fst (co_flush now c))"
  by (cases "co_pending c") (auto simp: co_good_def co_flush_def Let_def)

lemma co_flush_pending [simp]: "co_pending (fst (co_flush now c)) = None"
  by (simp add: co_flush_def Let_def split: option.splits)

lemma co_flush_frame [simp]:
  "co_window (fst (co_flush now c)) = co_window c" "co_max (fst (co_flush now c)) = co_max c"
  "co_closed (fst (co_flush now c)) = co_closed c"
  by (simp_all add: co_flush_def Let_def split: option.splits)

lemma co_accept_good:
  assumes "co_good c" "\<not> co_closed c" "\<not> te_final t" "te_extra t = []"
    "co_pending c \<noteq> None \<Longrightarrow> co_chars c + length (te_text t) \<le> co_max c"
  shows "co_good (fst (co_accept now t c))"
proof (cases "co_pending c")
  case None
  with assms show ?thesis
    by (auto simp: co_good_def co_accept_def window_open_def split: option.splits)
next
  case (Some p)
  with assms show ?thesis by (auto simp: co_good_def co_accept_def)
qed

text \<open>The three ways through \<open>push\<close>.\<close>

lemma co_push_passes:
  "co_closed c \<or> \<not> is_coalescible p \<Longrightarrow>
   co_push now p c = (fst (co_flush now c :: coalescer \<times> 'o payload list), snd (co_flush now c) @ [p :: 'o payload])"
  by (cases p) (auto simp: co_push_def case_prod_beta Let_def)

lemma co_push_flushes:
  "\<not> co_closed c \<Longrightarrow> is_coalescible (TextEvent t) \<Longrightarrow> must_flush t c \<Longrightarrow>
   co_push now (TextEvent t :: 'o payload) c =
     (let f = (co_flush now c :: coalescer \<times> 'o payload list); g = co_accept now t (fst f) in (fst g, snd f @ snd g))"
  by (simp add: co_push_def case_prod_beta Let_def)

lemma co_push_accepts:
  "\<not> co_closed c \<Longrightarrow> is_coalescible (TextEvent t) \<Longrightarrow> \<not> must_flush t c \<Longrightarrow>
   co_push now (TextEvent t) c = co_accept now t c"
  by (simp add: co_push_def case_prod_beta Let_def)

lemma co_push_cases [case_names passes flushes accepts]:
  fixes p :: "'o payload"
  assumes "co_closed c \<or> \<not> is_coalescible p \<Longrightarrow> P"
    and "\<And>t. p = TextEvent t \<Longrightarrow> \<not> co_closed c \<Longrightarrow> \<not> te_final t \<Longrightarrow> te_extra t = [] \<Longrightarrow> must_flush t c \<Longrightarrow> P"
    and "\<And>t. p = TextEvent t \<Longrightarrow> \<not> co_closed c \<Longrightarrow> \<not> te_final t \<Longrightarrow> te_extra t = [] \<Longrightarrow> \<not> must_flush t c \<Longrightarrow> P"
  shows P
  using assms by (cases p) auto

lemma co_push_good: 
  fixes p :: "'o payload"
  assumes c: "co_good c"
  shows "co_good (fst (co_push now p c))"
proof (cases rule: co_push_cases[of c p])
  case passes
  then show ?thesis by (simp add: co_push_passes co_flush_good c)
next
  case (flushes t)
  then show ?thesis
    by (auto simp: co_push_flushes Let_def intro!: co_accept_good co_flush_good c)
next
  case (accepts t)
  then have "co_pending c \<noteq> None \<Longrightarrow> co_chars c + length (te_text t) \<le> co_max c"
    by (auto simp: must_flush_def)
  with accepts c show ?thesis by (auto simp: co_push_accepts intro!: co_accept_good)
qed

lemma co_step_good: "co_good c \<Longrightarrow> co_good (fst (co_step c e))"
proof (cases e)
  case (Push now p)
  assume "co_good c"
  with Push show ?thesis by (simp add: co_push_good)
next
  case (TimerFires now)
  assume "co_good c"
  with TimerFires show ?thesis
    by (cases "co_pending c") (auto simp: co_timer_fires_def co_flush_def co_good_def Let_def)
next
  case (Flush now)
  assume "co_good c"
  with Flush show ?thesis by (simp add: co_flush_good)
next
  case (Callback now x)
  assume "co_good c"
  with Callback show ?thesis using co_flush_good[of c now] by (simp add: case_prod_beta Let_def)
next
  case CapabilityQuery
  assume "co_good c"
  with CapabilityQuery show ?thesis by simp
next
  case (Close now)
  assume "co_good c"
  with Close show ?thesis
    by (cases "co_pending c") (auto simp: co_close_def co_flush_def co_good_def Let_def)
qed

lemma co_push_frame: "co_max (fst (co_push now p c)) = co_max c"
  by (auto simp: co_push_def co_accept_def case_prod_beta Let_def split: payload.splits option.splits)

lemma co_step_frame: "co_max (fst (co_step c e)) = co_max c"
  by (cases e) (auto simp: co_push_frame co_timer_fires_def co_close_def case_prod_beta Let_def)

interpretation co: emitting_machine co_step co_good
  by unfold_locales (rule co_step_good)

section \<open>The stream a reader sees\<close>

text \<open>
  The client folds adjacent deltas of one stream into one bubble. \<open>normal\<close> is that folding: each
  maximal run of adjacent plain deltas of one stream becomes its first delta with the run's text.
\<close>

definition plain :: "text_event \<Rightarrow> bool" where
  "plain t \<longleftrightarrow> \<not> te_final t \<and> te_extra t = []"

fun glue :: "'o payload \<Rightarrow> 'o payload list \<Rightarrow> 'o payload list" where
  "glue (TextEvent t) (TextEvent u # ps) =
     (if plain t \<and> plain u \<and> same_stream t u then TextEvent (t\<lparr>te_text := te_text t @ te_text u\<rparr>) # ps
      else TextEvent t # TextEvent u # ps)"
| "glue p ps = p # ps"

definition normal :: "'o payload list \<Rightarrow> 'o payload list" where
  "normal ps = foldr glue ps []"

lemma normal_simps [simp]: "normal [] = []" "normal (p # ps) = glue p (normal ps)"
  by (simp_all add: normal_def)

lemma normal_append: "normal (xs @ ys) = foldr glue xs (normal ys)"
  by (simp add: normal_def)

lemma same_stream_text [simp]:
  "same_stream (t\<lparr>te_text := x\<rparr>) u = same_stream t u" "same_stream t (u\<lparr>te_text := x\<rparr>) = same_stream t u"
  by (simp_all add: same_stream_def)

lemma plain_text [simp]: "plain (t\<lparr>te_text := x\<rparr>) = plain t"
  by (simp add: plain_def)

lemma same_stream_trans: "same_stream a b \<Longrightarrow> same_stream b c \<longleftrightarrow> same_stream a c"
  by (auto simp: same_stream_def)

lemma glue_merged:
  assumes "plain t" "plain u" "same_stream t u"
  shows "glue (TextEvent t) (glue (TextEvent u) ps) = glue (TextEvent (t\<lparr>te_text := te_text t @ te_text u\<rparr>)) ps"
proof (cases ps)
  case (Cons q qs)
  with assms show ?thesis by (cases q) (auto dest: same_stream_trans)
qed (use assms in simp)

lemma glue_normal_assoc: "foldr glue (glue p ps) qs = glue p (foldr glue ps qs)"
proof (cases "(p, ps)" rule: glue.cases)
  case (1 t u ps')
  then show ?thesis by (simp add: glue_merged)
qed simp_all

lemma normal_normal_append: "normal (normal xs @ ys) = normal (xs @ ys)"
  by (induction xs) (simp_all add: normal_append glue_normal_assoc)

lemma normal_append_normal: "normal (xs @ normal ys) = normal (xs @ ys)"
  using normal_normal_append[of ys "[]"] by (simp add: normal_append)

lemma normal_cong_append:
  "normal a = normal b \<Longrightarrow> normal (xs @ a @ ys) = normal (xs @ b @ ys)"
  by (metis normal_append normal_normal_append)

text \<open>The pending text, as the event a flush would emit.\<close>

definition pend :: "coalescer \<Rightarrow> 'o payload list" where
  "pend c = (case co_pending c of None \<Rightarrow> [] | Some p \<Rightarrow> [TextEvent (p\<lparr>te_text := concat (co_chunks c)\<rparr>)])"

fun co_input :: "'o co_event \<Rightarrow> 'o payload list" where
  "co_input (Push now p) = [p]"
| "co_input (Callback now x) = [OtherEvent x]"
| "co_input (TimerFires now) = []"
| "co_input (Flush now) = []"
| "co_input CapabilityQuery = []"
| "co_input (Close now) = []"

lemma pend_None [simp]: "co_pending c = None \<Longrightarrow> pend c = []"
  by (simp add: pend_def)

lemma pend_update [simp]: "pend (c\<lparr>co_closed := y\<rparr>) = pend c" "pend (c\<lparr>co_timer := x\<rparr>) = pend c"
  by (simp_all add: pend_def split: option.splits)

lemma co_flush_emits: "snd (co_flush now c) = pend c" "pend (fst (co_flush now c)) = []"
  by (simp_all add: co_flush_def pend_def Let_def split: option.splits)

lemma co_flush_emits_update [simp]:
  "snd (co_flush now (c\<lparr>co_timer := x\<rparr>)) = pend c" "snd (co_flush now (c\<lparr>co_closed := y\<rparr>)) = pend c"
  by (simp_all add: co_flush_def pend_def Let_def split: option.splits)

lemma co_accept_emits:
  assumes "co_good c" "plain t" "\<not> must_flush t c"
  shows "normal (snd (co_accept now t c) @ pend (fst (co_accept now t c))) = normal (pend c @ [TextEvent t])"
proof (cases "co_pending c")
  case None
  then show ?thesis by (simp add: co_accept_def pend_def)
next
  case (Some p)
  moreover have "plain p" using Some assms(1) by (simp add: co_good_def plain_def)
  ultimately show ?thesis using assms by (simp add: co_accept_def pend_def must_flush_def)
qed

lemma must_flush_flushed [simp]: "\<not> must_flush t (fst (co_flush now c))"
  by (simp add: must_flush_def)

lemma co_push_emits:
  fixes p :: "'o payload"
  assumes c: "co_good c"
  shows "normal (snd (co_push now p c) @ pend (fst (co_push now p c))) = normal (pend c @ [p])"
proof (cases rule: co_push_cases[of c p])
  case passes
  then show ?thesis by (simp add: co_push_passes co_flush_emits)
next
  case (flushes t)
  define f where "f = (co_flush now c :: coalescer \<times> 'o payload list)"
  define g where "g = (co_accept now t (fst f) :: coalescer \<times> 'o payload list)"
  have f: "snd f = pend c" "pend (fst f) = ([] :: 'o payload list)" "\<not> must_flush t (fst f)" "co_good (fst f)"
    by (simp_all add: f_def co_flush_emits co_flush_good c)
  have "normal (snd g @ pend (fst g)) = normal (pend (fst f) @ [TextEvent t :: 'o payload])"
    unfolding g_def using f flushes by (intro co_accept_emits) (auto simp: plain_def)
  then have "normal (pend c @ (snd g @ pend (fst g)) @ []) = normal (pend c @ [TextEvent t] @ [])"
    by (intro normal_cong_append) (simp add: f)
  moreover have "co_push now p c = (fst g, snd f @ snd g)"
    using flushes by (simp add: co_push_flushes Let_def f_def g_def)
  ultimately show ?thesis using flushes f by simp
next
  case (accepts t)
  with c co_accept_emits[of c t now] show ?thesis by (simp add: co_push_accepts plain_def)
qed

lemma co_step_emits:
  assumes "co_good c"
  shows "normal (snd (co_step c e) @ pend (fst (co_step c e))) = normal (pend c @ co_input e)"
proof (cases e)
  case (TimerFires now)
  then show ?thesis
    using assms by (cases "co_pending c") (auto simp: co_timer_fires_def co_good_def co_flush_def pend_def Let_def)
qed (use assms in \<open>auto simp: co_push_emits co_flush_emits co_close_def case_prod_beta Let_def\<close>)

lemma co_run_emits:
  assumes "co_good c"
  shows "normal (snd (run_out co_step c es) @ pend (fst (run_out co_step c es))) =
    normal (pend c @ concat (map co_input es))"
  using assms
proof (induction es arbitrary: c)
  case Nil
  then show ?case by simp
next
  case (Cons e es)
  obtain c1 os1 where s1: "co_step c e = (c1, os1)" by force
  obtain c2 os2 where s2: "run_out co_step c1 es = (c2, os2)" by force
  have good1: "co_good c1" using co_step_good[OF Cons.prems, of e] s1 by simp
  have h1: "normal (os1 @ pend c1) = normal (pend c @ co_input e)"
    using co_step_emits[OF Cons.prems, of e] s1 by simp
  have h2: "normal (os2 @ pend c2) = normal (pend c1 @ concat (map co_input es))"
    using Cons.IH[OF good1] s2 by simp
  have "normal (os1 @ (os2 @ pend c2) @ []) = normal (os1 @ (pend c1 @ concat (map co_input es)) @ [])"
    by (rule normal_cong_append[OF h2])
  also have "\<dots> = normal ([] @ (os1 @ pend c1) @ concat (map co_input es))" by simp
  also have "\<dots> = normal ([] @ (pend c @ co_input e) @ concat (map co_input es))"
    by (rule normal_cong_append[OF h1])
  finally show ?case by (simp add: s1 s2)
qed

section \<open>Properties\<close>

text \<open>
  C16: Coalescing never changes what a reader sees. For any sequence of driver events, callbacks,
  timer expiries and flushes, at any times, what the coalescer has emitted followed by the text it
  still holds folds to the same stream as the driver's own events: nothing is lost, duplicated or
  reordered, across streams or around other events.
\<close>

theorem coalescing_preserves_stream:
  "normal (snd (run_out co_step (new_coalescer w m) es) @ pend (fst (run_out co_step (new_coalescer w m) es))) =
   normal (concat (map co_input es))"
  using co_run_emits[OF co_good_new, of w m es] by (simp add: pend_def new_coalescer_def)

text \<open>
  No text is left behind. In every reachable state text is pending exactly while a timer that
  will flush it is set, nothing is pending once the coalescer is closed, and a merged event exceeds
  the cap only if a single delta already does.
\<close>

theorem pending_text_always_has_a_timer:
  "let c = fst (run_out co_step (new_coalescer w m) es) in
     (co_pending c \<noteq> None \<longleftrightarrow> co_timer c \<noteq> None) \<and>
     \<not> (co_closed c \<and> co_pending c \<noteq> None) \<and>
     (length (co_chunks c) \<le> 1 \<or> length (concat (co_chunks c)) \<le> m)"
proof -
  let ?c = "fst (run_out co_step (new_coalescer w m :: coalescer) es)"
  have good: "co_good ?c" by (rule co.run_out_good) simp
  have "co_max (fst (run_out co_step c es)) = co_max c" for c
    by (simp only: co.fst_run_out, induction es arbitrary: c)
       (auto simp: co_step_frame)
  then have "co_max ?c = m" by (simp add: new_coalescer_def)
  with good show ?thesis by (auto simp: co_good_def Let_def)
qed

end
