(* ===== verification/Frame_Queue.thy ===== *)
theory Frame_Queue
  imports Prelude
begin

text \<open>
  The control plane's FIFO of stateful runner frames (\<open>apps/control-plane/src/runner-frame-queue.ts\<close>):
  admission against frame and byte limits, receive pressure with hysteresis, preparation of queued
  frames ahead of their turn, runs of frames that share one handler call, and the asynchronous drain
  loop.

  The drain loop is cut at its \<open>await\<close>s: \<open>fq_pc\<close> says what it waits for, and the events that resume
  it are events of the machine, interleaved in any order with \<open>enqueue\<close>, \<open>reserveInventory\<close> and
  \<open>close\<close>. What the queue calls (the handler, preparation, the pressure and failure callbacks) are
  outputs. What preparation returns may differ from call to call, so it also depends on the number of
  calls made before.
\<close>

section \<open>Bypass and session key of a frame\<close>

definition INVENTORY_BYPASS_TYPES :: "string list" where
  "INVENTORY_BYPASS_TYPES = [
    ''heartbeat'', ''agent_control_credential'', ''policy_hook_credential'',
    ''policy_hook_decision_recorded'', ''workflow_action_admission_recorded'', ''workflow_action_reconciliation_result'',
    ''gitlab_merge_preflight_result'', ''github_merge_preflight_result'', ''gitlab_merge_closures_result'',
    ''forge_decision_action_result'', ''merge_closure_watch_result'',
    ''git_result'', ''session_history_result'', ''session_history_page_result'', ''reprocess_session_result'',
    ''list_external_sessions_result'', ''adopt_session_result'', ''list_directory_result'', ''list_session_files_result'',
    ''read_session_file_result'', ''search_workspace_references_result'', ''create_workspace_reference_result'',
    ''shell_open_result'', ''rewind_result'', ''fork_result'', ''session_worktree_result'', ''workspace_worktree_setup_result'',
    ''logout_agent_result'', ''switch_session_provider_account_result'', ''session_location_switch_result'',
    ''inspect_provider_authentication_result'',
    ''select_provider_authentication_account_result'', ''acp_registry_approval_result'', ''host_action_result'',
    ''interrupt_turn_result'', ''stop_background_job_result'', ''release_queue_hold_result'', ''read_queued_prompt_result'',
    ''edit_queued_prompt_result'',
    ''provider_login_result'', ''remove_provider_account_result'', ''remove_workspace_result'',
    ''adopt_provider_profile_result'', ''import_provider_credential_result'',
    ''revoke_provider_profile_grant_result'', ''inspect_provider_home_lease_result'', ''recover_provider_home_lease_result'',
    ''session_worktree_progress'',
    ''campaign_forge_observe_result'']"

definition runner_frame_bypasses_inventory :: "string \<Rightarrow> bool" where
  "runner_frame_bypasses_inventory t \<longleftrightarrow> t \<in> set INVENTORY_BYPASS_TYPES"

text \<open>
  \<open>setRunnerReceivePressure\<close>: the socket's ready state is 1 when open and 2 while closing. The result
  is the call made on the socket, \<open>Some True\<close> for \<open>pause()\<close>, or \<open>None\<close> when the function returns false.
\<close>

definition set_runner_receive_pressure :: "nat \<Rightarrow> bool \<Rightarrow> bool option" where
  "set_runner_receive_pressure ready_state paused =
     (if ready_state \<noteq> 1 \<and> (paused \<or> ready_state \<noteq> 2) then None else Some paused)"

section \<open>Model\<close>

record ('m, 'p) frame =
  fr_message :: 'm
  fr_bytes :: nat
  fr_wide :: bool
  fr_batchable :: bool
  fr_prepared :: "'p option"

text \<open>A classifier or preparation that throws is \<open>None\<close>; \<open>prepare\<close> may also return undefined.\<close>

record ('m, 'p) preparation =
  pr_runner_wide :: "'m \<Rightarrow> bool option"
  pr_prepare :: "nat \<Rightarrow> 'm \<Rightarrow> 'p option option"

record 'm frame_runs =
  ru_batchable :: "'m \<Rightarrow> bool option"
  ru_limit :: nat

record ('m, 'p) fq_config =
  fc_preparation :: "('m, 'p) preparation option"
  fc_runs :: "'m frame_runs option"

datatype ('m, 'p) drain_pc = Idle | Handling "('m, 'p) frame list" | Yielding | AfterDraining

record ('m, 'p) fqueue =
  fq_pending :: "('m, 'p) frame list"
  fq_bytes :: nat
  fq_closed :: bool
  fq_pressured :: bool
  fq_reserve :: nat
  fq_prepared_count :: nat
  fq_handling_wide :: bool
  fq_limit_frames :: nat
  fq_limit_bytes :: nat
  fq_calls :: nat
  fq_pc :: "('m, 'p) drain_pc"

datatype ('m, 'p) fq_output =
    Handle 'm "'p option"
  | HandleRun "'m list"
  | Prepared 'p
  | Discard 'p
  | Pressure bool
  | Failure
  | AfterDrain

definition new_queue :: "nat \<Rightarrow> nat \<Rightarrow> ('m, 'p) fqueue" where
  "new_queue frames bytes = \<lparr>fq_pending = [], fq_bytes = 0, fq_closed = False, fq_pressured = False,
     fq_reserve = 0, fq_prepared_count = 0, fq_handling_wide = False, fq_limit_frames = frames,
     fq_limit_bytes = bytes, fq_calls = 0, fq_pc = Idle\<rparr>"

definition fq_draining :: "('m, 'p) fqueue \<Rightarrow> bool" where
  "fq_draining s \<longleftrightarrow> fq_pc s \<noteq> Idle"

definition MAX_SAFE_INTEGER :: int where
  "MAX_SAFE_INTEGER = 9007199254740991"

definition fq_reserve_inventory :: "int \<Rightarrow> ('m, 'p) fqueue \<Rightarrow> ('m, 'p) fqueue" where
  "fq_reserve_inventory n s =
     (if n < 0 \<or> n > MAX_SAFE_INTEGER then s
      else s\<lparr>fq_reserve := max (fq_reserve s) (nat n),
             fq_limit_frames := max (fq_limit_frames s) (nat n + 4096)\<rparr>)"

definition fq_high_frames :: "('m, 'p) fqueue \<Rightarrow> nat" where
  "fq_high_frames s = fq_reserve s + max 1 (min 1024 ((fq_limit_frames s - fq_reserve s) div 2))"

text \<open>The thresholds \<open>highFrames / 2\<close>, \<open>limits.bytes / 4\<close> and their halves, without fractions.\<close>

definition fq_should_pause :: "('m, 'p) fqueue \<Rightarrow> bool" where
  "fq_should_pause s \<longleftrightarrow> \<not> fq_closed s \<and>
     (if fq_pressured s
      then 2 * length (fq_pending s) > fq_high_frames s \<or> 8 * fq_bytes s > fq_limit_bytes s
      else length (fq_pending s) \<ge> fq_high_frames s \<or> 4 * fq_bytes s \<ge> fq_limit_bytes s)"

definition fq_update_pressure :: "('m, 'p) fqueue \<Rightarrow> ('m, 'p) fqueue \<times> ('m, 'p) fq_output list" where
  "fq_update_pressure s =
     (let paused = fq_should_pause s
      in if paused = fq_pressured s then (s, []) else (s\<lparr>fq_pressured := paused\<rparr>, [Pressure paused]))"

definition fq_close :: "('m, 'p) fqueue \<Rightarrow> ('m, 'p) fqueue \<times> ('m, 'p) fq_output list" where
  "fq_close s =
     (let dropped = take (fq_prepared_count s) (fq_pending s);
          s1 = s\<lparr>fq_closed := True, fq_pending := [], fq_prepared_count := 0, fq_bytes := 0\<rparr>;
          (s2, os) = fq_update_pressure s1
      in (s2, os @ concat (map (\<lambda>f. case fr_prepared f of None \<Rightarrow> [] | Some p \<Rightarrow> [Discard p]) dropped)))"

definition fq_can_prepare :: "('m, 'p) fqueue \<Rightarrow> bool" where
  "fq_can_prepare s \<longleftrightarrow> fq_prepared_count s < length (fq_pending s) \<and>
     \<not> (fq_prepared_count s > 0 \<and> fr_wide (fq_pending s ! (fq_prepared_count s - 1)))"

definition fq_prepare_one ::
  "('m, 'p) preparation \<Rightarrow> ('m, 'p) fqueue \<Rightarrow> ('m, 'p) fqueue \<times> ('m, 'p) fq_output list" where
  "fq_prepare_one pr s =
     (let i = fq_prepared_count s; frame = fq_pending s ! i;
          s1 = s\<lparr>fq_prepared_count := Suc i, fq_calls := Suc (fq_calls s)\<rparr>
      in case pr_prepare pr (fq_calls s) (fr_message frame) of
           Some (Some p) \<Rightarrow> (s1\<lparr>fq_pending := (fq_pending s)[i := frame\<lparr>fr_prepared := Some p\<rparr>]\<rparr>, [Prepared p])
         | _ \<Rightarrow> (s1, []))"

lemma fq_prepare_one_count [simp]:
  "fq_prepared_count (fst (fq_prepare_one pr s)) = Suc (fq_prepared_count s)"
  "length (fq_pending (fst (fq_prepare_one pr s))) = length (fq_pending s)"
  by (auto simp: fq_prepare_one_def Let_def split: option.splits)

function fq_prepare_loop ::
  "('m, 'p) preparation \<Rightarrow> ('m, 'p) fqueue \<Rightarrow> ('m, 'p) fqueue \<times> ('m, 'p) fq_output list" where
  "fq_prepare_loop pr s =
     (if fq_can_prepare s then
        (let os = snd (fq_prepare_one pr s); (s2, os') = fq_prepare_loop pr (fst (fq_prepare_one pr s))
         in (s2, os @ os'))
      else (s, []))"
  by pat_completeness auto
termination
  by (relation "measure (\<lambda>(pr, s). length (fq_pending s) - fq_prepared_count s)")
     (auto simp: fq_can_prepare_def)

declare fq_prepare_loop.simps [simp del]

definition fq_prepare_ahead ::
  "('m, 'p) fq_config \<Rightarrow> ('m, 'p) fqueue \<Rightarrow> ('m, 'p) fqueue \<times> ('m, 'p) fq_output list" where
  "fq_prepare_ahead cfg s =
     (case fc_preparation cfg of
        None \<Rightarrow> (s, [])
      | Some pr \<Rightarrow> if fq_handling_wide s then (s, []) else fq_prepare_loop pr s)"

definition fq_take_next :: "('m, 'p) fqueue \<Rightarrow> ('m, 'p) frame \<times> ('m, 'p) fqueue" where
  "fq_take_next s =
     (let next = hd (fq_pending s)
      in (next, s\<lparr>fq_pending := tl (fq_pending s), fq_prepared_count := fq_prepared_count s - 1,
                  fq_bytes := fq_bytes s - fr_bytes next\<rparr>))"

definition joins_run :: "('m, 'p) frame \<Rightarrow> bool" where
  "joins_run f \<longleftrightarrow> fr_batchable f \<and> fr_prepared f = None"

definition extends_run :: "('m, 'p) fq_config \<Rightarrow> ('m, 'p) frame list \<Rightarrow> ('m, 'p) fqueue \<Rightarrow> bool" where
  "extends_run cfg run s \<longleftrightarrow>
     (case fc_runs cfg of None \<Rightarrow> False | Some r \<Rightarrow> length run < ru_limit r) \<and>
     joins_run (hd run) \<and> fq_pending s \<noteq> [] \<and> joins_run (hd (fq_pending s)) \<and>
     (fc_preparation cfg = None \<or> fq_prepared_count s > 0)"

function fq_take_more ::
  "('m, 'p) fq_config \<Rightarrow> ('m, 'p) frame list \<Rightarrow> ('m, 'p) fqueue \<Rightarrow> ('m, 'p) frame list \<times> ('m, 'p) fqueue" where
  "fq_take_more cfg run s =
     (if extends_run cfg run s
      then fq_take_more cfg (run @ [fst (fq_take_next s)]) (snd (fq_take_next s))
      else (run, s))"
  by pat_completeness auto
termination
  by (relation "measure (\<lambda>(cfg, run, s). length (fq_pending s))")
     (auto simp: extends_run_def fq_take_next_def Let_def)

declare fq_take_more.simps [simp del]

fun handle_output :: "('m, 'p) frame list \<Rightarrow> ('m, 'p) fq_output" where
  "handle_output [f] = Handle (fr_message f) (fr_prepared f)"
| "handle_output fs = HandleRun (map fr_message fs)"

text \<open>
  One pass of the drain loop, from its condition to the next \<open>await\<close>. The loop runs only where the
  queue is open.
\<close>

definition fq_begin_run ::
  "('m, 'p) fq_config \<Rightarrow> ('m, 'p) fqueue \<Rightarrow> ('m, 'p) fqueue \<times> ('m, 'p) fq_output list" where
  "fq_begin_run cfg s =
     (let (f, s1) = fq_take_next s; (run, s2) = fq_take_more cfg [f] s1
      in and_then fq_update_pressure
          (and_then (\<lambda>s. fq_prepare_ahead cfg (s\<lparr>fq_handling_wide := (\<exists>f\<in>set run. fr_wide f)\<rparr>))
            (\<lambda>s. (s\<lparr>fq_pc := Handling run\<rparr>, [handle_output run]))) s2)"

definition fq_loop_head ::
  "('m, 'p) fq_config \<Rightarrow> ('m, 'p) fqueue \<Rightarrow> ('m, 'p) fqueue \<times> ('m, 'p) fq_output list" where
  "fq_loop_head cfg s =
     (if fq_closed s then (s\<lparr>fq_pc := Idle\<rparr>, [])
      else if fq_pending s = [] then (s\<lparr>fq_pc := AfterDraining\<rparr>, [AfterDrain])
      else and_then (fq_prepare_ahead cfg) (fq_begin_run cfg) s)"

text \<open>The \<open>catch\<close> of the drain loop: close, report, and leave the loop.\<close>

definition fq_drain_fails :: "('m, 'p) fqueue \<Rightarrow> ('m, 'p) fqueue \<times> ('m, 'p) fq_output list" where
  "fq_drain_fails s = and_then fq_close (\<lambda>s. (s\<lparr>fq_pc := Idle\<rparr>, [Failure])) s"

definition classify :: "('m \<Rightarrow> bool option) option \<Rightarrow> bool \<Rightarrow> 'm \<Rightarrow> bool" where
  "classify c dflt m = (case c of None \<Rightarrow> dflt | Some f \<Rightarrow> (case f m of None \<Rightarrow> dflt | Some b \<Rightarrow> b))"

definition fq_overflows :: "nat \<Rightarrow> ('m, 'p) fqueue \<Rightarrow> bool" where
  "fq_overflows bytes s \<longleftrightarrow>
     length (fq_pending s) \<ge> fq_limit_frames s \<or> fq_bytes s + bytes > fq_limit_bytes s"

definition fq_push :: "('m, 'p) fq_config \<Rightarrow> 'm \<Rightarrow> nat \<Rightarrow> ('m, 'p) fqueue \<Rightarrow> ('m, 'p) fqueue" where
  "fq_push cfg m bytes s =
     s\<lparr>fq_pending := fq_pending s @
         [\<lparr>fr_message = m, fr_bytes = bytes,
           fr_wide = classify (map_option pr_runner_wide (fc_preparation cfg)) True m,
           fr_batchable = classify (map_option ru_batchable (fc_runs cfg)) False m,
           fr_prepared = None\<rparr>],
       fq_bytes := fq_bytes s + bytes\<rparr>"

definition fq_enqueue ::
  "('m, 'p) fq_config \<Rightarrow> 'm \<Rightarrow> nat \<Rightarrow> ('m, 'p) fqueue \<Rightarrow> ('m, 'p) fqueue \<times> ('m, 'p) fq_output list" where
  "fq_enqueue cfg m bytes s =
     (if fq_closed s then (s, [])
      else if fq_overflows bytes s then and_then fq_close (\<lambda>s. (s, [Failure])) s
      else and_then fq_update_pressure
            (and_then (fq_prepare_ahead cfg)
              (\<lambda>s. if fq_draining s then (s, []) else fq_loop_head cfg s)) (fq_push cfg m bytes s))"

datatype 'm fq_event =
    Enqueue 'm nat
  | ReserveInventory int
  | Close
  | HandlerDone
  | HandlerFailed
  | YieldDone
  | AfterDrainDone
  | AfterDrainFailed

text \<open>An event the drain loop is not waiting for does not happen, and changes nothing.\<close>

fun fq_step ::
  "('m, 'p) fq_config \<Rightarrow> ('m, 'p) fqueue \<Rightarrow> 'm fq_event \<Rightarrow> ('m, 'p) fqueue \<times> ('m, 'p) fq_output list" where
  "fq_step cfg s (Enqueue m bytes) = fq_enqueue cfg m bytes s"
| "fq_step cfg s (ReserveInventory n) = (fq_reserve_inventory n s, [])"
| "fq_step cfg s Close = fq_close s"
| "fq_step cfg s HandlerDone =
     (case fq_pc s of
        Handling run \<Rightarrow>
          and_then (\<lambda>s. fq_prepare_ahead cfg (s\<lparr>fq_handling_wide := False\<rparr>)) (\<lambda>s. (s\<lparr>fq_pc := Yielding\<rparr>, [])) s
      | _ \<Rightarrow> (s, []))"
| "fq_step cfg s HandlerFailed =
     (case fq_pc s of Handling run \<Rightarrow> fq_drain_fails (s\<lparr>fq_handling_wide := False\<rparr>) | _ \<Rightarrow> (s, []))"
| "fq_step cfg s YieldDone = (case fq_pc s of Yielding \<Rightarrow> fq_loop_head cfg s | _ \<Rightarrow> (s, []))"
| "fq_step cfg s AfterDrainDone =
     (case fq_pc s of
        AfterDraining \<Rightarrow> if fq_pending s = [] then (s\<lparr>fq_pc := Idle\<rparr>, []) else fq_loop_head cfg s
      | _ \<Rightarrow> (s, []))"
| "fq_step cfg s AfterDrainFailed = (case fq_pc s of AfterDraining \<Rightarrow> fq_drain_fails s | _ \<Rightarrow> (s, []))"

section \<open>The invariant\<close>

text \<open>Prepared values sit in the prepared prefix only, and no runner-wide frame is inside it.\<close>

definition prefix_ok :: "('m, 'p) fqueue \<Rightarrow> bool" where
  "prefix_ok s \<longleftrightarrow> fq_prepared_count s \<le> length (fq_pending s) \<and>
     (\<forall>f\<in>set (drop (fq_prepared_count s) (fq_pending s)). fr_prepared f = None) \<and>
     (\<forall>f\<in>set (take (fq_prepared_count s - 1) (fq_pending s)). \<not> fr_wide f)"

definition queue_bytes :: "('m, 'p) fqueue \<Rightarrow> nat" where
  "queue_bytes s = sum_list (map fr_bytes (fq_pending s))"

text \<open>The part of the invariant every operation keeps, whatever the drain loop is doing.\<close>

definition fq_core :: "('m, 'p) fqueue \<Rightarrow> bool" where
  "fq_core s \<longleftrightarrow> prefix_ok s \<and> fq_bytes s = queue_bytes s \<and>
     length (fq_pending s) \<le> fq_limit_frames s \<and> fq_bytes s \<le> fq_limit_bytes s \<and> 0 < fq_limit_bytes s \<and>
     (fq_closed s \<longrightarrow> fq_pending s = []) \<and>
     (fq_handling_wide s \<longrightarrow> fq_prepared_count s = 0)"

lemma fq_should_pause_nonempty:
  "fq_core s \<Longrightarrow> fq_should_pause s \<Longrightarrow> fq_pending s \<noteq> []"
  by (auto simp: fq_should_pause_def fq_core_def queue_bytes_def fq_high_frames_def split: if_splits)

text \<open>Fields an operation leaves alone.\<close>

lemma fq_update_pressure_frame [simp]:
  "fq_pending (fst (fq_update_pressure s)) = fq_pending s"
  "fq_bytes (fst (fq_update_pressure s)) = fq_bytes s"
  "fq_closed (fst (fq_update_pressure s)) = fq_closed s"
  "fq_prepared_count (fst (fq_update_pressure s)) = fq_prepared_count s"
  "fq_handling_wide (fst (fq_update_pressure s)) = fq_handling_wide s"
  "fq_limit_frames (fst (fq_update_pressure s)) = fq_limit_frames s"
  "fq_limit_bytes (fst (fq_update_pressure s)) = fq_limit_bytes s"
  "fq_pc (fst (fq_update_pressure s)) = fq_pc s"
  "fq_reserve (fst (fq_update_pressure s)) = fq_reserve s"
  by (auto simp: fq_update_pressure_def Let_def)

lemma fq_update_pressure_pressured [simp]:
  "fq_pressured (fst (fq_update_pressure s)) = fq_should_pause s"
  by (auto simp: fq_update_pressure_def Let_def)

lemma fq_update_pressure_core [simp]: "fq_core (fst (fq_update_pressure s)) = fq_core s"
  by (simp add: fq_core_def prefix_ok_def queue_bytes_def)

lemma fq_prepare_one_frame [simp]:
  "fq_bytes (fst (fq_prepare_one pr s)) = fq_bytes s"
  "fq_closed (fst (fq_prepare_one pr s)) = fq_closed s"
  "fq_handling_wide (fst (fq_prepare_one pr s)) = fq_handling_wide s"
  "fq_limit_frames (fst (fq_prepare_one pr s)) = fq_limit_frames s"
  "fq_limit_bytes (fst (fq_prepare_one pr s)) = fq_limit_bytes s"
  "fq_pc (fst (fq_prepare_one pr s)) = fq_pc s"
  "fq_pressured (fst (fq_prepare_one pr s)) = fq_pressured s"
  "fq_reserve (fst (fq_prepare_one pr s)) = fq_reserve s"
  by (auto simp: fq_prepare_one_def Let_def split: option.splits)

lemma fq_prepare_one_maps [simp]:
  "map fr_message (fq_pending (fst (fq_prepare_one pr s))) = map fr_message (fq_pending s)"
  "map fr_bytes (fq_pending (fst (fq_prepare_one pr s))) = map fr_bytes (fq_pending s)"
  "map fr_wide (fq_pending (fst (fq_prepare_one pr s))) = map fr_wide (fq_pending s)"
  by (auto simp: fq_prepare_one_def Let_def map_list_update_same split: option.splits)

lemma list_all_take_map: "(\<forall>x\<in>set (take n xs). \<not> g x) \<longleftrightarrow> True \<notin> set (take n (map g xs))"
  by (auto simp: take_map)

lemma fq_prepare_one_core:
  assumes "fq_core s" "fq_can_prepare s" "\<not> fq_handling_wide s"
  shows "fq_core (fst (fq_prepare_one pr s))"
proof -
  let ?i = "fq_prepared_count s" and ?q = "fst (fq_prepare_one pr s)"
  have i: "?i < length (fq_pending s)" using assms(2) by (simp add: fq_can_prepare_def)
  have "drop (Suc ?i) (fq_pending ?q) = drop (Suc ?i) (fq_pending s)"
    by (auto simp: fq_prepare_one_def Let_def split: option.splits)
  moreover have "set (drop (Suc ?i) (fq_pending s)) \<subseteq> set (drop ?i (fq_pending s))"
    by (rule set_drop_subset_set_drop) simp
  moreover have "\<forall>f\<in>set (take ?i (fq_pending ?q)). \<not> fr_wide f"
  proof (cases ?i)
    case (Suc j)
    then have "take ?i (fq_pending s) = take j (fq_pending s) @ [fq_pending s ! j]"
      using i by (simp add: take_Suc_conv_app_nth)
    then show ?thesis
      using Suc assms(1,2) unfolding list_all_take_map fq_prepare_one_maps
      by (auto simp: take_map fq_core_def prefix_ok_def fq_can_prepare_def)
  qed simp
  ultimately have "prefix_ok ?q"
    using assms(1) i unfolding prefix_ok_def fq_core_def by auto
  moreover have "fq_pending s \<noteq> []" using i by auto
  ultimately show ?thesis
    using assms(1,3) by (auto simp: fq_core_def queue_bytes_def)
qed

lemma fq_prepare_loop_unfold:
  "fq_prepare_loop pr s =
     (if fq_can_prepare s then and_then (fq_prepare_one pr) (fq_prepare_loop pr) s else (s, []))"
  by (subst fq_prepare_loop.simps) (simp add: and_then_def case_prod_beta Let_def)

text \<open>What one preparation keeps and the loop, by induction, keeps too.\<close>

lemma fq_prepare_loop_rule:
  assumes "\<And>s. I s \<Longrightarrow> fq_can_prepare s \<Longrightarrow> I (fst (fq_prepare_one pr s))" and "I s"
  shows "I (fst (fq_prepare_loop pr s))"
  using assms
proof (induction pr s rule: fq_prepare_loop.induct)
  case (1 pr s)
  then show ?case
    by (cases "fq_can_prepare s") (simp_all add: fq_prepare_loop_unfold[of pr s])
qed

lemma fq_prepare_ahead_rule:
  assumes "\<And>pr s. I s \<Longrightarrow> fq_can_prepare s \<Longrightarrow> \<not> fq_handling_wide s \<Longrightarrow> I (fst (fq_prepare_one pr s))" and "I s"
  shows "I (fst (fq_prepare_ahead cfg s))"
proof (cases "fq_handling_wide s")
  case False
  have "(\<lambda>s. I s \<and> \<not> fq_handling_wide s) (fst (fq_prepare_loop pr s))" for pr
    by (rule fq_prepare_loop_rule) (use assms False in auto)
  then show ?thesis using assms(2) by (simp add: fq_prepare_ahead_def split: option.splits)
qed (use assms(2) in \<open>simp add: fq_prepare_ahead_def split: option.splits\<close>)

lemma fq_prepare_ahead_core: "fq_core s \<Longrightarrow> fq_core (fst (fq_prepare_ahead cfg s))"
  by (rule fq_prepare_ahead_rule) (auto intro: fq_prepare_one_core)

lemma fq_prepare_ahead_frame [simp]:
  "fq_closed (fst (fq_prepare_ahead cfg s)) = fq_closed s"
  "fq_handling_wide (fst (fq_prepare_ahead cfg s)) = fq_handling_wide s"
  "fq_limit_frames (fst (fq_prepare_ahead cfg s)) = fq_limit_frames s"
  "fq_limit_bytes (fst (fq_prepare_ahead cfg s)) = fq_limit_bytes s"
  "fq_pc (fst (fq_prepare_ahead cfg s)) = fq_pc s"
  "fq_pressured (fst (fq_prepare_ahead cfg s)) = fq_pressured s"
  "fq_reserve (fst (fq_prepare_ahead cfg s)) = fq_reserve s"
  "length (fq_pending (fst (fq_prepare_ahead cfg s))) = length (fq_pending s)"
  "map fr_message (fq_pending (fst (fq_prepare_ahead cfg s))) = map fr_message (fq_pending s)"
  by (rule fq_prepare_ahead_rule, simp, simp)+

lemma fq_prepare_ahead_Nil [simp]: "fq_pending (fst (fq_prepare_ahead cfg s)) = [] \<longleftrightarrow> fq_pending s = []"
  using fq_prepare_ahead_frame(8)[of cfg s] by (metis length_0_conv)

text \<open>Taking frames off the front.\<close>

lemma fq_take_next_frame [simp]:
  "fq_closed (snd (fq_take_next s)) = fq_closed s"
  "fq_handling_wide (snd (fq_take_next s)) = fq_handling_wide s"
  "fq_limit_frames (snd (fq_take_next s)) = fq_limit_frames s"
  "fq_limit_bytes (snd (fq_take_next s)) = fq_limit_bytes s"
  "fq_pc (snd (fq_take_next s)) = fq_pc s"
  "fq_pressured (snd (fq_take_next s)) = fq_pressured s"
  "fq_pending (snd (fq_take_next s)) = tl (fq_pending s)"
  "fst (fq_take_next s) = hd (fq_pending s)"
  "fq_prepared_count (snd (fq_take_next s)) = fq_prepared_count s - 1"
  by (simp_all add: fq_take_next_def Let_def)

lemma fq_take_next_core:
  assumes "fq_core s" "fq_pending s \<noteq> []"
  shows "fq_core (snd (fq_take_next s))"
proof -
  obtain f fs where fs: "fq_pending s = f # fs" using assms(2) by (cases "fq_pending s") auto
  from assms(1) fs show ?thesis
    by (cases "fq_prepared_count s"; cases "fq_prepared_count s - 1")
       (auto simp: fq_core_def prefix_ok_def queue_bytes_def fq_take_next_def Let_def)
qed

text \<open>
  Once the frame just taken is runner-wide, nothing behind it is prepared: the prepared prefix
  stopped at it.
\<close>

lemma fq_take_next_wide:
  assumes "fq_core s" "fq_pending s \<noteq> []" "fr_wide (hd (fq_pending s))"
  shows "fq_prepared_count (snd (fq_take_next s)) = 0"
proof -
  obtain f fs where fs: "fq_pending s = f # fs" using assms(2) by (cases "fq_pending s") auto
  with assms(1,3) show ?thesis
    by (cases "fq_prepared_count s - 1") (auto simp: fq_core_def prefix_ok_def)
qed

text \<open>Without preparation nothing is ever marked prepared.\<close>

definition fq_mid :: "('m, 'p) fq_config \<Rightarrow> ('m, 'p) fqueue \<Rightarrow> bool" where
  "fq_mid cfg s \<longleftrightarrow> fq_core s \<and> (fc_preparation cfg = None \<longrightarrow> fq_prepared_count s = 0)"

lemma fq_prepare_ahead_mid: "fq_mid cfg s \<Longrightarrow> fq_mid cfg (fst (fq_prepare_ahead cfg s))"
  using fq_prepare_ahead_core[of s cfg] by (auto simp: fq_mid_def fq_prepare_ahead_def)

lemma fq_update_pressure_mid [simp]: "fq_mid cfg (fst (fq_update_pressure s)) = fq_mid cfg s"
  by (simp add: fq_mid_def)

lemma fq_mid_pc [simp]: "fq_mid cfg (s\<lparr>fq_pc := x\<rparr>) = fq_mid cfg s"
  by (simp add: fq_mid_def fq_core_def prefix_ok_def queue_bytes_def)

definition run_ok :: "('m, 'p) fq_config \<Rightarrow> ('m, 'p) frame list \<Rightarrow> bool" where
  "run_ok cfg run \<longleftrightarrow> run \<noteq> [] \<and>
     (length run > 1 \<longrightarrow> (\<forall>f\<in>set run. joins_run f) \<and>
        (case fc_runs cfg of None \<Rightarrow> False | Some r \<Rightarrow> length run \<le> ru_limit r))"

lemma fq_take_more_spec:
  assumes "fq_mid cfg s" "run_ok cfg run" "(\<exists>f\<in>set run. fr_wide f) \<Longrightarrow> fq_prepared_count s = 0"
    and "fq_take_more cfg run s = (run', s')"
  shows "fq_mid cfg s' \<and> run_ok cfg run' \<and> ((\<exists>f\<in>set run'. fr_wide f) \<longrightarrow> fq_prepared_count s' = 0) \<and>
    run' @ fq_pending s' = run @ fq_pending s \<and> fq_pc s' = fq_pc s \<and> fq_closed s' = fq_closed s \<and>
    fq_handling_wide s' = fq_handling_wide s"
  using assms
proof (induction cfg run s rule: fq_take_more.induct)
  case (1 cfg run s)
  show ?case
  proof (cases "extends_run cfg run s")
    case False
    with "1.prems" show ?thesis by (simp add: fq_take_more.simps[of cfg run s])
  next
    case True
    let ?f = "hd (fq_pending s)" and ?s = "snd (fq_take_next s)"
    have ne: "fq_pending s \<noteq> []" using True by (simp add: extends_run_def)
    have mid: "fq_mid cfg ?s"
      using "1.prems"(1) ne by (auto simp: fq_mid_def fq_take_next_core)
    have ok: "run_ok cfg (run @ [?f])"
    proof -
      have "\<forall>f\<in>set run. joins_run f"
        using "1.prems"(2) True by (cases run) (auto simp: run_ok_def extends_run_def split: if_splits)
      with True "1.prems"(2) show ?thesis
        by (auto simp: run_ok_def extends_run_def split: option.splits)
    qed
    have old: "(\<exists>f\<in>set run. fr_wide f) \<longrightarrow> fq_prepared_count s = 0" using "1.prems"(3) by blast
    have wide: "fq_prepared_count ?s = 0" if "\<exists>f\<in>set (run @ [?f]). fr_wide f"
      using that True "1.prems"(1) old fq_take_next_wide[of s] ne
      by (auto simp: fq_mid_def extends_run_def)
    have "fq_take_more cfg (run @ [?f]) ?s = (run', s')"
      using "1.prems"(4) True by (simp add: fq_take_more.simps[of cfg run s])
    then show ?thesis
      using "1.IH"[OF True] mid ok wide ne by simp
  qed
qed

text \<open>The run one pass takes off the front, and the state it leaves.\<close>

lemma fq_take_run:
  assumes "fq_mid cfg s" "fq_pending s \<noteq> []"
  obtains run s2 where "fq_take_more cfg [fst (fq_take_next s)] (snd (fq_take_next s)) = (run, s2)"
    "fq_mid cfg s2" "run_ok cfg run" "(\<exists>f\<in>set run. fr_wide f) \<longrightarrow> fq_prepared_count s2 = 0"
    "fq_pending s = run @ fq_pending s2" "fq_closed s2 = fq_closed s"
proof -
  let ?f = "hd (fq_pending s)" and ?s1 = "snd (fq_take_next s)"
  obtain run s2 where tm: "fq_take_more cfg [?f] ?s1 = (run, s2)" by force
  have "fq_mid cfg ?s1" using assms by (auto simp: fq_mid_def fq_take_next_core)
  moreover have "fq_prepared_count ?s1 = 0" if "\<exists>f\<in>set [?f]. fr_wide f"
    using that assms fq_take_next_wide[of s] by (simp add: fq_mid_def)
  ultimately have "fq_mid cfg s2 \<and> run_ok cfg run \<and> ((\<exists>f\<in>set run. fr_wide f) \<longrightarrow> fq_prepared_count s2 = 0) \<and>
      run @ fq_pending s2 = [?f] @ fq_pending ?s1 \<and> fq_closed s2 = fq_closed s"
    using fq_take_more_spec[OF _ _ _ tm] by (auto simp: run_ok_def)
  moreover have "[?f] @ fq_pending ?s1 = fq_pending s" using assms(2) by simp
  ultimately show ?thesis using tm by (intro that[of run s2]) auto
qed

definition fq_good :: "('m, 'p) fq_config \<Rightarrow> ('m, 'p) fqueue \<Rightarrow> bool" where
  "fq_good cfg s \<longleftrightarrow> fq_mid cfg s \<and>
     (fq_pressured s \<longrightarrow> fq_pending s \<noteq> []) \<and>
     (case fq_pc s of
        Idle \<Rightarrow> fq_pending s = [] \<and> \<not> fq_handling_wide s
      | Handling run \<Rightarrow> run_ok cfg run \<and> (fq_handling_wide s \<longrightarrow> (\<exists>f\<in>set run. fr_wide f))
      | _ \<Rightarrow> \<not> fq_handling_wide s)"

lemma fq_good_midD: "fq_good cfg s \<Longrightarrow> fq_mid cfg s"
  by (simp add: fq_good_def)

lemma fq_mid_handling:
  "fq_mid cfg s \<Longrightarrow> (w \<Longrightarrow> fq_prepared_count s = 0) \<Longrightarrow> fq_mid cfg (s\<lparr>fq_handling_wide := w\<rparr>)"
  by (simp add: fq_mid_def fq_core_def prefix_ok_def queue_bytes_def)

lemma fq_begin_run_good:
  assumes "fq_mid cfg s" "fq_pending s \<noteq> []"
  shows "fq_good cfg (fst (fq_begin_run cfg s))"
proof -
  obtain run s2 where tm: "fq_take_more cfg [fst (fq_take_next s)] (snd (fq_take_next s)) = (run, s2)"
    and s2: "fq_mid cfg s2" "run_ok cfg run" "(\<exists>f\<in>set run. fr_wide f) \<longrightarrow> fq_prepared_count s2 = 0"
    by (rule fq_take_run[OF assms]) blast
  define s3 where "s3 = fst (fq_update_pressure s2)\<lparr>fq_handling_wide := (\<exists>f\<in>set run. fr_wide f)\<rparr>"
  have s3: "fq_mid cfg s3" unfolding s3_def using s2 by (intro fq_mid_handling) auto
  have "fq_should_pause s2 \<Longrightarrow> fq_pending s2 \<noteq> []"
    using s2(1) by (auto simp: fq_mid_def dest: fq_should_pause_nonempty)
  then have "fq_pressured s3 \<Longrightarrow> fq_pending s3 \<noteq> []" by (simp add: s3_def)
  moreover have "fst (fq_begin_run cfg s) = fst (fq_prepare_ahead cfg s3)\<lparr>fq_pc := Handling run\<rparr>"
    using tm by (simp add: fq_begin_run_def case_prod_beta Let_def s3_def)
  ultimately show ?thesis
    using s2 fq_prepare_ahead_mid[OF s3] by (auto simp: fq_good_def s3_def)
qed

lemma fq_loop_head_good:
  assumes "fq_mid cfg s" "\<not> fq_handling_wide s" "fq_pressured s \<longrightarrow> fq_pending s \<noteq> []"
  shows "fq_good cfg (fst (fq_loop_head cfg s))"
proof (cases "fq_closed s \<or> fq_pending s = []")
  case True
  then have "fq_pending s = []" using assms(1) by (auto simp: fq_mid_def fq_core_def)
  with True assms show ?thesis by (auto simp: fq_loop_head_def fq_good_def)
next
  case False
  then have "fst (fq_loop_head cfg s) = fst (fq_begin_run cfg (fst (fq_prepare_ahead cfg s)))"
    by (simp add: fq_loop_head_def)
  with False fq_prepare_ahead_mid[OF assms(1)] show ?thesis
    by (simp add: fq_begin_run_good)
qed

lemma fq_close_state [simp]:
  "fq_pending (fst (fq_close s)) = []" "fq_closed (fst (fq_close s))" "fq_bytes (fst (fq_close s)) = 0"
  "fq_prepared_count (fst (fq_close s)) = 0" "fq_pc (fst (fq_close s)) = fq_pc s"
  "fq_handling_wide (fst (fq_close s)) = fq_handling_wide s" "\<not> fq_pressured (fst (fq_close s))"
  "fq_limit_frames (fst (fq_close s)) = fq_limit_frames s" "fq_limit_bytes (fst (fq_close s)) = fq_limit_bytes s"
  by (simp_all add: fq_close_def case_prod_beta Let_def fq_should_pause_def)

lemma fq_close_mid: "fq_mid cfg s \<Longrightarrow> fq_mid cfg (fst (fq_close s))"
  by (simp add: fq_mid_def fq_core_def prefix_ok_def queue_bytes_def)

lemma fq_close_good: "fq_good cfg s \<Longrightarrow> fq_good cfg (fst (fq_close s))"
  by (auto simp: fq_good_def fq_close_mid split: drain_pc.splits)

lemma fq_push_mid:
  assumes "fq_mid cfg s" "\<not> fq_closed s" "\<not> fq_overflows bytes s"
  shows "fq_mid cfg (fq_push cfg m bytes s)"
  using assms by (auto simp: fq_mid_def fq_core_def prefix_ok_def queue_bytes_def fq_push_def fq_overflows_def)

lemma fq_push_frame [simp]:
  "fq_pending (fq_push cfg m bytes s) \<noteq> []" "fq_pc (fq_push cfg m bytes s) = fq_pc s"
  "fq_handling_wide (fq_push cfg m bytes s) = fq_handling_wide s" "fq_closed (fq_push cfg m bytes s) = fq_closed s"
  by (simp_all add: fq_push_def)

lemma fq_enqueue_good:
  assumes "fq_good cfg s"
  shows "fq_good cfg (fst (fq_enqueue cfg m bytes s))"
proof -
  consider "fq_closed s" | "\<not> fq_closed s" "fq_overflows bytes s" | "\<not> fq_closed s" "\<not> fq_overflows bytes s"
    by blast
  then show ?thesis
  proof cases
    case 3
    define t where "t = fst (fq_prepare_ahead cfg (fst (fq_update_pressure (fq_push cfg m bytes s))))"
    have t: "fq_mid cfg t" unfolding t_def
      using fq_push_mid[OF fq_good_midD[OF assms] 3] by (intro fq_prepare_ahead_mid) simp
    have t': "fq_pending t \<noteq> []" "fq_pc t = fq_pc s" "fq_handling_wide t = fq_handling_wide s"
      by (simp_all add: t_def)
    show ?thesis
    proof (cases "fq_draining s")
      case True
      with assms t t' 3 show ?thesis
        by (auto simp: fq_enqueue_def t_def[symmetric] fq_draining_def fq_good_def split: drain_pc.splits)
    next
      case False
      then have "\<not> fq_handling_wide t" using assms t'(3) by (simp add: fq_draining_def fq_good_def)
      with t t' have "fq_good cfg (fst (fq_loop_head cfg t))" by (intro fq_loop_head_good) auto
      with 3 False t' show ?thesis by (simp add: fq_enqueue_def t_def[symmetric] fq_draining_def)
    qed
  qed (use assms in \<open>auto simp: fq_enqueue_def fq_close_good\<close>)
qed

lemma fq_reserve_good: "fq_good cfg s \<Longrightarrow> fq_good cfg (fq_reserve_inventory n s)"
  by (auto simp: fq_good_def fq_mid_def fq_core_def prefix_ok_def queue_bytes_def fq_reserve_inventory_def
      split: drain_pc.splits)

lemma fq_drain_fails_good:
  assumes "fq_mid cfg s" "\<not> fq_handling_wide s"
  shows "fq_good cfg (fst (fq_drain_fails s))"
  using fq_close_mid[OF assms(1)] assms(2) by (simp add: fq_drain_fails_def fq_good_def)

lemma fq_handler_done_good:
  assumes "fq_good cfg s"
  shows "fq_good cfg (fst (fq_prepare_ahead cfg (s\<lparr>fq_handling_wide := False\<rparr>))\<lparr>fq_pc := Yielding\<rparr>)"
proof -
  have "fq_mid cfg (s\<lparr>fq_handling_wide := False\<rparr>)"
    using fq_good_midD[OF assms] by (rule fq_mid_handling) simp
  from fq_prepare_ahead_mid[OF this] assms show ?thesis by (simp add: fq_good_def)
qed

lemma fq_waitingD:
  assumes "fq_good cfg s" "fq_pc s = Yielding \<or> fq_pc s = AfterDraining"
  shows "fq_mid cfg s" "\<not> fq_handling_wide s" "fq_pressured s \<longrightarrow> fq_pending s \<noteq> []"
  using assms by (auto simp: fq_good_def)

lemmas fq_resume_good = fq_loop_head_good[OF fq_waitingD]
lemmas fq_abandon_good = fq_drain_fails_good[OF fq_waitingD(1,2)]

lemma fq_step_good: "fq_good cfg s \<Longrightarrow> fq_good cfg (fst (fq_step cfg s e))"
proof (cases e)
  case HandlerDone
  assume "fq_good cfg s"
  with HandlerDone show ?thesis using fq_handler_done_good[of cfg s] by (auto split: drain_pc.splits)
next
  case HandlerFailed
  assume "fq_good cfg s"
  then have "fq_mid cfg (s\<lparr>fq_handling_wide := False\<rparr>)"
    by (intro fq_mid_handling) (auto dest: fq_good_midD)
  with HandlerFailed \<open>fq_good cfg s\<close> show ?thesis
    using fq_drain_fails_good[of cfg "s\<lparr>fq_handling_wide := False\<rparr>"] by (auto split: drain_pc.splits)
next
  case YieldDone
  assume "fq_good cfg s"
  with YieldDone show ?thesis by (cases "fq_pc s") (simp_all add: fq_resume_good)
next
  case AfterDrainDone
  assume "fq_good cfg s"
  moreover from this have "fq_pending s = [] \<Longrightarrow> fq_pc s = AfterDraining \<Longrightarrow> fq_good cfg (s\<lparr>fq_pc := Idle\<rparr>)"
    by (simp add: fq_good_def)
  ultimately show ?thesis using AfterDrainDone by (cases "fq_pc s") (simp_all add: fq_resume_good)
next
  case AfterDrainFailed
  assume "fq_good cfg s"
  with AfterDrainFailed show ?thesis by (cases "fq_pc s") (simp_all add: fq_abandon_good)
qed (simp_all add: fq_enqueue_good fq_reserve_good fq_close_good)

interpretation fq: emitting_machine "fq_step cfg" "fq_good cfg" for cfg
  by unfold_locales (rule fq_step_good)

section \<open>What happens to each frame\<close>

text \<open>The messages handed to a handler, and what became of each prepared value, in a list of outputs.\<close>

fun out_handled :: "('m, 'p) fq_output \<Rightarrow> 'm list" where
  "out_handled (Handle m p) = [m]"
| "out_handled (HandleRun ms) = ms"
| "out_handled _ = []"

fun out_prepared :: "('m, 'p) fq_output \<Rightarrow> 'p multiset" where
  "out_prepared (Prepared p) = {#p#}"
| "out_prepared _ = {#}"

fun out_released :: "('m, 'p) fq_output \<Rightarrow> 'p multiset" where
  "out_released (Handle m (Some p)) = {#p#}"
| "out_released (Discard p) = {#p#}"
| "out_released _ = {#}"

definition handled :: "('m, 'p) fq_output list \<Rightarrow> 'm list" where
  "handled os = concat (map out_handled os)"

definition prepared_values :: "('m, 'p) fq_output list \<Rightarrow> 'p multiset" where
  "prepared_values os = sum_list (map out_prepared os)"

definition released_values :: "('m, 'p) fq_output list \<Rightarrow> 'p multiset" where
  "released_values os = sum_list (map out_released os)"

definition frame_value :: "('m, 'p) frame \<Rightarrow> 'p multiset" where
  "frame_value f = (case fr_prepared f of None \<Rightarrow> {#} | Some p \<Rightarrow> {#p#})"

definition held :: "('m, 'p) frame list \<Rightarrow> 'p multiset" where
  "held fs = sum_list (map frame_value fs)"

definition messages :: "('m, 'p) fqueue \<Rightarrow> 'm list" where
  "messages s = map fr_message (fq_pending s)"

lemma out_simps [simp]:
  "handled [] = []" "handled (x # os) = out_handled x @ handled os" "handled (os @ os') = handled os @ handled os'"
  "prepared_values [] = {#}" "prepared_values (x # os) = out_prepared x + prepared_values os"
  "prepared_values (os @ os') = prepared_values os + prepared_values os'"
  "released_values [] = {#}" "released_values (x # os) = out_released x + released_values os"
  "released_values (os @ os') = released_values os + released_values os'"
  by (simp_all add: handled_def prepared_values_def released_values_def)

lemma held_simps [simp]: "held [] = {#}" "held (f # fs) = frame_value f + held fs" "held (fs @ gs) = held fs + held gs"
  by (simp_all add: held_def)

lemma held_none: "\<forall>f\<in>set fs. fr_prepared f = None \<Longrightarrow> held fs = {#}"
  by (induction fs) (auto simp: frame_value_def)

text \<open>
  An operation that neither admits nor drops a frame: what it handles comes off the front, and each
  prepared value is still queued, or released.
\<close>

definition balanced :: "('m, 'p) fqueue \<Rightarrow> ('m, 'p) fqueue \<times> ('m, 'p) fq_output list \<Rightarrow> bool" where
  "balanced s r \<longleftrightarrow> messages s = handled (snd r) @ messages (fst r) \<and>
     held (fq_pending s) + prepared_values (snd r) = released_values (snd r) + held (fq_pending (fst r))"

lemma balanced_refl [simp]: "balanced s (s, [])"
  by (simp add: balanced_def)

lemma balance_trans:
  fixes a :: "'p multiset"
  shows "a + b = c + d \<Longrightarrow> d + b' = c' + d' \<Longrightarrow> a + (b + b') = (c + c') + d'"
  by (metis add.assoc)

lemma balanced_and_then:
  assumes "balanced s (f s)" and "balanced (fst (f s)) (g (fst (f s)))"
  shows "balanced s (and_then f g s)"
  using assms balance_trans[of "held (fq_pending s)"] unfolding balanced_def by auto

lemma balanced_update_pressure [simp]: "balanced s (fq_update_pressure s)"
  by (auto simp: balanced_def fq_update_pressure_def Let_def messages_def)

lemma balanced_prepare_one:
  assumes "fq_core s" "fq_can_prepare s"
  shows "balanced s (fq_prepare_one pr s)"
proof -
  let ?i = "fq_prepared_count s" and ?p = "fq_pending s"
  have i: "?i < length ?p" using assms(2) by (simp add: fq_can_prepare_def)
  have "?p ! ?i \<in> set (drop ?i ?p)" using i by (metis Cons_nth_drop_Suc list.set_intros(1))
  then have none: "fr_prepared (?p ! ?i) = None" using assms(1) by (auto simp: fq_core_def prefix_ok_def)
  have "held ?p = held (take ?i ?p @ ?p ! ?i # drop (Suc ?i) ?p)"
    using i by (rule arg_cong[OF id_take_nth_drop])
  also have "\<dots> = held (take ?i ?p) + held (drop (Suc ?i) ?p)"
    using none by (simp add: frame_value_def)
  finally have "held ?p = held (take ?i ?p) + held (drop (Suc ?i) ?p)" .
  moreover have "held (?p[?i := f]) = held (take ?i ?p) + frame_value f + held (drop (Suc ?i) ?p)" for f
    using i by (simp add: upd_conv_take_nth_drop)
  ultimately have upd: "held (?p[?i := f]) = held ?p + frame_value f" for f by simp
  show ?thesis
    by (cases "pr_prepare pr (fq_calls s) (fr_message (?p ! ?i))")
       (auto simp: balanced_def messages_def fq_prepare_one_def Let_def upd frame_value_def
          map_list_update_same split: option.splits)
qed

lemma balanced_prepare_loop:
  "fq_core s \<Longrightarrow> \<not> fq_handling_wide s \<Longrightarrow> balanced s (fq_prepare_loop pr s)"
proof (induction pr s rule: fq_prepare_loop.induct)
  case (1 pr s)
  show ?case
  proof (cases "fq_can_prepare s")
    case True
    have "balanced (fst (fq_prepare_one pr s)) (fq_prepare_loop pr (fst (fq_prepare_one pr s)))"
      using 1 True by (simp add: fq_prepare_one_core)
    with True 1 show ?thesis
      by (simp add: fq_prepare_loop_unfold[of pr s] balanced_and_then balanced_prepare_one)
  qed (simp add: fq_prepare_loop_unfold[of pr s])
qed

lemma balanced_prepare_ahead: "fq_core s \<Longrightarrow> balanced s (fq_prepare_ahead cfg s)"
  by (simp add: fq_prepare_ahead_def balanced_prepare_loop split: option.splits)

lemma handle_output_run:
  assumes "run_ok cfg run"
  shows "out_handled (handle_output run) = map fr_message run"
    "out_released (handle_output run) = held run" "out_prepared (handle_output run) = {#}"
proof -
  obtain f fs where run: "run = f # fs" using assms by (cases run) (auto simp: run_ok_def)
  have "fs \<noteq> [] \<Longrightarrow> held run = {#}"
    using assms run by (intro held_none) (auto simp: run_ok_def joins_run_def)
  then show "out_handled (handle_output run) = map fr_message run"
    "out_released (handle_output run) = held run" "out_prepared (handle_output run) = {#}"
    unfolding run by (cases fs; auto simp: frame_value_def split: option.splits)+
qed

lemma fq_begin_run_balanced:
  assumes "fq_mid cfg s" "fq_pending s \<noteq> []"
  shows "balanced s (fq_begin_run cfg s)"
proof -
  obtain run s2 where tm: "fq_take_more cfg [fst (fq_take_next s)] (snd (fq_take_next s)) = (run, s2)"
    and s2: "fq_mid cfg s2" "run_ok cfg run" "(\<exists>f\<in>set run. fr_wide f) \<longrightarrow> fq_prepared_count s2 = 0"
    and split: "fq_pending s = run @ fq_pending s2"
    by (rule fq_take_run[OF assms])
  define w where "w = (\<exists>f\<in>set run. fr_wide f)"
  define mid where "mid = and_then fq_update_pressure (\<lambda>s. fq_prepare_ahead cfg (s\<lparr>fq_handling_wide := w\<rparr>)) s2"
  have from_wide: "balanced (s\<lparr>fq_handling_wide := w\<rparr>) r = balanced s r" for s and r :: "('a, 'b) fqueue \<times> _"
    by (simp add: balanced_def messages_def)
  have "fq_mid cfg (fst (fq_update_pressure s2)\<lparr>fq_handling_wide := w\<rparr>)"
    by (intro fq_mid_handling) (use s2 w_def in auto)
  then have "balanced (fst (fq_update_pressure s2)\<lparr>fq_handling_wide := w\<rparr>)
      (fq_prepare_ahead cfg (fst (fq_update_pressure s2)\<lparr>fq_handling_wide := w\<rparr>))"
    by (intro balanced_prepare_ahead) (simp add: fq_mid_def)
  then have m: "balanced s2 mid"
    unfolding mid_def by (intro balanced_and_then balanced_update_pressure) (simp only: from_wide)
  then have "handled (snd mid) = []" by (simp add: balanced_def messages_def mid_def)
  moreover have "fq_begin_run cfg s = ((fst mid)\<lparr>fq_pc := Handling run\<rparr>, snd mid @ [handle_output run])"
    using tm by (simp add: fq_begin_run_def w_def mid_def and_then_def case_prod_beta Let_def)
  ultimately show ?thesis
    using m handle_output_run[OF s2(2)] unfolding balanced_def messages_def
    by (simp add: split)
qed

lemma balanced_pc [simp]:
  "balanced (s\<lparr>fq_pc := x\<rparr>) r = balanced s r" "balanced s (t\<lparr>fq_pc := x\<rparr>, os) = balanced s (t, os)"
  "balanced (s\<lparr>fq_handling_wide := w\<rparr>) r = balanced s r"
  by (simp_all add: balanced_def messages_def)

lemma fq_loop_head_balanced:
  assumes "fq_mid cfg s"
  shows "balanced s (fq_loop_head cfg s)"
proof -
  have "fq_pending s \<noteq> [] \<Longrightarrow> balanced s (and_then (fq_prepare_ahead cfg) (fq_begin_run cfg) s)"
    using assms fq_prepare_ahead_mid[OF assms]
    by (intro balanced_and_then balanced_prepare_ahead fq_begin_run_balanced) (auto simp: fq_mid_def)
  then show ?thesis
    by (auto simp: fq_loop_head_def balanced_def messages_def)
qed

text \<open>What closing drops: every queued message, and each prepared value through \<open>discard\<close>.\<close>

lemma fq_close_outputs:
  assumes "fq_core s"
  shows "handled (snd (fq_close s)) = []" "prepared_values (snd (fq_close s)) = {#}"
    "released_values (snd (fq_close s)) = held (fq_pending s)"
proof -
  let ?n = "fq_prepared_count s" and ?p = "fq_pending s"
  let ?d = "\<lambda>f. case fr_prepared f of None \<Rightarrow> [] | Some p \<Rightarrow> [Discard p]"
  have d: "released_values (concat (map ?d fs)) = held fs" "handled (concat (map ?d fs)) = []"
    "prepared_values (concat (map ?d fs)) = {#}" for fs :: "('a, 'b) frame list"
    by (induction fs) (auto simp: frame_value_def split: option.splits)
  have p: "released_values (snd (fq_update_pressure s)) = {#}" "handled (snd (fq_update_pressure s)) = []"
    "prepared_values (snd (fq_update_pressure s)) = {#}" for s :: "('a, 'b) fqueue"
    by (auto simp: fq_update_pressure_def Let_def)
  have "held ?p = held (take ?n ?p) + held (drop ?n ?p)"
    by (metis append_take_drop_id held_simps(3))
  moreover have "held (drop ?n ?p) = {#}" using assms by (intro held_none) (simp add: fq_core_def prefix_ok_def)
  ultimately show "handled (snd (fq_close s)) = []" "prepared_values (snd (fq_close s)) = {#}"
    "released_values (snd (fq_close s)) = held (fq_pending s)"
    by (simp_all add: fq_close_def case_prod_beta Let_def d p)
qed

text \<open>The message an event admits.\<close>

fun fq_accepts :: "('m, 'p) fqueue \<Rightarrow> 'm fq_event \<Rightarrow> 'm list" where
  "fq_accepts s (Enqueue m bytes) = (if fq_closed s \<or> fq_overflows bytes s then [] else [m])"
| "fq_accepts s _ = []"

fun fq_accepted :: "('m, 'p) fq_config \<Rightarrow> ('m, 'p) fqueue \<Rightarrow> 'm fq_event list \<Rightarrow> 'm list" where
  "fq_accepted cfg s [] = []"
| "fq_accepted cfg s (e # es) = fq_accepts s e @ fq_accepted cfg (fst (fq_step cfg s e)) es"

text \<open>One step: either it closes the queue, handling nothing and releasing all that was held, or it balances.\<close>

definition fq_settles :: "'m list \<Rightarrow> ('m, 'p) fqueue \<Rightarrow> ('m, 'p) fqueue \<times> ('m, 'p) fq_output list \<Rightarrow> bool" where
  "fq_settles new s r \<longleftrightarrow>
     held (fq_pending s) + prepared_values (snd r) = released_values (snd r) + held (fq_pending (fst r)) \<and>
     (if fq_closed (fst r) then handled (snd r) = [] \<and> fq_pending (fst r) = []
      else \<not> fq_closed s \<and> messages s @ new = handled (snd r) @ messages (fst r))"

lemma fq_settles_balanced:
  "fq_core s \<Longrightarrow> fq_closed (fst r) = fq_closed s \<Longrightarrow> balanced s r \<Longrightarrow> fq_settles [] s r"
  by (auto simp: fq_settles_def balanced_def fq_core_def messages_def)

lemma fq_settles_close: "fq_core s \<Longrightarrow> fq_settles [] s (fq_close s)"
  by (simp add: fq_settles_def fq_close_outputs)

lemma fq_settles_fails: "fq_core s \<Longrightarrow> fq_settles [] s (fq_drain_fails s)"
  by (simp add: fq_settles_def fq_drain_fails_def fq_close_outputs)

lemma fq_loop_head_closed [simp]: "fq_mid cfg s \<Longrightarrow> fq_closed (fst (fq_loop_head cfg s)) = fq_closed s"
proof (cases "fq_closed s \<or> fq_pending s = []")
  case False
  assume mid: "fq_mid cfg s"
  let ?s = "fst (fq_prepare_ahead cfg s)"
  have ne: "fq_pending ?s \<noteq> []" using False by simp
  obtain run s2 where "fq_take_more cfg [fst (fq_take_next ?s)] (snd (fq_take_next ?s)) = (run, s2)"
    "fq_closed s2 = fq_closed ?s"
    by (rule fq_take_run[OF fq_prepare_ahead_mid[OF mid] ne])
  then show ?thesis using False by (simp add: fq_loop_head_def fq_begin_run_def case_prod_beta)
qed (auto simp: fq_loop_head_def)

lemma fq_enqueue_settles:
  assumes "fq_good cfg s"
  shows "fq_settles (fq_accepts s (Enqueue m bytes)) s (fq_enqueue cfg m bytes s)"
proof -
  have core: "fq_core s" using fq_good_midD[OF assms] by (simp add: fq_mid_def)
  consider "fq_closed s" | "\<not> fq_closed s" "fq_overflows bytes s" | "\<not> fq_closed s" "\<not> fq_overflows bytes s"
    by blast
  then show ?thesis
  proof cases
    case 3
    define p where "p = fq_push cfg m bytes s"
    define t where "t = fst (fq_prepare_ahead cfg (fst (fq_update_pressure p)))"
    have p: "fq_mid cfg (fst (fq_update_pressure p))"
      using fq_push_mid[OF fq_good_midD[OF assms] 3] by (simp add: p_def)
    then have t: "fq_mid cfg t" "fq_closed t = fq_closed s"
      by (simp_all add: t_def fq_prepare_ahead_mid p_def)
    have "balanced p (fq_enqueue cfg m bytes s)"
      using 3 p t fq_loop_head_balanced[of cfg t]
      by (auto simp: fq_enqueue_def p_def[symmetric] t_def[symmetric] fq_mid_def
          intro!: balanced_and_then balanced_prepare_ahead)
    moreover have "messages p = messages s @ [m]" "held (fq_pending p) = held (fq_pending s)"
      by (simp_all add: p_def fq_push_def messages_def frame_value_def)
    moreover have "\<not> fq_closed (fst (fq_enqueue cfg m bytes s))"
      using 3 t by (simp add: fq_enqueue_def p_def[symmetric] t_def[symmetric])
    ultimately show ?thesis using 3 by (simp add: fq_settles_def balanced_def)
  qed (use core fq_close_outputs[OF core] in \<open>auto simp: fq_enqueue_def fq_settles_def fq_core_def\<close>)
qed

lemma fq_step_settles:
  assumes "fq_good cfg s"
  shows "fq_settles (fq_accepts s e) s (fq_step cfg s e)"
proof -
  note mid = fq_good_midD[OF assms]
  have core: "fq_core s" using mid by (simp add: fq_mid_def)
  have stay: "fq_settles [] s (s, [])" using fq_settles_balanced[OF core] by simp
  have loop: "fq_settles [] s (fq_loop_head cfg s)"
    using fq_settles_balanced[OF core _ fq_loop_head_balanced] mid by simp
  have open_core: "fq_core (s\<lparr>fq_handling_wide := False\<rparr>)"
    using core by (simp add: fq_core_def prefix_ok_def queue_bytes_def)
  show ?thesis
  proof (cases e)
    case (Enqueue m bytes)
    then show ?thesis using fq_enqueue_settles[OF assms, of m bytes] by simp
  next
    case (ReserveInventory n)
    have "fq_closed (fq_reserve_inventory n s) = fq_closed s" "fq_pending (fq_reserve_inventory n s) = fq_pending s"
      by (simp_all add: fq_reserve_inventory_def)
    with ReserveInventory show ?thesis
      using core by (auto simp: fq_settles_def fq_core_def messages_def)
  next
    case HandlerDone
    have "balanced s (fq_prepare_ahead cfg (s\<lparr>fq_handling_wide := False\<rparr>))"
      using balanced_prepare_ahead[OF open_core, of cfg] by simp
    with HandlerDone stay show ?thesis
      by (auto intro!: fq_settles_balanced core simp: and_then_def case_prod_beta Let_def split: drain_pc.splits)
  next
    case HandlerFailed
    have "fq_settles [] s (fq_drain_fails (s\<lparr>fq_handling_wide := False\<rparr>))"
      using fq_settles_fails[OF open_core] by (simp add: fq_settles_def fq_drain_fails_def messages_def)
    with HandlerFailed stay show ?thesis by (simp split: drain_pc.splits)
  next
    case AfterDrainDone
    have "fq_settles [] s (s\<lparr>fq_pc := Idle\<rparr>, [])" using fq_settles_balanced[OF core] by simp
    with AfterDrainDone stay loop show ?thesis by (simp split: drain_pc.splits)
  qed (use stay loop fq_settles_close[OF core] fq_settles_fails[OF core] in \<open>simp_all split: drain_pc.splits\<close>)
qed

lemma fq_run_settles:
  assumes "fq_good cfg s"
  shows "(let r = run_out (fq_step cfg) s es in
     held (fq_pending s) + prepared_values (snd r) = released_values (snd r) + held (fq_pending (fst r)) \<and>
     (fq_closed s \<longrightarrow> fq_closed (fst r) \<and> handled (snd r) = []) \<and>
     (\<exists>dropped. messages s @ fq_accepted cfg s es = handled (snd r) @ messages (fst r) @ dropped \<and>
       (\<not> fq_closed (fst r) \<longrightarrow> dropped = [])))"
  using assms
proof (induction es arbitrary: s)
  case (Cons e es)
  define t where "t = fst (fq_step cfg s e)"
  define os where "os = snd (fq_step cfg s e)"
  define r where "r = run_out (fq_step cfg) t es"
  have step: "fq_settles (fq_accepts s e) s (t, os)"
    using fq_step_settles[OF Cons.prems, of e] by (simp add: t_def os_def)
  have IH: "held (fq_pending t) + prepared_values (snd r) = released_values (snd r) + held (fq_pending (fst r))"
    "fq_closed t \<Longrightarrow> fq_closed (fst r)" "fq_closed t \<Longrightarrow> handled (snd r) = []"
    "\<exists>dropped. messages t @ fq_accepted cfg t es = handled (snd r) @ messages (fst r) @ dropped \<and>
       (\<not> fq_closed (fst r) \<longrightarrow> dropped = [])"
    using Cons.IH[OF fq_step_good[OF Cons.prems, of e]] by (simp_all add: t_def r_def Let_def)
  have r: "run_out (fq_step cfg) s (e # es) = (fst r, os @ snd r)"
    by (simp add: r_def t_def os_def case_prod_beta Let_def)
  have acc: "fq_accepted cfg s (e # es) = fq_accepts s e @ fq_accepted cfg t es" by (simp add: t_def)
  show ?case
  proof (cases "fq_closed t")
    case True
    then have "handled os = []" "messages t = []"
      using step by (auto simp: fq_settles_def messages_def)
    moreover have "messages (fst r) = []"
      using True IH(2) fq.run_out_good[OF fq_step_good[OF Cons.prems, of e], of es]
      by (simp add: r_def t_def fq_good_def fq_mid_def fq_core_def messages_def)
    ultimately show ?thesis
      using True IH step unfolding r acc
      by (auto simp: fq_settles_def Let_def intro: balance_trans)
  next
    case False
    then have "\<not> fq_closed s" "messages s @ fq_accepts s e = handled os @ messages t"
      using step by (auto simp: fq_settles_def)
    then have "\<exists>dropped. messages s @ fq_accepts s e @ fq_accepted cfg t es =
        (handled os @ handled (snd r)) @ messages (fst r) @ dropped \<and> (\<not> fq_closed (fst r) \<longrightarrow> dropped = [])"
      using IH(4) by (metis append_assoc)
    then show ?thesis
      using \<open>\<not> fq_closed s\<close> IH(1) step unfolding r acc
      by (auto simp: fq_settles_def Let_def intro: balance_trans)
  qed
qed (simp add: Let_def)

section \<open>Progress of the drain loop\<close>

text \<open>The event that resumes the loop when what it awaits succeeds, and how far it is from idle.\<close>

definition fq_resume :: "('m, 'p) fqueue \<Rightarrow> 'm fq_event" where
  "fq_resume s = (case fq_pc s of Handling run \<Rightarrow> HandlerDone | Yielding \<Rightarrow> YieldDone | _ \<Rightarrow> AfterDrainDone)"

definition fq_distance :: "('m, 'p) fqueue \<Rightarrow> nat" where
  "fq_distance s = (case fq_pc s of
       Idle \<Rightarrow> 0
     | Handling run \<Rightarrow> 3 * length (fq_pending s) + 3
     | Yielding \<Rightarrow> 3 * length (fq_pending s) + 2
     | AfterDraining \<Rightarrow> 3 * length (fq_pending s) + 1)"

lemma fq_loop_head_distance:
  assumes "fq_mid cfg s"
  shows "fq_distance (fst (fq_loop_head cfg s)) \<le> (if fq_pending s = [] then 1 else 3 * length (fq_pending s))"
proof (cases "fq_closed s \<or> fq_pending s = []")
  case False
  let ?s = "fst (fq_prepare_ahead cfg s)"
  have ne: "fq_pending ?s \<noteq> []" using False by simp
  obtain run s2 where tm: "fq_take_more cfg [fst (fq_take_next ?s)] (snd (fq_take_next ?s)) = (run, s2)"
    "fq_pending ?s = run @ fq_pending s2" "run_ok cfg run"
    by (rule fq_take_run[OF fq_prepare_ahead_mid[OF assms] ne])
  have "length (fq_pending s) = length run + length (fq_pending s2)"
    using arg_cong[OF tm(2), of length] by simp
  moreover have "run \<noteq> []" using tm(3) by (simp add: run_ok_def)
  ultimately have "Suc (length (fq_pending s2)) \<le> length (fq_pending s)" by (cases run) auto
  with tm(1) False show ?thesis
    by (simp add: fq_loop_head_def fq_begin_run_def fq_distance_def case_prod_beta)
qed (auto simp: fq_loop_head_def fq_distance_def)

lemma fq_resume_distance:
  assumes "fq_good cfg s" "fq_pc s \<noteq> Idle"
  shows "fq_distance (fst (fq_step cfg s (fq_resume s))) < fq_distance s"
proof (cases "fq_pc s")
  case (Handling run)
  then show ?thesis by (simp add: fq_resume_def fq_distance_def)
next
  case Yielding
  with fq_loop_head_distance[OF fq_good_midD[OF assms(1)]] show ?thesis
    by (auto simp: fq_resume_def fq_distance_def[of s] split: if_splits)
next
  case AfterDraining
  with fq_loop_head_distance[OF fq_good_midD[OF assms(1)]] show ?thesis
    by (auto simp: fq_resume_def fq_distance_def[of s] fq_distance_def[of "s\<lparr>fq_pc := Idle\<rparr>"] split: if_splits)
qed (use assms in simp)

lemma fq_resume_closed:
  "fq_good cfg s \<Longrightarrow> fq_closed (fst (fq_step cfg s (fq_resume s))) = fq_closed s"
  by (cases "fq_pc s") (simp_all add: fq_resume_def fq_good_midD)

lemma fq_resume_accepts: "fq_accepts s (fq_resume s) = []"
  by (cases "fq_pc s") (simp_all add: fq_resume_def)

lemma fq_drains:
  assumes "fq_good cfg s"
  shows "\<exists>es. set es \<subseteq> {HandlerDone, YieldDone, AfterDrainDone} \<and> length es \<le> fq_distance s \<and>
    fq_accepted cfg s es = [] \<and>
    (let s' = fst (run_out (fq_step cfg) s es) in fq_pc s' = Idle \<and> fq_closed s' = fq_closed s)"
  using assms
proof (induction "fq_distance s" arbitrary: s rule: less_induct)
  case less
  show ?case
  proof (cases "fq_pc s = Idle")
    case True
    then show ?thesis by (intro exI[of _ "[]"]) simp
  next
    case False
    let ?t = "fst (fq_step cfg s (fq_resume s))"
    from less.hyps[OF fq_resume_distance[OF less.prems False] fq_step_good[OF less.prems]]
    obtain es where es: "set es \<subseteq> {HandlerDone, YieldDone, AfterDrainDone}" "length es \<le> fq_distance ?t"
      "fq_accepted cfg ?t es = []" "fq_pc (fst (run_out (fq_step cfg) ?t es)) = Idle"
      "fq_closed (fst (run_out (fq_step cfg) ?t es)) = fq_closed ?t"
      by (auto simp: Let_def)
    have "fq_resume s \<in> {HandlerDone, YieldDone, AfterDrainDone}"
      by (simp add: fq_resume_def split: drain_pc.splits)
    then show ?thesis
      using es fq_resume_distance[OF less.prems False] fq_resume_closed[OF less.prems] fq_resume_accepts[of s]
      by (intro exI[of _ "fq_resume s # es"]) (auto simp: Let_def case_prod_beta)
  qed
qed

section \<open>A concrete run\<close>

text \<open>
  Messages below 3 are runner-wide, even ones batch, and preparing an odd message above 2 gives a value.
\<close>

definition demo_queue :: "(nat, nat) fq_config" where
  "demo_queue = \<lparr>
     fc_preparation = Some \<lparr>pr_runner_wide = (\<lambda>m. Some (m < 3)),
       pr_prepare = (\<lambda>k m. Some (if m < 3 \<or> even m then None else Some (m + 100)))\<rparr>,
     fc_runs = Some \<lparr>ru_batchable = (\<lambda>m. Some (even m)), ru_limit = 8\<rparr>\<rparr>"

definition demo_events :: "nat fq_event list" where
  "demo_events = [Enqueue 5 10, Enqueue 4 10, Enqueue 6 10, Enqueue 7 10, Enqueue 2 10, Enqueue 9 10,
     HandlerDone, YieldDone, HandlerDone]"

lemma demo_run:
  "handled (snd (run_out (fq_step demo_queue) (new_queue 100 1000) demo_events)) = [5, 4, 6]"
  "messages (fst (run_out (fq_step demo_queue) (new_queue 100 1000) demo_events)) = [7, 2, 9]"
  "fq_closed (fst (run_out (fq_step demo_queue) (new_queue 100 1000) demo_events)) = False"
  "map fr_prepared (fq_pending (fst (run_out (fq_step demo_queue) (new_queue 100 1000) demo_events))) = [Some 107, None, None]"
  by code_simp+

section \<open>Properties\<close>

lemma fq_good_new: "0 < bytes \<Longrightarrow> fq_good cfg (new_queue frames bytes)"
  by (simp add: new_queue_def fq_good_def fq_mid_def fq_core_def prefix_ok_def queue_bytes_def)

lemma fq_run_good: "0 < bytes \<Longrightarrow> fq_good cfg (fst (run_out (fq_step cfg) (new_queue frames bytes) es))"
  by (intro fq.run_out_good fq_good_new)

lemma new_queue_empty [simp]:
  "fq_pending (new_queue frames bytes) = []" "\<not> fq_closed (new_queue frames bytes)"
  "messages (new_queue frames bytes) = []"
  by (simp_all add: new_queue_def messages_def)

text \<open>
  C4: First in, first out, with no loss and no duplicate. Whatever the interleaving of arriving
  frames, handler results, yields, reservations and a close, the messages handed to handlers so far,
  alone or in runs, are a prefix of the admitted messages in arrival order; while the queue is open
  the rest of them is exactly what is queued, and a closed queue holds nothing.
\<close>

theorem frames_handled_in_arrival_order:
  assumes "0 < bytes" and "run_out (fq_step cfg) (new_queue frames bytes) es = (s, os)"
  shows "\<exists>dropped. fq_accepted cfg (new_queue frames bytes) es = handled os @ messages s @ dropped \<and>
           (if fq_closed s then messages s = [] else dropped = [])"
proof -
  have "fq_good cfg s" using fq_run_good[OF assms(1), of cfg frames es] assms(2) by simp
  then have "fq_closed s \<Longrightarrow> messages s = []" by (simp add: fq_good_def fq_mid_def fq_core_def messages_def)
  then show ?thesis
    using fq_run_settles[OF fq_good_new[OF assms(1)], of cfg frames es] assms(2) by (auto simp: Let_def)
qed

theorem frames_handled_in_arrival_order_witness:
  "\<exists>dropped. fq_accepted demo_queue (new_queue 100 1000) demo_events = [5, 4, 6] @ [7, 2, 9] @ dropped \<and> dropped = []"
  using frames_handled_in_arrival_order[of 1000 demo_queue 100 demo_events, OF _ surjective_pairing] demo_run
  by simp

text \<open>
  C15: Every value preparation produced is released exactly once: it is handed to the handler with its
  frame, or passed to \<open>discard\<close> by a close, unless its frame still waits in the queue. So once the
  queue is closed or empty none is leaked and none was released twice.
\<close>

theorem prepared_values_released_once:
  assumes "0 < bytes" and "run_out (fq_step cfg) (new_queue frames bytes) es = (s, os)"
  shows "prepared_values os = released_values os + held (fq_pending s) \<and>
         (fq_closed s \<longrightarrow> prepared_values os = released_values os)"
proof -
  have "fq_good cfg s" using fq_run_good[OF assms(1), of cfg frames es] assms(2) by simp
  then have "fq_closed s \<Longrightarrow> fq_pending s = []" by (simp add: fq_good_def fq_mid_def fq_core_def)
  then show ?thesis
    using fq_run_settles[OF fq_good_new[OF assms(1)], of cfg frames es] assms(2) by (auto simp: Let_def)
qed

theorem prepared_values_released_once_witness:
  "let (s, os) = run_out (fq_step demo_queue) (new_queue 100 1000) demo_events
   in prepared_values os = released_values os + {#107#}"
proof -
  let ?r = "run_out (fq_step demo_queue) (new_queue 100 1000) demo_events"
  have "held fs = sum_list (map (\<lambda>p. case p of None \<Rightarrow> {#} | Some p \<Rightarrow> {#p#}) (map fr_prepared fs))"
    for fs :: "(nat, nat) frame list"
    by (simp add: held_def frame_value_def[abs_def] comp_def)
  then have "held (fq_pending (fst ?r)) = {#107#}" by (simp only: demo_run) simp
  then show ?thesis
    using prepared_values_released_once[of 1000 demo_queue 100 demo_events "fst ?r" "snd ?r"]
    by (simp add: case_prod_beta)
qed

text \<open>
  The accounting never drifts. In every reachable state the byte count is the sum over the queued
  frames, the frame and byte limits hold, preparation is confined to a prefix with no frame prepared
  behind a queued or running runner-wide one, the socket is paused only while frames are queued, and
  an idle queue holds nothing.
\<close>

theorem queue_accounting_invariant:
  assumes "0 < bytes" and "s = fst (run_out (fq_step cfg) (new_queue frames bytes) es)"
  shows "fq_bytes s = sum_list (map fr_bytes (fq_pending s)) \<and>
    length (fq_pending s) \<le> fq_limit_frames s \<and> fq_bytes s \<le> fq_limit_bytes s \<and>
    (\<forall>i < length (fq_pending s). fr_prepared (fq_pending s ! i) \<noteq> None \<longrightarrow>
       \<not> fq_handling_wide s \<and> (\<forall>j < i. \<not> fr_wide (fq_pending s ! j))) \<and>
    (fq_pressured s \<longrightarrow> fq_pending s \<noteq> []) \<and>
    (fq_pc s = Idle \<longrightarrow> fq_pending s = [])"
proof -
  let ?n = "fq_prepared_count s" and ?p = "fq_pending s"
  have good: "fq_good cfg s" using fq_run_good[OF assms(1)] assms(2) by simp
  then have core: "fq_core s" by (simp add: fq_good_def fq_mid_def)
  have "\<not> fq_handling_wide s \<and> (\<forall>j < i. \<not> fr_wide (?p ! j))"
    if i: "i < length ?p" "fr_prepared (?p ! i) \<noteq> None" for i
  proof -
    have "i < ?n"
    proof (rule ccontr)
      assume "\<not> i < ?n"
      then have "?p ! i \<in> set (drop ?n ?p)" using i(1)
        by (auto simp: in_set_conv_nth intro!: exI[of _ "i - ?n"])
      then show False using core i(2) by (auto simp: fq_core_def prefix_ok_def)
    qed
    moreover from this have "j < i \<Longrightarrow> ?p ! j \<in> set (take (?n - 1) ?p)" for j
      using i(1) by (auto simp: in_set_conv_nth intro!: exI[of _ j])
    ultimately show ?thesis using core by (auto simp: fq_core_def prefix_ok_def)
  qed
  with good core show ?thesis by (auto simp: fq_good_def fq_core_def queue_bytes_def)
qed

theorem queue_accounting_invariant_witness:
  "let s = fst (run_out (fq_step demo_queue) (new_queue 100 1000) demo_events)
   in fq_bytes s = sum_list (map fr_bytes (fq_pending s)) \<and> length (fq_pending s) \<le> fq_limit_frames s"
  using queue_accounting_invariant[of 1000 _ demo_queue 100 demo_events, OF _ refl] by (simp add: Let_def)

text \<open>
  C17: The drain loop makes progress. From every reachable state, if nothing more arrives and what the
  loop awaits succeeds, at most \<open>3 n + 3\<close> resumptions for \<open>n\<close> queued frames bring it back to idle,
  and by then every queued message has been handed over, in order.
\<close>

theorem drain_loop_empties_the_queue:
  assumes "0 < bytes" and "s = fst (run_out (fq_step cfg) (new_queue frames bytes) es)"
  shows "\<exists>es'. set es' \<subseteq> {HandlerDone, YieldDone, AfterDrainDone} \<and> length es' \<le> 3 * length (fq_pending s) + 3 \<and>
    (let (s', os) = run_out (fq_step cfg) s es' in fq_pc s' = Idle \<and> fq_pending s' = [] \<and> handled os = messages s)"
proof -
  have good: "fq_good cfg s" using fq_run_good[OF assms(1)] assms(2) by simp
  from fq_drains[OF good] obtain es' where es': "set es' \<subseteq> {HandlerDone, YieldDone, AfterDrainDone}"
    "length es' \<le> fq_distance s" "fq_accepted cfg s es' = []"
    "fq_pc (fst (run_out (fq_step cfg) s es')) = Idle" "fq_closed (fst (run_out (fq_step cfg) s es')) = fq_closed s"
    by (auto simp: Let_def)
  have "fq_good cfg (fst (run_out (fq_step cfg) s es'))" using good by (rule fq.run_out_good)
  then have empty: "fq_pending (fst (run_out (fq_step cfg) s es')) = []" using es'(4) by (simp add: fq_good_def)
  have "fq_closed s \<Longrightarrow> messages s = []" using good by (simp add: fq_good_def fq_mid_def fq_core_def messages_def)
  with empty fq_run_settles[OF good, of es'] es'(3,5) have "handled (snd (run_out (fq_step cfg) s es')) = messages s"
    by (auto simp: Let_def messages_def)
  moreover have "fq_distance s \<le> 3 * length (fq_pending s) + 3"
    by (simp add: fq_distance_def split: drain_pc.splits)
  ultimately show ?thesis using es' empty by (intro exI[of _ es']) auto
qed

theorem drain_loop_empties_the_queue_witness:
  "\<exists>es'. length es' \<le> 12 \<and>
    handled (snd (run_out (fq_step demo_queue) (fst (run_out (fq_step demo_queue) (new_queue 100 1000) demo_events)) es'))
      = [7, 2, 9]"
proof -
  let ?s = "fst (run_out (fq_step demo_queue) (new_queue 100 1000) demo_events)"
  have len: "length (fq_pending ?s) = 3" using arg_cong[OF demo_run(4), of length] by simp
  show ?thesis
    using drain_loop_empties_the_queue[of 1000 ?s demo_queue 100 demo_events, OF _ refl]
    by (auto simp: len demo_run case_prod_beta Let_def)
qed

end
