(* ===== verification/Worktree_Coordinator.thy ===== *)
theory Worktree_Coordinator
  imports Prelude
begin

text \<open>
  Retryable worktree creation (\<open>apps/control-plane/src/worktree-create-coordinator.ts\<close>): a request
  joins the running or retained operation of its coordinates, or starts one runner request; progress
  and completion stay correlated to the entry that started it; terminal results are retained until
  they are released or their timer fires.

  Entries are JavaScript objects that two maps share and whose identity the code compares, so they
  live in a store and the maps hold references to them. The asynchronous parts are events: the runner
  request of an entry succeeds or fails, an entry's timer fires. \<open>createId\<close> is a random source, so
  the identifier a new entry would get is part of the event that may create it.
\<close>

section \<open>Model\<close>

record wt_coordinates =
  wc_runner :: string
  wc_session :: string
  wc_branch :: string
  wc_base :: "string option"
  wc_recovery :: "string option"

datatype 'c wt_operation =
    InProgress (op_id: string) (op_phase: "string option")
  | Completed (op_id: string) (op_completion: 'c)
  | Failed (op_id: string) (op_error: string) (op_phase: "string option")

text \<open>The key is the JSON text of four fields; that text determines them, so they stand for it.\<close>

datatype wt_key = WtKey string string "string option" string

record 'c wt_entry =
  en_coords :: wt_coordinates
  en_key :: wt_key
  en_operation :: "'c wt_operation"
  en_superseded :: bool
  en_expiry :: bool
  en_awaiting :: bool

text \<open>\<open>en_expiry\<close>: its timer is armed. \<open>en_awaiting\<close>: its runner request has not settled.\<close>

record 'c coordinator =
  wt_store :: "'c wt_entry list"
  wt_by_key :: "(wt_key \<times> nat) list"
  wt_by_id :: "(string \<times> nat) list"

definition new_coordinator :: "'c coordinator" where
  "new_coordinator = \<lparr>wt_store = [], wt_by_key = [], wt_by_id = []\<rparr>"

definition WORKTREE_PROGRESS_PHASES :: "string list" where
  "WORKTREE_PROGRESS_PHASES = [''resolving_remote'', ''fetching_remote'', ''validating'', ''materializing'',
     ''reading_setup_config'', ''awaiting_setup_trust'', ''copying_setup_files'', ''running_setup'', ''activating'']"

definition wt_key_of :: "wt_coordinates \<Rightarrow> wt_key" where
  "wt_key_of c = WtKey (wc_runner c) (wc_session c) (wc_base c) (wc_branch c)"

fun in_progress :: "'c wt_operation \<Rightarrow> bool" where
  "in_progress (InProgress i p) = True"
| "in_progress _ = False"

fun is_completed :: "'c wt_operation \<Rightarrow> bool" where
  "is_completed (Completed i c) = True"
| "is_completed _ = False"

definition wt_entry_at :: "'c coordinator \<Rightarrow> nat \<Rightarrow> 'c wt_entry" where
  "wt_entry_at s r = wt_store s ! r"

definition wt_update :: "nat \<Rightarrow> ('c wt_entry \<Rightarrow> 'c wt_entry) \<Rightarrow> 'c coordinator \<Rightarrow> 'c coordinator" where
  "wt_update r f s = s\<lparr>wt_store := (wt_store s)[r := f (wt_entry_at s r)]\<rparr>"

definition wt_delete :: "nat \<Rightarrow> 'c coordinator \<Rightarrow> 'c coordinator" where
  "wt_delete r s =
     (let e = wt_entry_at s r; i = op_id (en_operation e); s1 = wt_update r (\<lambda>e. e\<lparr>en_expiry := False\<rparr>) s;
          s2 = (if map_of (wt_by_id s) i = Some r then s1\<lparr>wt_by_id := AList.delete i (wt_by_id s)\<rparr> else s1)
      in if map_of (wt_by_key s) (en_key e) = Some r
         then s2\<lparr>wt_by_key := AList.delete (en_key e) (wt_by_key s)\<rparr> else s2)"

definition stale_for_incident :: "wt_coordinates \<Rightarrow> 'c wt_entry \<Rightarrow> bool" where
  "stale_for_incident c e \<longleftrightarrow> \<not> in_progress (en_operation e) \<and> wc_recovery c \<noteq> None \<and>
     wc_recovery (en_coords e) \<noteq> wc_recovery c"

definition wt_create :: "wt_coordinates \<Rightarrow> string \<Rightarrow> 'c coordinator \<Rightarrow> 'c coordinator" where
  "wt_create c i s =
     (let r = length (wt_store s);
          e = \<lparr>en_coords = c, en_key = wt_key_of c, en_operation = InProgress i None,
               en_superseded = False, en_expiry = False, en_awaiting = True\<rparr>
      in s\<lparr>wt_store := wt_store s @ [e], wt_by_key := AList.update (wt_key_of c) r (wt_by_key s),
           wt_by_id := AList.update i r (wt_by_id s)\<rparr>)"

text \<open>The operation returned, and whether a runner request was started for the entry.\<close>

definition wt_start_or_join ::
  "wt_coordinates \<Rightarrow> string \<Rightarrow> 'c coordinator \<Rightarrow> 'c coordinator \<times> 'c wt_operation \<times> bool" where
  "wt_start_or_join c i s =
     (case map_of (wt_by_key s) (wt_key_of c) of
        None \<Rightarrow> (wt_create c i s, InProgress i None, True)
      | Some r \<Rightarrow>
          (let e = wt_entry_at s r in
           if stale_for_incident c e then (wt_create c i (wt_delete r s), InProgress i None, True)
           else (s, en_operation e, False)))"

text \<open>
  The entry's promise settles, once. An entry no longer registered under its identifier is left
  alone. \<open>outcome\<close> gives the terminal operation from the one it replaces.
\<close>

definition wt_settle ::
  "nat \<Rightarrow> ('c wt_operation \<Rightarrow> 'c wt_operation) \<Rightarrow> 'c coordinator \<Rightarrow> 'c coordinator" where
  "wt_settle r outcome s =
     (if length (wt_store s) \<le> r \<or> \<not> en_awaiting (wt_entry_at s r) then s
      else let s1 = wt_update r (\<lambda>e. e\<lparr>en_awaiting := False\<rparr>) s in
        if map_of (wt_by_id s) (op_id (en_operation (wt_entry_at s r))) \<noteq> Some r then s1
        else wt_update r (\<lambda>e. e\<lparr>en_operation := outcome (en_operation e), en_expiry := True\<rparr>) s1)"

definition completed_with :: "'c \<Rightarrow> 'c wt_operation \<Rightarrow> 'c wt_operation" where
  "completed_with c op = Completed (op_id op) c"

definition failed_with :: "string \<Rightarrow> 'c wt_operation \<Rightarrow> 'c wt_operation" where
  "failed_with err op =
     Failed (op_id op) err (case op of InProgress i p \<Rightarrow> (if p = Some '''' then None else p) | _ \<Rightarrow> None)"

definition wt_record_progress ::
  "string \<Rightarrow> string \<Rightarrow> string \<Rightarrow> string \<Rightarrow> 'c coordinator \<Rightarrow> 'c coordinator \<times> bool" where
  "wt_record_progress runner request session phase s =
     (case map_of (wt_by_id s) request of
        None \<Rightarrow> (s, False)
      | Some r \<Rightarrow>
          (let e = wt_entry_at s r in
           if \<not> in_progress (en_operation e) then (s, False)
           else if wc_runner (en_coords e) \<noteq> runner \<or> wc_session (en_coords e) \<noteq> session then (s, False)
           else if phase \<notin> set WORKTREE_PROGRESS_PHASES then (s, False)
           else (wt_update r (\<lambda>e. e\<lparr>en_operation := InProgress request (Some phase)\<rparr>) s, True)))"

definition wt_release_terminal :: "string \<Rightarrow> 'c coordinator \<Rightarrow> 'c coordinator" where
  "wt_release_terminal i s =
     (case map_of (wt_by_id s) i of
        None \<Rightarrow> s
      | Some r \<Rightarrow> if in_progress (en_operation (wt_entry_at s r)) then s else wt_delete r s)"

definition SELECTION_CHANGED :: string where
  "SELECTION_CHANGED = ''session worktree selection changed after creation completed''"

definition wt_invalidate_one :: "string \<Rightarrow> 'c coordinator \<Rightarrow> nat \<Rightarrow> 'c coordinator" where
  "wt_invalidate_one session s r =
     (let e = wt_entry_at s r in
      if wc_session (en_coords e) \<noteq> session \<or> \<not> is_completed (en_operation e) then s
      else wt_update r (\<lambda>e. e\<lparr>en_superseded := True,
             en_operation := Failed (op_id (en_operation e)) SELECTION_CHANGED None\<rparr>) s)"

definition wt_invalidate_session :: "string \<Rightarrow> 'c coordinator \<Rightarrow> 'c coordinator" where
  "wt_invalidate_session session s = foldl (wt_invalidate_one session) s (map snd (wt_by_id s))"

definition wt_expire :: "nat \<Rightarrow> 'c coordinator \<Rightarrow> 'c coordinator" where
  "wt_expire r s =
     (if r < length (wt_store s) \<and> en_expiry (wt_entry_at s r) then wt_delete r s else s)"

text \<open>A listing drops the completion's payload and empty optional fields.\<close>

definition truthy :: "string option \<Rightarrow> string option" where
  "truthy v = (if v = Some '''' then None else v)"

record wt_summary =
  su_operation :: "unit wt_operation"
  su_branch :: string
  su_base :: "string option"
  su_recovery :: "string option"

definition summary_of :: "'c wt_entry \<Rightarrow> wt_summary" where
  "summary_of e = \<lparr>su_operation = map_wt_operation (\<lambda>_. ()) (en_operation e),
     su_branch = wc_branch (en_coords e), su_base = truthy (wc_base (en_coords e)),
     su_recovery = truthy (wc_recovery (en_coords e))\<rparr>"

definition wt_list_for_session :: "string \<Rightarrow> 'c coordinator \<Rightarrow> wt_summary list" where
  "wt_list_for_session session s =
     map summary_of (filter (\<lambda>e. \<not> (wc_session (en_coords e) \<noteq> session \<or> en_superseded e))
       (map (wt_entry_at s) (map snd (wt_by_id s))))"

datatype 'c wt_event =
    StartOrJoin wt_coordinates string
  | Completes nat 'c
  | Fails nat string
  | Progress string string string string
  | Release string
  | Invalidate string
  | Expire nat

fun wt_step :: "'c coordinator \<Rightarrow> 'c wt_event \<Rightarrow> 'c coordinator" where
  "wt_step s (StartOrJoin c i) = fst (wt_start_or_join c i s)"
| "wt_step s (Completes r c) = wt_settle r (completed_with c) s"
| "wt_step s (Fails r err) = wt_settle r (failed_with err) s"
| "wt_step s (Progress runner request session phase) = fst (wt_record_progress runner request session phase s)"
| "wt_step s (Release i) = wt_release_terminal i s"
| "wt_step s (Invalidate session) = wt_invalidate_session session s"
| "wt_step s (Expire r) = wt_expire r s"

section \<open>Invariants\<close>

abbreviation entry_id :: "'c wt_entry \<Rightarrow> string" where
  "entry_id e \<equiv> op_id (en_operation e)"

text \<open>Whether one of the maps sends the entry's identifier, or its key, to its reference.\<close>

definition by_id :: "'c coordinator \<Rightarrow> nat \<Rightarrow> 'c wt_entry \<Rightarrow> bool" where
  "by_id s r e \<longleftrightarrow> map_of (wt_by_id s) (entry_id e) = Some r"

definition by_key :: "'c coordinator \<Rightarrow> nat \<Rightarrow> 'c wt_entry \<Rightarrow> bool" where
  "by_key s r e \<longleftrightarrow> map_of (wt_by_key s) (en_key e) = Some r"

text \<open>An entry whose request runs is in progress and owns its key; a timer is armed on terminal ones only.\<close>

definition entry_ok :: "'c coordinator \<Rightarrow> nat \<Rightarrow> 'c wt_entry \<Rightarrow> bool" where
  "entry_ok s r e \<longleftrightarrow>
     (en_awaiting e \<longrightarrow> in_progress (en_operation e) \<and> by_key s r e) \<and>
     (en_expiry e \<longrightarrow> \<not> in_progress (en_operation e))"

definition wt_good :: "'c coordinator \<Rightarrow> bool" where
  "wt_good s \<longleftrightarrow>
     jmap_ok (wt_by_key s) \<and> jmap_ok (wt_by_id s) \<and>
     (\<forall>k r. map_of (wt_by_key s) k = Some r \<longrightarrow> r < length (wt_store s) \<and> en_key (wt_store s ! r) = k) \<and>
     (\<forall>i r. map_of (wt_by_id s) i = Some r \<longrightarrow> r < length (wt_store s) \<and> entry_id (wt_store s ! r) = i) \<and>
     (\<forall>e\<in>set (wt_store s). en_key e = wt_key_of (en_coords e)) \<and>
     (\<forall>r < length (wt_store s). entry_ok s r (wt_store s ! r))"

text \<open>
  With fresh identifiers the two maps register the same entries, and each of them is either waiting
  for its request or terminal with a timer that will drop it.
\<close>

definition registered :: "'c coordinator \<Rightarrow> nat \<Rightarrow> bool" where
  "registered s r \<longleftrightarrow> r < length (wt_store s) \<and> by_id s r (wt_store s ! r)"

definition entry_tidy :: "'c coordinator \<Rightarrow> nat \<Rightarrow> 'c wt_entry \<Rightarrow> bool" where
  "entry_tidy s r e \<longleftrightarrow> (by_id s r e \<longleftrightarrow> by_key s r e) \<and>
     (if by_id s r e then (en_awaiting e \<longleftrightarrow> in_progress (en_operation e)) \<and> (en_expiry e \<longleftrightarrow> \<not> in_progress (en_operation e))
      else \<not> en_awaiting e \<and> \<not> en_expiry e)"

definition wt_tidy :: "'c coordinator \<Rightarrow> bool" where
  "wt_tidy s \<longleftrightarrow> wt_good s \<and> (\<forall>r < length (wt_store s). entry_tidy s r (wt_store s ! r))"

fun fresh_id :: "'c coordinator \<Rightarrow> 'c wt_event \<Rightarrow> bool" where
  "fresh_id s (StartOrJoin c i) \<longleftrightarrow> i \<notin> entry_id ` set (wt_store s)"
| "fresh_id s _ \<longleftrightarrow> True"

lemma by_simps [simp]:
  "by_id s r (e\<lparr>en_awaiting := b\<rparr>) = by_id s r e" "by_key s r (e\<lparr>en_awaiting := b\<rparr>) = by_key s r e"
  "by_id s r (e\<lparr>en_expiry := b\<rparr>) = by_id s r e" "by_key s r (e\<lparr>en_expiry := b\<rparr>) = by_key s r e"
  "by_id s r (e\<lparr>en_superseded := b\<rparr>) = by_id s r e" "by_key s r (e\<lparr>en_superseded := b\<rparr>) = by_key s r e"
  "op_id op = entry_id e \<Longrightarrow> by_id s r (e\<lparr>en_operation := op\<rparr>) = by_id s r e"
  "by_key s r (e\<lparr>en_operation := op\<rparr>) = by_key s r e"
  by (simp_all add: by_id_def by_key_def)

lemma wt_goodI:
  assumes "jmap_ok (wt_by_key s)" "jmap_ok (wt_by_id s)"
    and "\<And>k r. map_of (wt_by_key s) k = Some r \<Longrightarrow> r < length (wt_store s) \<and> en_key (wt_store s ! r) = k"
    and "\<And>i r. map_of (wt_by_id s) i = Some r \<Longrightarrow> r < length (wt_store s) \<and> entry_id (wt_store s ! r) = i"
    and "\<And>e. e \<in> set (wt_store s) \<Longrightarrow> en_key e = wt_key_of (en_coords e)"
    and "\<And>r. r < length (wt_store s) \<Longrightarrow> entry_ok s r (wt_store s ! r)"
  shows "wt_good s"
  unfolding wt_good_def using assms by blast

lemma wt_goodD:
  assumes "wt_good s"
  shows "jmap_ok (wt_by_key s)" "jmap_ok (wt_by_id s)"
    "\<And>k r. map_of (wt_by_key s) k = Some r \<Longrightarrow> r < length (wt_store s) \<and> en_key (wt_store s ! r) = k"
    "\<And>i r. map_of (wt_by_id s) i = Some r \<Longrightarrow> r < length (wt_store s) \<and> entry_id (wt_store s ! r) = i"
    "\<And>r. r < length (wt_store s) \<Longrightarrow> entry_ok s r (wt_store s ! r)"
    "\<And>e. e \<in> set (wt_store s) \<Longrightarrow> en_key e = wt_key_of (en_coords e)"
  using assms unfolding wt_good_def by blast+

lemma wt_tidyI:
  "wt_good s \<Longrightarrow> (\<And>r. r < length (wt_store s) \<Longrightarrow> entry_tidy s r (wt_store s ! r)) \<Longrightarrow> wt_tidy s"
  by (simp add: wt_tidy_def)

lemma wt_tidyD:
  "wt_tidy s \<Longrightarrow> wt_good s" "wt_tidy s \<Longrightarrow> r < length (wt_store s) \<Longrightarrow> entry_tidy s r (wt_store s ! r)"
  by (simp_all add: wt_tidy_def)

subsection \<open>The three primitive updates\<close>

declare map_of_eq_Some_iff [simp del]

lemma wt_update_simps [simp]:
  "length (wt_store (wt_update r f s)) = length (wt_store s)"
  "wt_by_key (wt_update r f s) = wt_by_key s" "wt_by_id (wt_update r f s) = wt_by_id s"
  "r < length (wt_store s) \<Longrightarrow> wt_store (wt_update r f s) ! r' = (if r' = r then f (wt_store s ! r) else wt_store s ! r')"
  by (auto simp: wt_update_def wt_entry_at_def)

lemma wt_update_entry [simp]:
  "entry_ok (wt_update r f s) = entry_ok s" "entry_tidy (wt_update r f s) = entry_tidy s"
  by (simp_all add: entry_ok_def[abs_def] entry_tidy_def[abs_def] by_id_def by_key_def)

lemma wt_update_good:
  assumes good: "wt_good s" and r: "r < length (wt_store s)"
    and same: "en_key (f (wt_store s ! r)) = en_key (wt_store s ! r)" "entry_id (f (wt_store s ! r)) = entry_id (wt_store s ! r)"
    and coords: "en_coords (f (wt_store s ! r)) = en_coords (wt_store s ! r)"
    and ok: "entry_ok s r (f (wt_store s ! r))"
  shows "wt_good (wt_update r f s)"
proof (rule wt_goodI)
  fix e assume "e \<in> set (wt_store (wt_update r f s))"
  then obtain r' where "r' < length (wt_store s)" "e = wt_store (wt_update r f s) ! r'"
    by (auto simp: in_set_conv_nth)
  then show "en_key e = wt_key_of (en_coords e)"
    using wt_goodD(6)[OF good, of "wt_store s ! r'"] wt_goodD(6)[OF good, of "wt_store s ! r"] r same coords by simp
next
  fix k r' assume "map_of (wt_by_key (wt_update r f s)) k = Some r'"
  then show "r' < length (wt_store (wt_update r f s)) \<and> en_key (wt_store (wt_update r f s) ! r') = k"
    using wt_goodD(3)[OF good, of k r'] r same by (cases "r' = r") simp_all
next
  fix i r' assume "map_of (wt_by_id (wt_update r f s)) i = Some r'"
  then show "r' < length (wt_store (wt_update r f s)) \<and> entry_id (wt_store (wt_update r f s) ! r') = i"
    using wt_goodD(4)[OF good, of i r'] r same by (cases "r' = r") simp_all
next
  fix r' assume "r' < length (wt_store (wt_update r f s))"
  then show "entry_ok (wt_update r f s) r' (wt_store (wt_update r f s) ! r')"
    using wt_goodD(5)[OF good, of r'] r ok by (cases "r' = r") simp_all
qed (simp_all add: wt_goodD(1,2)[OF good])

lemma wt_update_tidy:
  assumes "wt_tidy s" "r < length (wt_store s)" "en_key (f (wt_store s ! r)) = en_key (wt_store s ! r)"
    "entry_id (f (wt_store s ! r)) = entry_id (wt_store s ! r)"
    "en_coords (f (wt_store s ! r)) = en_coords (wt_store s ! r)" "entry_ok s r (f (wt_store s ! r))"
    "entry_tidy s r (f (wt_store s ! r))"
  shows "wt_tidy (wt_update r f s)"
  using assms wt_update_good[of s r f] by (intro wt_tidyI) (auto dest: wt_tidyD)

lemma map_of_drop_ref:
  "map_of (if map_of m i = Some r then AList.delete i m else m) x = Some r' \<longleftrightarrow>
     map_of m x = Some r' \<and> \<not> (x = i \<and> r' = r)"
  by (auto simp: delete_conv' fun_upd_def split: if_splits)

lemma wt_delete_fields:
  "length (wt_store (wt_delete r s)) = length (wt_store s)"
  "r < length (wt_store s) \<Longrightarrow>
     wt_store (wt_delete r s) ! r' = (if r' = r then (wt_store s ! r)\<lparr>en_expiry := False\<rparr> else wt_store s ! r')"
  "map_of (wt_by_id (wt_delete r s)) x = Some r' \<longleftrightarrow>
     map_of (wt_by_id s) x = Some r' \<and> \<not> (x = entry_id (wt_store s ! r) \<and> r' = r)"
  "map_of (wt_by_key (wt_delete r s)) y = Some r' \<longleftrightarrow>
     map_of (wt_by_key s) y = Some r' \<and> \<not> (y = en_key (wt_store s ! r) \<and> r' = r)"
  using map_of_drop_ref[of "wt_by_id s" "entry_id (wt_store s ! r)" r x r']
    map_of_drop_ref[of "wt_by_key s" "en_key (wt_store s ! r)" r y r']
  by (simp_all add: wt_delete_def Let_def wt_entry_at_def split: if_splits)

lemma wt_delete_ok_maps: "wt_good s \<Longrightarrow> jmap_ok (wt_by_key (wt_delete r s)) \<and> jmap_ok (wt_by_id (wt_delete r s))"
  by (simp add: wt_delete_def Let_def wt_good_def distinct_delete)

lemma wt_delete_other:
  assumes "r' \<noteq> r"
  shows "entry_ok (wt_delete r s) r' e = entry_ok s r' e" "entry_tidy (wt_delete r s) r' e = entry_tidy s r' e"
  using assms by (simp_all add: entry_ok_def entry_tidy_def by_id_def by_key_def wt_delete_fields)

lemma wt_delete_self:
  "\<not> by_id (wt_delete r s) r (wt_store s ! r)" "\<not> by_key (wt_delete r s) r (wt_store s ! r)"
  by (simp_all add: by_id_def by_key_def wt_delete_fields)

lemma wt_delete_good:
  assumes good: "wt_good s" and r: "r < length (wt_store s)" and fin: "\<not> in_progress (en_operation (wt_store s ! r))"
  shows "wt_good (wt_delete r s)"
proof (rule wt_goodI)
  fix r' assume "r' < length (wt_store (wt_delete r s))"
  then have ok: "entry_ok s r' (wt_store s ! r')" using wt_goodD(5)[OF good] by (simp add: wt_delete_fields)
  show "entry_ok (wt_delete r s) r' (wt_store (wt_delete r s) ! r')"
  proof (cases "r' = r")
    case True
    with ok fin r show ?thesis by (auto simp: entry_ok_def wt_delete_fields)
  next
    case False
    with ok r show ?thesis by (simp add: wt_delete_other wt_delete_fields)
  qed
next
  fix e assume "e \<in> set (wt_store (wt_delete r s))"
  then obtain r' where "r' < length (wt_store s)" "e = wt_store (wt_delete r s) ! r'"
    by (auto simp: in_set_conv_nth wt_delete_fields)
  then show "en_key e = wt_key_of (en_coords e)"
    using wt_goodD(6)[OF good, of "wt_store s ! r'"] r by (cases "r' = r") (simp_all add: wt_delete_fields)
next
  show "jmap_ok (wt_by_key (wt_delete r s))" "jmap_ok (wt_by_id (wt_delete r s))"
    using wt_delete_ok_maps[OF good] by blast+
next
  fix k r' assume "map_of (wt_by_key (wt_delete r s)) k = Some r'"
  then show "r' < length (wt_store (wt_delete r s)) \<and> en_key (wt_store (wt_delete r s) ! r') = k"
    using wt_goodD(3)[OF good, of k r'] r by (auto simp: wt_delete_fields)
next
  fix i r' assume "map_of (wt_by_id (wt_delete r s)) i = Some r'"
  then show "r' < length (wt_store (wt_delete r s)) \<and> entry_id (wt_store (wt_delete r s) ! r') = i"
    using wt_goodD(4)[OF good, of i r'] r by (auto simp: wt_delete_fields)
qed

lemma wt_delete_tidy:
  assumes tidy: "wt_tidy s" and r: "r < length (wt_store s)" and fin: "\<not> in_progress (en_operation (wt_store s ! r))"
  shows "wt_tidy (wt_delete r s)"
proof (rule wt_tidyI)
  note good = wt_tidyD(1)[OF tidy]
  show "wt_good (wt_delete r s)" using good r fin by (rule wt_delete_good)
  fix r' assume r': "r' < length (wt_store (wt_delete r s))"
  show "entry_tidy (wt_delete r s) r' (wt_store (wt_delete r s) ! r')"
  proof (cases "r' = r")
    case True
    moreover have "\<not> en_awaiting (wt_store s ! r)" using wt_goodD(5)[OF good r] fin by (auto simp: entry_ok_def)
    ultimately show ?thesis using r fin by (simp add: entry_tidy_def wt_delete_fields wt_delete_self)
  next
    case False
    with wt_tidyD(2)[OF tidy, of r'] r r' show ?thesis by (simp add: wt_delete_other wt_delete_fields)
  qed
qed

lemma wt_create_fields:
  "length (wt_store (wt_create c i s)) = Suc (length (wt_store s))"
  "wt_store (wt_create c i s) ! length (wt_store s) =
     \<lparr>en_coords = c, en_key = wt_key_of c, en_operation = InProgress i None,
      en_superseded = False, en_expiry = False, en_awaiting = True\<rparr>"
  "r < length (wt_store s) \<Longrightarrow> wt_store (wt_create c i s) ! r = wt_store s ! r"
  "map_of (wt_by_key (wt_create c i s)) = (map_of (wt_by_key s))(wt_key_of c \<mapsto> length (wt_store s))"
  "map_of (wt_by_id (wt_create c i s)) = (map_of (wt_by_id s))(i \<mapsto> length (wt_store s))"
  by (simp_all add: wt_create_def Let_def nth_append update_conv')

lemma wt_create_other:
  assumes "r < length (wt_store s)" "map_of (wt_by_key s) (wt_key_of c) = None"
  shows "entry_ok (wt_create c i s) r e = entry_ok s r e"
    "entry_id e \<noteq> i \<Longrightarrow> entry_tidy (wt_create c i s) r e = entry_tidy s r e"
proof -
  have "map_of (wt_by_key (wt_create c i s)) k = Some r \<longleftrightarrow> map_of (wt_by_key s) k = Some r" for k
    using assms by (simp add: wt_create_fields)
  then show "entry_ok (wt_create c i s) r e = entry_ok s r e"
    "entry_id e \<noteq> i \<Longrightarrow> entry_tidy (wt_create c i s) r e = entry_tidy s r e"
    by (simp_all add: entry_ok_def entry_tidy_def by_id_def by_key_def wt_create_fields(5))
qed

lemma wt_create_good:
  assumes good: "wt_good s" and new: "map_of (wt_by_key s) (wt_key_of c) = None"
  shows "wt_good (wt_create c i s)"
proof (rule wt_goodI)
  fix r assume "r < length (wt_store (wt_create c i s))"
  then consider "r < length (wt_store s)" | "r = length (wt_store s)" by (auto simp: wt_create_fields less_Suc_eq)
  then show "entry_ok (wt_create c i s) r (wt_store (wt_create c i s) ! r)"
  proof cases
    case 1
    with wt_goodD(5)[OF good 1] new show ?thesis by (simp add: wt_create_other wt_create_fields(3))
  qed (simp add: entry_ok_def by_key_def wt_create_fields)
next
  fix e assume "e \<in> set (wt_store (wt_create c i s))"
  then show "en_key e = wt_key_of (en_coords e)"
    using wt_goodD(6)[OF good, of e] by (auto simp: wt_create_def Let_def)
next
  show "jmap_ok (wt_by_key (wt_create c i s))" "jmap_ok (wt_by_id (wt_create c i s))"
    using wt_goodD(1,2)[OF good] by (simp_all add: wt_create_def Let_def distinct_update)
next
  fix k r assume "map_of (wt_by_key (wt_create c i s)) k = Some r"
  then show "r < length (wt_store (wt_create c i s)) \<and> en_key (wt_store (wt_create c i s) ! r) = k"
    using wt_goodD(3)[OF good, of k r] by (auto simp: wt_create_fields split: if_splits)
next
  fix j r assume "map_of (wt_by_id (wt_create c i s)) j = Some r"
  then show "r < length (wt_store (wt_create c i s)) \<and> entry_id (wt_store (wt_create c i s) ! r) = j"
    using wt_goodD(4)[OF good, of j r] by (auto simp: wt_create_fields split: if_splits)
qed

lemma wt_create_tidy:
  assumes tidy: "wt_tidy s" and new: "map_of (wt_by_key s) (wt_key_of c) = None"
    and fresh: "i \<notin> entry_id ` set (wt_store s)"
  shows "wt_tidy (wt_create c i s)"
proof (rule wt_tidyI)
  show "wt_good (wt_create c i s)" using wt_tidyD(1)[OF tidy] new by (rule wt_create_good)
  fix r assume "r < length (wt_store (wt_create c i s))"
  then consider "r < length (wt_store s)" | "r = length (wt_store s)" by (auto simp: wt_create_fields less_Suc_eq)
  then show "entry_tidy (wt_create c i s) r (wt_store (wt_create c i s) ! r)"
  proof cases
    case 1
    then have "entry_id (wt_store s ! r) \<noteq> i" using fresh by (metis image_eqI nth_mem)
    with 1 new wt_tidyD(2)[OF tidy 1] show ?thesis by (simp add: wt_create_other wt_create_fields(3))
  qed (simp add: entry_tidy_def by_id_def by_key_def wt_create_fields)
qed

subsection \<open>Every operation\<close>

lemma wt_delete_frees_key:
  assumes "wt_good s" "map_of (wt_by_key s) k = Some r"
  shows "map_of (wt_by_key (wt_delete r s)) k = None"
proof -
  have "en_key (wt_store s ! r) = k" using wt_goodD(3)[OF assms] by simp
  then have "map_of (wt_by_key (wt_delete r s)) k \<noteq> Some r'" for r'
    using assms(2) by (simp add: wt_delete_fields)
  then show ?thesis using option.exhaust_sel by blast
qed

lemma wt_delete_ids: "r < length (wt_store s) \<Longrightarrow> entry_id ` set (wt_store (wt_delete r s)) = entry_id ` set (wt_store s)"
proof -
  assume r: "r < length (wt_store s)"
  have "wt_store (wt_delete r s) = (wt_store s)[r := (wt_store s ! r)\<lparr>en_expiry := False\<rparr>]"
    by (simp add: wt_delete_def Let_def wt_update_def wt_entry_at_def)
  then have "map entry_id (wt_store (wt_delete r s)) = map entry_id (wt_store s)"
    using map_list_update_same[of entry_id "(wt_store s ! r)\<lparr>en_expiry := False\<rparr>" "wt_store s" r] by simp
  then show ?thesis by (metis list.set_map)
qed

lemma wt_start_or_join_keeps:
  assumes "wt_good s"
  shows "wt_good (fst (wt_start_or_join c i s))"
    "wt_tidy s \<Longrightarrow> i \<notin> entry_id ` set (wt_store s) \<Longrightarrow> wt_tidy (fst (wt_start_or_join c i s))"
proof -
  consider "map_of (wt_by_key s) (wt_key_of c) = None"
    | r where "map_of (wt_by_key s) (wt_key_of c) = Some r" "stale_for_incident c (wt_entry_at s r)"
    | r where "map_of (wt_by_key s) (wt_key_of c) = Some r" "\<not> stale_for_incident c (wt_entry_at s r)"
    by blast
  then have "wt_good (fst (wt_start_or_join c i s)) \<and>
    (wt_tidy s \<longrightarrow> i \<notin> entry_id ` set (wt_store s) \<longrightarrow> wt_tidy (fst (wt_start_or_join c i s)))"
  proof cases
    case (2 r)
    have r: "r < length (wt_store s)" using wt_goodD(3)[OF assms 2(1)] by simp
    have fin: "\<not> in_progress (en_operation (wt_store s ! r))"
      using 2(2) by (simp add: stale_for_incident_def wt_entry_at_def)
    note free = wt_delete_frees_key[OF assms 2(1)]
    from 2 show ?thesis
      using wt_create_good[OF wt_delete_good[OF assms r fin] free]
        wt_create_tidy[OF wt_delete_tidy[OF _ r fin] free] wt_delete_ids[OF r]
      by (simp add: wt_start_or_join_def)
  qed (use assms wt_create_good wt_create_tidy in \<open>auto simp: wt_start_or_join_def\<close>)
  then show "wt_good (fst (wt_start_or_join c i s))"
    "wt_tidy s \<Longrightarrow> i \<notin> entry_id ` set (wt_store s) \<Longrightarrow> wt_tidy (fst (wt_start_or_join c i s))" by blast+
qed

text \<open>An outcome that settles an operation keeps its identifier and is terminal.\<close>

definition terminal_outcome :: "('c wt_operation \<Rightarrow> 'c wt_operation) \<Rightarrow> bool" where
  "terminal_outcome f \<longleftrightarrow> (\<forall>op. op_id (f op) = op_id op \<and> \<not> in_progress (f op))"

lemma terminal_outcomes [simp]: "terminal_outcome (completed_with c)" "terminal_outcome (failed_with err)"
  by (simp_all add: terminal_outcome_def completed_with_def failed_with_def)

lemma wt_settle_cases:
  obtains "wt_settle r f s = s"
  | "r < length (wt_store s)" "en_awaiting (wt_store s ! r)" "\<not> registered s r"
    "wt_settle r f s = wt_update r (\<lambda>e. e\<lparr>en_awaiting := False\<rparr>) s"
  | "r < length (wt_store s)" "en_awaiting (wt_store s ! r)" "registered s r"
    "wt_settle r f s = wt_update r (\<lambda>e. e\<lparr>en_awaiting := False, en_operation := f (en_operation e), en_expiry := True\<rparr>) s"
  by (cases "length (wt_store s) \<le> r \<or> \<not> en_awaiting (wt_store s ! r)"; cases "registered s r")
     (auto simp: wt_settle_def Let_def wt_entry_at_def registered_def by_id_def wt_update_def)

lemma wt_settle_keeps:
  assumes "wt_good s" "terminal_outcome f"
  shows "wt_good (wt_settle r f s)" "wt_tidy s \<Longrightarrow> wt_tidy (wt_settle r f s)"
proof -
  have "wt_good (wt_settle r f s) \<and> (wt_tidy s \<longrightarrow> wt_tidy (wt_settle r f s))"
  proof (rule wt_settle_cases[of r f s])
    assume r: "r < length (wt_store s)" and reg: "\<not> registered s r"
      and eq: "wt_settle r f s = wt_update r (\<lambda>e. e\<lparr>en_awaiting := False\<rparr>) s"
    let ?e = "(wt_store s ! r)\<lparr>en_awaiting := False\<rparr>"
    have ok: "entry_ok s r ?e" using wt_goodD(5)[OF assms(1) r] by (simp add: entry_ok_def)
    moreover have "wt_tidy s \<Longrightarrow> entry_tidy s r ?e"
      using wt_tidyD(2)[of s r] r reg by (auto simp: entry_tidy_def registered_def)
    ultimately show ?thesis unfolding eq
      using wt_update_good[OF assms(1) r, of "\<lambda>e. e\<lparr>en_awaiting := False\<rparr>"]
        wt_update_tidy[OF _ r, of "\<lambda>e. e\<lparr>en_awaiting := False\<rparr>"] by simp
  next
    assume r: "r < length (wt_store s)" and reg: "registered s r"
      and eq: "wt_settle r f s =
        wt_update r (\<lambda>e. e\<lparr>en_awaiting := False, en_operation := f (en_operation e), en_expiry := True\<rparr>) s"
    let ?f = "\<lambda>e. e\<lparr>en_awaiting := False, en_operation := f (en_operation e), en_expiry := True\<rparr>"
    have f: "op_id (f op) = op_id op" "\<not> in_progress (f op)" for op
      using assms(2) by (simp_all add: terminal_outcome_def)
    have ok: "entry_ok s r (?f (wt_store s ! r))" using wt_goodD(5)[OF assms(1) r] f by (simp add: entry_ok_def)
    moreover have "wt_tidy s \<Longrightarrow> entry_tidy s r (?f (wt_store s ! r))"
      using wt_tidyD(2)[of s r] r reg f by (simp add: entry_tidy_def registered_def)
    ultimately show ?thesis unfolding eq
      using wt_update_good[OF assms(1) r, of ?f] wt_update_tidy[OF _ r, of ?f] f by simp
  qed (simp add: assms)
  then show "wt_good (wt_settle r f s)" "wt_tidy s \<Longrightarrow> wt_tidy (wt_settle r f s)" by blast+
qed

lemma wt_record_progress_cases:
  obtains "fst (wt_record_progress runner req session phase s) = s"
  | r where "map_of (wt_by_id s) req = Some r" "in_progress (en_operation (wt_store s ! r))"
    "fst (wt_record_progress runner req session phase s) =
       wt_update r (\<lambda>e. e\<lparr>en_operation := InProgress req (Some phase)\<rparr>) s"
proof (cases "map_of (wt_by_id s) req")
  case (Some r)
  let ?ok = "in_progress (en_operation (wt_store s ! r)) \<and> wc_runner (en_coords (wt_store s ! r)) = runner \<and>
    wc_session (en_coords (wt_store s ! r)) = session \<and> phase \<in> set WORKTREE_PROGRESS_PHASES"
  have "fst (wt_record_progress runner req session phase s) =
      (if ?ok then wt_update r (\<lambda>e. e\<lparr>en_operation := InProgress req (Some phase)\<rparr>) s else s)"
    by (simp add: wt_record_progress_def Some wt_entry_at_def Let_def)
  then show ?thesis using that(1) that(2)[OF Some] by (cases ?ok) auto
qed (use that(1) in \<open>simp add: wt_record_progress_def\<close>)

lemma wt_record_progress_keeps:
  assumes "wt_good s"
  shows "wt_good (fst (wt_record_progress runner req session phase s))"
    "wt_tidy s \<Longrightarrow> wt_tidy (fst (wt_record_progress runner req session phase s))"
proof -
  let ?s = "fst (wt_record_progress runner req session phase s)"
  have "wt_good ?s \<and> (wt_tidy s \<longrightarrow> wt_tidy ?s)"
  proof (rule wt_record_progress_cases[of runner req session phase s])
    fix r assume some: "map_of (wt_by_id s) req = Some r" and ip: "in_progress (en_operation (wt_store s ! r))"
      and eq: "?s = wt_update r (\<lambda>e. e\<lparr>en_operation := InProgress req (Some phase)\<rparr>) s"
    let ?f = "\<lambda>e. e\<lparr>en_operation := InProgress req (Some phase)\<rparr>"
    from wt_goodD(4)[OF assms some] have r: "r < length (wt_store s)" and i: "entry_id (wt_store s ! r) = req" by simp_all
    have "entry_ok s r (?f (wt_store s ! r))" using wt_goodD(5)[OF assms r] ip by (simp add: entry_ok_def)
    moreover have "wt_tidy s \<Longrightarrow> entry_tidy s r (?f (wt_store s ! r))"
      using wt_tidyD(2)[of s r] r ip i by (simp add: entry_tidy_def)
    ultimately show ?thesis unfolding eq
      using wt_update_good[OF assms r, of ?f] wt_update_tidy[OF _ r, of ?f] i by simp
  qed (simp add: assms)
  then show "wt_good ?s" "wt_tidy s \<Longrightarrow> wt_tidy ?s" by blast+
qed

lemma wt_release_keeps:
  assumes "wt_good s"
  shows "wt_good (wt_release_terminal i s)" "wt_tidy s \<Longrightarrow> wt_tidy (wt_release_terminal i s)"
  using assms wt_goodD(4)[OF assms, of i] wt_delete_good[OF assms] wt_delete_tidy[of s]
  by (auto simp: wt_release_terminal_def wt_entry_at_def split: option.splits)

lemma wt_expire_keeps:
  assumes "wt_good s"
  shows "wt_good (wt_expire r s)" "wt_tidy s \<Longrightarrow> wt_tidy (wt_expire r s)"
proof -
  have "r < length (wt_store s) \<Longrightarrow> en_expiry (wt_store s ! r) \<Longrightarrow> \<not> in_progress (en_operation (wt_store s ! r))"
    using wt_goodD(5)[OF assms, of r] by (simp add: entry_ok_def)
  then show "wt_good (wt_expire r s)" "wt_tidy s \<Longrightarrow> wt_tidy (wt_expire r s)"
    using assms by (auto simp: wt_expire_def wt_entry_at_def wt_delete_good wt_delete_tidy)
qed

lemma wt_invalidate_one_keeps:
  assumes "wt_good s" "r < length (wt_store s)"
  shows "wt_good (wt_invalidate_one session s r)" "wt_tidy s \<Longrightarrow> wt_tidy (wt_invalidate_one session s r)"
    "length (wt_store (wt_invalidate_one session s r)) = length (wt_store s)"
proof -
  let ?f = "\<lambda>e. e\<lparr>en_superseded := True, en_operation := Failed (entry_id e) SELECTION_CHANGED None\<rparr>"
  have c: "is_completed op \<Longrightarrow> \<not> in_progress op" for op :: "'a wt_operation" by (cases op) auto
  have ok: "is_completed (en_operation (wt_store s ! r)) \<Longrightarrow> entry_ok s r (?f (wt_store s ! r))"
    using wt_goodD(5)[OF assms] c by (auto simp: entry_ok_def)
  have tidy: "is_completed (en_operation (wt_store s ! r)) \<Longrightarrow> wt_tidy s \<Longrightarrow> entry_tidy s r (?f (wt_store s ! r))"
    using wt_tidyD(2)[of s r] assms(2) c[of "en_operation (wt_store s ! r)"] by (simp add: entry_tidy_def)
  show "wt_good (wt_invalidate_one session s r)" "wt_tidy s \<Longrightarrow> wt_tidy (wt_invalidate_one session s r)"
    "length (wt_store (wt_invalidate_one session s r)) = length (wt_store s)"
    using assms ok tidy wt_update_good[OF assms, of ?f] wt_update_tidy[OF _ assms(2), of ?f]
    by (simp_all add: wt_invalidate_one_def Let_def wt_entry_at_def)
qed

lemma wt_invalidate_fold_keeps:
  assumes "wt_good s" "\<forall>r\<in>set rs. r < length (wt_store s)"
  shows "wt_good (foldl (wt_invalidate_one session) s rs)"
    "wt_tidy s \<Longrightarrow> wt_tidy (foldl (wt_invalidate_one session) s rs)"
proof -
  have "wt_good (foldl (wt_invalidate_one session) s rs) \<and>
    (wt_tidy s \<longrightarrow> wt_tidy (foldl (wt_invalidate_one session) s rs))"
    using assms by (induction rs arbitrary: s) (simp_all add: wt_invalidate_one_keeps)
  then show "wt_good (foldl (wt_invalidate_one session) s rs)"
    "wt_tidy s \<Longrightarrow> wt_tidy (foldl (wt_invalidate_one session) s rs)" by blast+
qed

lemma wt_by_id_refs: "wt_good s \<Longrightarrow> \<forall>r\<in>set (map snd (wt_by_id s)). r < length (wt_store s)"
  using wt_goodD(4)[of s] map_of_is_SomeI[OF wt_goodD(2), of s] by fastforce

lemma wt_step_good: "wt_good s \<Longrightarrow> wt_good (wt_step s e)"
  by (cases e) (simp_all add: wt_start_or_join_keeps wt_settle_keeps wt_record_progress_keeps
      wt_release_keeps wt_expire_keeps wt_invalidate_session_def wt_invalidate_fold_keeps wt_by_id_refs)

lemma wt_step_tidy: "wt_tidy s \<Longrightarrow> fresh_id s e \<Longrightarrow> wt_tidy (wt_step s e)"
  using wt_tidyD(1)[of s]
  by (cases e) (simp_all add: wt_start_or_join_keeps wt_settle_keeps wt_record_progress_keeps
      wt_release_keeps wt_expire_keeps wt_invalidate_session_def wt_invalidate_fold_keeps wt_by_id_refs)

interpretation wt: event_machine wt_step wt_good
  by unfold_locales (rule wt_step_good)

interpretation wt_fresh: guarded_machine wt_step wt_tidy fresh_id
  by unfold_locales (rule wt_step_tidy)

lemma new_coordinator_tidy [simp]: "wt_tidy new_coordinator" "wt_good new_coordinator"
  by (simp_all add: wt_tidy_def wt_good_def new_coordinator_def)

section \<open>How an operation evolves\<close>

text \<open>
  The only ways the operation of an entry changes: while in progress it may do anything but change
  identifier; a completed one may only turn into the failure of a superseded result; a failure stays.
\<close>

fun evolves :: "'c wt_operation \<Rightarrow> 'c wt_operation \<Rightarrow> bool" where
  "evolves (InProgress i p) b \<longleftrightarrow> op_id b = i"
| "evolves (Completed i c) b \<longleftrightarrow> b = Completed i c \<or> b = Failed i SELECTION_CHANGED None"
| "evolves (Failed i err p) b \<longleftrightarrow> b = Failed i err p"

lemma evolves_refl [simp]: "evolves a a"
  by (cases a) auto

lemma evolves_trans: "evolves a b \<Longrightarrow> evolves b c \<Longrightarrow> evolves a c"
  by (cases a; cases b) auto

lemma evolves_in_progress: "in_progress a \<Longrightarrow> op_id b = op_id a \<Longrightarrow> evolves a b"
  by (cases a) auto

lemma evolves_superseded: "is_completed a \<Longrightarrow> evolves a (Failed (op_id a) SELECTION_CHANGED None)"
  by (cases a) auto

definition store_evolves :: "'c coordinator \<Rightarrow> 'c coordinator \<Rightarrow> bool" where
  "store_evolves s t \<longleftrightarrow> length (wt_store s) \<le> length (wt_store t) \<and>
     (\<forall>r < length (wt_store s). evolves (en_operation (wt_store s ! r)) (en_operation (wt_store t ! r)) \<and>
        en_coords (wt_store t ! r) = en_coords (wt_store s ! r))"

lemma store_evolves_refl [simp]: "store_evolves s s"
  by (simp add: store_evolves_def)

lemma store_evolves_trans: "store_evolves s t \<Longrightarrow> store_evolves t u \<Longrightarrow> store_evolves s u"
  unfolding store_evolves_def using evolves_trans by fastforce

lemma store_evolves_update:
  assumes "r < length (wt_store s)" "evolves (en_operation (wt_store s ! r)) (en_operation (f (wt_store s ! r)))"
    "en_coords (f (wt_store s ! r)) = en_coords (wt_store s ! r)"
  shows "store_evolves s (wt_update r f s)"
  using assms by (simp add: store_evolves_def)

lemma store_evolves_delete: "r < length (wt_store s) \<Longrightarrow> store_evolves s (wt_delete r s)"
  by (simp add: store_evolves_def wt_delete_fields)

lemma store_evolves_create: "store_evolves s (wt_create c i s)"
  by (simp add: store_evolves_def wt_create_fields)

lemma store_evolves_invalidate:
  "\<forall>r\<in>set rs. r < length (wt_store s) \<Longrightarrow> store_evolves s (foldl (wt_invalidate_one session) s rs)"
proof (induction rs arbitrary: s)
  case (Cons r rs)
  let ?t = "wt_invalidate_one session s r"
  have st: "store_evolves s ?t"
    using Cons.prems by (auto simp: wt_invalidate_one_def Let_def wt_entry_at_def evolves_superseded intro!: store_evolves_update)
  have "length (wt_store ?t) = length (wt_store s)"
    by (simp add: wt_invalidate_one_def Let_def)
  then show ?case using Cons store_evolves_trans[OF st] by simp
qed simp

lemma wt_settle_evolves:
  assumes "wt_good s" "terminal_outcome f"
  shows "store_evolves s (wt_settle r f s)"
proof (rule wt_settle_cases[of r f s])
  assume r: "r < length (wt_store s)" and aw: "en_awaiting (wt_store s ! r)"
    and eq: "wt_settle r f s =
      wt_update r (\<lambda>e. e\<lparr>en_awaiting := False, en_operation := f (en_operation e), en_expiry := True\<rparr>) s"
  have "in_progress (en_operation (wt_store s ! r))" using wt_goodD(5)[OF assms(1) r] aw by (simp add: entry_ok_def)
  then show ?thesis unfolding eq
    using assms(2) r by (intro store_evolves_update) (auto simp: terminal_outcome_def evolves_in_progress)
qed (simp_all add: store_evolves_update)

lemma wt_record_progress_evolves:
  assumes "wt_good s"
  shows "store_evolves s (fst (wt_record_progress runner req session phase s))"
proof (rule wt_record_progress_cases[of runner req session phase s])
  fix r assume some: "map_of (wt_by_id s) req = Some r" and ip: "in_progress (en_operation (wt_store s ! r))"
    and eq: "fst (wt_record_progress runner req session phase s) =
       wt_update r (\<lambda>e. e\<lparr>en_operation := InProgress req (Some phase)\<rparr>) s"
  show ?thesis unfolding eq
    using wt_goodD(4)[OF assms some] ip by (intro store_evolves_update) (auto simp: evolves_in_progress)
qed simp

lemma wt_step_evolves: "wt_good s \<Longrightarrow> store_evolves s (wt_step s e)"
proof (cases e)
  case (StartOrJoin c i)
  assume good: "wt_good s"
  have "store_evolves s (wt_create c i (wt_delete r s))" if "map_of (wt_by_key s) (wt_key_of c) = Some r" for r
    using wt_goodD(3)[OF good that] store_evolves_trans[OF store_evolves_delete store_evolves_create] by blast
  with StartOrJoin show ?thesis by (simp add: wt_start_or_join_def Let_def store_evolves_create split: option.splits)
next
  case (Release i)
  assume good: "wt_good s"
  with Release show ?thesis using wt_goodD(4)[OF good, of i]
    by (auto simp: wt_release_terminal_def store_evolves_delete split: option.splits)
next
  case (Invalidate session)
  assume "wt_good s"
  with Invalidate show ?thesis
    by (simp add: wt_invalidate_session_def store_evolves_invalidate wt_by_id_refs)
next
  case (Expire r)
  then show ?thesis by (simp add: wt_expire_def store_evolves_delete)
qed (simp_all add: wt_settle_evolves wt_record_progress_evolves)

lemma wt_run_evolves: "wt_good s \<Longrightarrow> store_evolves s (foldl wt_step s es)"
proof (induction es arbitrary: s)
  case (Cons e es)
  then show ?case using store_evolves_trans[OF wt_step_evolves] wt_step_good by simp blast
qed simp

section \<open>Properties\<close>

text \<open>
  C22: A create is never duplicated. In every reachable state, even if identifiers collide, the
  runner requests still running have pairwise different coordinates, so a retried request can only
  join the one in flight.
\<close>

theorem running_creates_have_distinct_coordinates:
  "distinct (map (wt_key_of \<circ> en_coords) (filter en_awaiting (wt_store (foldl wt_step new_coordinator es))))"
proof -
  define s where "s = foldl wt_step (new_coordinator :: 'a coordinator) es"
  have good: "wt_good s" unfolding s_def by (rule wt.run_good) simp
  have awaiting: "map_of (wt_by_key s) (wt_key_of (en_coords (wt_store s ! r))) = Some r"
    if "r < length (wt_store s)" "en_awaiting (wt_store s ! r)" for r
    using wt_goodD(5)[OF good that(1)] wt_goodD(6)[OF good, of "wt_store s ! r"] that
    by (simp add: entry_ok_def by_key_def)
  have "i = j" if "i < length (wt_store s)" "j < length (wt_store s)" "en_awaiting (wt_store s ! i)"
      "en_awaiting (wt_store s ! j)" "(wt_key_of \<circ> en_coords) (wt_store s ! i) = (wt_key_of \<circ> en_coords) (wt_store s ! j)" for i j
    using awaiting[OF that(1,3)] awaiting[OF that(2,4)] that(5) by (metis comp_apply option.inject)
  then show ?thesis unfolding s_def by (rule distinct_map_filter)
qed

text \<open>
  Results are stable. From any reachable state on, through any further events, an entry keeps
  its coordinates and identifier; an operation that failed keeps that failure, and a completed one
  keeps its result except that a later selection may turn it into the superseded failure.
\<close>

theorem terminal_results_are_stable:
  assumes "s = foldl wt_step new_coordinator es" and "r < length (wt_store s)"
  shows "let e = wt_entry_at s r; e' = wt_entry_at (foldl wt_step s es') r in
    evolves (en_operation e) (en_operation e') \<and> en_coords e' = en_coords e"
proof -
  have "wt_good s" unfolding assms(1) by (rule wt.run_good) simp
  from wt_run_evolves[OF this, of es'] assms(2) show ?thesis
    by (simp add: store_evolves_def wt_entry_at_def Let_def)
qed

text \<open>
  Nothing is stranded. When the identifiers handed out are fresh, both maps register exactly the
  same entries in every reachable state, and each registered entry either waits for its running
  request or is terminal with an armed timer that will drop it; no other entry waits or has a timer.
\<close>

theorem registered_entries_settle_or_expire:
  assumes "enabled_run wt_step fresh_id new_coordinator es" and "s = foldl wt_step new_coordinator es"
    and "r < length (wt_store s)"
  shows "let e = wt_entry_at s r; registered = (map_of (wt_by_id s) (op_id (en_operation e)) = Some r) in
    (registered \<longleftrightarrow> map_of (wt_by_key s) (wt_key_of (en_coords e)) = Some r) \<and>
    (en_awaiting e \<longleftrightarrow> registered \<and> in_progress (en_operation e)) \<and>
    (en_expiry e \<longleftrightarrow> registered \<and> \<not> in_progress (en_operation e))"
proof -
  have tidy: "wt_tidy s" unfolding assms(2) using assms(1) by (intro wt_fresh.enabled_run_good) simp
  have "en_key (wt_store s ! r) = wt_key_of (en_coords (wt_store s ! r))"
    using wt_goodD(6)[OF wt_tidyD(1)[OF tidy]] assms(3) by simp
  moreover have "by_id s r (wt_store s ! r) \<longleftrightarrow> by_key s r (wt_store s ! r)"
    "en_awaiting (wt_store s ! r) \<longleftrightarrow> by_id s r (wt_store s ! r) \<and> in_progress (en_operation (wt_store s ! r))"
    "en_expiry (wt_store s ! r) \<longleftrightarrow> by_id s r (wt_store s ! r) \<and> \<not> in_progress (en_operation (wt_store s ! r))"
    using wt_tidyD(2)[OF tidy assms(3)] unfolding entry_tidy_def by (auto split: if_splits)
  ultimately show ?thesis by (simp only: Let_def wt_entry_at_def by_id_def by_key_def)
qed

section \<open>Witnesses\<close>

text \<open>
  Two requests for one branch, progress, a completion, a later selection; another branch still runs.
\<close>

definition demo_coords :: "string \<Rightarrow> wt_coordinates" where
  "demo_coords b = \<lparr>wc_runner = ''r1'', wc_session = ''s1'', wc_branch = b, wc_base = None, wc_recovery = None\<rparr>"

definition demo_worktrees :: "nat wt_event list" where
  "demo_worktrees = [StartOrJoin (demo_coords ''a'') ''w0'', StartOrJoin (demo_coords ''a'') ''w1'',
     Progress ''r1'' ''w0'' ''s1'' ''validating'', StartOrJoin (demo_coords ''b'') ''w2'', Completes 0 7]"

lemma demo_worktrees_run:
  "map en_operation (wt_store (foldl wt_step new_coordinator demo_worktrees)) = [Completed ''w0'' 7, InProgress ''w2'' None]"
  "enabled_run wt_step fresh_id new_coordinator demo_worktrees"
  "map_of (wt_by_id (foldl wt_step new_coordinator demo_worktrees)) ''w0'' = Some 0"
  by code_simp+

lemma demo_worktrees_length: "length (wt_store (foldl wt_step new_coordinator demo_worktrees)) = 2"
  using arg_cong[OF demo_worktrees_run(1), of length] by simp

lemma demo_worktrees_first:
  "en_operation (wt_entry_at (foldl wt_step new_coordinator demo_worktrees) 0) = Completed ''w0'' 7"
  using arg_cong[OF demo_worktrees_run(1), of "\<lambda>xs. xs ! 0"] by (simp add: wt_entry_at_def nth_map demo_worktrees_length)

theorem terminal_results_are_stable_witness:
  "evolves (Completed ''w0'' (7::nat))
     (en_operation (wt_entry_at (foldl wt_step (foldl wt_step new_coordinator demo_worktrees) [Invalidate ''s1'', Expire 0]) 0))"
  using terminal_results_are_stable[OF refl, of 0 demo_worktrees "[Invalidate ''s1'', Expire 0]"]
  by (simp only: demo_worktrees_length demo_worktrees_first Let_def)

theorem registered_entries_settle_or_expire_witness:
  "en_expiry (wt_entry_at (foldl wt_step new_coordinator demo_worktrees) 0)"
  using registered_entries_settle_or_expire[OF demo_worktrees_run(2) refl, of 0]
    demo_worktrees_run(3) demo_worktrees_first demo_worktrees_length
  by (simp add: Let_def)

end
