(* ===== verification/Json.thy ===== *)
theory Json
  imports Prelude "HOL-Library.Char_ord"
begin

text \<open>
  JSON values as a peer sends them, and what the validators do with them: property lookup, the number
  tests, and the character classes of their regular expressions.

  Strings are lists of 8-bit code units. Numbers are the finite doubles, as rationals. An object's
  properties are in \<open>Object.keys\<close> order; a missing property is \<open>None\<close>, JavaScript's undefined.
\<close>

datatype json =
    JNull
  | JBool bool
  | JNum rat
  | JStr string
  | JArr "json list"
  | JObj "(string \<times> json) list"

type_synonym jobject = "(string \<times> json) list"

abbreviation jget :: "jobject \<Rightarrow> string \<Rightarrow> json option" where
  "jget ps k \<equiv> map_of ps k"

definition jkeys :: "jobject \<Rightarrow> string list" where
  "jkeys ps = map fst ps"

text \<open>\<open>typeof v === "object"\<close> for a value that is truthy and not an array.\<close>

fun as_object :: "json option \<Rightarrow> jobject option" where
  "as_object (Some (JObj ps)) = Some ps"
| "as_object _ = None"

fun as_string :: "json option \<Rightarrow> string option" where
  "as_string (Some (JStr s)) = Some s"
| "as_string _ = None"

fun as_array :: "json option \<Rightarrow> json list option" where
  "as_array (Some (JArr xs)) = Some xs"
| "as_array _ = None"

fun as_bool :: "json option \<Rightarrow> bool option" where
  "as_bool (Some (JBool b)) = Some b"
| "as_bool _ = None"

definition max_safe_integer :: int where
  "max_safe_integer = 9007199254740991"

definition safe_integer :: "rat \<Rightarrow> int option" where
  "safe_integer q = (let i = \<lfloor>q\<rfloor> in if of_int i = q \<and> \<bar>i\<bar> \<le> max_safe_integer then Some i else None)"

text \<open>\<open>Number.isSafeInteger(v)\<close>, giving the integer.\<close>

fun as_safe_integer :: "json option \<Rightarrow> int option" where
  "as_safe_integer (Some (JNum q)) = safe_integer q"
| "as_safe_integer _ = None"

text \<open>\<open>Number.isInteger(v)\<close>, giving the integer.\<close>

fun as_integer :: "json option \<Rightarrow> int option" where
  "as_integer (Some (JNum q)) = (if of_int \<lfloor>q\<rfloor> = q then Some \<lfloor>q\<rfloor> else None)"
| "as_integer _ = None"

lemma as_integer_of_int [simp]: "as_integer (Some (JNum (of_int n))) = Some n"
  by simp

lemma safe_integer_of_int [simp]:
  "safe_integer (of_int n) = (if \<bar>n\<bar> \<le> max_safe_integer then Some n else None)"
  by (simp add: safe_integer_def)

lemma safe_integer_SomeD: "safe_integer q = Some n \<Longrightarrow> \<bar>n\<bar> \<le> max_safe_integer"
  by (auto simp: safe_integer_def Let_def split: if_splits)

lemma as_safe_integer_SomeD: "as_safe_integer v = Some n \<Longrightarrow> \<bar>n\<bar> \<le> max_safe_integer"
  by (cases v rule: as_safe_integer.cases) (auto dest: safe_integer_SomeD)

text \<open>\<open>xs.every((x) => typeof x === "string")\<close>, giving the strings.\<close>

fun all_strings :: "json list \<Rightarrow> string list option" where
  "all_strings [] = Some []"
| "all_strings (JStr s # xs) = map_option ((#) s) (all_strings xs)"
| "all_strings _ = None"

lemma all_strings_Some: "all_strings xs = Some ss \<longleftrightarrow> xs = map JStr ss"
  by (induction xs arbitrary: ss rule: all_strings.induct) auto

section \<open>Character classes\<close>

definition is_digit :: "char \<Rightarrow> bool" where
  "is_digit c \<longleftrightarrow> CHR ''0'' \<le> c \<and> c \<le> CHR ''9''"

definition is_lower :: "char \<Rightarrow> bool" where
  "is_lower c \<longleftrightarrow> CHR ''a'' \<le> c \<and> c \<le> CHR ''z''"

definition is_upper :: "char \<Rightarrow> bool" where
  "is_upper c \<longleftrightarrow> CHR ''A'' \<le> c \<and> c \<le> CHR ''Z''"

definition is_alnum :: "char \<Rightarrow> bool" where
  "is_alnum c \<longleftrightarrow> is_digit c \<or> is_lower c \<or> is_upper c"

text \<open>\<open>toLowerCase\<close>: the Latin letters of both halves of the 8-bit range, but not the multiplication sign.\<close>

definition lower_char :: "char \<Rightarrow> char" where
  "lower_char c = (let n = of_char c :: nat in
     if (65 \<le> n \<and> n \<le> 90) \<or> (192 \<le> n \<and> n \<le> 222 \<and> n \<noteq> 215) then char_of (n + 32) else c)"

definition to_lower :: "string \<Rightarrow> string" where
  "to_lower s = map lower_char s"

lemma to_lower_simps [simp]: "to_lower [] = []" "to_lower (c # s) = lower_char c # to_lower s" "length (to_lower s) = length s"
  by (simp_all add: to_lower_def)

lemma lower_char_idem [simp]: "lower_char (lower_char c) = lower_char c"
proof -
  let ?n = "of_char c :: nat"
  have "of_char (char_of (?n + 32) :: char) = ?n + 32" if "?n \<le> 222"
    using that by simp
  then show ?thesis by (auto simp: lower_char_def Let_def)
qed

lemma to_lower_idem [simp]: "to_lower (to_lower s) = to_lower s"
  by (simp add: to_lower_def)

text \<open>\<open>s.includes(t)\<close> and \<open>s.startsWith(t)\<close>.\<close>

fun starts_with :: "'a list \<Rightarrow> 'a list \<Rightarrow> bool" where
  "starts_with xs [] = True"
| "starts_with [] (y # ys) = False"
| "starts_with (x # xs) (y # ys) \<longleftrightarrow> x = y \<and> starts_with xs ys"

fun str_includes :: "'a list \<Rightarrow> 'a list \<Rightarrow> bool" where
  "str_includes [] ys = (ys = [])"
| "str_includes (x # xs) ys \<longleftrightarrow> starts_with (x # xs) ys \<or> str_includes xs ys"

lemma starts_with_prefix: "starts_with xs ys \<longleftrightarrow> prefix ys xs"
  by (induction xs ys rule: starts_with.induct) auto

lemma includes_sublist: "str_includes xs ys \<longleftrightarrow> sublist ys xs"
  by (induction xs ys rule: str_includes.induct) (auto simp: starts_with_prefix sublist_Cons_right)

section \<open>Spaces, separators and numerals\<close>

text \<open>\<open>\s\<close> and the characters \<open>trim\<close> removes: tab to carriage return, space and no-break space.\<close>

definition is_space :: "char \<Rightarrow> bool" where
  "is_space c = (let n = of_char c :: nat in (9 \<le> n \<and> n \<le> 13) \<or> n = 32 \<or> n = 160)"

definition js_trim :: "string \<Rightarrow> string" where
  "js_trim s = rev (dropWhile is_space (rev (dropWhile is_space s)))"

text \<open>\<open>s.split(c)\<close> for a one-character separator: always at least one piece.\<close>

fun split_on :: "'a \<Rightarrow> 'a list \<Rightarrow> 'a list list" where
  "split_on c [] = [[]]"
| "split_on c (x # xs) =
     (if x = c then [] # split_on c xs
      else case split_on c xs of [] \<Rightarrow> [[x]] | w # ws \<Rightarrow> (x # w) # ws)"

lemma split_on_not_Nil [simp]: "split_on c xs \<noteq> []"
  by (cases xs) (auto split: list.splits)

lemma length_split_on: "length (split_on c xs) = Suc (count_list xs c)"
  by (induction xs) (auto split: list.splits)

lemma split_on_none: "c \<notin> set xs \<Longrightarrow> split_on c xs = [xs]"
  by (induction xs) (auto split: list.splits)

lemma split_on_append:
  "split_on c (xs @ c # ys) = split_on c xs @ split_on c ys"
  by (induction xs) (auto split: list.splits simp: Cons_eq_append_conv)

lemma split_on_piece: "w \<in> set (split_on c xs) \<Longrightarrow> c \<notin> set w"
  by (induction xs arbitrary: w) (auto split: list.splits if_splits)

text \<open>\<open>String(n)\<close> for an integer below \<open>10^21\<close> in size.\<close>

fun nat_str :: "nat \<Rightarrow> string" where
  "nat_str n = (if n < 10 then [char_of (48 + n)] else nat_str (n div 10) @ [char_of (48 + n mod 10)])"

declare nat_str.simps [simp del]

definition int_str :: "int \<Rightarrow> string" where
  "int_str i = (if i < 0 then CHR ''-'' # nat_str (nat (- i)) else nat_str (nat i))"

text \<open>Numbers and versions.\<close>

fun nat_of_digits :: "nat \<Rightarrow> string \<Rightarrow> nat" where
  "nat_of_digits n [] = n"
| "nat_of_digits n (c # cs) = nat_of_digits (10 * n + (of_char c - 48)) cs"

text \<open>A run of digits, and the rest.\<close>

definition take_number :: "string \<Rightarrow> (nat \<times> string) option" where
  "take_number s =
     (let ds = takeWhile is_digit s in if ds = [] then None else Some (nat_of_digits 0 ds, dropWhile is_digit s))"

text \<open>\<open>/^(\d+)\.(\d+)\.(\d+)/\<close>.\<close>

definition version_triple :: "string \<Rightarrow> (nat \<times> nat \<times> nat) option" where
  "version_triple s =
     (case take_number s of
        Some (a, CHR ''.'' # s1) \<Rightarrow>
          (case take_number s1 of
             Some (b, CHR ''.'' # s2) \<Rightarrow> (case take_number s2 of Some (c, _) \<Rightarrow> Some (a, b, c) | None \<Rightarrow> None)
           | _ \<Rightarrow> None)
      | _ \<Rightarrow> None)"

text \<open>\<open>/^[a][b]{0,n}$/\<close>, the shape of every identifier the validators accept.\<close>

fun ident_like :: "(char \<Rightarrow> bool) \<Rightarrow> (char \<Rightarrow> bool) \<Rightarrow> nat \<Rightarrow> string \<Rightarrow> bool" where
  "ident_like a b n [] = False"
| "ident_like a b n (c # s) \<longleftrightarrow> a c \<and> list_all b s \<and> length s \<le> n"

text \<open>\<open>v?.k\<close> on a parsed value: the property, or undefined where \<open>v\<close> is not an object.\<close>

fun jprop :: "json option \<Rightarrow> string \<Rightarrow> json option" where
  "jprop (Some (JObj ps)) k = map_of ps k"
| "jprop _ k = None"

text \<open>\<open>String(v)\<close>; how a number prints is the argument.\<close>

fun join_str :: "string \<Rightarrow> string list \<Rightarrow> string" where
  "join_str sep [] = []"
| "join_str sep [x] = x"
| "join_str sep (x # y # zs) = x @ sep @ join_str sep (y # zs)"

fun js_string :: "(rat \<Rightarrow> string) \<Rightarrow> json \<Rightarrow> string" where
  "js_string num JNull = ''null''"
| "js_string num (JBool b) = (if b then ''true'' else ''false'')"
| "js_string num (JNum q) = num q"
| "js_string num (JStr s) = s"
| "js_string num (JArr xs) = join_str '','' (map (\<lambda>x. if x = JNull then [] else js_string num x) xs)"
| "js_string num (JObj ps) = ''[object Object]''"

definition js_string_opt :: "(rat \<Rightarrow> string) \<Rightarrow> json option \<Rightarrow> string" where
  "js_string_opt num v = (case v of None \<Rightarrow> ''undefined'' | Some x \<Rightarrow> js_string num x)"

text \<open>\<open>!v\<close>: the falsy values.\<close>

fun falsy :: "json option \<Rightarrow> bool" where
  "falsy None = True"
| "falsy (Some JNull) = True"
| "falsy (Some (JBool b)) = (\<not> b)"
| "falsy (Some (JNum q)) = (q = 0)"
| "falsy (Some (JStr s)) = (s = [])"
| "falsy (Some _) = False"

section \<open>Chains of checks\<close>

text \<open>
  A validator is the list of its checks in the order of the code, each with its error; the first one
  that fails is the answer.
\<close>

fun first_error :: "(bool \<times> 'e) list \<Rightarrow> 'e option" where
  "first_error [] = None"
| "first_error ((bad, e) # cs) = (if bad then Some e else first_error cs)"

lemma first_error_append [simp]:
  "first_error (xs @ ys) = (case first_error xs of None \<Rightarrow> first_error ys | Some e \<Rightarrow> Some e)"
  by (induction xs) auto

lemma first_error_None: "first_error cs = None \<longleftrightarrow> list_all (\<lambda>(bad, e). \<not> bad) cs"
  by (induction cs rule: first_error.induct) auto

lemma first_error_passed: "first_error cs = None \<Longrightarrow> (bad, e) \<in> set cs \<Longrightarrow> \<not> bad"
  by (auto simp: first_error_None list_all_iff)

text \<open>\<open>Object.keys(o).some((k) => !allowed.has(k))\<close>.\<close>

definition extra_keys :: "jobject \<Rightarrow> string list \<Rightarrow> bool" where
  "extra_keys ps allowed \<longleftrightarrow> list_ex (\<lambda>k. k \<notin> set allowed) (jkeys ps)"

lemma as_object_Some: "as_object v = Some ps \<longleftrightarrow> v = Some (JObj ps)"
  by (cases v rule: as_object.cases) auto

lemma as_string_Some: "as_string v = Some s \<longleftrightarrow> v = Some (JStr s)"
  by (cases v rule: as_string.cases) auto

lemma not_extra_keys: "\<not> extra_keys ps ks \<Longrightarrow> (k, v) \<in> set ps \<Longrightarrow> k \<in> set ks"
  by (force simp: extra_keys_def jkeys_def list_ex_iff)

end
