(* ===== verification/Session_Waits.thy ===== *)
theory Session_Waits
  imports Json
begin

text \<open>
  Tracked waits: the report a runner's MCP server sends for a \<open>wait_session\<close> or
  \<open>wait_pull_request\<close> call in progress, and the registry that classifies each wait under the liveness
  contract (\<open>packages/protocol/src/session-waits.ts\<close>, \<open>apps/control-plane/src/session-waits.ts\<close>).

  The status of a watched session is read from the control plane when a wait is classified, so each
  event carries the statuses of its moment; so does the lazily evaluated \<open>child\<close> callback. Refusal
  texts are constructors. \<open>localeCompare\<close> is a parameter of \<open>sw_views\<close>.
\<close>

section \<open>The protocol\<close>

datatype wait_kind = WaitSession | WaitPullRequest

datatype stall_reason = ProgressLost | TargetMissing | TargetReached | DeadlinePassed

datatype wait_target =
    SessionTarget string "string list"
  | PullTarget string int

record wait_report =
  rp_wait_id :: string
  rp_kind :: wait_kind
  rp_active :: bool
  rp_target :: wait_target
  rp_elapsed :: int
  rp_remaining :: int
  rp_interval :: int

definition SESSION_WAIT_PROGRESS_REPORT_MS :: int where "SESSION_WAIT_PROGRESS_REPORT_MS = 15000"
definition SESSION_WAIT_PROGRESS_SLACK_MS :: int where "SESSION_WAIT_PROGRESS_SLACK_MS = 30000"
definition SESSION_WAIT_DEADLINE_GRACE_MS :: int where "SESSION_WAIT_DEADLINE_GRACE_MS = 60000"
definition SESSION_WAIT_TARGET_GRACE_MS :: int where "SESSION_WAIT_TARGET_GRACE_MS = 30000"
definition SESSION_WAIT_MAX_TIMEOUT_MS :: int where "SESSION_WAIT_MAX_TIMEOUT_MS = 3 * 60 * 60000 + 60000"
definition SESSION_WAIT_MAX_INTERVAL_MS :: int where "SESSION_WAIT_MAX_INTERVAL_MS = 600000"
definition SESSION_WAIT_LIMIT_PER_SESSION :: nat where "SESSION_WAIT_LIMIT_PER_SESSION = 8"

definition session_wait_progress_bound :: "int \<Rightarrow> int" where
  "session_wait_progress_bound interval =
     3 * max interval SESSION_WAIT_PROGRESS_REPORT_MS + SESSION_WAIT_PROGRESS_SLACK_MS"

section \<open>Parsing a report\<close>

datatype report_error =
    NotAnObject
  | UnknownFields "string list"
  | BadWaitId
  | BadKind
  | BadState
  | BadDurations
  | TargetNotAnObject
  | BadSessionTarget
  | BadPullTarget

definition id_char :: "char \<Rightarrow> bool" where
  "id_char c \<longleftrightarrow> is_alnum c \<or> c = CHR ''_'' \<or> c = CHR ''-''"

definition wait_id_ok :: "string \<Rightarrow> bool" where
  "wait_id_ok s \<longleftrightarrow> starts_with s ''wait_'' \<and>
     (let r = drop 5 s in 8 \<le> length r \<and> length r \<le> 64 \<and> list_all id_char r)"

definition session_id_ok :: "string \<Rightarrow> bool" where
  "session_id_ok s \<longleftrightarrow> 1 \<le> length s \<and> length s \<le> 128 \<and> list_all id_char s"

definition repo_char :: "char \<Rightarrow> bool" where
  "repo_char c \<longleftrightarrow> is_alnum c \<or> c = CHR ''.'' \<or> c = CHR ''_'' \<or> c = CHR ''-''"

definition repository_ok :: "string \<Rightarrow> bool" where
  "repository_ok s \<longleftrightarrow> (case s of [] \<Rightarrow> False
     | c # r \<Rightarrow> repo_char c \<and> length r \<le> 254 \<and> list_all (\<lambda>c. repo_char c \<or> c = CHR ''/'') r)"

definition state_ok :: "string \<Rightarrow> bool" where
  "state_ok s \<longleftrightarrow> 1 \<le> length s \<and> length s \<le> 32 \<and> list_all (\<lambda>c. is_lower c \<or> c = CHR ''_'') s"

definition MAX_TARGET_STATES :: nat where "MAX_TARGET_STATES = 8"

definition duration :: "json option \<Rightarrow> int \<Rightarrow> int option" where
  "duration value limit = (case as_safe_integer value of
     Some n \<Rightarrow> if n \<ge> 0 \<and> n \<le> limit then Some n else None | None \<Rightarrow> None)"

definition parse_kind :: "json option \<Rightarrow> wait_kind option" where
  "parse_kind v =
     (if v = Some (JStr ''wait_session'') then Some WaitSession
      else if v = Some (JStr ''wait_pull_request'') then Some WaitPullRequest else None)"

definition parse_state :: "json option \<Rightarrow> bool option" where
  "parse_state v = (if v = Some (JStr ''active'') then Some True
      else if v = Some (JStr ''ended'') then Some False else None)"

definition parse_session_target :: "jobject \<Rightarrow> wait_target option" where
  "parse_session_target t =
     (if jget t ''kind'' \<noteq> Some (JStr ''session'') \<or> (\<exists>k\<in>set (jkeys t). k \<notin> {''kind'', ''sessionId'', ''states''}) then None
      else case as_string (jget t ''sessionId'') of
        None \<Rightarrow> None
      | Some sid \<Rightarrow> if \<not> session_id_ok sid then None else
          (case as_array (jget t ''states'') of
             None \<Rightarrow> None
           | Some xs \<Rightarrow> if xs = [] \<or> length xs > MAX_TARGET_STATES then None else
               (case all_strings xs of
                  None \<Rightarrow> None
                | Some ss \<Rightarrow> if list_all state_ok ss then Some (SessionTarget sid (js_dedup ss)) else None)))"

definition parse_pull_target :: "jobject \<Rightarrow> wait_target option" where
  "parse_pull_target t =
     (if jget t ''kind'' \<noteq> Some (JStr ''pull_request'') \<or>
         (\<exists>k\<in>set (jkeys t). k \<notin> {''kind'', ''repository'', ''number''}) then None
      else case as_string (jget t ''repository'') of
        None \<Rightarrow> None
      | Some repo \<Rightarrow> if \<not> repository_ok repo \<or> str_includes repo ''..'' then None else
          (case as_safe_integer (jget t ''number'') of
             None \<Rightarrow> None
           | Some n \<Rightarrow> if n \<le> 0 then None else Some (PullTarget repo n)))"

definition REPORT_KEYS :: "string list" where
  "REPORT_KEYS = [''waitId'', ''kind'', ''state'', ''target'', ''elapsedMs'', ''remainingMs'', ''intervalMs'']"

definition parse_target :: "wait_kind \<Rightarrow> jobject \<Rightarrow> report_error + wait_target" where
  "parse_target k t = (case k of
       WaitSession \<Rightarrow> (case parse_session_target t of None \<Rightarrow> Inl BadSessionTarget | Some x \<Rightarrow> Inr x)
     | WaitPullRequest \<Rightarrow> (case parse_pull_target t of None \<Rightarrow> Inl BadPullTarget | Some x \<Rightarrow> Inr x))"

definition parse_fields :: "jobject \<Rightarrow> report_error + wait_report" where
  "parse_fields v =
     (case as_string (jget v ''waitId'') of
        None \<Rightarrow> Inl BadWaitId
      | Some wid \<Rightarrow> if \<not> wait_id_ok wid then Inl BadWaitId else
     case parse_kind (jget v ''kind'') of
        None \<Rightarrow> Inl BadKind
      | Some k \<Rightarrow>
     case parse_state (jget v ''state'') of
        None \<Rightarrow> Inl BadState
      | Some act \<Rightarrow>
     case (duration (jget v ''elapsedMs'') (SESSION_WAIT_MAX_TIMEOUT_MS * 2),
           duration (jget v ''remainingMs'') SESSION_WAIT_MAX_TIMEOUT_MS,
           duration (jget v ''intervalMs'') SESSION_WAIT_MAX_INTERVAL_MS) of
        (Some el, Some rem, Some iv) \<Rightarrow>
          (case as_object (jget v ''target'') of
             None \<Rightarrow> Inl TargetNotAnObject
           | Some t \<Rightarrow>
          (case parse_target k t of
             Inl e \<Rightarrow> Inl e
           | Inr tgt \<Rightarrow> Inr \<lparr>rp_wait_id = wid, rp_kind = k, rp_active = act, rp_target = tgt,
                            rp_elapsed = el, rp_remaining = rem, rp_interval = iv\<rparr>))
      | _ \<Rightarrow> Inl BadDurations)"

definition parse_session_wait_report :: "json \<Rightarrow> report_error + wait_report" where
  "parse_session_wait_report body =
     (case as_object (Some body) of
        None \<Rightarrow> Inl NotAnObject
      | Some v \<Rightarrow>
          (let unknown = filter (\<lambda>k. k \<notin> set REPORT_KEYS) (jkeys v)
           in if unknown \<noteq> [] then Inl (UnknownFields unknown) else parse_fields v))"

section \<open>The registry\<close>

record wait_record =
  wr_wait_id :: string
  wr_kind :: wait_kind
  wr_target :: wait_target
  wr_child :: bool
  wr_since :: int
  wr_deadline_at :: int
  wr_interval :: int
  wr_last_progress :: int
  wr_target_reached :: "int option"
  wr_stalled :: bool
  wr_reason :: "stall_reason option"
  wr_stalled_since :: "int option"

type_synonym wait_map = "(string \<times> wait_record) list"

type_synonym session_waits = "(string \<times> wait_map) list"

type_synonym target_status = "string \<Rightarrow> string option"

definition note_target :: "target_status \<Rightarrow> int \<Rightarrow> wait_record \<Rightarrow> wait_record \<times> stall_reason option" where
  "note_target st now r =
     (case wr_target r of
        PullTarget repo n \<Rightarrow> (r, None)
      | SessionTarget sid states \<Rightarrow>
          (case st sid of
             None \<Rightarrow> (r, Some TargetMissing)
           | Some status \<Rightarrow>
               if status \<in> set states
               then let since = (case wr_target_reached r of None \<Rightarrow> now | Some t \<Rightarrow> t)
                    in (r\<lparr>wr_target_reached := Some since\<rparr>,
                        if now - since > SESSION_WAIT_TARGET_GRACE_MS then Some TargetReached else None)
               else (r\<lparr>wr_target_reached := None\<rparr>, None)))"

definition broken_contract :: "int \<Rightarrow> wait_record \<Rightarrow> stall_reason option \<Rightarrow> stall_reason option" where
  "broken_contract now r reason =
     (if reason \<noteq> None then reason
      else if now > wr_deadline_at r + SESSION_WAIT_DEADLINE_GRACE_MS then Some DeadlinePassed
      else if now > wr_last_progress r + session_wait_progress_bound (wr_interval r) then Some ProgressLost
      else None)"

definition sw_classify :: "target_status \<Rightarrow> int \<Rightarrow> wait_record \<Rightarrow> wait_record" where
  "sw_classify st now r0 =
     (let (r, reached) = note_target st now r0
      in case broken_contract now r reached of
           Some reason \<Rightarrow> r\<lparr>wr_stalled_since := (if wr_stalled r then wr_stalled_since r else Some now),
                            wr_stalled := True, wr_reason := Some reason\<rparr>
         | None \<Rightarrow> r\<lparr>wr_stalled := False, wr_reason := None, wr_stalled_since := None\<rparr>)"

text \<open>The key's text, from the health and the reason; the empty text for no record.\<close>

definition projection_key :: "wait_record option \<Rightarrow> (bool \<times> stall_reason option) option" where
  "projection_key r = map_option (\<lambda>r. (wr_stalled r, wr_reason r)) r"

fun same_target :: "wait_target \<Rightarrow> wait_target \<Rightarrow> bool" where
  "same_target (SessionTarget a xs) (SessionTarget b ys) \<longleftrightarrow>
     a = b \<and> length xs = length ys \<and> (\<forall>x\<in>set xs. x \<in> set ys)"
| "same_target (PullTarget a m) (PullTarget b n) \<longleftrightarrow> a = b \<and> m = n"
| "same_target _ _ \<longleftrightarrow> False"

fun is_session_target :: "wait_target \<Rightarrow> bool" where
  "is_session_target (SessionTarget a xs) = True"
| "is_session_target (PullTarget a n) = False"

datatype report_result = Changed bool | KindOrTargetChanged | TooManyWaits

definition waits_of :: "session_waits \<Rightarrow> string \<Rightarrow> wait_map" where
  "waits_of s sid = (case map_of s sid of None \<Rightarrow> [] | Some m \<Rightarrow> m)"

definition new_wait :: "wait_report \<Rightarrow> int \<Rightarrow> bool \<Rightarrow> wait_record" where
  "new_wait rp now child = \<lparr>wr_wait_id = rp_wait_id rp, wr_kind = rp_kind rp, wr_target = rp_target rp,
     wr_child = (if is_session_target (rp_target rp) then child else False),
     wr_since = now - rp_elapsed rp, wr_deadline_at = now + rp_remaining rp, wr_interval = rp_interval rp,
     wr_last_progress = now, wr_target_reached = None, wr_stalled = False, wr_reason = None,
     wr_stalled_since = None\<rparr>"

definition sw_report ::
  "target_status \<Rightarrow> string \<Rightarrow> wait_report \<Rightarrow> int \<Rightarrow> bool \<Rightarrow> session_waits \<Rightarrow> session_waits \<times> report_result" where
  "sw_report st sid rp now child s =
     (let waits = waits_of s sid; existing = map_of waits (rp_wait_id rp)
      in if \<not> rp_active rp then
           (if existing = None then (s, Changed False)
            else let waits' = AList.delete (rp_wait_id rp) waits
                 in (if waits' = [] then AList.delete sid s else AList.update sid waits' s, Changed True))
         else if (case existing of None \<Rightarrow> False
                  | Some r \<Rightarrow> wr_kind r \<noteq> rp_kind rp \<or> \<not> same_target (wr_target r) (rp_target rp))
         then (s, KindOrTargetChanged)
         else if existing = None \<and> length waits \<ge> SESSION_WAIT_LIMIT_PER_SESSION then (s, TooManyWaits)
         else let record = (case existing of None \<Rightarrow> new_wait rp now child | Some r \<Rightarrow> r);
                  record' = sw_classify st now (record\<lparr>wr_last_progress := now\<rparr>)
              in (AList.update sid (AList.update (rp_wait_id rp) record' waits) s,
                  Changed (existing = None \<or> projection_key existing \<noteq> projection_key (Some record'))))"

definition sw_clear :: "string \<Rightarrow> session_waits \<Rightarrow> session_waits \<times> bool" where
  "sw_clear sid s = (AList.delete sid s, map_of s sid \<noteq> None)"

definition sw_has :: "string \<Rightarrow> session_waits \<Rightarrow> bool" where
  "sw_has sid s \<longleftrightarrow> map_of s sid \<noteq> None"

definition sw_session_ids :: "session_waits \<Rightarrow> string list" where
  "sw_session_ids s = map fst s"

datatype wait_view_target = SessionView bool | PullView string int

record wait_view =
  wv_wait_id :: string
  wv_kind :: wait_kind
  wv_target :: wait_view_target
  wv_since :: int
  wv_deadline_at :: int
  wv_stalled :: bool
  wv_reason :: "stall_reason option"
  wv_stalled_since :: "int option"

definition view_of :: "wait_record \<Rightarrow> wait_view" where
  "view_of r = \<lparr>wv_wait_id = wr_wait_id r, wv_kind = wr_kind r,
     wv_target = (case wr_target r of SessionTarget a xs \<Rightarrow> SessionView (wr_child r) | PullTarget repo n \<Rightarrow> PullView repo n),
     wv_since = wr_since r, wv_deadline_at = wr_deadline_at r, wv_stalled = wr_stalled r,
     wv_reason = (if wr_stalled r then wr_reason r else None),
     wv_stalled_since = (if wr_stalled r then wr_stalled_since r else None)\<rparr>"

definition view_order :: "(string \<Rightarrow> string \<Rightarrow> int) \<Rightarrow> wait_record \<Rightarrow> wait_record \<Rightarrow> bool" where
  "view_order locale_compare a b =
     (if wr_since a - wr_since b \<noteq> 0 then wr_since a - wr_since b \<le> 0
      else locale_compare (wr_wait_id a) (wr_wait_id b) \<le> 0)"

definition sw_views :: "(string \<Rightarrow> string \<Rightarrow> int) \<Rightarrow> string \<Rightarrow> session_waits \<Rightarrow> wait_view list option" where
  "sw_views locale_compare sid s =
     (let waits = waits_of s sid
      in if waits = [] then None else Some (map view_of (js_sort (view_order locale_compare) (map snd waits))))"

definition sweep_map :: "target_status \<Rightarrow> int \<Rightarrow> wait_map \<Rightarrow> wait_map" where
  "sweep_map st now m = map (\<lambda>(wid, r). (wid, sw_classify st now r)) m"

definition map_changes :: "target_status \<Rightarrow> int \<Rightarrow> wait_map \<Rightarrow> bool" where
  "map_changes st now m \<longleftrightarrow>
     (\<exists>(wid, r)\<in>set m. projection_key (Some r) \<noteq> projection_key (Some (sw_classify st now r)))"

definition sw_sweep :: "target_status \<Rightarrow> int \<Rightarrow> session_waits \<Rightarrow> session_waits \<times> string list" where
  "sw_sweep st now s =
     (map (\<lambda>(sid, m). (sid, sweep_map st now m)) s, map fst (filter (\<lambda>(sid, m). map_changes st now m) s))"

text \<open>The registry as a machine, with the sessions each operation reports as changed.\<close>

datatype sw_event =
    Report target_status string wait_report int bool
  | Clear string
  | Sweep target_status int

fun sw_step :: "session_waits \<Rightarrow> sw_event \<Rightarrow> session_waits \<times> string list" where
  "sw_step s (Report st sid rp now child) =
     (case sw_report st sid rp now child s of (s', r) \<Rightarrow> (s', if r = Changed True then [sid] else []))"
| "sw_step s (Clear sid) = (case sw_clear sid s of (s', b) \<Rightarrow> (s', if b then [sid] else []))"
| "sw_step s (Sweep st now) = sw_sweep st now s"

section \<open>Invariant\<close>

definition record_ok :: "wait_record \<Rightarrow> bool" where
  "record_ok r \<longleftrightarrow> (wr_reason r \<noteq> None \<longleftrightarrow> wr_stalled r) \<and> (wr_stalled_since r \<noteq> None \<longleftrightarrow> wr_stalled r)"

definition map_good :: "wait_map \<Rightarrow> bool" where
  "map_good m \<longleftrightarrow> jmap_ok m \<and> length m \<le> SESSION_WAIT_LIMIT_PER_SESSION \<and>
     (\<forall>(wid, r)\<in>set m. wr_wait_id r = wid \<and> record_ok r)"

definition sw_good :: "session_waits \<Rightarrow> bool" where
  "sw_good s \<longleftrightarrow> jmap_ok s \<and> (\<forall>(sid, m)\<in>set s. m \<noteq> [] \<and> map_good m)"

text \<open>What classification leaves alone, and what it establishes.\<close>

lemma note_target_eq: "\<exists>t. fst (note_target st now r) = r\<lparr>wr_target_reached := t\<rparr>"
proof (cases "wr_target r")
  case (SessionTarget sid states)
  show ?thesis
  proof (cases "st sid")
    case None
    with SessionTarget show ?thesis
      by (intro exI[of _ "wr_target_reached r"]) (simp add: note_target_def)
  next
    case (Some status)
    with SessionTarget show ?thesis by (cases "status \<in> set states") (auto simp: note_target_def Let_def)
  qed
qed (intro exI[of _ "wr_target_reached r"], simp add: note_target_def)

lemma note_target_frame [simp]:
  "wr_stalled (fst (note_target st now r)) = wr_stalled r" "wr_reason (fst (note_target st now r)) = wr_reason r"
  "wr_stalled_since (fst (note_target st now r)) = wr_stalled_since r"
  "wr_wait_id (fst (note_target st now r)) = wr_wait_id r" "wr_kind (fst (note_target st now r)) = wr_kind r"
  "wr_target (fst (note_target st now r)) = wr_target r" "wr_child (fst (note_target st now r)) = wr_child r"
  "wr_since (fst (note_target st now r)) = wr_since r" "wr_deadline_at (fst (note_target st now r)) = wr_deadline_at r"
  "wr_interval (fst (note_target st now r)) = wr_interval r"
  "wr_last_progress (fst (note_target st now r)) = wr_last_progress r"
  using note_target_eq[of st now r] by (elim exE; simp)+

lemma sw_classify_frame [simp]:
  "wr_wait_id (sw_classify st now r) = wr_wait_id r" "wr_kind (sw_classify st now r) = wr_kind r"
  "wr_target (sw_classify st now r) = wr_target r" "wr_child (sw_classify st now r) = wr_child r"
  "wr_since (sw_classify st now r) = wr_since r" "wr_deadline_at (sw_classify st now r) = wr_deadline_at r"
  "wr_interval (sw_classify st now r) = wr_interval r" "wr_last_progress (sw_classify st now r) = wr_last_progress r"
  by (simp_all add: sw_classify_def case_prod_beta split: option.splits)

lemma sw_classify_ok: "record_ok r \<Longrightarrow> record_ok (sw_classify st now r)"
  by (auto simp: record_ok_def sw_classify_def case_prod_beta split: option.splits)

lemma sw_classify_since:
  "wr_stalled r \<Longrightarrow> wr_stalled (sw_classify st now r) \<Longrightarrow> wr_stalled_since (sw_classify st now r) = wr_stalled_since r"
  by (auto simp: sw_classify_def case_prod_beta split: option.splits)

lemma record_ok_progress [simp]: "record_ok (r\<lparr>wr_last_progress := t\<rparr>) = record_ok r"
  by (simp add: record_ok_def)

lemma new_wait_fields [simp]:
  "record_ok (new_wait rp now child)" "wr_wait_id (new_wait rp now child) = rp_wait_id rp"
  by (simp_all add: new_wait_def record_ok_def)

text \<open>The projection key determines the view: that is why comparing keys is enough.\<close>

lemma projection_key_view:
  assumes "record_ok r"
  shows "view_of (sw_classify st now (r\<lparr>wr_last_progress := t\<rparr>)) = view_of r \<longleftrightarrow>
     projection_key (Some (sw_classify st now (r\<lparr>wr_last_progress := t\<rparr>))) = projection_key (Some r)"
proof -
  let ?r = "sw_classify st now (r\<lparr>wr_last_progress := t\<rparr>)"
  have ok: "record_ok ?r" using assms by (intro sw_classify_ok) simp
  have since: "wr_stalled r \<Longrightarrow> wr_stalled ?r \<Longrightarrow> wr_stalled_since ?r = wr_stalled_since r"
    using sw_classify_since[of "r\<lparr>wr_last_progress := t\<rparr>"] by simp
  show ?thesis
    using assms ok since
    by (cases "wr_target r"; cases "wr_stalled r"; cases "wr_stalled ?r")
       (simp_all add: projection_key_def view_of_def record_ok_def)
qed

lemma projection_key_view_sweep:
  "record_ok r \<Longrightarrow> view_of (sw_classify st now r) = view_of r \<longleftrightarrow>
     projection_key (Some (sw_classify st now r)) = projection_key (Some r)"
  using projection_key_view[of r st now "wr_last_progress r"] by simp

lemma waits_of_good: "sw_good s \<Longrightarrow> map_good (waits_of s sid)"
  by (auto simp: waits_of_def sw_good_def map_good_def dest!: map_of_SomeD split: option.splits)

lemma waits_of_Nil: "sw_good s \<Longrightarrow> waits_of s sid = [] \<longleftrightarrow> map_of s sid = None"
  by (auto simp: waits_of_def sw_good_def dest!: map_of_SomeD split: option.splits)

lemma waits_of_update [simp]:
  "waits_of (AList.update sid m s) sid' = (if sid' = sid then m else waits_of s sid')"
  by (simp add: waits_of_def update_conv')

lemma waits_of_delete [simp]:
  "waits_of (AList.delete sid s) sid' = (if sid' = sid then [] else waits_of s sid')"
  by (simp add: waits_of_def delete_conv')

lemma sw_good_update: "sw_good s \<Longrightarrow> m \<noteq> [] \<Longrightarrow> map_good m \<Longrightarrow> sw_good (AList.update sid m s)"
  using set_alist_update[of sid m s] by (fastforce simp: sw_good_def distinct_update)

lemma sw_good_delete: "sw_good s \<Longrightarrow> sw_good (AList.delete sid s)"
  using set_alist_delete[of sid s] by (auto simp: sw_good_def distinct_delete)

lemma map_good_delete: "map_good m \<Longrightarrow> map_good (AList.delete wid m)"
proof -
  assume "map_good m"
  moreover have "length (AList.delete wid m) \<le> length m" by (rule length_delete_le)
  ultimately show ?thesis
    using set_alist_delete[of wid m] by (fastforce simp: map_good_def distinct_delete)
qed

lemma map_good_update:
  assumes "map_good m" "wr_wait_id r = wid" "record_ok r"
    "map_of m wid = None \<Longrightarrow> length m < SESSION_WAIT_LIMIT_PER_SESSION"
  shows "map_good (AList.update wid r m)"
proof -
  have "length (AList.update wid r m) \<le> SESSION_WAIT_LIMIT_PER_SESSION"
    using assms(1,4) by (cases "map_of m wid") (simp_all add: alist_length_update map_good_def)
  then show ?thesis
    using assms(1-3) set_alist_update[of wid r m] by (fastforce simp: map_good_def distinct_update)
qed

lemma sweep_map_good: "map_good m \<Longrightarrow> map_good (sweep_map st now m)"
proof -
  assume good: "map_good m"
  have "map fst (sweep_map st now m) = map fst m" by (simp add: sweep_map_def case_prod_beta comp_def)
  moreover have "length (sweep_map st now m) = length m" by (simp add: sweep_map_def)
  moreover have "\<forall>(wid, r)\<in>set (sweep_map st now m). wr_wait_id r = wid \<and> record_ok r"
    using good by (auto simp: sweep_map_def map_good_def sw_classify_ok)
  ultimately show ?thesis using good by (simp add: map_good_def)
qed

lemma sw_report_good:
  assumes "sw_good s"
  shows "sw_good (fst (sw_report st sid rp now child s))"
proof -
  let ?waits = "waits_of s sid" and ?wid = "rp_wait_id rp"
  have good: "map_good ?waits" using assms by (rule waits_of_good)
  define r where "r = (case map_of ?waits ?wid of None \<Rightarrow> new_wait rp now child | Some r \<Rightarrow> r)"
  have r: "wr_wait_id r = ?wid" "record_ok r"
    using good by (auto simp: r_def map_good_def dest!: map_of_SomeD split: option.splits)
  have up: "sw_good (AList.update sid (AList.update ?wid (sw_classify st now (r\<lparr>wr_last_progress := now\<rparr>)) ?waits) s)"
    if "map_of ?waits ?wid = None \<Longrightarrow> length ?waits < SESSION_WAIT_LIMIT_PER_SESSION"
  proof -
    have "AList.update ?wid (sw_classify st now (r\<lparr>wr_last_progress := now\<rparr>)) ?waits \<noteq> []"
      by (metis length_0_conv alist_length_update update_nonempty)
    then show ?thesis
      using assms good r that by (intro sw_good_update map_good_update) (auto simp: sw_classify_ok)
  qed
  show ?thesis
    using assms good up map_good_delete[OF good, of ?wid] sw_good_delete[OF assms]
    by (cases "map_of ?waits ?wid") (auto simp: sw_report_def Let_def r_def intro: sw_good_update)
qed

lemma sw_step_good: "sw_good s \<Longrightarrow> sw_good (fst (sw_step s e))"
proof (cases e)
  case (Sweep st now)
  assume good: "sw_good s"
  have "map fst (map (\<lambda>(sid, m). (sid, sweep_map st now m)) s) = map fst s"
    by (simp add: case_prod_beta comp_def)
  with good Sweep show ?thesis
    by (auto simp: sw_good_def sw_sweep_def sweep_map_good simp del: map_map) (auto simp: sweep_map_def)
qed (simp_all add: case_prod_beta sw_report_good sw_clear_def sw_good_delete)

interpretation sw: emitting_machine sw_step sw_good
  by unfold_locales (rule sw_step_good)

lemma sw_good_empty [simp]: "sw_good []"
  by (simp add: sw_good_def)

section \<open>Views and the changes that are reported\<close>

lemma view_order_classify [simp]:
  "view_order lc (sw_classify st now (a\<lparr>wr_last_progress := t\<rparr>)) b = view_order lc a b"
  "view_order lc a (sw_classify st now (b\<lparr>wr_last_progress := t\<rparr>)) = view_order lc a b"
  "view_order lc (sw_classify st now a) b = view_order lc a b"
  "view_order lc a (sw_classify st now b) = view_order lc a b"
  "view_order lc (a\<lparr>wr_last_progress := t\<rparr>) b = view_order lc a b"
  "view_order lc a (b\<lparr>wr_last_progress := t\<rparr>) = view_order lc a b"
  by (simp_all add: view_order_def)

text \<open>Views of a list of waits whose records a function replaced, without moving any.\<close>

lemma views_map:
  assumes "\<And>a b. view_order lc (f a) (f b) = view_order lc a b"
  shows "map view_of (js_sort (view_order lc) (map f rs)) = map view_of (js_sort (view_order lc) rs) \<longleftrightarrow>
     (\<forall>r\<in>set rs. view_of (f r) = view_of r)"
proof -
  have "js_sort (view_order lc) (map f rs) = map f (js_sort (view_order lc) rs)"
    by (rule js_sort_map) (rule assms)
  moreover have "map (view_of \<circ> f) xs = map view_of xs \<longleftrightarrow> (\<forall>r\<in>set xs. view_of (f r) = view_of r)" for xs
    by (induction xs) auto
  ultimately show ?thesis by simp
qed

lemma sweep_changes_views:
  assumes "map_good m"
  shows "map_changes st now m \<longleftrightarrow>
    map view_of (js_sort (view_order lc) (map snd (sweep_map st now m))) \<noteq> map view_of (js_sort (view_order lc) (map snd m))"
proof -
  have snd: "map snd (sweep_map st now m) = map (sw_classify st now) (map snd m)"
    by (simp add: sweep_map_def case_prod_beta comp_def)
  have ok: "\<forall>r\<in>set (map snd m). record_ok r" using assms by (auto simp: map_good_def)
  have "map_changes st now m \<longleftrightarrow> (\<exists>r\<in>set (map snd m). view_of (sw_classify st now r) \<noteq> view_of r)"
    using ok unfolding map_changes_def by (force simp: projection_key_view_sweep)
  then show ?thesis unfolding snd by (subst views_map) auto
qed

lemma refresh_changes_views:
  fixes st now t
  assumes "map_good m" "map_of m wid = Some r"
  defines "r' \<equiv> sw_classify st now (r\<lparr>wr_last_progress := t\<rparr>)"
  shows "projection_key (Some r) \<noteq> projection_key (Some r') \<longleftrightarrow>
    map view_of (js_sort (view_order lc) (map snd (AList.update wid r' m))) \<noteq> map view_of (js_sort (view_order lc) (map snd m))"
proof -
  let ?f = "\<lambda>x. if wr_wait_id x = wid then (if x = r then r' else x) else x"
  have r: "(wid, r) \<in> set m" "record_ok r" using assms(1,2) by (auto simp: map_good_def dest: map_of_SomeD)
  have "map snd (AList.update wid r' m) = map snd (map (\<lambda>(k, w). (k, if k = wid then r' else w)) m)"
    using alist_update_map[of m wid r'] assms(1,2) by (simp add: map_good_def)
  also have "\<dots> = map ?f (map snd m)"
  proof -
    have "snd ((\<lambda>(k, w). (k, if k = wid then r' else w)) p) = ?f (snd p)" if "p \<in> set m" for p
    proof -
      have "map_of m (fst p) = Some (snd p)" "wr_wait_id (snd p) = fst p"
        using that assms(1) by (auto simp: map_good_def)
      with assms(2) show ?thesis by (cases p) auto
    qed
    then show ?thesis by simp
  qed
  finally have snd: "map snd (AList.update wid r' m) = map ?f (map snd m)" .
  have "view_order lc (?f a) (?f b) = view_order lc a b" for a b
    by (auto simp: r'_def)
  note views = views_map[of lc ?f, OF this]
  have "wr_wait_id r = wid" using r(1) assms(1) by (auto simp: map_good_def)
  then have "(\<forall>x\<in>set (map snd m). view_of (?f x) = view_of x) \<longleftrightarrow> view_of r' = view_of r"
    using r(1) by (auto simp: image_iff intro!: bexI[of _ "(wid, r)"])
  also have "\<dots> \<longleftrightarrow> projection_key (Some r) = projection_key (Some r')"
    unfolding r'_def using projection_key_view[OF r(2)] by auto
  finally show ?thesis unfolding snd views by blast
qed

lemma sw_views_other: "waits_of s' sid = waits_of s sid \<Longrightarrow> sw_views lc sid s' = sw_views lc sid s"
  by (simp add: sw_views_def)

lemma sw_views_length:
  "length (waits_of s' sid) \<noteq> length (waits_of s sid) \<Longrightarrow> sw_views lc sid s' \<noteq> sw_views lc sid s"
  by (auto simp: sw_views_def Let_def dest: arg_cong[of _ _ length])

lemma sw_report_reports:
  assumes "sw_good s"
  shows "snd (sw_report st sid rp now child s) = Changed True \<longleftrightarrow>
     sw_views lc sid (fst (sw_report st sid rp now child s)) \<noteq> sw_views lc sid s"
    and "sid' \<noteq> sid \<Longrightarrow> sw_views lc sid' (fst (sw_report st sid rp now child s)) = sw_views lc sid' s"
proof -
  let ?waits = "waits_of s sid" and ?wid = "rp_wait_id rp"
  let ?s' = "fst (sw_report st sid rp now child s)"
  have good: "map_good ?waits" using assms by (rule waits_of_good)
  show "sid' \<noteq> sid \<Longrightarrow> sw_views lc sid' ?s' = sw_views lc sid' s"
    by (rule sw_views_other) (auto simp: sw_report_def Let_def split: option.splits)
  show "snd (sw_report st sid rp now child s) = Changed True \<longleftrightarrow> sw_views lc sid ?s' \<noteq> sw_views lc sid s"
  proof (cases "map_of ?waits ?wid")
    case None
    show ?thesis
    proof (cases "rp_active rp \<and> length ?waits < SESSION_WAIT_LIMIT_PER_SESSION")
      case True
      let ?m = "AList.update ?wid (sw_classify st now (new_wait rp now child\<lparr>wr_last_progress := now\<rparr>)) ?waits"
      have eq: "sw_report st sid rp now child s = (AList.update sid ?m s, Changed True)"
        using None True by (simp add: sw_report_def)
      have "length ?m = Suc (length ?waits)" using None by (simp add: alist_length_update)
      then show ?thesis using sw_views_length[of "AList.update sid ?m s" sid s] eq by simp
    next
      case False
      with None show ?thesis by (auto simp: sw_report_def Let_def)
    qed
  next
    case (Some r)
    have ne: "?waits \<noteq> []" using Some by auto
    show ?thesis
    proof (cases "rp_active rp")
      case False
      have "Suc (length (AList.delete ?wid ?waits)) = length ?waits"
        using Some good by (intro alist_length_delete) (auto simp: map_good_def)
      then have "length (waits_of ?s' sid) \<noteq> length ?waits"
        using False Some by (auto simp: sw_report_def Let_def)
      with False Some show ?thesis using sw_views_length[of ?s' sid s] by (simp add: sw_report_def Let_def)
    next
      case True
      let ?r = "sw_classify st now (r\<lparr>wr_last_progress := now\<rparr>)"
      have "AList.update ?wid ?r ?waits \<noteq> []" using ne by (metis update_nonempty)
      then show ?thesis
        using True Some ne refresh_changes_views[OF good Some, of st now now lc]
        by (auto simp: sw_report_def sw_views_def Let_def)
    qed
  qed
qed

lemma waits_of_sweep: "waits_of (fst (sw_sweep st now s)) sid = sweep_map st now (waits_of s sid)"
proof -
  have "map_of (map (\<lambda>(sid, m). (sid, sweep_map st now m)) s) sid = map_option (sweep_map st now) (map_of s sid)"
    by (simp add: map_of_map)
  then show ?thesis by (auto simp: waits_of_def sw_sweep_def sweep_map_def split: option.splits)
qed

lemma sw_step_reports:
  assumes good: "sw_good s"
  shows "set (snd (sw_step s e)) = {sid. sw_views lc sid (fst (sw_step s e)) \<noteq> sw_views lc sid s}"
proof (cases e)
  case (Report st sid rp now child)
  then show ?thesis
    using sw_report_reports(1)[OF good, of st sid rp now child lc] sw_report_reports(2)[OF good, of _ sid lc st rp now child]
    by (auto simp: case_prod_beta) metis
next
  case (Clear sid)
  have "sw_views lc x (AList.delete sid s) \<noteq> sw_views lc x s \<longleftrightarrow> x = sid \<and> map_of s sid \<noteq> None" for x
    using waits_of_Nil[OF good, of sid] by (auto simp: sw_views_def)
  with Clear show ?thesis by (auto simp: sw_clear_def)
next
  case (Sweep st now)
  have "sw_views lc sid (fst (sw_sweep st now s)) \<noteq> sw_views lc sid s \<longleftrightarrow> map_changes st now (waits_of s sid)" for sid
    using sweep_changes_views[OF waits_of_good[OF good, of sid], of st now lc]
    by (auto simp: sw_views_def waits_of_sweep Let_def sweep_map_def)
  moreover have "sid \<in> set (snd (sw_sweep st now s)) \<longleftrightarrow> map_changes st now (waits_of s sid)" for sid
  proof -
    have maps: "(sid, m) \<in> set s \<longleftrightarrow> map_of s sid = Some m" for m
      using good by (simp add: sw_good_def)
    have "sid \<in> set (snd (sw_sweep st now s)) \<longleftrightarrow> (\<exists>m. (sid, m) \<in> set s \<and> map_changes st now m)"
      by (force simp: sw_sweep_def)
    also have "\<dots> \<longleftrightarrow> map_changes st now (waits_of s sid)"
      unfolding maps by (cases "map_of s sid") (auto simp: waits_of_def map_changes_def)
    finally show ?thesis .
  qed
  ultimately show ?thesis using Sweep by auto
qed

section \<open>What a report must look like\<close>

fun target_valid :: "wait_kind \<Rightarrow> wait_target \<Rightarrow> bool" where
  "target_valid WaitSession (SessionTarget sid states) \<longleftrightarrow> session_id_ok sid \<and> states \<noteq> [] \<and>
     length states \<le> MAX_TARGET_STATES \<and> distinct states \<and> list_all state_ok states"
| "target_valid WaitPullRequest (PullTarget repo n) \<longleftrightarrow> repository_ok repo \<and> \<not> sublist ''..'' repo \<and>
     0 < n \<and> n \<le> max_safe_integer"
| "target_valid _ _ \<longleftrightarrow> False"

definition report_valid :: "wait_report \<Rightarrow> bool" where
  "report_valid r \<longleftrightarrow> wait_id_ok (rp_wait_id r) \<and> target_valid (rp_kind r) (rp_target r) \<and>
     rp_elapsed r \<in> {0..2 * SESSION_WAIT_MAX_TIMEOUT_MS} \<and> rp_remaining r \<in> {0..SESSION_WAIT_MAX_TIMEOUT_MS} \<and>
     rp_interval r \<in> {0..SESSION_WAIT_MAX_INTERVAL_MS}"

fun encode_target :: "wait_target \<Rightarrow> json" where
  "encode_target (SessionTarget sid states) =
     JObj [(''kind'', JStr ''session''), (''sessionId'', JStr sid), (''states'', JArr (map JStr states))]"
| "encode_target (PullTarget repo n) =
     JObj [(''kind'', JStr ''pull_request''), (''repository'', JStr repo), (''number'', JNum (of_int n))]"

fun kind_name :: "wait_kind \<Rightarrow> string" where
  "kind_name WaitSession = ''wait_session''"
| "kind_name WaitPullRequest = ''wait_pull_request''"

definition encode_report :: "wait_report \<Rightarrow> json" where
  "encode_report r = JObj [
     (''waitId'', JStr (rp_wait_id r)), (''kind'', JStr (kind_name (rp_kind r))),
     (''state'', JStr (if rp_active r then ''active'' else ''ended'')), (''target'', encode_target (rp_target r)),
     (''elapsedMs'', JNum (of_int (rp_elapsed r))), (''remainingMs'', JNum (of_int (rp_remaining r))),
     (''intervalMs'', JNum (of_int (rp_interval r)))]"

lemma duration_SomeD: "duration v limit = Some n \<Longrightarrow> 0 \<le> n \<and> n \<le> limit"
  by (auto simp: duration_def split: option.splits if_splits)

lemma duration_of_int: "limit \<le> max_safe_integer \<Longrightarrow> n \<in> {0..limit} \<Longrightarrow> duration (Some (JNum (of_int n))) limit = Some n"
  by (auto simp: duration_def)

lemma parse_session_target_valid:
  assumes "parse_session_target t = Some tgt"
  shows "target_valid WaitSession tgt"
proof -
  from assms obtain sid xs ss where "session_id_ok sid" "xs \<noteq> []" "length xs \<le> MAX_TARGET_STATES"
    "all_strings xs = Some ss" "list_all state_ok ss" "tgt = SessionTarget sid (js_dedup ss)"
    by (auto simp: parse_session_target_def split: if_splits option.splits)
  moreover from this have "xs = map JStr ss" by (simp add: all_strings_Some)
  ultimately show ?thesis using length_js_dedup[of ss] by (auto simp: list_all_iff)
qed

lemma parse_pull_target_valid:
  assumes "parse_pull_target t = Some tgt"
  shows "target_valid WaitPullRequest tgt"
proof -
  from assms obtain repo n where "as_safe_integer (jget t ''number'') = Some n" "tgt = PullTarget repo n"
    "repository_ok repo" "\<not> str_includes repo ''..''" "n > 0"
    by (auto simp: parse_pull_target_def split: if_splits option.splits)
  then show ?thesis using as_safe_integer_SomeD[of "jget t ''number''" n] by (simp add: includes_sublist)
qed

lemma parse_target_valid: "parse_target k t = Inr tgt \<Longrightarrow> target_valid k tgt"
  by (auto simp: parse_target_def parse_session_target_valid parse_pull_target_valid
      split: wait_kind.splits option.splits)

lemma parse_fields_valid: "parse_fields v = Inr r \<Longrightarrow> report_valid r"
  by (auto simp: parse_fields_def report_valid_def parse_target_valid mult.commute
      dest!: duration_SomeD split: option.splits if_splits sum.splits)

lemma parse_target_encode:
  assumes "target_valid k tgt"
  shows "\<exists>t. encode_target tgt = JObj t \<and> parse_target k t = Inr tgt"
  using assms
proof (induction k tgt rule: target_valid.induct)
  case (1 sid states)
  then show ?case
    using all_strings_Some[of "map JStr states" states]
    by (auto simp: parse_target_def parse_session_target_def jkeys_def js_dedup_id)
next
  case (2 repo n)
  then show ?case by (auto simp: parse_target_def parse_pull_target_def jkeys_def includes_sublist)
qed auto

lemma parse_encode:
  assumes "report_valid r"
  shows "parse_session_wait_report (encode_report r) = Inr r"
proof -
  obtain t where t: "encode_target (rp_target r) = JObj t" "parse_target (rp_kind r) t = Inr (rp_target r)"
    using assms parse_target_encode by (auto simp: report_valid_def)
  have limits: "2 * SESSION_WAIT_MAX_TIMEOUT_MS \<le> max_safe_integer" "SESSION_WAIT_MAX_TIMEOUT_MS \<le> max_safe_integer"
    "SESSION_WAIT_MAX_INTERVAL_MS \<le> max_safe_integer"
    by (simp_all add: SESSION_WAIT_MAX_TIMEOUT_MS_def SESSION_WAIT_MAX_INTERVAL_MS_def max_safe_integer_def)
  have ds: "duration (Some (JNum (of_int (rp_elapsed r)))) (SESSION_WAIT_MAX_TIMEOUT_MS * 2) = Some (rp_elapsed r)"
    "duration (Some (JNum (of_int (rp_remaining r)))) SESSION_WAIT_MAX_TIMEOUT_MS = Some (rp_remaining r)"
    "duration (Some (JNum (of_int (rp_interval r)))) SESSION_WAIT_MAX_INTERVAL_MS = Some (rp_interval r)"
    using assms limits by (simp_all add: duration_of_int report_valid_def mult.commute)
  have "parse_kind (Some (JStr (kind_name (rp_kind r)))) = Some (rp_kind r)"
    by (cases "rp_kind r") (simp_all add: parse_kind_def)
  then show ?thesis
    using assms t ds
    by (simp add: parse_session_wait_report_def encode_report_def REPORT_KEYS_def jkeys_def parse_fields_def
        parse_state_def report_valid_def)
qed

section \<open>Properties\<close>


text \<open>
  C23: What is broadcast is exactly what changed. In every reachable state, the sessions an operation
  reports as changed, a report, a clear or a sweep, are those whose projected waits differ before and
  after it: no dashboard misses a change, and none is told of a change it cannot see.
\<close>

theorem changes_are_reported_exactly:
  "let s = fst (run_out sw_step [] es); (s', changed) = sw_step s e in
     set changed = {sid. sw_views locale_compare sid s' \<noteq> sw_views locale_compare sid s}"
proof -
  have "sw_good (fst (run_out sw_step [] es))" by (rule sw.run_out_good) simp
  from sw_step_reports[OF this] show ?thesis by (simp add: case_prod_beta Let_def)
qed

text \<open>
  Bounded memory, and no empty leftovers: in every reachable state each tracked session appears
  once and has between one and eight waits with distinct identifiers.
\<close>

theorem waits_stay_within_limits:
  "let s = fst (run_out sw_step [] es) in distinct (sw_session_ids s) \<and>
     list_all (\<lambda>(sid, m). 1 \<le> length m \<and> length m \<le> 8 \<and> distinct (map (wr_wait_id \<circ> snd) m)) s"
proof -
  have good: "sw_good (fst (run_out sw_step [] es))" by (rule sw.run_out_good) simp
  have "map (wr_wait_id \<circ> snd) m = map fst m" if "map_good m" for m
    using that by (auto simp: map_good_def)
  then have "map_good m \<Longrightarrow> distinct (map (wr_wait_id \<circ> snd) m)" for m
    by (metis map_good_def)
  moreover have "map_good m \<Longrightarrow> length m \<le> 8" for m
    by (simp add: map_good_def SESSION_WAIT_LIMIT_PER_SESSION_def)
  ultimately show ?thesis using good
    by (auto simp: sw_good_def sw_session_ids_def list_all_iff Suc_le_eq Let_def)
qed

text \<open>
  A wait is what its first report said. As long as a wait stays registered, no report, sweep or
  clear moves its deadline or start, or changes its kind, target, interval or child flag; a later
  report of the same call only records progress.
\<close>

theorem wait_identity_is_fixed:
  assumes "map_of (waits_of s sid) wid = Some r"
    and "map_of (waits_of (fst (sw_step s e)) sid) wid = Some r'"
  shows "wr_deadline_at r' = wr_deadline_at r \<and> wr_since r' = wr_since r \<and> wr_kind r' = wr_kind r \<and>
     wr_target r' = wr_target r \<and> wr_interval r' = wr_interval r \<and> wr_child r' = wr_child r"
proof (cases e)
  case (Report st sid' rp now child)
  then show ?thesis using assms
    by (auto simp: case_prod_beta sw_report_def Let_def update_conv' delete_conv' split: if_splits option.splits)
next
  case (Clear sid')
  then show ?thesis using assms by (auto simp: sw_clear_def split: if_splits)
next
  case (Sweep st now)
  have "map_of (sweep_map st now m) wid = map_option (sw_classify st now) (map_of m wid)" for m
    by (simp add: sweep_map_def map_of_map)
  with Sweep show ?thesis using assms by (auto simp: waits_of_sweep)
qed

text \<open>A pull-request wait, refreshed later with a larger remaining time.\<close>

definition demo_report :: "int \<Rightarrow> wait_report" where
  "demo_report remaining = \<lparr>rp_wait_id = ''wait_12345678'', rp_kind = WaitPullRequest, rp_active = True,
     rp_target = PullTarget ''a/b'' 7, rp_elapsed = 0, rp_remaining = remaining, rp_interval = 30000\<rparr>"

definition demo_waits :: session_waits where
  "demo_waits = fst (sw_step [] (Report (\<lambda>_. None) ''s1'' (demo_report 60000) 1000 False))"

theorem wait_identity_is_fixed_witness:
  "\<exists>r r'. map_of (waits_of demo_waits ''s1'') ''wait_12345678'' = Some r \<and>
     map_of (waits_of (fst (sw_step demo_waits (Report (\<lambda>_. None) ''s1'' (demo_report 900000) 5000 False))) ''s1'')
       ''wait_12345678'' = Some r' \<and>
     wr_deadline_at r = 61000 \<and> wr_last_progress r' = 5000 \<and> wr_deadline_at r' = wr_deadline_at r"
proof -
  let ?e = "Report (\<lambda>_. None) ''s1'' (demo_report 900000) 5000 False"
  have "map_option wr_deadline_at (map_of (waits_of demo_waits ''s1'') ''wait_12345678'') = Some 61000"
    "map_option wr_last_progress (map_of (waits_of (fst (sw_step demo_waits ?e)) ''s1'') ''wait_12345678'') = Some 5000"
    by code_simp+
  then obtain r r' where "map_of (waits_of demo_waits ''s1'') ''wait_12345678'' = Some r" "wr_deadline_at r = 61000"
    "map_of (waits_of (fst (sw_step demo_waits ?e)) ''s1'') ''wait_12345678'' = Some r'" "wr_last_progress r' = 5000"
    by auto
  with wait_identity_is_fixed[of demo_waits "''s1''" "''wait_12345678''" r ?e r'] show ?thesis by blast
qed

end
