(* ===== verification/Port_Allocator.thy ===== *)
theory Port_Allocator
  imports Json
begin

text \<open>
  Durable port blocks for worktrees (\<open>apps/runner/src/worktree-port-allocator.ts\<close>): every runner
  process of a data root keeps an allocator; a journal file is the shared truth; a lock serialises the
  mutations, each of which reloads the journal first and replaces it atomically.

  The state is the journal file and, for each process, its configured range and its in-memory map.
  What the system decides is part of an event: whether the lock was got before the deadline, how the
  flush ended, and the clock. A flush can fail before the rename, leaving the file alone, or after it,
  at the directory's \<open>fsync\<close>, with the new file in place. The lock is the slot lock of
  \<open>box-admission.ts\<close>; that a granted lock excludes other processes is built into mutations being
  single events. Properties of an entry other than the five the code names are not modelled, and the
  journal is a JSON value: the text round trip belongs to the language.
\<close>

section \<open>Model\<close>

record port_block =
  pb_start :: int
  pb_end :: int
  pb_size :: int

record port_allocation =
  pa_owner :: string
  pa_block :: port_block
  pa_allocated_at :: int

record port_range =
  pr_start :: int
  pr_end :: int
  pr_block_size :: int

text \<open>The check \<open>config.ts\<close> makes of a configured range.\<close>

definition range_valid :: "port_range \<Rightarrow> bool" where
  "range_valid r \<longleftrightarrow> \<not> (pr_start r < 1024 \<or> pr_end r > 65535 \<or> pr_start r > pr_end r) \<and>
     \<not> (pr_block_size r < 1 \<or> pr_block_size r > pr_end r - pr_start r + 1)"

definition DEFAULT_WORKTREE_PORTS :: port_range where
  "DEFAULT_WORKTREE_PORTS = \<lparr>pr_start = 42000, pr_end = 51999, pr_block_size = 20\<rparr>"

definition valid_block :: "port_block \<Rightarrow> bool" where
  "valid_block b \<longleftrightarrow> pb_start b \<ge> 1 \<and> pb_end b \<le> 65535 \<and> pb_size b \<ge> 1 \<and> pb_end b - pb_start b + 1 = pb_size b"

definition overlaps :: "port_block \<Rightarrow> port_block \<Rightarrow> bool" where
  "overlaps a b \<longleftrightarrow> pb_start a \<le> pb_end b \<and> pb_start b \<le> pb_end a"

type_synonym allocations = "(string \<times> port_allocation) list"

definition some_overlaps :: "allocations \<Rightarrow> port_block \<Rightarrow> bool" where
  "some_overlaps m b \<longleftrightarrow> (\<exists>(k, a)\<in>set m. overlaps (pa_block a) b)"

datatype journal = Absent | Unreadable | Contents json

definition parse_block :: "jobject \<Rightarrow> port_block option" where
  "parse_block ps =
     (case (as_integer (jget ps ''start''), as_integer (jget ps ''end''), as_integer (jget ps ''size'')) of
        (Some st, Some en, Some sz) \<Rightarrow>
          (let b = \<lparr>pb_start = st, pb_end = en, pb_size = sz\<rparr> in if valid_block b then Some b else None)
      | _ \<Rightarrow> None)"

definition parse_entry :: "json \<Rightarrow> port_allocation option" where
  "parse_entry j =
     (case as_object (Some j) of
        None \<Rightarrow> None
      | Some ps \<Rightarrow>
          (case (as_string (jget ps ''owner''), as_safe_integer (jget ps ''allocatedAt''), parse_block ps) of
             (Some owner, Some t, Some b) \<Rightarrow>
               if owner = '''' then None else Some \<lparr>pa_owner = owner, pa_block = b, pa_allocated_at = t\<rparr>
           | _ \<Rightarrow> None))"

text \<open>
  The entries in order, into the map cleared before: an invalid, duplicate or overlapping one throws,
  leaving the ones before it in the map.
\<close>

fun load_entries :: "json list \<Rightarrow> allocations \<Rightarrow> allocations \<times> bool" where
  "load_entries [] m = (m, True)"
| "load_entries (j # js) m =
     (case parse_entry j of
        None \<Rightarrow> (m, False)
      | Some a \<Rightarrow>
          if map_of m (pa_owner a) \<noteq> None \<or> some_overlaps m (pa_block a) then (m, False)
          else load_entries js (AList.update (pa_owner a) a m))"

definition reload :: "journal \<Rightarrow> allocations \<times> bool" where
  "reload d =
     (case d of
        Absent \<Rightarrow> ([], True)
      | Unreadable \<Rightarrow> ([], False)
      | Contents j \<Rightarrow>
          (case as_object (Some j) of
             None \<Rightarrow> ([], False)
           | Some ps \<Rightarrow>
               if jget ps ''version'' \<noteq> Some (JNum 1) then ([], False)
               else (case as_array (jget ps ''allocations'') of
                       None \<Rightarrow> ([], False)
                     | Some js \<Rightarrow> load_entries js [])))"

definition encode_entry :: "port_allocation \<Rightarrow> json" where
  "encode_entry a = JObj [(''owner'', JStr (pa_owner a)), (''start'', JNum (of_int (pb_start (pa_block a)))),
     (''end'', JNum (of_int (pb_end (pa_block a)))), (''size'', JNum (of_int (pb_size (pa_block a)))),
     (''allocatedAt'', JNum (of_int (pa_allocated_at a)))]"

definition encode_journal :: "allocations \<Rightarrow> json" where
  "encode_journal m = JObj [(''version'', JNum 1), (''allocations'', JArr (map (encode_entry \<circ> snd) m))]"

datatype flush_outcome = Flushed | FailedBeforeRename | FailedAfterRename

definition flush_journal :: "flush_outcome \<Rightarrow> allocations \<Rightarrow> journal \<Rightarrow> journal" where
  "flush_journal out m d = (if out = FailedBeforeRename then d else Contents (encode_journal m))"

datatype port_error =
    JournalError
  | LockTimeout
  | DisagreesWithRecord
  | InvalidPersistedBlock
  | CollidesWithOwner
  | Exhausted
  | FlushError

record port_process =
  pp_range :: port_range
  pp_map :: allocations

record port_state =
  ps_journal :: journal
  ps_procs :: "nat \<Rightarrow> port_process option"

text \<open>
  The candidates of the range in order. The first test is only for termination: \<open>range_valid\<close> makes
  every block size positive.
\<close>

function scan_range :: "port_range \<Rightarrow> allocations \<Rightarrow> int \<Rightarrow> port_block option" where
  "scan_range r m start =
     (if pr_block_size r < 1 \<or> start + pr_block_size r - 1 > pr_end r then None
      else let candidate = \<lparr>pb_start = start, pb_end = start + pr_block_size r - 1, pb_size = pr_block_size r\<rparr>
           in if \<not> some_overlaps m candidate then Some candidate
              else scan_range r m (start + pr_block_size r))"
  by pat_completeness auto
termination
  by (relation "measure (\<lambda>(r, m, start). nat (pr_end r - start + 1))") auto

declare scan_range.simps [simp del]

definition select_block :: "port_range \<Rightarrow> allocations \<Rightarrow> port_block option \<Rightarrow> port_error + port_block" where
  "select_block r m preferred =
     (case preferred of
        Some b \<Rightarrow> if \<not> valid_block b then Inl InvalidPersistedBlock
                  else if some_overlaps m b then Inl CollidesWithOwner else Inr b
      | None \<Rightarrow> (case scan_range r m (pr_start r) of None \<Rightarrow> Inl Exhausted | Some b \<Rightarrow> Inr b))"

text \<open>The body of \<open>allocate\<close> on the reloaded map: the new map, the new journal and the result.\<close>

definition allocate_body ::
  "port_range \<Rightarrow> string \<Rightarrow> port_block option \<Rightarrow> int \<Rightarrow> flush_outcome \<Rightarrow> allocations \<Rightarrow> journal
    \<Rightarrow> allocations \<times> journal \<times> (port_error + port_block)" where
  "allocate_body r owner preferred now out m d =
     (case map_of m owner of
        Some a \<Rightarrow>
          (if preferred \<noteq> None \<and> preferred \<noteq> Some (pa_block a) then (m, d, Inl DisagreesWithRecord)
           else (m, d, Inr (pa_block a)))
      | None \<Rightarrow>
          (case select_block r m preferred of
             Inl e \<Rightarrow> (m, d, Inl e)
           | Inr b \<Rightarrow>
               (let m' = AList.update owner \<lparr>pa_owner = owner, pa_block = b, pa_allocated_at = now\<rparr> m
                in if out = Flushed then (m', flush_journal out m' d, Inr b)
                   else (AList.delete owner m', flush_journal out m' d, Inl FlushError))))"

definition release_body ::
  "string \<Rightarrow> flush_outcome \<Rightarrow> allocations \<Rightarrow> journal \<Rightarrow> allocations \<times> journal \<times> (port_error + bool)" where
  "release_body owner out m d =
     (case map_of m owner of
        None \<Rightarrow> (m, d, Inr False)
      | Some a \<Rightarrow>
          (let m' = AList.delete owner m
           in if out = Flushed then (m', flush_journal out m' d, Inr True)
              else (AList.update owner a m', flush_journal out m' d, Inl FlushError)))"

text \<open>
  \<open>withMutation\<close>: take the lock, reload, run the operation. A process without an allocator cannot call
  it; the first branch stands for that.
\<close>

definition with_mutation ::
  "nat \<Rightarrow> bool \<Rightarrow> (port_range \<Rightarrow> allocations \<Rightarrow> journal \<Rightarrow> allocations \<times> journal \<times> (port_error + 'r))
    \<Rightarrow> port_state \<Rightarrow> port_state \<times> (port_error + 'r)" where
  "with_mutation p locked body s =
     (case ps_procs s p of
        None \<Rightarrow> (s, Inl LockTimeout)
      | Some proc \<Rightarrow>
          if \<not> locked then (s, Inl LockTimeout)
          else (case reload (ps_journal s) of
             (m, False) \<Rightarrow> (s\<lparr>ps_procs := (ps_procs s)(p \<mapsto> proc\<lparr>pp_map := m\<rparr>)\<rparr>, Inl JournalError)
           | (m, True) \<Rightarrow>
               (case body (pp_range proc) m (ps_journal s) of
                  (m', d', r) \<Rightarrow> (\<lparr>ps_journal = d', ps_procs = (ps_procs s)(p \<mapsto> proc\<lparr>pp_map := m'\<rparr>)\<rparr>, r))))"

definition port_allocate ::
  "nat \<Rightarrow> bool \<Rightarrow> string \<Rightarrow> port_block option \<Rightarrow> int \<Rightarrow> flush_outcome \<Rightarrow> port_state
    \<Rightarrow> port_state \<times> (port_error + port_block)" where
  "port_allocate p locked owner preferred now out =
     with_mutation p locked (\<lambda>r. allocate_body r owner preferred now out)"

definition port_release ::
  "nat \<Rightarrow> bool \<Rightarrow> string \<Rightarrow> flush_outcome \<Rightarrow> port_state \<Rightarrow> port_state \<times> (port_error + bool)" where
  "port_release p locked owner out = with_mutation p locked (\<lambda>r. release_body owner out)"

text \<open>The constructor throws, and there is no allocator, when the journal cannot be loaded.\<close>

definition port_construct :: "nat \<Rightarrow> port_range \<Rightarrow> port_state \<Rightarrow> port_state" where
  "port_construct p r s =
     (case reload (ps_journal s) of
        (m, True) \<Rightarrow> s\<lparr>ps_procs := (ps_procs s)(p \<mapsto> \<lparr>pp_range = r, pp_map = m\<rparr>)\<rparr>
      | (m, False) \<Rightarrow> s\<lparr>ps_procs := (ps_procs s)(p := None)\<rparr>)"

definition port_capacity :: "port_range \<Rightarrow> int" where
  "port_capacity r = (pr_end r - pr_start r + 1) div pr_block_size r"

definition port_get :: "nat \<Rightarrow> string \<Rightarrow> port_state \<Rightarrow> port_block option" where
  "port_get p owner s =
     (case ps_procs s p of None \<Rightarrow> None | Some proc \<Rightarrow> map_option pa_block (map_of (pp_map proc) owner))"

definition port_list :: "nat \<Rightarrow> port_state \<Rightarrow> (string \<times> port_block) list" where
  "port_list p s =
     (case ps_procs s p of None \<Rightarrow> [] | Some proc \<Rightarrow> map (\<lambda>(k, a). (pa_owner a, pa_block a)) (pp_map proc))"

datatype port_event =
    Construct nat port_range
  | Allocate nat bool string "port_block option" int flush_outcome
  | Release nat bool string flush_outcome

fun port_step :: "port_state \<Rightarrow> port_event \<Rightarrow> port_state" where
  "port_step s (Construct p r) = port_construct p r s"
| "port_step s (Allocate p locked owner preferred now out) = fst (port_allocate p locked owner preferred now out s)"
| "port_step s (Release p locked owner out) = fst (port_release p locked owner out s)"

definition no_allocators :: "journal \<Rightarrow> port_state" where
  "no_allocators d = \<lparr>ps_journal = d, ps_procs = (\<lambda>_. None)\<rparr>"

text \<open>What callers pass: a configured range, a worktree's non-empty owner, and the clock's value.\<close>

fun port_enabled :: "port_state \<Rightarrow> port_event \<Rightarrow> bool" where
  "port_enabled s (Construct p r) \<longleftrightarrow> range_valid r"
| "port_enabled s (Allocate p locked owner preferred now out) \<longleftrightarrow> owner \<noteq> '''' \<and> \<bar>now\<bar> \<le> max_safe_integer"
| "port_enabled s (Release p locked owner out) \<longleftrightarrow> True"

section \<open>Loading a journal\<close>

definition allocation_ok :: "string \<Rightarrow> port_allocation \<Rightarrow> bool" where
  "allocation_ok k a \<longleftrightarrow> pa_owner a = k \<and> k \<noteq> '''' \<and> valid_block (pa_block a) \<and>
     \<bar>pa_allocated_at a\<bar> \<le> max_safe_integer"

definition allocations_ok :: "allocations \<Rightarrow> bool" where
  "allocations_ok m \<longleftrightarrow> jmap_ok m \<and> (\<forall>(k, a)\<in>set m. allocation_ok k a) \<and>
     (\<forall>(k, a)\<in>set m. \<forall>(k', a')\<in>set m. k \<noteq> k' \<longrightarrow> \<not> overlaps (pa_block a) (pa_block a'))"

lemma overlaps_sym: "overlaps a b = overlaps b a"
  by (auto simp: overlaps_def)

lemma parse_encode_entry: "allocation_ok k a \<Longrightarrow> parse_entry (encode_entry a) = Some a"
  by (cases a; cases "pa_block a") (simp add: allocation_ok_def encode_entry_def parse_entry_def parse_block_def Let_def)

lemma parse_entry_ok: "parse_entry j = Some a \<Longrightarrow> allocation_ok (pa_owner a) a"
  by (auto simp: parse_entry_def parse_block_def allocation_ok_def Let_def
      dest: as_safe_integer_SomeD split: option.splits if_splits)

lemma allocations_ok_Nil [simp]: "allocations_ok []"
  by (simp add: allocations_ok_def)

lemma allocations_ok_snoc:
  "allocations_ok (m @ [(k, a)]) \<longleftrightarrow>
     allocations_ok m \<and> allocation_ok k a \<and> map_of m k = None \<and> \<not> some_overlaps m (pa_block a)"
  unfolding allocations_ok_def some_overlaps_def map_of_eq_None_iff
  by (auto simp: overlaps_sym image_iff split: prod.splits)

lemma allocations_ok_add:
  assumes "allocations_ok m" "allocation_ok k a" "map_of m k = None" "\<not> some_overlaps m (pa_block a)"
  shows "allocations_ok (AList.update k a m)"
  using assms by (simp add: alist_update_new allocations_ok_snoc)

lemma allocations_ok_subset:
  "allocations_ok m \<Longrightarrow> set n \<subseteq> set m \<Longrightarrow> jmap_ok n \<Longrightarrow> allocations_ok n"
  unfolding allocations_ok_def by blast

lemma allocations_ok_delete: "allocations_ok m \<Longrightarrow> allocations_ok (AList.delete k m)"
  by (rule allocations_ok_subset[OF _ set_alist_delete]) (simp_all add: distinct_delete allocations_ok_def)

lemma load_entries_ok: "allocations_ok m \<Longrightarrow> load_entries js m = (m', ok) \<Longrightarrow> allocations_ok m'"
proof (induction js arbitrary: m)
  case (Cons j js)
  show ?case
  proof (cases "parse_entry j")
    case (Some a)
    show ?thesis
    proof (cases "map_of m (pa_owner a) \<noteq> None \<or> some_overlaps m (pa_block a)")
      case False
      then have "allocations_ok (AList.update (pa_owner a) a m)"
        using Cons.prems(1) parse_entry_ok[OF Some] by (intro allocations_ok_add) auto
      with Cons False Some show ?thesis by auto
    qed (use Cons.prems Some in auto)
  qed (use Cons.prems in auto)
qed simp

lemma load_encoded: "allocations_ok (m @ n) \<Longrightarrow> load_entries (map (encode_entry \<circ> snd) n) m = (m @ n, True)"
proof (induction n arbitrary: m)
  case (Cons p n)
  obtain k a where p: "p = (k, a)" by force
  have "allocations_ok ((m @ [(k, a)]) @ n)" using Cons.prems p by simp
  then have "allocations_ok (m @ [(k, a)])"
    by (rule allocations_ok_subset) (use Cons.prems p in \<open>auto simp: allocations_ok_def\<close>)
  then have a: "allocation_ok k a" "map_of m k = None" "\<not> some_overlaps m (pa_block a)"
    by (simp_all add: allocations_ok_snoc)
  moreover from a(1) have "pa_owner a = k" by (simp add: allocation_ok_def)
  ultimately show ?case
    using Cons.IH[of "m @ [(k, a)]"] Cons.prems p by (simp add: parse_encode_entry alist_update_new)
qed simp

lemma reload_ok: "reload d = (m, ok) \<Longrightarrow> allocations_ok m"
  using load_entries_ok[of "[]"] by (auto simp: reload_def split: journal.splits option.splits if_splits)

lemma reload_encoded: "allocations_ok m \<Longrightarrow> reload (Contents (encode_journal m)) = (m, True)"
  using load_encoded[of "[]" m] by (simp add: reload_def encode_journal_def)

section \<open>The allocation\<close>

text \<open>The scan finds the first block of the range's grid that is free.\<close>

definition grid_block :: "port_range \<Rightarrow> nat \<Rightarrow> port_block" where
  "grid_block r i = \<lparr>pb_start = pr_start r + int i * pr_block_size r,
     pb_end = pr_start r + int i * pr_block_size r + pr_block_size r - 1, pb_size = pr_block_size r\<rparr>"

definition in_grid :: "port_range \<Rightarrow> nat \<Rightarrow> bool" where
  "in_grid r i \<longleftrightarrow> pb_end (grid_block r i) \<le> pr_end r"

lemma scan_range_Some:
  assumes "scan_range r m (pr_start r + int i * pr_block_size r) = Some b"
  shows "\<exists>j \<ge> i. b = grid_block r j \<and> in_grid r j \<and> \<not> some_overlaps m b \<and>
     (\<forall>k. i \<le> k \<and> k < j \<longrightarrow> some_overlaps m (grid_block r k))"
  using assms
proof (induction r m "pr_start r + int i * pr_block_size r" arbitrary: i rule: scan_range.induct)
  case (1 r m)
  have small: "\<not> (pr_block_size r < 1 \<or> pr_start r + int i * pr_block_size r + pr_block_size r - 1 > pr_end r)"
    using "1.prems" by (simp add: scan_range.simps[of r m "pr_start r + int i * pr_block_size r"] split: if_splits)
  show ?case
  proof (cases "some_overlaps m (grid_block r i)")
    case False
    with "1.prems" small show ?thesis
      by (intro exI[of _ i]) (subst (asm) scan_range.simps, auto simp: grid_block_def in_grid_def)
  next
    case True
    have next_start: "pr_start r + int (Suc i) * pr_block_size r = pr_start r + int i * pr_block_size r + pr_block_size r"
      by (simp add: algebra_simps)
    have "scan_range r m (pr_start r + int (Suc i) * pr_block_size r) = Some b"
      using "1.prems" small True unfolding next_start
      by (subst (asm) scan_range.simps) (simp add: grid_block_def)
    with "1.hyps"[OF small refl _ next_start[symmetric]] True obtain j where j: "Suc i \<le> j"
      "b = grid_block r j" "in_grid r j" "\<not> some_overlaps m b"
      "\<forall>k. Suc i \<le> k \<and> k < j \<longrightarrow> some_overlaps m (grid_block r k)"
      by (auto simp: grid_block_def)
    have "some_overlaps m (grid_block r k)" if "i \<le> k" "k < j" for k
      using that True j(5) by (cases "k = i") auto
    with j show ?thesis by (intro exI[of _ j]) auto
  qed
qed

lemma scan_range_None:
  assumes "scan_range r m (pr_start r + int i * pr_block_size r) = None" "1 \<le> pr_block_size r" "i \<le> k" "in_grid r k"
  shows "some_overlaps m (grid_block r k)"
  using assms
proof (induction r m "pr_start r + int i * pr_block_size r" arbitrary: i rule: scan_range.induct)
  case (1 r m)
  have next_start: "pr_start r + int (Suc i) * pr_block_size r = pr_start r + int i * pr_block_size r + pr_block_size r"
    by (simp add: algebra_simps)
  have le: "int i * pr_block_size r \<le> int k * pr_block_size r"
    using "1.prems"(2,3) by (intro mult_right_mono) auto
  have "pr_start r + int k * pr_block_size r + pr_block_size r - 1 \<le> pr_end r"
    using "1.prems"(4) by (simp add: in_grid_def grid_block_def)
  with le "1.prems"(2) have small: "\<not> (pr_block_size r < 1 \<or> pr_start r + int i * pr_block_size r + pr_block_size r - 1 > pr_end r)"
    by linarith
  have taken: "some_overlaps m (grid_block r i)"
    using "1.prems"(1) small by (subst (asm) scan_range.simps) (auto simp: grid_block_def Let_def split: if_splits)
  have rest: "scan_range r m (pr_start r + int (Suc i) * pr_block_size r) = None"
    using "1.prems"(1) small taken unfolding next_start
    by (subst (asm) scan_range.simps) (simp add: grid_block_def)
  show ?case
  proof (cases "k = i")
    case False
    with "1.hyps"[OF small refl _ next_start[symmetric]] taken rest "1.prems" show ?thesis
      by (auto simp: grid_block_def)
  qed (use taken in simp)
qed

lemma scan_range_valid:
  assumes "scan_range r m (pr_start r) = Some b" "range_valid r"
  shows "valid_block b" "\<not> some_overlaps m b"
proof -
  from scan_range_Some[of r m 0 b] assms(1) obtain j where
    j: "b = grid_block r j" "in_grid r j" "\<not> some_overlaps m b" by auto
  define d where "d = int j * pr_block_size r"
  have "0 \<le> d" unfolding d_def using assms(2) by (intro mult_nonneg_nonneg) (auto simp: range_valid_def)
  then show "valid_block b" using j(1,2) assms(2)
    by (simp add: valid_block_def grid_block_def in_grid_def range_valid_def d_def[symmetric])
  show "\<not> some_overlaps m b" by (rule j(3))
qed

lemma select_block_ok:
  assumes "select_block r m preferred = Inr b" "range_valid r"
  shows "valid_block b" "\<not> some_overlaps m b"
  using assms scan_range_valid[of r m b] by (auto simp: select_block_def split: option.splits if_splits)

section \<open>The journal under mutations\<close>

text \<open>What a mutation may do to the journal: keep it, add a fresh owner's block, or drop one owner.\<close>

definition journal_map :: "journal \<Rightarrow> allocations" where
  "journal_map d = fst (reload d)"

definition loadable :: "journal \<Rightarrow> bool" where
  "loadable d \<longleftrightarrow> snd (reload d)"

lemma loadable_ok: "allocations_ok (journal_map d)"
  using reload_ok[of d] by (cases "reload d") (auto simp: journal_map_def)

lemma loadable_encoded: "allocations_ok m \<Longrightarrow> loadable (Contents (encode_journal m)) \<and> journal_map (Contents (encode_journal m)) = m"
  by (simp add: loadable_def journal_map_def reload_encoded)

lemma allocate_body_journal:
  assumes "loadable d" "m = journal_map d" "range_valid r" "owner \<noteq> ''''" "\<bar>now\<bar> \<le> max_safe_integer"
    and "allocate_body r owner preferred now out m d = (m', d', res)"
  shows "loadable d' \<and> (journal_map d' = m \<or>
     (map_of m owner = None \<and> (\<exists>a. journal_map d' = AList.update owner a m)))"
    and "res = Inr b \<Longrightarrow> map_option pa_block (map_of (journal_map d') owner) = Some b"
proof -
  have ok: "allocations_ok m" using loadable_ok assms(2) by simp
  have "loadable d' \<and> (journal_map d' = m \<or>
      (map_of m owner = None \<and> (\<exists>a. journal_map d' = AList.update owner a m))) \<and>
    (res = Inr b \<longrightarrow> map_option pa_block (map_of (journal_map d') owner) = Some b)"
  proof (cases "map_of m owner")
    case (Some a)
    with assms show ?thesis by (auto simp: allocate_body_def split: if_splits)
  next
    case None
    show ?thesis
    proof (cases "select_block r m preferred")
      case (Inl e)
      with None assms show ?thesis by (auto simp: allocate_body_def)
    next
      case (Inr c)
      let ?m = "AList.update owner \<lparr>pa_owner = owner, pa_block = c, pa_allocated_at = now\<rparr> m"
      have "allocations_ok ?m"
        using ok None assms(4,5) select_block_ok[OF Inr assms(3)]
        by (intro allocations_ok_add) (auto simp: allocation_ok_def)
      from loadable_encoded[OF this] show ?thesis
        using None Inr assms
        by (auto simp: allocate_body_def Let_def flush_journal_def update_conv' split: if_splits)
    qed
  qed
  then show "loadable d' \<and> (journal_map d' = m \<or>
      (map_of m owner = None \<and> (\<exists>a. journal_map d' = AList.update owner a m)))"
    "res = Inr b \<Longrightarrow> map_option pa_block (map_of (journal_map d') owner) = Some b" by blast+
qed

lemma release_body_journal:
  assumes "loadable d" "m = journal_map d" "release_body owner out m d = (m', d', res)"
  shows "loadable d' \<and> (journal_map d' = m \<or> journal_map d' = AList.delete owner m)"
proof -
  have "allocations_ok (AList.delete owner m)" using loadable_ok assms(2) by (simp add: allocations_ok_delete)
  from loadable_encoded[OF this] show ?thesis
    using assms by (auto simp: release_body_def Let_def flush_journal_def split: option.splits if_splits)
qed

definition port_good :: "port_state \<Rightarrow> bool" where
  "port_good s \<longleftrightarrow> loadable (ps_journal s) \<and>
     (\<forall>p proc. ps_procs s p = Some proc \<longrightarrow> range_valid (pp_range proc))"

text \<open>A mutation, on a loadable journal, either does nothing or runs its body on the journal's own map.\<close>

lemma with_mutation_cases:
  assumes "loadable (ps_journal s)"
  obtains "with_mutation p locked body s = (s, Inl LockTimeout)"
  | proc m' d' res where "ps_procs s p = Some proc" "locked"
    "body (pp_range proc) (journal_map (ps_journal s)) (ps_journal s) = (m', d', res)"
    "with_mutation p locked body s =
       (\<lparr>ps_journal = d', ps_procs = (ps_procs s)(p \<mapsto> proc\<lparr>pp_map := m'\<rparr>)\<rparr>, res)"
proof (cases "ps_procs s p")
  case (Some proc)
  have "reload (ps_journal s) = (journal_map (ps_journal s), True)"
    using assms by (cases "reload (ps_journal s)") (simp add: loadable_def journal_map_def)
  moreover obtain m' d' res where "body (pp_range proc) (journal_map (ps_journal s)) (ps_journal s) = (m', d', res)"
    by (cases "body (pp_range proc) (journal_map (ps_journal s)) (ps_journal s)")
  ultimately show ?thesis
    using that(1) that(2)[of proc m' d' res] Some by (cases locked) (simp_all add: with_mutation_def)
qed (use that(1) in \<open>simp add: with_mutation_def\<close>)

lemma port_step_good: "port_good s \<Longrightarrow> port_enabled s e \<Longrightarrow> port_good (port_step s e)"
proof (cases e)
  case (Construct p r)
  assume "port_good s" "port_enabled s e"
  with Construct show ?thesis
    by (auto simp: port_construct_def port_good_def split: prod.splits bool.splits)
next
  case (Allocate p locked owner preferred now out)
  assume good: "port_good s" and en: "port_enabled s e"
  then have ld: "loadable (ps_journal s)" by (simp add: port_good_def)
  show ?thesis
  proof (rule with_mutation_cases[OF ld, of p locked "\<lambda>r. allocate_body r owner preferred now out"])
    fix proc m' d' res
    assume proc: "ps_procs s p = Some proc" and
      body: "allocate_body (pp_range proc) owner preferred now out (journal_map (ps_journal s)) (ps_journal s) = (m', d', res)"
      and eq: "with_mutation p locked (\<lambda>r. allocate_body r owner preferred now out) s =
        (\<lparr>ps_journal = d', ps_procs = (ps_procs s)(p \<mapsto> proc\<lparr>pp_map := m'\<rparr>)\<rparr>, res)"
    have "range_valid (pp_range proc)" using good proc by (simp add: port_good_def)
    from allocate_body_journal(1)[OF ld refl this _ _ body] this show ?thesis
      using good en Allocate eq by (auto simp: port_allocate_def port_good_def)
  qed (use good Allocate in \<open>simp add: port_allocate_def\<close>)
next
  case (Release p locked owner out)
  assume good: "port_good s" and en: "port_enabled s e"
  then have ld: "loadable (ps_journal s)" by (simp add: port_good_def)
  show ?thesis
    by (rule with_mutation_cases[OF ld, of p locked "\<lambda>r. release_body owner out"])
       (use good Release release_body_journal[OF ld refl] in \<open>auto simp: port_release_def port_good_def\<close>)
qed

interpretation ports: guarded_machine port_step port_good port_enabled
  by unfold_locales (rule port_step_good)

fun releases :: "string \<Rightarrow> port_event \<Rightarrow> bool" where
  "releases owner (Release p locked o' out) \<longleftrightarrow> o' = owner"
| "releases owner _ \<longleftrightarrow> False"

lemma port_step_keeps:
  assumes "port_good s" "port_enabled s e" "\<not> releases owner e"
    "map_of (journal_map (ps_journal s)) owner = Some a"
  shows "map_of (journal_map (ps_journal (port_step s e))) owner = Some a"
proof -
  have ld: "loadable (ps_journal s)" using assms(1) by (simp add: port_good_def)
  show ?thesis
  proof (cases e)
    case (Construct p r)
    with assms(4) show ?thesis by (simp add: port_construct_def split: prod.splits bool.splits)
  next
    case (Allocate p locked o' preferred now out)
    show ?thesis
    proof (rule with_mutation_cases[OF ld, of p locked "\<lambda>r. allocate_body r o' preferred now out"])
      fix proc m' d' res
      assume "ps_procs s p = Some proc" and
        body: "allocate_body (pp_range proc) o' preferred now out (journal_map (ps_journal s)) (ps_journal s) = (m', d', res)"
        and eq: "with_mutation p locked (\<lambda>r. allocate_body r o' preferred now out) s =
          (\<lparr>ps_journal = d', ps_procs = (ps_procs s)(p \<mapsto> proc\<lparr>pp_map := m'\<rparr>)\<rparr>, res)"
      moreover have "range_valid (pp_range proc)" using assms(1) calculation(1) by (simp add: port_good_def)
      ultimately show ?thesis
        using allocate_body_journal(1)[OF ld refl _ _ _ body] assms(2,4) Allocate
        by (auto simp: port_allocate_def update_conv')
    qed (use Allocate assms(4) in \<open>simp add: port_allocate_def\<close>)
  next
    case (Release p locked o' out)
    show ?thesis
    proof (rule with_mutation_cases[OF ld, of p locked "\<lambda>r. release_body o' out"])
      fix proc m' d' res
      assume body: "release_body o' out (journal_map (ps_journal s)) (ps_journal s) = (m', d', res)"
        and eq: "with_mutation p locked (\<lambda>r. release_body o' out) s =
          (\<lparr>ps_journal = d', ps_procs = (ps_procs s)(p \<mapsto> proc\<lparr>pp_map := m'\<rparr>)\<rparr>, res)"
      then show ?thesis
        using release_body_journal[OF ld refl body] assms(3,4) Release
        by (auto simp: port_release_def delete_conv')
    qed (use Release assms(4) in \<open>simp add: port_release_def\<close>)
  qed
qed

lemma port_run_keeps:
  "port_good s \<Longrightarrow> enabled_run port_step port_enabled s es \<Longrightarrow> \<forall>e\<in>set es. \<not> releases owner e \<Longrightarrow>
     map_of (journal_map (ps_journal s)) owner = Some a \<Longrightarrow>
     map_of (journal_map (ps_journal (foldl port_step s es))) owner = Some a"
  by (induction es arbitrary: s) (auto simp: port_step_keeps port_step_good)

section \<open>Properties\<close>

lemma mult_le_iff_le_div:
  fixes a c x :: int
  assumes "1 \<le> c"
  shows "a * c \<le> x \<longleftrightarrow> a \<le> x div c"
proof
  assume "a * c \<le> x"
  then have "a * c div c \<le> x div c" using assms by (intro zdiv_mono1) auto
  then show "a \<le> x div c" using assms by simp
next
  assume "a \<le> x div c"
  then have "a * c \<le> x div c * c" using assms by (intro mult_right_mono) auto
  also have "\<dots> = x - x mod c" by (simp add: minus_mod_eq_div_mult)
  also have "\<dots> \<le> x" using assms by simp
  finally show "a * c \<le> x" .
qed

lemma port_run_good:
  "snd (reload d) \<Longrightarrow> enabled_run port_step port_enabled (no_allocators d) es \<Longrightarrow>
     port_good (foldl port_step (no_allocators d) es)"
  by (intro ports.enabled_run_good) (simp_all add: port_good_def no_allocators_def loadable_def)

text \<open>
  C3: Two worktrees never share a port, on disk, whatever happens. Whichever processes with whichever
  configured ranges allocate and release, and whether their flushes succeed or fail before or after the
  rename, the journal always stays loadable, its owners are distinct, and the port intervals of
  different owners are disjoint and within 1 to 65535.
\<close>

theorem journal_blocks_always_disjoint:
  assumes "snd (reload d)" and "enabled_run port_step port_enabled (no_allocators d) es"
  shows "let (m, loaded) = reload (ps_journal (foldl port_step (no_allocators d) es)) in
    loaded \<and> distinct (map fst m) \<and>
    (\<forall>(k, a)\<in>set m. pa_owner a = k \<and> {pb_start (pa_block a)..pb_end (pa_block a)} \<subseteq> {1..65535} \<and>
       (\<forall>(k', a')\<in>set m. k \<noteq> k' \<longrightarrow>
          {pb_start (pa_block a)..pb_end (pa_block a)} \<inter> {pb_start (pa_block a')..pb_end (pa_block a')} = {}))"
proof -
  let ?d = "ps_journal (foldl port_step (no_allocators d) es)"
  have "loadable ?d" using port_run_good[OF assms] by (simp add: port_good_def)
  then have eq: "reload ?d = (journal_map ?d, True)"
    by (cases "reload ?d") (simp add: loadable_def journal_map_def)
  have ok: "allocations_ok (journal_map ?d)" by (rule loadable_ok)
  have "\<not> overlaps x y \<Longrightarrow> {pb_start x..pb_end x} \<inter> {pb_start y..pb_end y} = {}" for x y
    by (auto simp: overlaps_def)
  moreover have "valid_block x \<Longrightarrow> {pb_start x..pb_end x} \<subseteq> {1..65535}" for x
    by (auto simp: valid_block_def)
  ultimately show ?thesis
    using ok unfolding eq allocations_ok_def allocation_ok_def Let_def prod.case
    by (intro conjI ballI; clarify) (simp; blast)+
qed

text \<open>
  An allocation is durable. Once a process got a block for an owner, then through any further
  events of any processes, with new configured ranges and failing flushes included, as long as nobody
  releases that owner, a later allocation for it that gets the lock returns the same block.
\<close>

theorem allocated_block_is_durable:
  assumes "snd (reload d)" and "enabled_run port_step port_enabled (no_allocators d) es"
    and "s = foldl port_step (no_allocators d) es"
    and "port_enabled s (Allocate p locked owner preferred now out)"
    and "port_allocate p locked owner preferred now out s = (s1, Inr b)"
    and "enabled_run port_step port_enabled s1 es'" and "\<forall>e\<in>set es'. \<not> releases owner e"
    and "s2 = foldl port_step s1 es'" and "ps_procs s2 q \<noteq> None"
  shows "snd (port_allocate q True owner None now' out' s2) = Inr b"
proof -
  have good: "port_good s" using port_run_good[OF assms(1,2)] assms(3) by simp
  then have ld: "loadable (ps_journal s)" by (simp add: port_good_def)
  have good1: "port_good s1"
    using port_step_good[OF good assms(4)] assms(5) by simp
  obtain a where a: "map_of (journal_map (ps_journal s1)) owner = Some a" "pa_block a = b"
  proof (rule with_mutation_cases[OF ld, of p locked "\<lambda>r. allocate_body r owner preferred now out"])
    fix proc m' d' res
    assume proc: "ps_procs s p = Some proc" and
      body: "allocate_body (pp_range proc) owner preferred now out (journal_map (ps_journal s)) (ps_journal s) = (m', d', res)"
      and eq: "with_mutation p locked (\<lambda>r. allocate_body r owner preferred now out) s =
        (\<lparr>ps_journal = d', ps_procs = (ps_procs s)(p \<mapsto> proc\<lparr>pp_map := m'\<rparr>)\<rparr>, res)"
    have "range_valid (pp_range proc)" using good proc by (simp add: port_good_def)
    from allocate_body_journal(2)[OF ld refl this _ _ body, of b] assms(4,5) eq that show thesis
      by (auto simp: port_allocate_def)
  qed (use assms(5) in \<open>simp add: port_allocate_def\<close>)
  have a2: "map_of (journal_map (ps_journal s2)) owner = Some a"
    using port_run_keeps[OF good1 assms(6,7) a(1)] assms(8) by simp
  have "loadable (ps_journal s2)"
    using ports.enabled_run_good[OF good1 assms(6)] assms(8) by (simp add: port_good_def)
  then have "reload (ps_journal s2) = (journal_map (ps_journal s2), True)"
    by (cases "reload (ps_journal s2)") (simp add: loadable_def journal_map_def)
  with a2 a(2) assms(9) show ?thesis
    by (auto simp: port_allocate_def with_mutation_def allocate_body_def)
qed

text \<open>
  An allocation fails as exhausted only when it must. For an owner without a block and a loadable
  journal, an allocation with the lock and a working disk takes the first block of the configured
  range's grid that overlaps no durable owner, and reports exhaustion exactly when every one of the
  range's \<open>capacity\<close> blocks is taken.
\<close>

theorem allocation_is_first_fit:
  assumes "ps_procs s p = Some proc" and "range_valid (pp_range proc)"
    and "reload (ps_journal s) = (m, True)" and "map_of m owner = None"
  shows "case snd (port_allocate p True owner None now Flushed s) of
      Inr b \<Rightarrow> \<exists>i < nat (port_capacity (pp_range proc)). b = grid_block (pp_range proc) i \<and> \<not> some_overlaps m b \<and>
                 (\<forall>k < i. some_overlaps m (grid_block (pp_range proc) k))
    | Inl e \<Rightarrow> e = Exhausted \<and> (\<forall>k < nat (port_capacity (pp_range proc)). some_overlaps m (grid_block (pp_range proc) k))"
proof -
  let ?r = "pp_range proc"
  have size: "1 \<le> pr_block_size ?r" "pr_start ?r \<le> pr_end ?r" using assms(2) by (auto simp: range_valid_def)
  have grid: "in_grid ?r i \<longleftrightarrow> i < nat (port_capacity ?r)" for i
  proof -
    have "in_grid ?r i \<longleftrightarrow> (int i + 1) * pr_block_size ?r \<le> pr_end ?r - pr_start ?r + 1"
      by (simp add: in_grid_def grid_block_def algebra_simps)
    also have "\<dots> \<longleftrightarrow> int i + 1 \<le> port_capacity ?r"
      using size(1) by (simp add: port_capacity_def mult_le_iff_le_div)
    finally show ?thesis by linarith
  qed
  have res: "snd (port_allocate p True owner None now Flushed s) = select_block ?r m None"
    using assms by (simp add: port_allocate_def with_mutation_def allocate_body_def Let_def split: sum.splits)
  show ?thesis
  proof (cases "scan_range ?r m (pr_start ?r)")
    case None
    then have "some_overlaps m (grid_block ?r k)" if "in_grid ?r k" for k
      using scan_range_None[of ?r m 0 k] size that by simp
    with None grid show ?thesis by (simp add: res select_block_def)
  next
    case (Some b)
    with scan_range_Some[of ?r m 0 b] grid show ?thesis by (auto simp: res select_block_def)
  qed
qed

section \<open>Witnesses\<close>

text \<open>Two processes, three ports each over a range with room for two blocks; one flush fails late.\<close>

definition demo_range :: port_range where
  "demo_range = \<lparr>pr_start = 2000, pr_end = 2007, pr_block_size = 3\<rparr>"

definition demo_ports :: "port_event list" where
  "demo_ports = [Construct 0 demo_range, Construct 1 demo_range,
     Allocate 0 True ''a'' None 5 Flushed, Allocate 1 True ''b'' None 6 FailedAfterRename, Release 1 True ''a'' FailedBeforeRename]"

lemma demo_ports_run:
  "enabled_run port_step port_enabled (no_allocators Absent) demo_ports"
  "map (\<lambda>(k, a). (k, pb_start (pa_block a))) (journal_map (ps_journal (foldl port_step (no_allocators Absent) demo_ports)))
     = [(''a'', 2000), (''b'', 2003)]"
  "ps_procs (foldl port_step (no_allocators Absent) demo_ports) 0 \<noteq> None"
  "ps_procs (foldl port_step (no_allocators Absent) demo_ports) 2 = None"
  by code_simp+

theorem journal_blocks_always_disjoint_witness:
  "snd (reload (ps_journal (foldl port_step (no_allocators Absent) demo_ports)))"
  using journal_blocks_always_disjoint[of Absent demo_ports] demo_ports_run(1)
  by (auto simp: reload_def case_prod_beta Let_def)

definition demo_start :: port_state where
  "demo_start = foldl port_step (no_allocators Absent) [Construct 0 demo_range, Construct 1 demo_range]"

definition demo_owned :: port_state where
  "demo_owned = port_step demo_start (Allocate 0 True ''a'' None 5 Flushed)"

definition demo_later :: "port_event list" where
  "demo_later = [Allocate 1 True ''b'' None 6 Flushed, Release 1 True ''b'' FailedAfterRename, Construct 0 DEFAULT_WORKTREE_PORTS]"

lemma demo_durable:
  "enabled_run port_step port_enabled (no_allocators Absent) [Construct 0 demo_range, Construct 1 demo_range]"
  "snd (port_allocate 0 True ''a'' None 5 Flushed demo_start) = Inr \<lparr>pb_start = 2000, pb_end = 2002, pb_size = 3\<rparr>"
  "enabled_run port_step port_enabled demo_owned demo_later"
  "ps_procs (foldl port_step demo_owned demo_later) 0 \<noteq> None"
  "list_all (\<lambda>e. \<not> releases ''a'' e) demo_later"
  by code_simp+

theorem allocated_block_is_durable_witness:
  "snd (port_allocate 0 True ''a'' None 9 Flushed (foldl port_step demo_owned demo_later)) =
     Inr \<lparr>pb_start = 2000, pb_end = 2002, pb_size = 3\<rparr>"
proof (rule allocated_block_is_durable[OF _ demo_durable(1) _ _ _ demo_durable(3) _ refl demo_durable(4)])
  show "port_allocate 0 True ''a'' None 5 Flushed demo_start = (demo_owned, Inr \<lparr>pb_start = 2000, pb_end = 2002, pb_size = 3\<rparr>)"
    using demo_durable(2) by (cases "port_allocate 0 True ''a'' None 5 Flushed demo_start") (simp add: demo_owned_def)
  show "\<forall>e\<in>set demo_later. \<not> releases ''a'' e" using demo_durable(5) by (simp add: list_all_iff)
qed (simp_all add: reload_def demo_start_def max_safe_integer_def)

lemma demo_exhausted:
  "snd (port_allocate 0 True ''c'' None 9 Flushed (foldl port_step (no_allocators Absent) demo_ports)) = Inl Exhausted"
  "map_option pp_range (ps_procs (foldl port_step (no_allocators Absent) demo_ports) 0) = Some demo_range"
  "snd (reload (ps_journal (foldl port_step (no_allocators Absent) demo_ports)))"
  "map_of (fst (reload (ps_journal (foldl port_step (no_allocators Absent) demo_ports)))) ''c'' = None"
  "range_valid demo_range" "nat (port_capacity demo_range) = 2"
  by code_simp+

theorem allocation_is_first_fit_witness:
  "let m = fst (reload (ps_journal (foldl port_step (no_allocators Absent) demo_ports))) in
     some_overlaps m (grid_block demo_range 0) \<and> some_overlaps m (grid_block demo_range 1)"
proof -
  let ?s = "foldl port_step (no_allocators Absent) demo_ports"
  obtain proc where proc: "ps_procs ?s 0 = Some proc" "pp_range proc = demo_range"
    using demo_exhausted(2) by auto
  have "reload (ps_journal ?s) = (fst (reload (ps_journal ?s)), True)"
    using demo_exhausted(3) by (simp add: prod_eq_iff)
  from allocation_is_first_fit[OF proc(1) _ this demo_exhausted(4), of 9] show ?thesis
    using demo_exhausted(1,5,6) proc(2) by (auto simp: Let_def)
qed

end
