(* ===== verification/Dependency_Graph.thy ===== *)
theory Dependency_Graph
  imports Prelude
begin

text \<open>
  The dependency edges of a campaign's work items and their replacement
  (\<open>hasCycle\<close>, \<open>dependencyEdges\<close> and \<open>replaceDependencies\<close> of
  \<open>apps/control-plane/src/campaign-work-ledger-store.ts\<close>).

  The depth-first search threads its colour map. Its depth is bounded by fuel; running out is \<open>None\<close>,
  and the search is proved to answer with one more unit than there are items with dependencies. The
  stored rows are the edges of the items that have any. What the store reads besides, which items
  exist and whether an item's open attempt has armed its merge, are arguments.
\<close>

section \<open>The cycle check\<close>

type_synonym edges = "(string \<times> string list) list"

definition succs :: "edges \<Rightarrow> string \<Rightarrow> string list" where
  "succs edges item = (case map_of edges item of None \<Rightarrow> [] | Some ds \<Rightarrow> ds)"

datatype visit_state = Visiting | Done

type_synonym colours = "string \<Rightarrow> visit_state option"

text \<open>\<open>for (const next of ...) if (visit(next)) return true\<close>\<close>

fun visit_all :: "(colours \<Rightarrow> string \<Rightarrow> (bool \<times> colours) option) \<Rightarrow> colours \<Rightarrow> string list \<Rightarrow> (bool \<times> colours) option" where
  "visit_all f st [] = Some (False, st)"
| "visit_all f st (x # xs) =
     (case f st x of
        None \<Rightarrow> None
      | Some (True, st') \<Rightarrow> Some (True, st')
      | Some (False, st') \<Rightarrow> visit_all f st' xs)"

fun visit :: "nat \<Rightarrow> edges \<Rightarrow> colours \<Rightarrow> string \<Rightarrow> (bool \<times> colours) option" where
  "visit 0 edges st item = None"
| "visit (Suc n) edges st item =
     (if st item = Some Done then Some (False, st)
      else if st item = Some Visiting then Some (True, st)
      else case visit_all (visit n edges) (st(item \<mapsto> Visiting)) (succs edges item) of
             None \<Rightarrow> None
           | Some (True, st') \<Rightarrow> Some (True, st')
           | Some (False, st') \<Rightarrow> Some (False, st'(item \<mapsto> Done)))"

definition has_cycle :: "edges \<Rightarrow> bool option" where
  "has_cycle edges =
     map_option fst (visit_all (visit (Suc (length edges)) edges) (\<lambda>_. None) (map fst edges))"

section \<open>Correctness of the check\<close>

definition edge_rel :: "edges \<Rightarrow> (string \<times> string) set" where
  "edge_rel edges = {(a, b). b \<in> set (succs edges a)}"

definition visiting_of :: "colours \<Rightarrow> string set" where
  "visiting_of st = {x. st x = Some Visiting}"

definition done_of :: "colours \<Rightarrow> string set" where
  "done_of st = {x. st x = Some Done}"

lemma in_visiting_of: "x \<in> visiting_of st \<longleftrightarrow> st x = Some Visiting"
  by (simp add: visiting_of_def)

lemma in_done_of: "x \<in> done_of st \<longleftrightarrow> st x = Some Done"
  by (simp add: done_of_def)

lemma colour_simps [simp]:
  "visiting_of (st(x \<mapsto> Visiting)) = insert x (visiting_of st)" "done_of (st(x \<mapsto> Visiting)) = done_of st - {x}"
  "visiting_of (st(x \<mapsto> Done)) = visiting_of st - {x}" "done_of (st(x \<mapsto> Done)) = insert x (done_of st)"
  "visiting_of (\<lambda>_. None) = {}" "done_of (\<lambda>_. None) = {}"
  by (auto simp: visiting_of_def done_of_def)

text \<open>The finished items are closed under dependencies and on no cycle.\<close>

definition settled :: "edges \<Rightarrow> string set \<Rightarrow> bool" where
  "settled edges D \<longleftrightarrow> (\<forall>u\<in>D. set (succs edges u) \<subseteq> D) \<and> (\<forall>u\<in>D. (u, u) \<notin> (edge_rel edges)\<^sup>+)"

lemma succs_key: "x \<in> set (succs edges u) \<Longrightarrow> u \<in> fst ` set edges"
  by (cases "map_of edges u") (auto simp: succs_def image_iff dest!: map_of_SomeD intro: bexI[rotated])

lemma closed_trancl:
  "(u, v) \<in> (edge_rel edges)\<^sup>+ \<Longrightarrow> \<forall>u\<in>D. set (succs edges u) \<subseteq> D \<Longrightarrow> u \<in> D \<Longrightarrow> v \<in> D"
  by (induction rule: trancl_induct) (auto simp: edge_rel_def)

lemma settled_insert:
  assumes "settled edges D" "set (succs edges x) \<subseteq> D" "x \<notin> D"
  shows "settled edges (insert x D)"
proof -
  have closed: "\<forall>u\<in>D. set (succs edges u) \<subseteq> D" using assms(1) by (simp add: settled_def)
  have "(x, x) \<notin> (edge_rel edges)\<^sup>+"
  proof
    assume "(x, x) \<in> (edge_rel edges)\<^sup>+"
    then obtain y where y: "(x, y) \<in> edge_rel edges" "(y, x) \<in> (edge_rel edges)\<^sup>*"
      by (meson tranclD)
    then have "y \<in> D" using assms(2) by (auto simp: edge_rel_def)
    with y(2) have "x \<in> D" using closed_trancl[OF _ closed] by (auto dest: rtranclD)
    with assms(3) show False by simp
  qed
  with assms show ?thesis by (auto simp: settled_def)
qed

text \<open>
  What a call promises: a cycle exists when it answers true; otherwise the argument is finished, the
  finished items stay settled, and the path is as before.
\<close>

definition visit_post :: "edges \<Rightarrow> colours \<Rightarrow> string set \<Rightarrow> bool \<times> colours \<Rightarrow> bool" where
  "visit_post edges st xs r \<longleftrightarrow>
     (if fst r then \<exists>u. (u, u) \<in> (edge_rel edges)\<^sup>+
      else settled edges (done_of (snd r)) \<and> visiting_of (snd r) = visiting_of st \<and>
           done_of st \<subseteq> done_of (snd r) \<and> xs \<subseteq> done_of (snd r))"

lemma visit_all_post:
  assumes "\<And>st x. settled edges (done_of st) \<Longrightarrow> visiting_of st = V \<Longrightarrow> x \<in> set xs \<Longrightarrow>
      \<exists>r. f st x = Some r \<and> visit_post edges st {x} r"
    and "settled edges (done_of st)" "visiting_of st = V"
  shows "\<exists>r. visit_all f st xs = Some r \<and> visit_post edges st (set xs) r"
  using assms
proof (induction xs arbitrary: st)
  case Nil
  then show ?case by (simp add: visit_post_def)
next
  case (Cons x xs)
  from Cons.prems(1)[OF Cons.prems(2,3)] obtain b st1 where
    r: "f st x = Some (b, st1)" "visit_post edges st {x} (b, st1)" by force
  show ?case
  proof (cases b)
    case True
    with r show ?thesis by (simp add: visit_post_def)
  next
    case False
    with r Cons.prems(3) have st1: "settled edges (done_of st1)" "visiting_of st1 = V"
      by (simp_all add: visit_post_def)
    have "\<exists>r. visit_all f st1 xs = Some r \<and> visit_post edges st1 (set xs) r"
      using Cons.IH[OF _ st1] Cons.prems(1) by simp
    then obtain r1 where r1: "visit_all f st1 xs = Some r1" "visit_post edges st1 (set xs) r1" by blast
    have "visit_post edges st (set (x # xs)) r1"
      using r1(2) r(2) False unfolding visit_post_def by (simp split: if_splits) blast
    with r False r1(1) show ?thesis by simp
  qed
qed

lemma visit_correct:
  assumes "settled edges (done_of st)" "\<forall>v\<in>visiting_of st. (v, item) \<in> (edge_rel edges)\<^sup>+"
    and "card (fst ` set edges - visiting_of st) < n"
  shows "\<exists>r. visit n edges st item = Some r \<and> visit_post edges st {item} r"
  using assms
proof (induction n arbitrary: st item)
  case (Suc n)
  show ?case
  proof (cases "st item")
    case (Some c)
    with Suc.prems show ?thesis
      by (cases c) (auto simp: visit_post_def in_visiting_of in_done_of intro!: exI[of _ item])
  next
    case None
    let ?st = "st(item \<mapsto> Visiting)" and ?V = "insert item (visiting_of st)"
    have vis: "visiting_of ?st = ?V" and dn: "done_of ?st = done_of st" using None by (auto simp: in_done_of)
    have "\<exists>r. visit_all (visit n edges) ?st (succs edges item) = Some r \<and>
        visit_post edges ?st (set (succs edges item)) r"
    proof (rule visit_all_post)
      fix st' x
      assume st': "settled edges (done_of st')" "visiting_of st' = ?V" and x: "x \<in> set (succs edges item)"
      have e: "(item, x) \<in> edge_rel edges" using x by (simp add: edge_rel_def)
      have "(v, x) \<in> (edge_rel edges)\<^sup>+" if "v \<in> ?V" for v
        using that Suc.prems(2) r_into_trancl[OF e] trancl.trancl_into_trancl[OF _ e] by blast
      then have path: "\<forall>v\<in>visiting_of st'. (v, x) \<in> (edge_rel edges)\<^sup>+" using st'(2) by blast
      have "item \<notin> visiting_of st" using None by (simp add: in_visiting_of)
      then have "fst ` set edges - ?V \<subset> fst ` set edges - visiting_of st" using succs_key[OF x] by blast
      then have "card (fst ` set edges - ?V) < card (fst ` set edges - visiting_of st)"
        by (intro psubset_card_mono) auto
      then have "card (fst ` set edges - visiting_of st') < n" using Suc.prems(3) st'(2) by simp
      then show "\<exists>r. visit n edges st' x = Some r \<and> visit_post edges st' {x} r"
        using Suc.IH[OF st'(1) path] by simp
    qed (use Suc.prems(1) vis dn in auto)
    then obtain b st' where r: "visit_all (visit n edges) ?st (succs edges item) = Some (b, st')"
      "visit_post edges ?st (set (succs edges item)) (b, st')" by force
    show ?thesis
    proof (cases b)
      case True
      with r None show ?thesis by (simp add: visit_post_def)
    next
      case False
      with r have st': "settled edges (done_of st')" "visiting_of st' = ?V" "done_of st \<subseteq> done_of st'"
        "set (succs edges item) \<subseteq> done_of st'"
        using vis dn by (simp_all add: visit_post_def)
      have "item \<in> visiting_of st'" using st'(2) by blast
      then have "item \<notin> done_of st'" by (simp add: in_visiting_of in_done_of)
      with st'(1,4) have "settled edges (insert item (done_of st'))" by (intro settled_insert) auto
      moreover have "visiting_of st' - {item} = visiting_of st" using st'(2) None by (auto simp: in_visiting_of)
      ultimately show ?thesis using r(1) False None st'(3)
        by (auto simp: visit_post_def)
    qed
  qed
qed simp

lemma has_cycle_iff: "has_cycle edges = Some (\<not> acyclic (edge_rel edges))"
proof -
  have "\<exists>r. visit_all (visit (Suc (length edges)) edges) (\<lambda>_. None) (map fst edges) = Some r \<and>
      visit_post edges (\<lambda>_. None) (set (map fst edges)) r"
  proof (rule visit_all_post[where V = "{}"])
    fix st x assume "settled edges (done_of st)" "visiting_of st = {}"
    moreover have "card (fst ` set edges) \<le> length edges" by (metis card_length length_map set_map)
    ultimately show "\<exists>r. visit (Suc (length edges)) edges st x = Some r \<and> visit_post edges st {x} r"
      by (intro visit_correct) auto
  qed (auto simp: settled_def)
  then obtain b st where r: "visit_all (visit (Suc (length edges)) edges) (\<lambda>_. None) (map fst edges) = Some (b, st)"
    "visit_post edges (\<lambda>_. None) (set (map fst edges)) (b, st)" by force
  have "b \<longleftrightarrow> \<not> acyclic (edge_rel edges)"
  proof (cases b)
    case True
    with r(2) show ?thesis by (auto simp: visit_post_def acyclic_def)
  next
    case False
    have "u \<in> fst ` set edges" if "(u, u) \<in> (edge_rel edges)\<^sup>+" for u
    proof -
      from that obtain v where "(u, v) \<in> edge_rel edges" by (meson tranclD)
      then show ?thesis using succs_key by (simp add: edge_rel_def)
    qed
    moreover have "fst ` set edges \<subseteq> done_of st" "settled edges (done_of st)"
      using False r(2) by (simp_all add: visit_post_def)
    ultimately have "(u, u) \<notin> (edge_rel edges)\<^sup>+" for u unfolding settled_def by blast
    with False show ?thesis by (simp add: acyclic_def)
  qed
  with r(1) show ?thesis by (simp add: has_cycle_def)
qed

section \<open>Replacing dependencies\<close>

record replacement =
  rd_item :: string
  rd_depends_on :: "string list"

datatype replace_error =
    TooManyDependencies
  | SelfDependency
  | UnknownItems "string list"
  | MergeArmed
  | WouldCycle

definition DEPENDS_ON_LIMIT :: nat where
  "DEPENDS_ON_LIMIT = 64"

text \<open>Comparing the sorted texts compares the sets: both lists are free of repeats.\<close>

fun apply_replacements ::
  "(string \<Rightarrow> bool) \<Rightarrow> (string \<Rightarrow> bool) \<Rightarrow> edges \<Rightarrow> string list \<Rightarrow> replacement list
    \<Rightarrow> replace_error + edges \<times> string list" where
  "apply_replacements known armed edges changed [] = Inr (edges, changed)"
| "apply_replacements known armed edges changed (r # rs) =
     (let unique = js_dedup (rd_depends_on r); item = rd_item r; before = succs edges item;
          missing = filter (\<lambda>x. \<not> known x) unique
      in if length unique > DEPENDS_ON_LIMIT then Inl TooManyDependencies
         else if item \<in> set unique then Inl SelfDependency
         else if missing \<noteq> [] then Inl (UnknownItems (take 8 missing))
         else if mset before = mset unique then apply_replacements known armed edges changed rs
         else if (\<exists>x\<in>set unique. x \<notin> set before) \<and> armed item then Inl MergeArmed
         else apply_replacements known armed (AList.update item unique edges) (changed @ [item]) rs)"

text \<open>The rows of one changed item: all deleted, then those of its new set inserted.\<close>

definition write_rows :: "edges \<Rightarrow> edges \<Rightarrow> string \<Rightarrow> edges" where
  "write_rows edges rows item =
     (if succs edges item = [] then AList.delete item rows else AList.update item (succs edges item) rows)"

definition replace_dependencies ::
  "(string \<Rightarrow> bool) \<Rightarrow> (string \<Rightarrow> bool) \<Rightarrow> replacement list \<Rightarrow> edges \<Rightarrow> edges \<times> (replace_error + string list)" where
  "replace_dependencies known armed rs rows =
     (case apply_replacements known armed rows [] rs of
        Inl e \<Rightarrow> (rows, Inl e)
      | Inr (edges, changed) \<Rightarrow>
          if changed = [] then (rows, Inr [])
          else if has_cycle edges \<noteq> Some False then (rows, Inl WouldCycle)
          else (foldl (write_rows edges) rows changed, Inr changed))"

section \<open>What the stored edges satisfy\<close>

definition deps_good :: "edges \<Rightarrow> bool" where
  "deps_good rows \<longleftrightarrow> acyclic (edge_rel rows) \<and>
     (\<forall>x. length (succs rows x) \<le> DEPENDS_ON_LIMIT \<and> distinct (succs rows x))"

lemma succs_update [simp]: "succs (AList.update x ds edges) y = (if y = x then ds else succs edges y)"
  by (simp add: succs_def update_conv')

lemma succs_delete [simp]: "succs (AList.delete x edges) y = (if y = x then [] else succs edges y)"
  by (simp add: succs_def delete_conv')

lemma apply_replacements_post:
  assumes "apply_replacements known armed edges changed rs = Inr (edges', changed')"
    and "\<forall>x. x \<notin> set changed \<longrightarrow> succs edges x = succs rows x"
    and "\<forall>x. length (succs edges x) \<le> DEPENDS_ON_LIMIT \<and> distinct (succs edges x)"
  shows "(\<forall>x. x \<notin> set changed' \<longrightarrow> succs edges' x = succs rows x) \<and>
    (\<forall>x. length (succs edges' x) \<le> DEPENDS_ON_LIMIT \<and> distinct (succs edges' x)) \<and>
    (changed' = [] \<longrightarrow> changed = [] \<and> edges' = edges)"
  using assms
proof (induction known armed edges changed rs rule: apply_replacements.induct)
  case (2 known armed edges changed r rs)
  let ?u = "js_dedup (rd_depends_on r)" and ?b = "succs edges (rd_item r)"
  have ok: "\<not> length ?u > DEPENDS_ON_LIMIT" "rd_item r \<notin> set ?u" "\<not> filter (\<lambda>x. \<not> known x) ?u \<noteq> []"
    using "2.prems"(1) by (auto simp: Let_def split: if_splits)
  show ?case
  proof (cases "mset ?b = mset ?u")
    case True
    with "2.prems" ok show ?thesis
      using "2.IH"(1)[OF refl refl refl refl ok True] by (simp add: Let_def)
  next
    case False
    then have narm: "\<not> ((\<exists>x\<in>set ?u. x \<notin> set ?b) \<and> armed (rd_item r))"
      using "2.prems"(1) ok by (auto simp: Let_def split: if_splits)
    then have "apply_replacements known armed (AList.update (rd_item r) ?u edges) (changed @ [rd_item r]) rs = Inr (edges', changed')"
      using "2.prems"(1) ok False by (simp add: Let_def split: if_splits)
    from "2.IH"(2)[OF refl refl refl refl ok False narm this] "2.prems"(2,3) ok(1) show ?thesis by auto
  qed
qed simp

lemma write_rows_succs:
  "succs (foldl (write_rows edges) rows items) x = (if x \<in> set items then succs edges x else succs rows x)"
  by (induction items arbitrary: rows) (auto simp: write_rows_def)

lemma deps_good_succs: "(\<And>x. succs a x = succs b x) \<Longrightarrow> deps_good a = deps_good b"
  by (simp add: deps_good_def edge_rel_def)

lemma replace_dependencies_good:
  assumes "deps_good rows"
  shows "deps_good (fst (replace_dependencies known armed rs rows))"
proof (cases "apply_replacements known armed rows [] rs")
  case (Inr p)
  obtain edges changed where p: "p = (edges, changed)" by force
  have post: "(\<forall>x. x \<notin> set changed \<longrightarrow> succs edges x = succs rows x) \<and>
    (\<forall>x. length (succs edges x) \<le> DEPENDS_ON_LIMIT \<and> distinct (succs edges x))"
    using apply_replacements_post[of known armed rows "[]" rs edges changed rows] Inr p assms
    by (simp add: deps_good_def)
  show ?thesis
  proof (cases "changed = [] \<or> has_cycle edges \<noteq> Some False")
    case True
    with Inr p assms show ?thesis by (auto simp: replace_dependencies_def)
  next
    case False
    then have "deps_good edges" using post by (simp add: has_cycle_iff deps_good_def)
    moreover have "succs (foldl (write_rows edges) rows changed) x = succs edges x" for x
      using post by (simp add: write_rows_succs)
    ultimately have "deps_good (foldl (write_rows edges) rows changed)" using deps_good_succs by blast
    with False Inr p show ?thesis by (simp add: replace_dependencies_def)
  qed
qed (use assms in \<open>simp add: replace_dependencies_def\<close>)

text \<open>A campaign's history of requests, each with the items known and the merges armed at its time.\<close>

fun deps_step :: "edges \<Rightarrow> (string \<Rightarrow> bool) \<times> (string \<Rightarrow> bool) \<times> replacement list \<Rightarrow> edges" where
  "deps_step rows (known, armed, rs) = fst (replace_dependencies known armed rs rows)"

interpretation deps: event_machine deps_step deps_good
  by unfold_locales (auto simp: replace_dependencies_good)

lemma deps_run_good: "deps_good (foldl deps_step [] reqs)"
  by (rule deps.run_good) (simp add: deps_good_def edge_rel_def succs_def acyclic_def)

section \<open>Properties\<close>

text \<open>
  The cycle check is exact. On every edge map the depth-first search ends, within the depth its
  fuel allows, and answers whether the dependency graph has a cycle.
\<close>

theorem cycle_check_is_exact:
  "has_cycle edges = Some (\<not> acyclic {(a, b). \<exists>ds. map_of edges a = Some ds \<and> b \<in> set ds})"
proof -
  have "{(a, b). \<exists>ds. map_of edges a = Some ds \<and> b \<in> set ds} = edge_rel edges"
    by (auto simp: edge_rel_def succs_def split: option.splits) (metis option.sel)
  then show ?thesis by (simp add: has_cycle_iff)
qed

text \<open>
  C5: A campaign's stored dependencies never form a cycle. After any history of replacement requests,
  accepted or refused, the stored graph is acyclic, and every item has at most 64 dependencies, without
  repeats and never itself.
\<close>

theorem stored_dependencies_stay_acyclic:
  "acyclic (edge_rel (foldl deps_step [] reqs)) \<and>
   (let ds = succs (foldl deps_step [] reqs) item in length ds \<le> 64 \<and> distinct ds \<and> item \<notin> set ds)"
proof -
  have good: "deps_good (foldl deps_step [] reqs)" by (rule deps_run_good)
  then have "item \<notin> set (succs (foldl deps_step [] reqs) item)"
    by (auto simp: deps_good_def acyclic_def edge_rel_def)
  with good show ?thesis by (simp add: deps_good_def DEPENDS_ON_LIMIT_def Let_def)
qed

end
