(* ===== verification/Protocol.thy ===== *)
theory Protocol
  imports Json
begin

text \<open>The protocol types of \<open>packages/protocol/src/index.ts\<close> that several components read.\<close>

datatype session_status =
    SQueued | SStarting | SRunning | SInputRequired | SIdle | SCompleted | SFailed | SStopped

definition TERMINAL_STATUSES :: "session_status list" where
  "TERMINAL_STATUSES = [SCompleted, SFailed, SStopped]"

definition is_terminal :: "session_status \<Rightarrow> bool" where
  "is_terminal st \<longleftrightarrow> st \<in> set TERMINAL_STATUSES"

end
