(* ===== verification/Memo_Resolve.thy ===== *)
theory Memo_Resolve
  imports Prelude
begin

text \<open>
  The recursive resolution that the campaign modules share: each item's value is computed from the
  values of the items it depends on, kept in a map so that it is computed once; an item that is missing
  or still being visited reads as unresolvable. The recursion is bounded by fuel, \<open>None\<close> when it runs
  out.

  The locale states the recursion as its only law; its lemmas say that one more unit of fuel than there
  are records is enough for every graph, and that on an acyclic graph the map solves the equations of
  its items.
\<close>

text \<open>\<open>xs.map(resolve)\<close>, threading the map of results.\<close>

fun resolve_all :: "('m \<Rightarrow> string \<Rightarrow> ('v \<times> 'm) option) \<Rightarrow> 'm \<Rightarrow> string list \<Rightarrow> ('v list \<times> 'm) option" where
  "resolve_all f d [] = Some ([], d)"
| "resolve_all f d (x # xs) =
     (case f d x of
        None \<Rightarrow> None
      | Some (s, d') \<Rightarrow> map_option (\<lambda>(ss, d''). (s # ss, d'')) (resolve_all f d' xs))"

text \<open>\<open>new Map(records.map((record) => [record.id, record]))\<close>: a later record of an id replaces it.\<close>

definition index_by :: "('r \<Rightarrow> string) \<Rightarrow> 'r list \<Rightarrow> string \<Rightarrow> 'r option" where
  "index_by key rs = map_of (rev (map (\<lambda>r. (key r, r)) rs))"

lemma index_by_distinct: "distinct (map key rs) \<Longrightarrow> r \<in> set rs \<Longrightarrow> index_by key rs (key r) = Some r"
  by (simp add: index_by_def comp_def rev_map[symmetric])

lemma index_by_Some: "index_by key rs x = Some r \<Longrightarrow> r \<in> set rs \<and> key r = x"
  by (auto simp: index_by_def dest!: map_of_SomeD)

lemma index_by_iff: "distinct (map key rs) \<Longrightarrow> index_by key rs x = Some r \<longleftrightarrow> r \<in> set rs \<and> key r = x"
  using index_by_distinct[of key rs r] index_by_Some[of key rs x r] by blast

lemma index_by_None: "index_by key rs x = None \<longleftrightarrow> x \<notin> key ` set rs"
  by (auto simp: index_by_def map_of_eq_None_iff image_image)

lemma index_by_perm:
  assumes "distinct (map key rs)" "mset rs = mset rs'"
  shows "index_by key rs = index_by key rs'"
proof (rule ext)
  fix x
  have "mset (map key rs) = mset (map key rs')" using assms(2) by simp
  then have d': "distinct (map key rs')" using assms(1) mset_eq_imp_distinct_iff by blast
  have "index_by key rs x = Some r \<longleftrightarrow> index_by key rs' x = Some r" for r
    unfolding index_by_iff[OF assms(1)] index_by_iff[OF d'] mset_eq_setD[OF assms(2)] by (rule refl)
  then show "index_by key rs x = index_by key rs' x" using option.exhaust_sel by metis
qed

definition ids_of :: "(string \<Rightarrow> 'r option) \<Rightarrow> string set" where
  "ids_of recs = {x. recs x \<noteq> None}"

lemma ids_index_by: "ids_of (index_by key rs) = key ` set rs"
  by (auto simp: ids_of_def index_by_None)

lemma ids_fuel: "card (ids_of (index_by key rs) - set []) < Suc (length rs)" "finite (ids_of (index_by key rs))"
  by (simp_all add: ids_index_by card_image_le le_imp_less_Suc card_length le_trans[OF card_image_le card_length])

lemma resolve_all_total:
  assumes "\<And>d x. x \<in> set xs \<Longrightarrow> \<exists>s d'. f d x = Some (s, d') \<and> dom (map_of d) \<subseteq> dom (map_of d') \<and> P x d'"
    and "\<And>x d d'. P x d \<Longrightarrow> dom (map_of d) \<subseteq> dom (map_of d') \<Longrightarrow> P x d'"
  shows "\<exists>ss d'. resolve_all f d xs = Some (ss, d') \<and> dom (map_of d) \<subseteq> dom (map_of d') \<and> (\<forall>x\<in>set xs. P x d')"
  using assms
proof (induction xs arbitrary: d)
  case (Cons x xs)
  from Cons.prems(1)[of x d] obtain s d1 where
    1: "f d x = Some (s, d1)" "dom (map_of d) \<subseteq> dom (map_of d1)" "P x d1" by auto
  from Cons.IH[of d1] Cons.prems obtain ss d2 where
    2: "resolve_all f d1 xs = Some (ss, d2)" "dom (map_of d1) \<subseteq> dom (map_of d2)" "\<forall>x\<in>set xs. P x d2" by auto
  have "P x d2" using Cons.prems(2)[OF 1(3) 2(2)] .
  with 1 2 show ?case by auto
qed simp

text \<open>The value a dependent reads off a result.\<close>

definition value_in :: "('res \<Rightarrow> 'v) \<Rightarrow> 'v \<Rightarrow> (string \<times> 'res) list \<Rightarrow> string \<Rightarrow> 'v" where
  "value_in known missing d x = (case map_of d x of None \<Rightarrow> missing | Some res \<Rightarrow> known res)"

definition depends_rel :: "('r \<Rightarrow> string list) \<Rightarrow> (string \<Rightarrow> 'r option) \<Rightarrow> (string \<times> string) set" where
  "depends_rel deps recs = {(a, b). \<exists>r. recs a = Some r \<and> b \<in> set (deps r)}"

locale memo_resolver =
  fixes resolve :: "nat \<Rightarrow> (string \<Rightarrow> 'r option) \<Rightarrow> string list \<Rightarrow> (string \<times> 'res) list \<Rightarrow> string \<Rightarrow>
      ('v \<times> (string \<times> 'res) list) option"
    and deps :: "'r \<Rightarrow> string list"
    and compute :: "'r \<Rightarrow> 'v list \<Rightarrow> 'res"
    and known :: "'res \<Rightarrow> 'v"
    and missing :: 'v
  assumes resolve_0: "resolve 0 recs visiting d item = None"
    and resolve_Suc: "resolve (Suc n) recs visiting d item =
      (case map_of d item of
         Some res \<Rightarrow> Some (known res, d)
       | None \<Rightarrow>
           (case recs item of
              None \<Rightarrow> Some (missing, d)
            | Some r \<Rightarrow>
                if item \<in> set visiting then Some (missing, d)
                else (case resolve_all (resolve n recs (item # visiting)) d (deps r) of
                        None \<Rightarrow> None
                      | Some (ss, d') \<Rightarrow> Some (known (compute r ss), AList.update item (compute r ss) d'))))"
begin

abbreviation reads :: "(string \<times> 'res) list \<Rightarrow> string \<Rightarrow> 'v" where
  "reads \<equiv> value_in known missing"

lemma resolve_total:
  assumes "finite (ids_of recs)" "card (ids_of recs - set visiting) < n"
  shows "\<exists>s d'. resolve n recs visiting d item = Some (s, d') \<and> dom (map_of d) \<subseteq> dom (map_of d') \<and>
    (item \<notin> set visiting \<longrightarrow> recs item \<noteq> None \<longrightarrow> item \<in> dom (map_of d'))"
  using assms(2)
proof (induction n arbitrary: visiting d item)
  case (Suc n)
  show ?case
  proof (cases "map_of d item = None \<and> recs item \<noteq> None \<and> item \<notin> set visiting")
    case True
    then obtain r where r: "recs item = Some r" by blast
    have "ids_of recs - set (item # visiting) \<subset> ids_of recs - set visiting"
      using True by (auto simp: ids_of_def)
    then have "card (ids_of recs - set (item # visiting)) < card (ids_of recs - set visiting)"
      using assms(1) by (intro psubset_card_mono) auto
    then have "card (ids_of recs - set (item # visiting)) < n" using Suc.prems by linarith
    note ih = Suc.IH[OF this]
    have "\<exists>ss d'. resolve_all (resolve n recs (item # visiting)) d (deps r) = Some (ss, d') \<and>
        dom (map_of d) \<subseteq> dom (map_of d') \<and> (\<forall>x\<in>set (deps r). True)"
      by (rule resolve_all_total) (use ih in blast)+
    then obtain ss d' where "resolve_all (resolve n recs (item # visiting)) d (deps r) = Some (ss, d')"
      "dom (map_of d) \<subseteq> dom (map_of d')" by blast
    with True r show ?thesis by (auto simp: resolve_Suc update_conv' Let_def)
  next
    case False
    then show ?thesis by (auto simp: resolve_Suc split: option.splits)
  qed
qed simp

lemma resolve_run_total:
  "\<exists>ss d. resolve_all (resolve (Suc (length rs)) (index_by key rs) []) [] (map key rs) = Some (ss, d) \<and> key ` set rs \<subseteq> dom (map_of d)"
proof -
  have step: "\<exists>s d'. resolve (Suc (length rs)) (index_by key rs) [] d x = Some (s, d') \<and>
      dom (map_of d) \<subseteq> dom (map_of d') \<and> x \<in> dom (map_of d')" if "x \<in> set (map key rs)" for d x
  proof -
    have "index_by key rs x \<noteq> None" using that by (simp add: index_by_None)
    with resolve_total[OF ids_fuel(2)[of key rs] ids_fuel(1)[of key rs], of d x] show ?thesis by auto
  qed
  have "\<exists>ss d'. resolve_all (resolve (Suc (length rs)) (index_by key rs) []) ([] :: (string \<times> 'res) list) (map key rs) = Some (ss, d') \<and>
      dom (map_of ([] :: (string \<times> 'res) list)) \<subseteq> dom (map_of d') \<and> (\<forall>x\<in>set (map key rs). x \<in> dom (map_of d'))"
    by (rule resolve_all_total[where P = "\<lambda>x d. x \<in> dom (map_of d)"]) (use step in blast)+
  then show ?thesis by auto
qed

text \<open>Every entry is computed from entries that are there already.\<close>

definition solved :: "(string \<Rightarrow> 'r option) \<Rightarrow> (string \<times> 'res) list \<Rightarrow> bool" where
  "solved recs d \<longleftrightarrow> (\<forall>x res. map_of d x = Some res \<longrightarrow>
     (\<exists>r. recs x = Some r \<and> (\<forall>y\<in>set (deps r). recs y \<noteq> None \<longrightarrow> map_of d y \<noteq> None) \<and> res = compute r (map (reads d) (deps r))))"

definition reads_right :: "(string \<Rightarrow> 'r option) \<Rightarrow> (string \<times> 'res) list \<Rightarrow> (string \<times> 'res) list \<Rightarrow> string \<Rightarrow> 'v \<Rightarrow> bool" where
  "reads_right recs d d' x v \<longleftrightarrow> solved recs d' \<and> map_of d \<subseteq>\<^sub>m map_of d' \<and> v = reads d' x \<and> (recs x \<noteq> None \<longrightarrow> map_of d' x \<noteq> None)"

lemma solvedE:
  assumes "solved recs d" "map_of d x = Some res"
  obtains r where "recs x = Some r" "\<forall>y\<in>set (deps r). recs y \<noteq> None \<longrightarrow> map_of d y \<noteq> None"
    "res = compute r (map (reads d) (deps r))"
  using assms unfolding solved_def by blast

lemma solved_ids: "solved recs d \<Longrightarrow> map_of d x \<noteq> None \<Longrightarrow> recs x \<noteq> None"
  unfolding solved_def by blast

lemma reads_extend:
  "solved recs d' \<Longrightarrow> map_of d \<subseteq>\<^sub>m map_of d' \<Longrightarrow> recs x = None \<or> map_of d x \<noteq> None \<Longrightarrow> reads d' x = reads d x"
  using solved_ids[of recs d' x] by (cases "map_of d x"; cases "map_of d' x") (force simp: value_in_def map_le_def)+

lemma resolve_all_right:
  assumes "\<And>d x v d'. x \<in> set xs \<Longrightarrow> solved recs d \<Longrightarrow> f d x = Some (v, d') \<Longrightarrow> reads_right recs d d' x v"
    and "solved recs d" "resolve_all f d xs = Some (vs, d')"
  shows "solved recs d' \<and> map_of d \<subseteq>\<^sub>m map_of d' \<and> vs = map (reads d') xs \<and> (\<forall>x\<in>set xs. recs x \<noteq> None \<longrightarrow> map_of d' x \<noteq> None)"
  using assms
proof (induction xs arbitrary: d vs)
  case (Cons x xs)
  from Cons.prems(3) obtain v d1 ws where
    1: "f d x = Some (v, d1)" "resolve_all f d1 xs = Some (ws, d')" "vs = v # ws"
    by (auto split: option.splits)
  have r: "reads_right recs d d1 x v" using Cons.prems(1)[OF _ Cons.prems(2) 1(1)] by simp
  have ih: "solved recs d' \<and> map_of d1 \<subseteq>\<^sub>m map_of d' \<and> ws = map (reads d') xs \<and> (\<forall>x\<in>set xs. recs x \<noteq> None \<longrightarrow> map_of d' x \<noteq> None)"
    by (rule Cons.IH[OF _ _ 1(2)]) (use Cons.prems(1) r in \<open>auto simp: reads_right_def\<close>)
  have "v = reads d' x" using r ih reads_extend[of recs d' d1 x] by (auto simp: reads_right_def)
  moreover have "recs x \<noteq> None \<longrightarrow> map_of d' x \<noteq> None"
    using r ih by (metis domIff map_le_def reads_right_def)
  moreover have "map_of d \<subseteq>\<^sub>m map_of d'" using r ih map_le_trans unfolding reads_right_def by blast
  ultimately show ?case using ih 1(3) by simp
qed simp

lemma solved_update:
  assumes d: "solved recs d" and r: "recs x = Some r" and new: "map_of d x = None"
    and ready: "\<forall>y\<in>set (deps r). recs y \<noteq> None \<longrightarrow> map_of d y \<noteq> None" and self: "x \<notin> set (deps r)"
  shows "reads_right recs d (AList.update x (compute r (map (reads d) (deps r))) d) x (known (compute r (map (reads d) (deps r))))"
proof -
  let ?d = "AList.update x (compute r (map (reads d) (deps r))) d"
  have upd: "map_of ?d = (map_of d)(x \<mapsto> compute r (map (reads d) (deps r)))" by (rule update_conv')
  have le: "map_of d \<subseteq>\<^sub>m map_of ?d" using new by (auto simp: upd map_le_def)
  have same: "reads ?d y = reads d y" if "y \<noteq> x" for y using that by (simp add: value_in_def upd)
  have "solved recs ?d"
    unfolding solved_def
  proof (intro allI impI)
    fix y res assume y: "map_of ?d y = Some res"
    show "\<exists>r. recs y = Some r \<and> (\<forall>z\<in>set (deps r). recs z \<noteq> None \<longrightarrow> map_of ?d z \<noteq> None) \<and> res = compute r (map (reads ?d) (deps r))"
    proof (cases "y = x")
      case True
      have "map (reads ?d) (deps r) = map (reads d) (deps r)" using same self by (intro map_cong refl) metis
      then have "res = compute r (map (reads ?d) (deps r))" using True y by (simp add: upd del: map_eq_conv)
      with True r ready show ?thesis by (auto simp: upd)
    next
      case False
      with y have "map_of d y = Some res" by (simp add: upd)
      then obtain s where s: "recs y = Some s" "\<forall>z\<in>set (deps s). recs z \<noteq> None \<longrightarrow> map_of d z \<noteq> None"
        "res = compute s (map (reads d) (deps s))" using d by (elim solvedE)
      then have "x \<notin> set (deps s)" using r new by force
      then have "map (reads ?d) (deps s) = map (reads d) (deps s)" using same by (intro map_cong refl) metis
      then have "res = compute s (map (reads ?d) (deps s))" using s(3) by (simp del: map_eq_conv)
      with s(1,2) show ?thesis by (auto simp: upd)
    qed
  qed
  then show ?thesis using le by (simp add: reads_right_def value_in_def upd)
qed

lemma resolve_right:
  assumes "acyclic (depends_rel deps recs)" "\<forall>v\<in>set visiting. (v, item) \<in> (depends_rel deps recs)\<^sup>+"
    and "solved recs d" "resolve n recs visiting d item = Some (v, d')"
  shows "reads_right recs d d' item v"
  using assms(2-4)
proof (induction n arbitrary: visiting d item v d')
  case 0
  then show ?case by (simp add: resolve_0)
next
  case (Suc n)
  consider res where "map_of d item = Some res" | "map_of d item = None" "recs item = None"
    | r where "map_of d item = None" "recs item = Some r" by blast
  then show ?case
  proof cases
    case (1 res)
    with Suc.prems(3) have "v = known res" "d' = d" by (simp_all add: resolve_Suc)
    with 1 Suc.prems(2) show ?thesis by (simp add: reads_right_def value_in_def)
  next
    case 2
    with Suc.prems(3) have "v = missing" "d' = d" by (simp_all add: resolve_Suc)
    with 2 Suc.prems(2) show ?thesis by (simp add: reads_right_def value_in_def)
  next
    case (3 r)
    have "item \<notin> set visiting" using Suc.prems(1) assms(1) by (auto simp: acyclic_def)
    with 3 Suc.prems(3) obtain vs d1 where
      all: "resolve_all (resolve n recs (item # visiting)) d (deps r) = Some (vs, d1)"
      and eqs: "v = known (compute r vs)" "d' = AList.update item (compute r vs) d1"
      by (auto simp: resolve_Suc split: option.splits)
    have sub: "reads_right recs d d' x v"
      if x: "x \<in> set (deps r)" and d: "solved recs d" and res: "resolve n recs (item # visiting) d x = Some (v, d')" for d x v d'
    proof -
      have e: "(item, x) \<in> depends_rel deps recs" using 3(2) x by (auto simp: depends_rel_def)
      have "\<forall>v\<in>set (item # visiting). (v, x) \<in> (depends_rel deps recs)\<^sup>+"
        using Suc.prems(1) r_into_trancl[OF e] trancl.trancl_into_trancl[OF _ e] by simp
      from Suc.IH[OF this d res] show ?thesis .
    qed
    have r1: "solved recs d1 \<and> map_of d \<subseteq>\<^sub>m map_of d1 \<and> vs = map (reads d1) (deps r) \<and>
        (\<forall>x\<in>set (deps r). recs x \<noteq> None \<longrightarrow> map_of d1 x \<noteq> None)"
      by (rule resolve_all_right[OF _ Suc.prems(2) all]) (rule sub)
    have self: "item \<notin> set (deps r)"
      using assms(1) 3(2) by (force simp: acyclic_def depends_rel_def)
    show ?thesis
    proof (cases "map_of d1 item")
      case None
      from solved_update[of recs d1 item r] 3(2) None self r1
      have "reads_right recs d1 d' item v" using eqs by simp
      with r1 show ?thesis unfolding reads_right_def by (metis map_le_trans)
    next
      case (Some res)
      then have "res = compute r vs" using r1 3(2) by (metis option.inject solvedE)
      then have "map_of d' = map_of d1" using Some eqs(2) by (simp add: update_conv' map_upd_triv)
      then have "reads d' = reads d1" by (auto simp: value_in_def)
      have "solved recs d'" using r1 \<open>map_of d' = map_of d1\<close> unfolding solved_def value_in_def by simp
      with r1 Some eqs \<open>res = compute r vs\<close> \<open>map_of d' = map_of d1\<close> show ?thesis by (simp add: reads_right_def value_in_def)
    qed
  qed
qed

text \<open>On an acyclic graph the run solves every item's equation.\<close>

lemma resolve_run_equation:
  assumes "acyclic (depends_rel deps (index_by key rs))"
    and "resolve_all (resolve (Suc (length rs)) (index_by key rs) []) [] (map key rs) = Some (ss, d)"
  shows "solved (index_by key rs) d" "index_by key rs x = Some r \<Longrightarrow> map_of d x = Some (compute r (map (reads d) (deps r)))"
proof -
  have "solved (index_by key rs) d \<and> map_of [] \<subseteq>\<^sub>m map_of d \<and> ss = map (reads d) (map key rs) \<and>
      (\<forall>x\<in>set (map key rs). index_by key rs x \<noteq> None \<longrightarrow> map_of d x \<noteq> None)"
  proof (rule resolve_all_right[OF _ _ assms(2)])
    fix d x v d'
    assume "solved (index_by key rs) d" "resolve (Suc (length rs)) (index_by key rs) [] d x = Some (v, d')"
    then show "reads_right (index_by key rs) d d' x v" using resolve_right[OF assms(1), of "[]"] by simp
  qed (simp add: solved_def)
  then show s: "solved (index_by key rs) d" and "index_by key rs x = Some r \<Longrightarrow> map_of d x = Some (compute r (map (reads d) (deps r)))"
    using index_by_Some[of key rs x r] by (auto simp: solved_def) (metis imageI option.exhaust option.inject option.simps(3))
qed

text \<open>The equations have one solution.\<close>

lemma solution_unique:
  assumes acyc: "acyclic (depends_rel deps recs)" and fin: "finite (ids_of recs)"
    and d: "\<And>x. map_of d x = map_option (\<lambda>r. compute r (map (reads d) (deps r))) (recs x)"
    and d': "\<And>x. map_of d' x = map_option (\<lambda>r. compute r (map (reads d') (deps r))) (recs x)"
  shows "map_of d x = map_of d' x"
proof -
  let ?R = "depends_rel deps recs \<inter> ids_of recs \<times> ids_of recs"
  have "finite ?R" using fin by (intro finite_Int) auto
  moreover have "acyclic ?R" using acyc by (rule acyclic_subset) auto
  ultimately have "wf (?R\<inverse>)" by (rule finite_acyclic_wf_converse)
  then show ?thesis
  proof (induction x rule: wf_induct_rule)
    case (less x)
    show ?case
    proof (cases "recs x")
      case None
      then show ?thesis by (simp add: d d')
    next
      case (Some r)
      have "reads d y = reads d' y" if "y \<in> set (deps r)" for y
      proof (cases "recs y")
        case None
        then show ?thesis using d[of y] d'[of y] by (simp add: value_in_def)
      next
        case Some2: (Some q)
        then have "(y, x) \<in> ?R\<inverse>" using Some that by (auto simp: depends_rel_def ids_of_def)
        from less[OF this] show ?thesis by (simp add: value_in_def)
      qed
      then have "map (reads d) (deps r) = map (reads d') (deps r)" by simp
      then show ?thesis by (simp only: d[of x] d'[of x] Some option.map)
    qed
  qed
qed

end

end
