(* ===== verification/Work_State.thy ===== *)
theory Work_State
  imports Dependency_Graph Protocol Memo_Resolve
begin

text \<open>
  The derived primary state of campaign work items (\<open>apps/control-plane/src/campaign-work-state.ts\<close>):
  the rules for one item given its dependencies' states, and the recursive resolution over a campaign.

  The resolution threads the map of derived states; the set of items being visited only grows along a
  path, so it is an argument. The recursion is an instance of the shared resolution of
  \<open>Memo_Resolve\<close>. The depth is bounded by fuel, \<open>None\<close> when it runs out, and one more unit
  than there are records is proved to be enough for every input, cyclic ones included.
\<close>

section \<open>Model\<close>

datatype commitment = Committed | Cancelled | ScopeRemoved

datatype dispatch_state = DispatchPlanned | DispatchQueued

datatype merge_status = Merged | Unmerged | MergeFailed

datatype primary_state =
    Planned | Queued | Running | Waiting | Blocked | Delivered | CancelledState | Removed

datatype cause =
    RecordedBlocker
  | DependencyBlocked
  | DependencyUnfinished
  | SessionHeld
  | SessionFailed
  | SessionStopped
  | SessionArchived
  | SessionUnavailable
  | SessionInputRequired
  | SessionPendingDecision
  | AwaitingVerification
  | DependencyUnmerged

record session_observation =
  so_status :: session_status
  so_archived :: bool
  so_held :: bool
  so_pending :: nat

record latest_attempt =
  la_open :: bool
  la_delivered :: bool

record work_record =
  wi_id :: string
  wi_commitment :: commitment
  wi_dispatch :: dispatch_state
  wi_blocker :: bool
  wi_depends_on :: "string list"
  wi_attempt :: "latest_attempt option"
  wi_session :: "session_observation option"
  wi_recorded_delivery :: bool
  wi_merge_dependencies :: "merge_status list"
  wi_own_merged :: bool

text \<open>The omitted optional fields mean false and the empty list.\<close>

record derived_state =
  ds_state :: primary_state
  ds_causes :: "cause list"

definition derived :: "primary_state \<Rightarrow> cause list \<Rightarrow> derived_state" where
  "derived s cs = \<lparr>ds_state = s, ds_causes = cs\<rparr>"

definition FINISHED :: "primary_state list" where
  "FINISHED = [Delivered, CancelledState, Removed]"

definition BLOCKING_DEPENDENCY :: "primary_state list" where
  "BLOCKING_DEPENDENCY = [Blocked, CancelledState, Removed]"

datatype dependency_state = Known primary_state | Unresolvable

fun blocks :: "dependency_state \<Rightarrow> bool" where
  "blocks Unresolvable = True"
| "blocks (Known s) \<longleftrightarrow> s \<in> set BLOCKING_DEPENDENCY"

fun unfinished :: "dependency_state \<Rightarrow> bool" where
  "unfinished Unresolvable = True"
| "unfinished (Known s) \<longleftrightarrow> s \<notin> set FINISHED"

text \<open>The item's open attempt, once no blocker is recorded and no merge dependency failed.\<close>

definition open_attempt_state :: "work_record \<Rightarrow> derived_state" where
  "open_attempt_state r =
     (case wi_session r of
        None \<Rightarrow> derived Blocked [SessionUnavailable]
      | Some s \<Rightarrow>
          if so_held s then derived Blocked [SessionHeld]
          else if so_status s = SFailed then derived Blocked [SessionFailed]
          else if so_status s = SStopped then derived Blocked [SessionStopped]
          else if so_archived s then derived Blocked [SessionArchived]
          else if so_status s = SInputRequired then derived Waiting [SessionInputRequired]
          else if so_pending s > 0 then derived Waiting [SessionPendingDecision]
          else if so_status s = SIdle \<or> so_status s = SCompleted
          then if Unmerged \<in> set (wi_merge_dependencies r)
               then derived Waiting [DependencyUnmerged, AwaitingVerification]
               else derived Waiting [AwaitingVerification]
          else derived Running [])"

definition derive_state :: "work_record \<Rightarrow> dependency_state list \<Rightarrow> derived_state" where
  "derive_state r deps =
     (let failed = (MergeFailed \<in> set (wi_merge_dependencies r));
          delivered = (case wi_attempt r of None \<Rightarrow> False | Some a \<Rightarrow> la_delivered a);
          is_open = (case wi_attempt r of None \<Rightarrow> False | Some a \<Rightarrow> la_open a)
      in if wi_commitment r = Cancelled then derived CancelledState []
         else if wi_commitment r = ScopeRemoved then derived Removed []
         else if wi_recorded_delivery r then derived Delivered []
         else if delivered then
           (if wi_own_merged r \<or> \<not> (\<exists>m\<in>set (wi_merge_dependencies r). m \<noteq> Merged) then derived Delivered []
            else if failed then derived Blocked [DependencyBlocked] else derived Waiting [DependencyUnmerged])
         else if is_open then
           (if wi_blocker r then derived Blocked [RecordedBlocker]
            else if failed then derived Blocked [DependencyBlocked]
            else open_attempt_state r)
         else if wi_blocker r then derived Blocked [RecordedBlocker]
         else if failed \<or> (\<exists>s\<in>set deps. blocks s) then derived Blocked [DependencyBlocked]
         else derived (if wi_dispatch r = DispatchQueued then Queued else Planned)
                (if \<exists>s\<in>set deps. unfinished s then [DependencyUnfinished] else []))"

text \<open>The records by identifier; a later record of an id replaces it.\<close>

definition by_id :: "work_record list \<Rightarrow> string \<Rightarrow> work_record option" where
  "by_id rs = index_by wi_id rs"

type_synonym derived_map = "(string \<times> derived_state) list"

fun resolve ::
  "nat \<Rightarrow> (string \<Rightarrow> work_record option) \<Rightarrow> string list \<Rightarrow> derived_map \<Rightarrow> string
    \<Rightarrow> (dependency_state \<times> derived_map) option" where
  "resolve 0 recs visiting d item = None"
| "resolve (Suc n) recs visiting d item =
     (case map_of d item of
        Some res \<Rightarrow> Some (Known (ds_state res), d)
      | None \<Rightarrow>
          (case recs item of
             None \<Rightarrow> Some (Unresolvable, d)
           | Some r \<Rightarrow>
               if item \<in> set visiting then Some (Unresolvable, d)
               else (case resolve_all (resolve n recs (item # visiting)) d (wi_depends_on r) of
                       None \<Rightarrow> None
                     | Some (ss, d') \<Rightarrow>
                         (let res = derive_state r ss
                          in Some (Known (ds_state res), AList.update item res d')))))"

definition derive_states :: "work_record list \<Rightarrow> derived_map option" where
  "derive_states rs =
     map_option snd (resolve_all (resolve (Suc (length rs)) (by_id rs) []) [] (map wi_id rs))"

section \<open>What the states mean\<close>

text \<open>The state a dependent reads off the result.\<close>

definition state_in :: "derived_map \<Rightarrow> string \<Rightarrow> dependency_state" where
  "state_in d x = (case map_of d x of None \<Rightarrow> Unresolvable | Some res \<Rightarrow> Known (ds_state res))"

interpretation ws: memo_resolver resolve wi_depends_on derive_state "\<lambda>res. Known (ds_state res)" Unresolvable
  by unfold_locales (auto simp: Let_def split: option.splits prod.splits)

abbreviation record_rel :: "(string \<Rightarrow> work_record option) \<Rightarrow> (string \<times> string) set" where
  "record_rel \<equiv> depends_rel wi_depends_on"

lemma reads_state_in: "value_in (\<lambda>res. Known (ds_state res)) Unresolvable d = state_in d"
  by (simp add: fun_eq_iff value_in_def state_in_def)

lemma by_id_distinct: "distinct (map wi_id rs) \<Longrightarrow> r \<in> set rs \<Longrightarrow> by_id rs (wi_id r) = Some r"
  unfolding by_id_def by (rule index_by_distinct)

lemma by_id_iff: "distinct (map wi_id rs) \<Longrightarrow> by_id rs x = Some r \<longleftrightarrow> r \<in> set rs \<and> wi_id r = x"
  unfolding by_id_def by (rule index_by_iff)

lemma by_id_perm: "distinct (map wi_id rs) \<Longrightarrow> mset rs = mset rs' \<Longrightarrow> by_id rs = by_id rs'"
  unfolding by_id_def by (rule index_by_perm)

lemma derive_states_total: "\<exists>d. derive_states rs = Some d \<and> wi_id ` set rs \<subseteq> dom (map_of d)"
  using ws.resolve_run_total[of rs wi_id] by (auto simp: derive_states_def by_id_def)

lemma derive_states_run:
  "derive_states rs = Some d \<Longrightarrow>
     \<exists>ss. resolve_all (resolve (Suc (length rs)) (index_by wi_id rs) []) [] (map wi_id rs) = Some (ss, d)"
  by (auto simp: derive_states_def by_id_def)

lemma derive_states_equation:
  assumes "acyclic (record_rel (by_id rs))" "derive_states rs = Some d" "by_id rs x = Some r"
  shows "map_of d x = Some (derive_state r (map (state_in d) (wi_depends_on r)))"
  using derive_states_run[OF assms(2)] ws.resolve_run_equation(2)[of wi_id rs _ d x r] assms(1,3)
  by (auto simp: by_id_def reads_state_in)

lemma derive_states_None:
  assumes "acyclic (record_rel (by_id rs))" "derive_states rs = Some d" "by_id rs x = None"
  shows "map_of d x = None"
proof -
  obtain ss where run: "resolve_all (resolve (Suc (length rs)) (index_by wi_id rs) []) [] (map wi_id rs) = Some (ss, d)"
    using derive_states_run[OF assms(2)] by blast
  have "ws.solved (index_by wi_id rs) d" using ws.resolve_run_equation(1)[OF _ run] assms(1) by (simp add: by_id_def)
  from ws.solved_ids[OF this, of x] assms(3) show ?thesis unfolding by_id_def by blast
qed

lemma derive_states_same:
  assumes "acyclic (record_rel (by_id rs))" "by_id rs = by_id rs'"
    and "derive_states rs = Some d" "derive_states rs' = Some d'"
  shows "map_of d x = map_of d' x"
proof (rule ws.solution_unique[OF assms(1)])
  show "finite (ids_of (by_id rs))" using ids_fuel(2)[of wi_id rs] by (simp add: by_id_def)
  show "map_of d x = map_option (\<lambda>r. derive_state r (map (value_in (\<lambda>res. Known (ds_state res)) Unresolvable d) (wi_depends_on r))) (by_id rs x)" for x
    using derive_states_equation[OF assms(1,3), of x] derive_states_None[OF assms(1,3), of x]
    by (cases "by_id rs x") (auto simp: reads_state_in)
  have acyc: "acyclic (record_rel (by_id rs'))" using assms(1,2) by simp
  show "map_of d' x = map_option (\<lambda>r. derive_state r (map (value_in (\<lambda>res. Known (ds_state res)) Unresolvable d') (wi_depends_on r))) (by_id rs x)" for x
    using derive_states_equation[OF acyc assms(4), of x] derive_states_None[OF acyc assms(4), of x]
    unfolding assms(2) by (cases "by_id rs' x") (auto simp: reads_state_in)
qed

section \<open>Properties\<close>

lemma record_rel_by_id:
  "distinct (map wi_id rs) \<Longrightarrow> record_rel (by_id rs) = {(wi_id r, x) | r x. r \<in> set rs \<and> x \<in> set (wi_depends_on r)}"
  by (auto simp: depends_rel_def by_id_iff)

text \<open>
  Deriving a campaign always ends with a state for every item, whatever its dependencies, missing
  ones and cycles included.
\<close>

theorem derivation_covers_every_item:
  "\<exists>d. derive_states rs = Some d \<and> list_all (\<lambda>r. map_of d (wi_id r) \<noteq> None) rs"
proof -
  obtain d where d: "derive_states rs = Some d" "wi_id ` set rs \<subseteq> dom (map_of d)"
    using derive_states_total by blast
  then have "map_of d (wi_id r) \<noteq> None" if "r \<in> set rs" for r
    using that d(2) by (meson domIff imageI subsetD)
  with d(1) show ?thesis by (auto simp: list_all_iff)
qed

text \<open>
  On an acyclic campaign the derived states are well defined: listing the items in another order
  gives every item the same state and causes, and each is the item's own rules applied to the states
  its dependencies have in the same result, a missing dependency being unresolvable.
\<close>

theorem acyclic_states_are_well_defined:
  assumes "distinct (map wi_id rs)" and "mset rs = mset rs'"
    and "acyclic {(wi_id r, x) | r x. r \<in> set rs \<and> x \<in> set (wi_depends_on r)}"
  shows "\<exists>d d'. derive_states rs = Some d \<and> derive_states rs' = Some d' \<and> map_of d = map_of d' \<and>
     (\<forall>r\<in>set rs. map_of d (wi_id r) = Some (derive_state r (map (state_in d) (wi_depends_on r))))"
proof -
  obtain d d' where d: "derive_states rs = Some d" "derive_states rs' = Some d'"
    using derive_states_total[of rs] derive_states_total[of rs'] by auto
  have acyc: "acyclic (record_rel (by_id rs))" unfolding record_rel_by_id[OF assms(1)] by (rule assms(3))
  have "map_of d = map_of d'"
    using derive_states_same[OF acyc by_id_perm[OF assms(1,2)] d] by blast
  moreover have "map_of d (wi_id r) = Some (derive_state r (map (state_in d) (wi_depends_on r)))" if "r \<in> set rs" for r
    using derive_states_equation[OF acyc d(1)] by_id_distinct[OF assms(1) that] by simp
  ultimately show ?thesis using d by blast
qed

text \<open>
  C25: An item is ready, planned or queued with nothing in its way, exactly when it is committed and
  undelivered, has no open attempt, no recorded blocker and no failed merge dependency, and every item
  it depends on exists and is delivered: an unfinished, cancelled or missing prerequisite always shows.
\<close>

theorem ready_items_have_delivered_dependencies:
  assumes "distinct (map wi_id rs)" and "r \<in> set rs"
    and "acyclic {(wi_id r, x) | r x. r \<in> set rs \<and> x \<in> set (wi_depends_on r)}"
    and "derive_states rs = Some d"
  shows "(\<exists>s\<in>{Planned, Queued}. map_of d (wi_id r) = Some (derived s [])) \<longleftrightarrow>
     wi_commitment r = Committed \<and> \<not> wi_recorded_delivery r \<and> \<not> wi_blocker r \<and>
     MergeFailed \<notin> set (wi_merge_dependencies r) \<and>
     (case wi_attempt r of None \<Rightarrow> True | Some a \<Rightarrow> \<not> la_open a \<and> \<not> la_delivered a) \<and>
     (\<forall>x\<in>set (wi_depends_on r). state_in d x = Known Delivered)"
proof -
  have acyc: "acyclic (record_rel (by_id rs))" unfolding record_rel_by_id[OF assms(1)] by (rule assms(3))
  have eq: "map_of d (wi_id r) = Some (derive_state r (map (state_in d) (wi_depends_on r)))"
    using derive_states_equation[OF acyc assms(4)] by_id_distinct[OF assms(1,2)] by simp
  have dep: "\<not> blocks s \<and> \<not> unfinished s \<longleftrightarrow> s = Known Delivered" for s
    by (cases s) (auto simp: BLOCKING_DEPENDENCY_def FINISHED_def)
  have open_ne: "ds_state (open_attempt_state r) \<notin> {Planned, Queued}"
    by (auto simp: open_attempt_state_def derived_def split: option.splits)
  then have open_ne': "open_attempt_state r \<noteq> derived Planned []" "open_attempt_state r \<noteq> derived Queued []"
    by (auto simp: derived_def)
  have deps: "(\<forall>x\<in>set (wi_depends_on r). state_in d x = Known Delivered) \<longleftrightarrow>
    \<not> (\<exists>s\<in>set (map (state_in d) (wi_depends_on r)). blocks s) \<and>
    \<not> (\<exists>s\<in>set (map (state_in d) (wi_depends_on r)). unfinished s)"
    using dep by auto
  define ss where "ss = map (state_in d) (wi_depends_on r)"
  have "(\<exists>s\<in>{Planned, Queued}. derive_state r ss = derived s []) \<longleftrightarrow>
     wi_commitment r = Committed \<and> \<not> wi_recorded_delivery r \<and> \<not> wi_blocker r \<and>
     MergeFailed \<notin> set (wi_merge_dependencies r) \<and>
     (case wi_attempt r of None \<Rightarrow> True | Some a \<Rightarrow> \<not> la_open a \<and> \<not> la_delivered a) \<and>
     \<not> (\<exists>s\<in>set ss. blocks s) \<and> \<not> (\<exists>s\<in>set ss. unfinished s)"
    using open_ne' by (cases "wi_commitment r"; cases "wi_attempt r"; cases "wi_dispatch r")
      (simp_all add: derive_state_def Let_def, (auto simp: derived_def split: if_splits)?)
  then show ?thesis unfolding eq deps ss_def by simp
qed

section \<open>Concrete campaigns\<close>

definition demo_item :: "string \<Rightarrow> string list \<Rightarrow> work_record" where
  "demo_item x deps = \<lparr>wi_id = x, wi_commitment = Committed, wi_dispatch = DispatchPlanned, wi_blocker = False,
     wi_depends_on = deps, wi_attempt = None, wi_session = None, wi_recorded_delivery = False,
     wi_merge_dependencies = [], wi_own_merged = False\<rparr>"

definition demo_campaign :: "work_record list" where
  "demo_campaign = [demo_item ''b'' [''a''], (demo_item ''a'' [])\<lparr>wi_recorded_delivery := True\<rparr>]"

lemma demo_campaign_acyclic:
  "acyclic {(wi_id r, x) | r x. r \<in> set demo_campaign \<and> x \<in> set (wi_depends_on r)}"
proof -
  have "{(wi_id r, x) | r x. r \<in> set demo_campaign \<and> x \<in> set (wi_depends_on r)} \<subseteq>
      measure (\<lambda>x. if x = ''b'' then 0 else 1)"
    by (auto simp: demo_campaign_def demo_item_def)
  then show ?thesis using wf_acyclic wf_measure acyclic_subset by blast
qed

theorem acyclic_states_are_well_defined_witness:
  "\<exists>d d'. derive_states demo_campaign = Some d \<and> derive_states (rev demo_campaign) = Some d' \<and> map_of d = map_of d'"
  using acyclic_states_are_well_defined[of demo_campaign "rev demo_campaign", OF _ _ demo_campaign_acyclic]
  by (auto simp: demo_campaign_def demo_item_def)

theorem ready_items_have_delivered_dependencies_witness:
  "\<exists>s\<in>{Planned, Queued}. map_of (the (derive_states demo_campaign)) ''b'' = Some (derived s [])"
proof -
  have some: "derive_states demo_campaign = Some (the (derive_states demo_campaign))"
    using derive_states_total[of demo_campaign] by auto
  have "map_of (the (derive_states demo_campaign)) ''a'' = Some (derived Delivered [])" by code_simp
  then have st: "state_in (the (derive_states demo_campaign)) ''a'' = Known Delivered"
    by (simp add: state_in_def derived_def)
  have "distinct (map wi_id demo_campaign)" "demo_item ''b'' [''a''] \<in> set demo_campaign"
    by (simp_all add: demo_campaign_def demo_item_def)
  from ready_items_have_delivered_dependencies[OF this demo_campaign_acyclic some] show ?thesis
    using st by (simp only: demo_item_def work_record.simps) simp
qed

text \<open>Three items in a cycle, one of them with a running attempt.\<close>

definition demo_cycle :: "work_record list" where
  "demo_cycle = [demo_item ''a'' [''b''],
     (demo_item ''b'' [''c''])\<lparr>wi_attempt := Some \<lparr>la_open = True, la_delivered = False\<rparr>,
        wi_session := Some \<lparr>so_status = SRunning, so_archived = False, so_held = False, so_pending = 0\<rparr>\<rparr>,
     demo_item ''c'' [''a'']]"

text \<open>
  On a cycle the derived state is not a property of the campaign: the same three records in another
  order give the third item another state, and an item on the cycle whose prerequisite is also on it is
  not blocked. The comment of \<open>deriveCampaignWorkItemStates\<close> says an item on a cycle is unresolvable for
  its dependents, which makes them blocked; the code only treats the edge that closes the cycle so.
\<close>

theorem cyclic_states_depend_on_order:
  "map_option (\<lambda>d. map (\<lambda>x. map_option ds_state (map_of d x)) [''a'', ''b'', ''c'']) (derive_states demo_cycle) =
     Some [Some Planned, Some Running, Some Blocked] \<and>
   map_option (\<lambda>d. map (\<lambda>x. map_option ds_state (map_of d x)) [''a'', ''b'', ''c'']) (derive_states (rotate 2 demo_cycle)) =
     Some [Some Planned, Some Running, Some Planned]"
  by code_simp

end
