(* ===== verification/Merge_Dependencies.thy ===== *)
theory Merge_Dependencies
  imports Json Work_State
begin

text \<open>
  Cross-repository merge dependencies (\<open>apps/control-plane/src/campaign-merge-dependencies.ts\<close>): the
  repositories an item works in, whether a dependency is a merge dependency, what a dependent shows of
  its prerequisite, and why a merge is held on it.
\<close>

section \<open>Model\<close>

record repository_ref =
  rr_repository :: string
  rr_number :: int

record item_places =
  ip_placement :: "string option"
  ip_pull_requests :: "repository_ref list"
  ip_issue :: "repository_ref option"

definition item_repository :: "item_places \<Rightarrow> string option" where
  "item_repository i =
     (let repository =
        (case ip_placement i of
           Some p \<Rightarrow> Some p
         | None \<Rightarrow> (case ip_pull_requests i of
                     r # _ \<Rightarrow> Some (rr_repository r)
                   | [] \<Rightarrow> map_option rr_repository (ip_issue i)))
      in case repository of None \<Rightarrow> None | Some r \<Rightarrow> if r = '''' then None else Some (to_lower r))"

text \<open>\<open>flatMap((repository) => repository ? [repository.toLowerCase()] : [])\<close>\<close>

definition named_lower :: "string option list \<Rightarrow> string list" where
  "named_lower rs = concat (map (\<lambda>r. case r of None \<Rightarrow> [] | Some s \<Rightarrow> if s = '''' then [] else [to_lower s]) rs)"

definition item_repositories :: "item_places \<Rightarrow> string list" where
  "item_repositories i =
     (let worked = ip_placement i # map (Some \<circ> rr_repository) (ip_pull_requests i);
          some_named = (\<exists>r\<in>set worked. r \<noteq> None \<and> r \<noteq> Some '''')
      in js_dedup (named_lower (if some_named then worked else [map_option rr_repository (ip_issue i)])))"

definition is_merge_dependency :: "string list \<Rightarrow> string list \<Rightarrow> string list \<Rightarrow> bool" where
  "is_merge_dependency deps prereqs campaign =
     (if length campaign < 2 then False
      else if deps = [] \<or> prereqs = [] then True
      else \<exists>r\<in>set (map to_lower prereqs). \<exists>q\<in>set (map to_lower deps). q \<noteq> r)"

datatype change_state = CrOpen | CrClosed | CrMerged

record change_observation =
  co_state :: change_state
  co_head :: "string option"

datatype forge_fact =
    Fresh change_observation
  | Stale change_observation
  | Unavailable "change_observation option"

record prerequisite_change =
  pc_ref :: repository_ref
  pc_fact :: forge_fact
  pc_outside :: bool

record merge_prerequisite =
  mp_id :: string
  mp_key :: string
  mp_title :: "string option"
  mp_repository :: "string option"
  mp_commitment :: commitment
  mp_changes :: "prerequisite_change list"

text \<open>The shown state of a fact; \<open>None\<close> is unknown.\<close>

fun shown :: "forge_fact \<Rightarrow> change_state option" where
  "shown (Fresh v) = Some (co_state v)"
| "shown (Stale v) = Some (co_state v)"
| "shown (Unavailable l) = None"

definition merge_dependency_status :: "merge_prerequisite \<Rightarrow> merge_status" where
  "merge_dependency_status p =
     (if mp_commitment p \<noteq> Committed then MergeFailed
      else if mp_changes p = [] then Unmerged
      else let states = map (shown \<circ> pc_fact) (mp_changes p)
           in if Some CrClosed \<in> set states then MergeFailed
              else if \<forall>s\<in>set states. s = Some CrMerged then Merged else Unmerged)"

record dependency_view =
  dv_id :: string
  dv_key :: string
  dv_title :: "string option"
  dv_repository :: "string option"
  dv_status :: merge_status
  dv_changes :: "(repository_ref \<times> change_state option) list"

definition merge_dependency_view :: "merge_prerequisite \<Rightarrow> dependency_view" where
  "merge_dependency_view p = \<lparr>dv_id = mp_id p, dv_key = mp_key p, dv_title = mp_title p,
     dv_repository = map_option to_lower (mp_repository p), dv_status = merge_dependency_status p,
     dv_changes = map (\<lambda>c. (pc_ref c, shown (pc_fact c))) (mp_changes p)\<rparr>"

datatype hold_state = HoldOpen | HoldClosed | HoldUnobserved | HoldNone | HoldCancelled | HoldOutside

record hold_identity =
  hi_id :: string
  hi_key :: string
  hi_title :: "string option"
  hi_repository :: "string option"

record merge_hold =
  mh_prerequisite :: hold_identity
  mh_change :: "repository_ref option"
  mh_state :: hold_state
  mh_head :: "string option"

definition identity_of :: "merge_prerequisite \<Rightarrow> hold_identity" where
  "identity_of p = \<lparr>hi_id = mp_id p, hi_key = mp_key p, hi_title = mp_title p,
     hi_repository = map_option to_lower (mp_repository p)\<rparr>"

fun fresh_closed :: "forge_fact \<Rightarrow> bool" where
  "fresh_closed (Fresh v) \<longleftrightarrow> co_state v = CrClosed"
| "fresh_closed _ \<longleftrightarrow> False"

fun fact_met :: "bool \<Rightarrow> forge_fact \<Rightarrow> bool" where
  "fact_met stale_meets (Fresh v) \<longleftrightarrow> co_state v = CrMerged"
| "fact_met stale_meets (Stale v) \<longleftrightarrow> stale_meets \<and> co_state v = CrMerged"
| "fact_met stale_meets (Unavailable l) \<longleftrightarrow> False"

fun fact_head :: "forge_fact \<Rightarrow> string option" where
  "fact_head (Fresh v) = co_head v"
| "fact_head (Stale v) = co_head v"
| "fact_head (Unavailable l) = (case l of None \<Rightarrow> None | Some v \<Rightarrow> co_head v)"

fun is_fresh :: "forge_fact \<Rightarrow> bool" where
  "is_fresh (Fresh v) = True"
| "is_fresh _ = False"

definition campaign_merge_hold :: "bool \<Rightarrow> merge_prerequisite \<Rightarrow> merge_hold option" where
  "campaign_merge_hold stale_meets p =
     (let hold = (\<lambda>c st h. Some \<lparr>mh_prerequisite = identity_of p, mh_change = c, mh_state = st, mh_head = h\<rparr>)
      in if mp_commitment p \<noteq> Committed then hold None HoldCancelled None
         else if mp_changes p = [] then hold None HoldNone None
         else case find pc_outside (mp_changes p) of
                Some c \<Rightarrow> hold (Some (pc_ref c)) HoldOutside None
              | None \<Rightarrow>
         (case find (\<lambda>c. fresh_closed (pc_fact c)) (mp_changes p) of
            Some c \<Rightarrow> hold (Some (pc_ref c)) HoldClosed (fact_head (pc_fact c))
          | None \<Rightarrow>
         (case find (\<lambda>c. \<not> fact_met stale_meets (pc_fact c)) (mp_changes p) of
            None \<Rightarrow> None
          | Some c \<Rightarrow> hold (Some (pc_ref c)) (if is_fresh (pc_fact c) then HoldOpen else HoldUnobserved)
                        (fact_head (pc_fact c)))))"

definition campaign_first_merge_hold :: "bool \<Rightarrow> merge_prerequisite list \<Rightarrow> merge_hold option" where
  "campaign_first_merge_hold stale_meets ps =
     (let holds = List.map_filter (campaign_merge_hold stale_meets) ps
      in case find (\<lambda>h. mh_state h = HoldClosed \<or> mh_state h = HoldCancelled) holds of
           Some h \<Rightarrow> Some h
         | None \<Rightarrow> (case holds of [] \<Rightarrow> None | h # _ \<Rightarrow> Some h))"

section \<open>Lemmas\<close>

definition change_proved_merged :: "bool \<Rightarrow> prerequisite_change \<Rightarrow> bool" where
  "change_proved_merged stale_meets c \<longleftrightarrow> \<not> pc_outside c \<and> shown (pc_fact c) = Some CrMerged \<and>
     (is_fresh (pc_fact c) \<or> stale_meets)"

lemma fact_met_shown:
  "fact_met b f \<longleftrightarrow> shown f = Some CrMerged \<and> (is_fresh f \<or> b)"
  by (cases f) auto

lemma fresh_closed_not_met: "fresh_closed f \<Longrightarrow> \<not> fact_met b f"
  by (cases f) auto

lemma merge_hold_None:
  "campaign_merge_hold b p = None \<longleftrightarrow>
     mp_commitment p = Committed \<and> mp_changes p \<noteq> [] \<and> (\<forall>c\<in>set (mp_changes p). change_proved_merged b c)"
  using fresh_closed_not_met[of _ b]
  by (auto simp: campaign_merge_hold_def Let_def change_proved_merged_def fact_met_shown[symmetric] find_None_iff
      dest!: find_SomeD split: option.splits)

lemma map_filter_Nil: "List.map_filter f xs = [] \<longleftrightarrow> (\<forall>x\<in>set xs. f x = None)"
  by (induction xs) (auto simp: map_filter_simps split: option.splits)

section \<open>Properties\<close>

text \<open>
  The merge gate opens exactly when every prerequisite is proved merged: no hold is reported if
  and only if each prerequisite is committed, names at least one pull request, and every pull request
  it names lies in the campaign and is observed merged, freshly, or, for a merge already armed, at
  least as a stored observation.
\<close>

theorem merge_gate_opens_exactly_when_merged:
  "campaign_first_merge_hold stale_meets ps = None \<longleftrightarrow>
     list_all (\<lambda>p. mp_commitment p = Committed \<and> mp_changes p \<noteq> [] \<and>
       list_all (\<lambda>c. \<not> pc_outside c \<and> shown (pc_fact c) = Some CrMerged \<and> (is_fresh (pc_fact c) \<or> stale_meets)) (mp_changes p)) ps"
proof -
  have "campaign_first_merge_hold stale_meets ps = None \<longleftrightarrow> (\<forall>p\<in>set ps. campaign_merge_hold stale_meets p = None)"
    by (auto simp: campaign_first_merge_hold_def Let_def map_filter_Nil find_None_iff[symmetric]
        split: option.splits list.splits simp flip: map_filter_Nil)
  then show ?thesis by (simp add: merge_hold_None list_all_iff change_proved_merged_def)
qed

text \<open>
  What a dependent shows agrees with its gate. A prerequisite with no hold before arming is shown
  merged; one shown failed always holds the merge, whatever is stored; and a cancelled one or one with
  a freshly observed closed pull request inside the campaign is held for good and outranks every
  prerequisite that is merely waiting.
\<close>

theorem shown_status_agrees_with_gate:
  "(campaign_merge_hold False p = None \<longrightarrow> merge_dependency_status p = Merged) \<and>
   (merge_dependency_status p = MergeFailed \<longrightarrow> campaign_merge_hold b p \<noteq> None) \<and>
   (p \<in> set ps \<and> (mp_commitment p \<noteq> Committed \<or>
        (mp_changes p \<noteq> [] \<and> (\<forall>c\<in>set (mp_changes p). \<not> pc_outside c) \<and> (\<exists>c\<in>set (mp_changes p). fresh_closed (pc_fact c)))) \<longrightarrow>
      (\<exists>h. campaign_first_merge_hold b ps = Some h \<and> mh_state h \<in> {HoldClosed, HoldCancelled}))"
proof -
  have 1: "campaign_merge_hold False p = None \<longrightarrow> merge_dependency_status p = Merged"
    by (auto simp: merge_hold_None merge_dependency_status_def change_proved_merged_def Let_def)
  have 2: "merge_dependency_status p = MergeFailed \<longrightarrow> campaign_merge_hold b p \<noteq> None"
    unfolding merge_hold_None by (auto simp: merge_dependency_status_def change_proved_merged_def Let_def split: if_splits)
  let ?holds = "List.map_filter (campaign_merge_hold b) ps"
  have 3: "\<exists>h. campaign_first_merge_hold b ps = Some h \<and> mh_state h \<in> {HoldClosed, HoldCancelled}"
    if p: "p \<in> set ps" and h: "campaign_merge_hold b p = Some h" "mh_state h \<in> {HoldClosed, HoldCancelled}" for h
  proof -
    have "h \<in> set ?holds" using p h(1) by (force simp: map_filter_def)
    then obtain h' where "find (\<lambda>h. mh_state h = HoldClosed \<or> mh_state h = HoldCancelled) ?holds = Some h'"
      using h(2) by (cases "find (\<lambda>h. mh_state h = HoldClosed \<or> mh_state h = HoldCancelled) ?holds") (auto simp: find_None_iff)
    moreover from this have "mh_state h' \<in> {HoldClosed, HoldCancelled}" by (auto dest: find_SomeD)
    ultimately show ?thesis by (simp add: campaign_first_merge_hold_def Let_def)
  qed
  have 4: "\<exists>h. campaign_merge_hold b p = Some h \<and> mh_state h \<in> {HoldClosed, HoldCancelled}"
    if "mp_commitment p \<noteq> Committed \<or> (mp_changes p \<noteq> [] \<and> (\<forall>c\<in>set (mp_changes p). \<not> pc_outside c) \<and>
        (\<exists>c\<in>set (mp_changes p). fresh_closed (pc_fact c)))"
  proof (cases "mp_commitment p = Committed")
    case True
    with that have "find pc_outside (mp_changes p) = None" "mp_changes p \<noteq> []"
      by (auto simp: find_None_iff)
    moreover have "find (\<lambda>c. fresh_closed (pc_fact c)) (mp_changes p) \<noteq> None"
      using that True by (auto simp: find_None_iff)
    then obtain c where "find (\<lambda>c. fresh_closed (pc_fact c)) (mp_changes p) = Some c" by blast
    ultimately show ?thesis using True by (simp add: campaign_merge_hold_def Let_def)
  qed (simp add: campaign_merge_hold_def Let_def)
  show ?thesis using 1 2 3 4 by blast
qed

text \<open>
  The classification fails closed. In a campaign of several repositories a dependency escapes the
  merge gate only when both items' repositories are known and all of them are one and the same
  repository, whatever the letter case; and the answer does not depend on which item is the dependent.
\<close>

theorem merge_dependency_fails_closed:
  "(\<not> is_merge_dependency deps prereqs campaign \<longleftrightarrow>
      length campaign < 2 \<or>
      (deps \<noteq> [] \<and> prereqs \<noteq> [] \<and>
         list_all (\<lambda>x. to_lower x = to_lower (hd deps)) (deps @ prereqs))) \<and>
   is_merge_dependency deps prereqs campaign = is_merge_dependency prereqs deps campaign"
proof -
  have "(\<forall>r\<in>set ps. \<forall>q\<in>set ds. to_lower q = to_lower r) \<longleftrightarrow>
      list_all (\<lambda>x. to_lower x = to_lower (hd ds)) (ds @ ps)" if "ds \<noteq> []" "ps \<noteq> []" for ds ps
  proof -
    from that obtain d ds' q ps' where "ds = d # ds'" "ps = q # ps'" by (cases ds; cases ps) auto
    then show ?thesis by (simp add: list_all_iff ball_Un) metis
  qed
  then have "\<not> is_merge_dependency deps prereqs campaign \<longleftrightarrow> length campaign < 2 \<or>
      (deps \<noteq> [] \<and> prereqs \<noteq> [] \<and> list_all (\<lambda>x. to_lower x = to_lower (hd deps)) (deps @ prereqs))"
    by (auto simp: is_merge_dependency_def)
  moreover have "(\<exists>r\<in>set prereqs. \<exists>q\<in>set deps. to_lower q \<noteq> to_lower r) =
      (\<exists>r\<in>set deps. \<exists>q\<in>set prereqs. to_lower q \<noteq> to_lower r)" by metis
  then have "is_merge_dependency deps prereqs campaign = is_merge_dependency prereqs deps campaign"
    by (simp add: is_merge_dependency_def disj_commute)
  ultimately show ?thesis by blast
qed

text \<open>A prerequisite with one open pull request, then one whose pull request was closed.\<close>

definition demo_prerequisite :: "forge_fact \<Rightarrow> merge_prerequisite" where
  "demo_prerequisite f = \<lparr>mp_id = ''p'', mp_key = ''k'', mp_title = None, mp_repository = Some ''A/b'',
     mp_commitment = Committed,
     mp_changes = [\<lparr>pc_ref = \<lparr>rr_repository = ''a/b'', rr_number = 3\<rparr>, pc_fact = f, pc_outside = False\<rparr>]\<rparr>"

definition demo_closed :: forge_fact where
  "demo_closed = Fresh \<lparr>co_state = CrClosed, co_head = Some ''abc''\<rparr>"

theorem shown_status_agrees_with_gate_witness:
  "\<exists>h. campaign_first_merge_hold False [demo_prerequisite (Unavailable None), demo_prerequisite demo_closed] = Some h \<and>
     mh_state h \<in> {HoldClosed, HoldCancelled}"
proof -
  have "fresh_closed demo_closed" by (simp add: demo_closed_def)
  then show ?thesis
    using shown_status_agrees_with_gate[of "demo_prerequisite demo_closed" False
        "[demo_prerequisite (Unavailable None), demo_prerequisite demo_closed]"]
    by (simp add: demo_prerequisite_def)
qed

end
