(* ===== verification/Guardrails.thy ===== *)
theory Guardrails
  imports Protocol
begin

text \<open>
  The per-session guardrails of \<open>apps/control-plane/src/policy-engine.ts\<close>: the rules a session's fields
  give, their evaluation, the one question that parks the session, and the normal form of a list of
  cost checkpoints.

  Costs are rationals. The text of a card is the value it is made from, with the numbers it shows.
\<close>

record policy_input =
  pi_status :: session_status
  pi_cost :: rat
  pi_calls :: int
  pi_unpriced :: bool
  pi_includes_estimate :: bool

record daily_budget =
  db_budget :: rat
  db_spent :: rat
  db_includes_estimate :: bool

record guardrail_fields =
  gf_cost_budget :: "rat option"
  gf_max_calls :: "int option"
  gf_checkpoints :: "rat list option"
  gf_checkpoint_approved :: "rat option"
  gf_unpriced_acknowledged :: bool
  gf_daily :: "daily_budget option"

datatype policy_rule =
    Cost_Budget rat
  | Max_Tool_Calls int
  | Cost_Checkpoint rat
  | Cost_Unpriced
  | Daily_Budget rat rat bool

section \<open>The rules of a session\<close>

definition has_daily :: "guardrail_fields \<Rightarrow> bool" where
  "has_daily s \<longleftrightarrow> (case gf_daily s of None \<Rightarrow> False | Some d \<Rightarrow> db_budget d > 0)"

definition has_budget :: "guardrail_fields \<Rightarrow> bool" where
  "has_budget s \<longleftrightarrow> (case gf_cost_budget s of None \<Rightarrow> False | Some b \<Rightarrow> b > 0)"

definition session_checkpoints :: "guardrail_fields \<Rightarrow> rat list" where
  "session_checkpoints s =
     js_sort (\<le>) (filter (\<lambda>usd. usd > 0) (case gf_checkpoints s of None \<Rightarrow> [] | Some cs \<Rightarrow> cs))"

definition open_checkpoint :: "guardrail_fields \<Rightarrow> rat \<Rightarrow> bool" where
  "open_checkpoint s usd \<longleftrightarrow>
     usd > (case gf_checkpoint_approved s of None \<Rightarrow> 0 | Some a \<Rightarrow> a) \<and>
     (\<not> has_budget s \<or> usd < the (gf_cost_budget s))"

definition rules_from_session :: "guardrail_fields \<Rightarrow> policy_rule list" where
  "rules_from_session s =
     (if has_daily s
      then [Daily_Budget (db_budget (the (gf_daily s))) (db_spent (the (gf_daily s))) (db_includes_estimate (the (gf_daily s)))]
      else []) @
     (if (has_budget s \<or> session_checkpoints s \<noteq> [] \<or> has_daily s) \<and> \<not> gf_unpriced_acknowledged s
      then [Cost_Unpriced] else []) @
     (case find (open_checkpoint s) (session_checkpoints s) of None \<Rightarrow> [] | Some next \<Rightarrow> [Cost_Checkpoint next]) @
     (if has_budget s then [Cost_Budget (the (gf_cost_budget s))] else []) @
     (case gf_max_calls s of None \<Rightarrow> [] | Some m \<Rightarrow> if m > 0 then [Max_Tool_Calls m] else [])"

section \<open>Evaluation\<close>

datatype card_title =
    Budget_Reached rat rat bool
  | Checkpoint_Reached rat rat bool
  | Usage_Unpriced
  | Daily_Reached rat rat bool
  | Calls_Reached int int
  | Guardrail_Reached

datatype verdict = Ok | Park

record policy_decision =
  pd_rule :: policy_rule
  pd_decision :: verdict
  pd_title :: "card_title option"

definition park_if :: "bool \<Rightarrow> policy_rule \<Rightarrow> card_title \<Rightarrow> policy_decision" where
  "park_if b r t =
     (if b then \<lparr>pd_rule = r, pd_decision = Park, pd_title = Some t\<rparr>
      else \<lparr>pd_rule = r, pd_decision = Ok, pd_title = None\<rparr>)"

fun evaluate_rule :: "policy_input \<Rightarrow> policy_rule \<Rightarrow> policy_decision" where
  "evaluate_rule i r =
     (if is_terminal (pi_status i) then \<lparr>pd_rule = r, pd_decision = Ok, pd_title = None\<rparr>
      else case r of
        Cost_Budget b \<Rightarrow> park_if (pi_cost i \<ge> b) r (Budget_Reached (pi_cost i) b (pi_includes_estimate i))
      | Cost_Checkpoint c \<Rightarrow> park_if (pi_cost i \<ge> c) r (Checkpoint_Reached (pi_cost i) c (pi_includes_estimate i))
      | Cost_Unpriced \<Rightarrow> park_if (pi_unpriced i) r Usage_Unpriced
      | Daily_Budget b sp e \<Rightarrow> park_if (sp \<ge> b) r (Daily_Reached sp b e)
      | Max_Tool_Calls m \<Rightarrow> park_if (pi_calls i \<ge> m) r (Calls_Reached (pi_calls i) m))"

definition evaluate_policies :: "policy_input \<Rightarrow> policy_rule list \<Rightarrow> policy_decision list" where
  "evaluate_policies i rs = map (evaluate_rule i) rs"

definition first_ask :: "policy_decision list \<Rightarrow> policy_decision option" where
  "first_ask ds = find (\<lambda>d. pd_decision d = Park) ds"

definition budget_decision :: "rat \<Rightarrow> rat option \<Rightarrow> session_status \<Rightarrow> verdict" where
  "budget_decision cost budget st =
     (case budget of None \<Rightarrow> Ok
      | Some b \<Rightarrow> if b \<le> 0 then Ok else if is_terminal st then Ok else if cost \<ge> b then Park else Ok)"

fun rule_kind :: "policy_rule \<Rightarrow> string" where
  "rule_kind (Cost_Budget _) = ''cost_budget''"
| "rule_kind (Max_Tool_Calls _) = ''max_tool_calls''"
| "rule_kind (Cost_Checkpoint _) = ''cost_checkpoint''"
| "rule_kind Cost_Unpriced = ''cost_unpriced''"
| "rule_kind (Daily_Budget _ _ _) = ''daily_budget''"

record card_option =
  co_option_id :: string
  co_name :: string
  co_kind :: string

record pending_approval =
  pa_request_id :: string
  pa_kind :: string
  pa_title :: card_title
  pa_options :: "card_option list"

definition approval_for_decision :: "policy_decision \<Rightarrow> string \<Rightarrow> int \<Rightarrow> pending_approval" where
  "approval_for_decision d sid now =
     (let k = rule_kind (pd_rule d);
          prefix = map (\<lambda>c. if c = CHR ''_'' then CHR ''-'' else c) k
      in \<lparr>pa_request_id = prefix @ '':'' @ sid @ '':'' @ int_str now,
          pa_kind = k,
          pa_title = (case pd_title d of None \<Rightarrow> Guardrail_Reached | Some t \<Rightarrow> t),
          pa_options =
            [\<lparr>co_option_id = ''continue'', co_name = (if k = ''daily_budget'' then ''Check Again'' else ''Continue''),
              co_kind = ''allow_once''\<rparr>,
             \<lparr>co_option_id = ''cancel'', co_name = ''Stop'', co_kind = ''reject_once''\<rparr>]\<rparr>)"

text \<open>\<open>normalizeCostCheckpoints\<close>; the argument reads a string as a finite number, where it is one.\<close>

definition checkpoint_number :: "(string \<Rightarrow> rat option) \<Rightarrow> json \<Rightarrow> rat option" where
  "checkpoint_number num v = (case v of JStr s \<Rightarrow> num s | JNum q \<Rightarrow> Some q | _ \<Rightarrow> None)"

definition round_cents :: "rat \<Rightarrow> rat" where
  "round_cents q = of_int \<lfloor>q * 100 + 1 / 2\<rfloor> / 100"

definition one_cent :: rat where
  "one_cent = 1 / 100"

definition normalize_cost_checkpoints :: "(string \<Rightarrow> rat option) \<Rightarrow> json \<Rightarrow> rat list option" where
  "normalize_cost_checkpoints num v =
     (case v of
        JArr xs \<Rightarrow>
          (let values = js_sort (\<le>) (js_dedup (filter (\<lambda>q. q \<ge> one_cent)
                 (map round_cents (List.map_filter (checkpoint_number num) xs))))
           in if values \<noteq> [] then Some (take 8 values) else None)
      | _ \<Rightarrow> None)"

section \<open>What passing the gate means\<close>

lemma park_if_simps [simp]:
  "pd_decision (park_if b r t) = (if b then Park else Ok)" "pd_rule (park_if b r t) = r"
  by (simp_all add: park_if_def)

lemma find_map: "find P (map f xs) = map_option f (find (\<lambda>x. P (f x)) xs)"
  by (induction xs) auto

lemma not_Park [simp]: "v \<noteq> Park \<longleftrightarrow> v = Ok"
  by (cases v) auto

lemma first_ask_None:
  "first_ask (evaluate_policies i rs) = None \<longleftrightarrow> list_all (\<lambda>r. pd_decision (evaluate_rule i r) = Ok) rs"
  unfolding first_ask_def evaluate_policies_def
  by (induction rs) (auto simp del: evaluate_rule.simps simp flip: not_Park)

lemma first_sorted_bound:
  assumes "sorted_wrt (\<le>) (xs :: rat list)"
  shows "(case find P xs of None \<Rightarrow> True | Some y \<Rightarrow> x < y) \<longleftrightarrow> list_all (\<lambda>c. x < c) (filter P xs)"
  using assms by (induction xs) (auto simp: list_all_iff)

lemma next_checkpoint_bounds_all:
  "(case find (open_checkpoint s) (session_checkpoints s) of None \<Rightarrow> True | Some c \<Rightarrow> x < c) \<longleftrightarrow>
   list_all (\<lambda>c. x < c)
     (filter (\<lambda>c. c > 0 \<and> open_checkpoint s c) (case gf_checkpoints s of None \<Rightarrow> [] | Some cs \<Rightarrow> cs))"
proof -
  have "(case find (open_checkpoint s) (session_checkpoints s) of None \<Rightarrow> True | Some c \<Rightarrow> x < c) \<longleftrightarrow>
      list_all (\<lambda>c. x < c) (filter (open_checkpoint s) (session_checkpoints s))"
    unfolding session_checkpoints_def by (rule first_sorted_bound) (rule num_order.sorted_js_sort)
  also have "\<dots> \<longleftrightarrow> list_all (\<lambda>c. x < c) (filter (open_checkpoint s)
      (filter (\<lambda>usd. usd > 0) (case gf_checkpoints s of None \<Rightarrow> [] | Some cs \<Rightarrow> cs)))"
    by (simp add: session_checkpoints_def list_all_iff)
  finally show ?thesis by (simp add: conj_commute)
qed

definition within_guardrails :: "guardrail_fields \<Rightarrow> policy_input \<Rightarrow> bool" where
  "within_guardrails s i \<longleftrightarrow>
     (has_daily s \<longrightarrow> db_spent (the (gf_daily s)) < db_budget (the (gf_daily s))) \<and>
     (pi_unpriced i \<longrightarrow> gf_unpriced_acknowledged s \<or> \<not> (has_budget s \<or> session_checkpoints s \<noteq> [] \<or> has_daily s)) \<and>
     (\<forall>c. c \<in> set (case gf_checkpoints s of None \<Rightarrow> [] | Some cs \<Rightarrow> cs) \<longrightarrow> c > 0 \<longrightarrow> open_checkpoint s c \<longrightarrow> pi_cost i < c) \<and>
     (\<forall>b. gf_cost_budget s = Some b \<longrightarrow> b > 0 \<longrightarrow> pi_cost i < b) \<and>
     (\<forall>m. gf_max_calls s = Some m \<longrightarrow> m > 0 \<longrightarrow> pi_calls i < m)"

text \<open>
  C27: The gate parks a running session exactly when one of its guardrails is reached: the daily
  allowance is spent, spending cannot be priced and nobody acknowledged that, the cost has reached any
  checkpoint still open (not only the next one, the only one that is a rule) or the budget, or the
  tool calls have reached their limit. An ended session is never parked.
\<close>

theorem gate_passes_exactly_within_guardrails:
  "first_ask (evaluate_policies i (rules_from_session s)) = None \<longleftrightarrow>
     is_terminal (pi_status i) \<or> within_guardrails s i"
proof (cases "is_terminal (pi_status i)")
  case True
  then show ?thesis by (simp add: first_ask_None list_all_iff)
next
  case False
  have cp: "list_all (\<lambda>r. pd_decision (evaluate_rule i r) = Ok)
      (case find (open_checkpoint s) (session_checkpoints s) of None \<Rightarrow> [] | Some c \<Rightarrow> [Cost_Checkpoint c]) \<longleftrightarrow>
      (\<forall>c. c \<in> set (case gf_checkpoints s of None \<Rightarrow> [] | Some cs \<Rightarrow> cs) \<longrightarrow> c > 0 \<longrightarrow> open_checkpoint s c \<longrightarrow> pi_cost i < c)"
    using next_checkpoint_bounds_all[where s = s and x = "pi_cost i"] False
    by (auto simp: list_all_iff not_le split: option.splits)
  show ?thesis
    unfolding first_ask_None rules_from_session_def list_all_append cp within_guardrails_def
    using False by (auto simp: has_budget_def not_le split: option.splits)
qed

section \<open>Checkpoint lists\<close>

lemma round_cents_idem [simp]: "round_cents (round_cents q) = round_cents q"
proof -
  have "\<lfloor>of_int n / 100 * 100 + 1 / 2 :: rat\<rfloor> = n" for n
    by (simp add: floor_unique)
  then show ?thesis unfolding round_cents_def by simp
qed

definition cents :: "rat \<Rightarrow> bool" where
  "cents q \<longleftrightarrow> round_cents q = q \<and> q \<ge> one_cent"

definition checkpoint_normal_form :: "rat list \<Rightarrow> bool" where
  "checkpoint_normal_form out \<longleftrightarrow>
     out \<noteq> [] \<and> length out \<le> 8 \<and> sorted_wrt (<) out \<and> list_all cents out"

lemma normalize_checkpoints_normal:
  assumes "normalize_cost_checkpoints num v = Some out"
  shows "checkpoint_normal_form out"
proof -
  obtain xs where v: "v = JArr xs"
    using assms by (cases v) (auto simp: normalize_cost_checkpoints_def)
  let ?ys = "filter (\<lambda>q. q \<ge> one_cent) (map round_cents (List.map_filter (checkpoint_number num) xs))"
  let ?zs = "js_sort (\<le>) (js_dedup ?ys)"
  have out: "out = take 8 ?zs" "?zs \<noteq> []"
    using assms unfolding v normalize_cost_checkpoints_def by (auto simp: Let_def split: if_splits)
  have "distinct ?zs"
    using distinct_js_dedup[of ?ys] by (metis mset_eq_imp_distinct_iff mset_js_sort)
  then have "sorted_wrt (<) ?zs"
    using num_order.sorted_js_sort[of "js_dedup ?ys"] by (simp add: strict_sorted_iff)
  then have "sorted_wrt (<) out" unfolding out by (rule sorted_wrt_take)
  moreover have "list_all cents out"
    using set_take_subset[of 8 ?zs] unfolding out by (auto simp: list_all_iff cents_def)
  ultimately show ?thesis
    using out by (simp add: checkpoint_normal_form_def)
qed

lemma normalize_checkpoints_fixed:
  assumes "checkpoint_normal_form out"
  shows "normalize_cost_checkpoints num (JArr (map JNum out)) = Some out"
proof -
  have "List.map_filter (checkpoint_number num) (map JNum out) = out"
    by (induction out) (auto simp: List.map_filter_simps checkpoint_number_def)
  moreover have "map round_cents out = out" "filter (\<lambda>q. q \<ge> one_cent) out = out"
    using assms by (auto simp: checkpoint_normal_form_def list_all_iff cents_def intro: map_idI)
  moreover have "js_dedup out = out"
    using assms by (intro js_dedup_id) (simp add: checkpoint_normal_form_def strict_sorted_iff)
  moreover have "js_sort (\<le>) out = out"
    using assms num_order.sorted_unique[OF num_order.sorted_js_sort[of out], of out]
    by (simp add: checkpoint_normal_form_def strict_sorted_iff)
  ultimately show ?thesis
    using assms by (simp add: normalize_cost_checkpoints_def Let_def checkpoint_normal_form_def)
qed

end
