(* ===== verification/Policy_Matching.thy ===== *)
theory Policy_Matching
  imports Protocol "HOL-Library.List_Lexorder"
begin

text \<open>
  The governance policies of \<open>apps/control-plane/src/policy-engine.ts\<close>: their selectors, the wildcard
  matchers, and the choice of the policy that decides a request.

  The optional properties of the TypeScript interfaces are options. The paths' normal form on Windows
  (\<open>win32.normalize\<close>), the URL parser and \<open>localeCompare\<close> belong to the runtime and are arguments;
  \<open>posix.normalize\<close> is modelled. A wildcard regular expression is the list of its tokens, a literal
  character or a class repeated any number of times, with the matching relation of regular
  expressions; the dot of JavaScript does not match a line terminator.
\<close>

section \<open>Data\<close>

datatype policy_effect = Allow | Deny | Ask

datatype scope_key =
  OrganizationId | RunnerId | WorkspaceId | AgentId | ToolName | Path | Network | Branch

record governance_scope =
  gs_session_id :: string
  gs_runner_id :: string
  gs_organization_id :: "string option"
  gs_workspace_id :: "string option"
  gs_agent_id :: "string option"
  gs_tool_name :: "string option"
  gs_path :: "string option"
  gs_network :: "string option"
  gs_branch :: "string option"

fun scope_value :: "governance_scope \<Rightarrow> scope_key \<Rightarrow> string option" where
  "scope_value g OrganizationId = gs_organization_id g"
| "scope_value g RunnerId = Some (gs_runner_id g)"
| "scope_value g WorkspaceId = gs_workspace_id g"
| "scope_value g AgentId = gs_agent_id g"
| "scope_value g ToolName = gs_tool_name g"
| "scope_value g Path = gs_path g"
| "scope_value g Network = gs_network g"
| "scope_value g Branch = gs_branch g"

text \<open>The selectors of a policy: the populated keys, with their patterns.\<close>

type_synonym policy_scope = "(scope_key \<times> string) list"

record policy_conditions =
  pc_human_required :: "bool option"
  pc_statuses :: "session_status list option"
  pc_min_cost :: "rat option"
  pc_max_cost :: "rat option"
  pc_min_calls :: "int option"
  pc_max_calls :: "int option"
  pc_escalated :: "bool option"
  pc_issue_labels :: "string list option"

datatype question_answer = AnswerOption string | AnswerText string

record question_rule =
  qr_starter_category :: "string option"
  qr_header_pattern :: "string option"
  qr_question_pattern :: "string option"
  qr_answer :: question_answer

record governance_policy =
  gp_id :: string
  gp_name :: string
  gp_effect :: policy_effect
  gp_priority :: int
  gp_enabled :: bool
  gp_scope :: policy_scope
  gp_owner :: "string option"
  gp_question_rule :: "question_rule option"
  gp_conditions :: "policy_conditions option"
  gp_ask_timeout :: "int option"
  gp_builtin :: bool
  gp_created_at :: int
  gp_updated_at :: int

record approval_input =
  ai_scope :: governance_scope
  ai_status :: session_status
  ai_cost :: rat
  ai_calls :: int
  ai_escalated :: bool

section \<open>Wildcards\<close>

datatype glob = Lit char | Star "char \<Rightarrow> bool"

fun glob_match :: "glob list \<Rightarrow> string \<Rightarrow> bool" where
  "glob_match [] s \<longleftrightarrow> s = []"
| "glob_match (Lit c # gs) s \<longleftrightarrow> (case s of [] \<Rightarrow> False | d # t \<Rightarrow> c = d \<and> glob_match gs t)"
| "glob_match (Star P # gs) [] = glob_match gs []"
| "glob_match (Star P # gs) (d # t) \<longleftrightarrow> glob_match gs (d # t) \<or> (P d \<and> glob_match (Star P # gs) t)"

text \<open>\<open>.\<close> without the \<open>s\<close> flag.\<close>

definition dot :: "char \<Rightarrow> bool" where
  "dot c \<longleftrightarrow> c \<noteq> CHR 0x0A \<and> c \<noteq> CHR 0x0D"

fun scope_tokens :: "string \<Rightarrow> glob list" where
  "scope_tokens [] = []"
| "scope_tokens (c # s) = (if c = CHR ''*'' then Star dot else Lit c) # scope_tokens s"

definition scope_pattern_matches :: "string option \<Rightarrow> string \<Rightarrow> bool" where
  "scope_pattern_matches v p =
     (case v of None \<Rightarrow> False
      | Some x \<Rightarrow> if CHR ''*'' \<notin> set p then x = p else glob_match (scope_tokens p) x)"

text \<open>
  \<open>wildcardRegex\<close>: a double star, like the placeholder character it becomes, crosses the separators;
  a single star is the class given.
\<close>

fun wildcard_tokens :: "(char \<Rightarrow> bool) \<Rightarrow> string \<Rightarrow> glob list" where
  "wildcard_tokens cls [] = []"
| "wildcard_tokens cls [c] =
     [if c = CHR ''*'' then Star cls else if c = CHR 0x00 then Star dot else Lit c]"
| "wildcard_tokens cls (c # d # s) =
     (if c = CHR ''*'' \<and> d = CHR ''*'' then Star dot # wildcard_tokens cls s
      else (if c = CHR ''*'' then Star cls else if c = CHR 0x00 then Star dot else Lit c)
           # wildcard_tokens cls (d # s))"

definition wildcard_match :: "(char \<Rightarrow> bool) \<Rightarrow> string \<Rightarrow> string \<Rightarrow> bool" where
  "wildcard_match cls p s = glob_match (wildcard_tokens cls p) s"

definition segment_char :: "char \<Rightarrow> bool" where
  "segment_char c \<longleftrightarrow> c \<noteq> CHR ''/''"

definition host_char :: "char \<Rightarrow> bool" where
  "host_char c \<longleftrightarrow> c \<noteq> CHR ''.'' \<and> c \<noteq> CHR '':'' \<and> c \<noteq> CHR ''/''"

section \<open>Paths\<close>

definition windows_path :: "string \<Rightarrow> bool" where
  "windows_path v \<longleftrightarrow>
     (case v of a # b # c # _ \<Rightarrow>
        (is_lower a \<or> is_upper a) \<and> b = CHR '':'' \<and> (c = CHR 0x5C \<or> c = CHR ''/'') | _ \<Rightarrow> False) \<or>
     starts_with v [CHR 0x5C, CHR 0x5C] \<or> CHR 0x5C \<in> set v"

text \<open>
  \<open>posix.normalize\<close>: empty and \<open>.\<close> segments go, \<open>..\<close> takes the segment before it, and is kept only at
  the front of a relative path; a trailing separator stays.
\<close>

fun resolve_segments :: "bool \<Rightarrow> string list \<Rightarrow> string list \<Rightarrow> string list" where
  "resolve_segments ab acc [] = rev acc"
| "resolve_segments ab acc (w # ws) =
     (if w = '''' \<or> w = ''.'' then resolve_segments ab acc ws
      else if w = ''..'' then
        (case acc of
           a # as \<Rightarrow> if a = ''..'' then resolve_segments ab (w # acc) ws else resolve_segments ab as ws
         | [] \<Rightarrow> resolve_segments ab (if ab then [] else [w]) ws)
      else resolve_segments ab (w # acc) ws)"

definition posix_normalize :: "string \<Rightarrow> string" where
  "posix_normalize p =
     (if p = [] then ''.''
      else let ab = (hd p = CHR ''/'');
               trailing = (last p = CHR ''/'');
               body = join_str ''/'' (resolve_segments ab [] (split_on (CHR ''/'') p))
           in if body = [] then (if ab then ''/'' else if trailing then ''./'' else ''.'')
              else (if ab then ''/'' else '''') @ body @ (if trailing then ''/'' else ''''))"

definition forward_slashes :: "string \<Rightarrow> string" where
  "forward_slashes s = map (\<lambda>c. if c = CHR 0x5C then CHR ''/'' else c) s"

definition normalized_path :: "(string \<Rightarrow> string) \<Rightarrow> string \<Rightarrow> string option" where
  "normalized_path win v =
     (if v = [] \<or> CHR 0x00 \<in> set v then None
      else if windows_path v then Some (to_lower (forward_slashes (win v)))
      else Some (forward_slashes (posix_normalize v)))"

definition path_pattern_matches :: "(string \<Rightarrow> string) \<Rightarrow> string option \<Rightarrow> string \<Rightarrow> bool" where
  "path_pattern_matches win v p =
     (case v of None \<Rightarrow> False
      | Some x \<Rightarrow>
          (case (normalized_path win x, normalized_path win p) of
             (Some nv, Some np) \<Rightarrow> nv \<noteq> [] \<and> np \<noteq> [] \<and> wildcard_match segment_char np nv
           | _ \<Rightarrow> False))"

section \<open>Hosts and URLs\<close>

definition host_pattern_matches :: "string \<Rightarrow> string \<Rightarrow> bool" where
  "host_pattern_matches h p = wildcard_match host_char (to_lower p) (to_lower h)"

record url =
  url_protocol :: string
  url_username :: string
  url_password :: string
  url_host :: string
  url_pathname :: string

text \<open>\<open>/^([^:]+):\/\/([^/]+)(\/.*)?$/\<close>: the scheme, host and path patterns.\<close>

definition split_url_pattern :: "string \<Rightarrow> (string \<times> string \<times> string option) option" where
  "split_url_pattern p =
     (let s = takeWhile (\<lambda>c. c \<noteq> CHR '':'') p; r = drop (length s) p
      in if s = [] \<or> \<not> starts_with r ''://'' then None
         else let r2 = drop 3 r; h = takeWhile segment_char r2; rest = drop (length h) r2
              in if h = [] \<or> \<not> list_all dot rest then None
                 else Some (s, h, if rest = [] then None else Some rest))"

definition network_pattern_matches ::
    "(string \<Rightarrow> string) \<Rightarrow> (string \<Rightarrow> url option) \<Rightarrow> string option \<Rightarrow> string \<Rightarrow> bool" where
  "network_pattern_matches win parse_url v p =
     (case v of None \<Rightarrow> False
      | Some x \<Rightarrow>
          if x = ''requested'' \<or> p = ''requested'' then x = p
          else let u = parse_url x
               in if u = None \<and> list_ex (\<lambda>c. c = CHR ''/'' \<or> c = CHR 0x40 \<or> is_space c) x then False
                  else if (case u of None \<Rightarrow> False | Some y \<Rightarrow> url_username y \<noteq> [] \<or> url_password y \<noteq> []) then False
                  else if \<not> str_includes p ''://'' then
                    host_pattern_matches (case u of None \<Rightarrow> x | Some y \<Rightarrow> url_host y) p
                  else (case u of None \<Rightarrow> False
                        | Some y \<Rightarrow>
                            if list_ex (\<lambda>c. c = CHR ''?'' \<or> c = CHR ''#'' \<or> c = CHR 0x40 \<or> is_space c) p then False
                            else (case split_url_pattern p of None \<Rightarrow> False
                                  | Some (s, h, q) \<Rightarrow>
                                      scope_pattern_matches (Some (butlast (url_protocol y))) s \<and>
                                      host_pattern_matches (url_host y) h \<and>
                                      path_pattern_matches win (Some (url_pathname y))
                                        (case q of None \<Rightarrow> ''/'' | Some r \<Rightarrow> r))))"

section \<open>Policies\<close>

text \<open>What the runtime provides.\<close>

record runtime =
  rt_win_normalize :: "string \<Rightarrow> string"
  rt_parse_url :: "string \<Rightarrow> url option"
  rt_locale_le :: "string \<Rightarrow> string \<Rightarrow> bool"

definition selector_matches :: "runtime \<Rightarrow> governance_scope \<Rightarrow> scope_key \<Rightarrow> string \<Rightarrow> bool" where
  "selector_matches rt g k p =
     (if k = Path then path_pattern_matches (rt_win_normalize rt) (scope_value g k) p
      else if k = Network then network_pattern_matches (rt_win_normalize rt) (rt_parse_url rt) (scope_value g k) p
      else scope_pattern_matches (scope_value g k) p)"

definition scope_keys :: "scope_key list" where
  "scope_keys = [OrganizationId, RunnerId, WorkspaceId, AgentId, ToolName, Path, Network, Branch]"

definition conditions_match :: "policy_conditions \<Rightarrow> approval_input \<Rightarrow> bool" where
  "conditions_match c i =
     (if pc_issue_labels c \<noteq> None then False
      else if (case pc_statuses c of None \<Rightarrow> False | Some ss \<Rightarrow> ss \<noteq> [] \<and> ai_status i \<notin> set ss) then False
      else if (case pc_min_cost c of None \<Rightarrow> False | Some m \<Rightarrow> ai_cost i < m) then False
      else if (case pc_max_cost c of None \<Rightarrow> False | Some m \<Rightarrow> ai_cost i > m) then False
      else if (case pc_min_calls c of None \<Rightarrow> False | Some m \<Rightarrow> ai_calls i < m) then False
      else if (case pc_max_calls c of None \<Rightarrow> False | Some m \<Rightarrow> ai_calls i > m) then False
      else if (case pc_escalated c of None \<Rightarrow> False | Some e \<Rightarrow> ai_escalated i \<noteq> e) then False
      else True)"

definition policy_matches :: "runtime \<Rightarrow> governance_policy \<Rightarrow> approval_input \<Rightarrow> bool" where
  "policy_matches rt p i \<longleftrightarrow>
     list_all (\<lambda>k. case map_of (gp_scope p) k of None \<Rightarrow> True
                   | Some pat \<Rightarrow> selector_matches rt (ai_scope i) k pat) scope_keys \<and>
     (case gp_conditions p of None \<Rightarrow> True | Some c \<Rightarrow> conditions_match c i)"

fun effect_order :: "policy_effect \<Rightarrow> int" where
  "effect_order Deny = 3"
| "effect_order Ask = 2"
| "effect_order Allow = 1"

definition policy_le :: "(string \<Rightarrow> string \<Rightarrow> bool) \<Rightarrow> governance_policy \<Rightarrow> governance_policy \<Rightarrow> bool" where
  "policy_le loc a b =
     (if gp_priority b \<noteq> gp_priority a then gp_priority b - gp_priority a \<le> 0
      else if effect_order (gp_effect b) \<noteq> effect_order (gp_effect a)
      then effect_order (gp_effect b) - effect_order (gp_effect a) \<le> 0
      else loc (gp_id a) (gp_id b))"

record approval_decision =
  ad_effect :: policy_effect
  ad_policy :: "governance_policy option"
  ad_matched :: "string list"

definition applicable :: "runtime \<Rightarrow> approval_input \<Rightarrow> governance_policy \<Rightarrow> bool" where
  "applicable rt i p \<longleftrightarrow> gp_question_rule p = None \<and> gp_enabled p \<and> policy_matches rt p i"

definition evaluate_approval_policies ::
    "runtime \<Rightarrow> approval_input \<Rightarrow> governance_policy list \<Rightarrow> approval_decision" where
  "evaluate_approval_policies rt i ps =
     (let matched = js_sort (policy_le (rt_locale_le rt)) (filter (applicable rt i) ps)
      in (case matched of
            [] \<Rightarrow> \<lparr>ad_effect = Ask, ad_policy = None, ad_matched = []\<rparr>
          | p # _ \<Rightarrow> \<lparr>ad_effect = gp_effect p, ad_policy = Some p, ad_matched = map gp_id matched\<rparr>))"

datatype hook_effect = Effect policy_effect | Defer

definition evaluate_hook_approval_policies ::
    "runtime \<Rightarrow> approval_input \<Rightarrow> governance_policy list \<Rightarrow> hook_effect \<times> approval_decision" where
  "evaluate_hook_approval_policies rt i ps =
     (let d = evaluate_approval_policies rt i ps
      in (if ad_policy d = None then Defer else Effect (ad_effect d), d))"

definition session_spawn_safety_policy :: "bool \<Rightarrow> int \<Rightarrow> bool \<Rightarrow> governance_policy" where
  "session_spawn_safety_policy individual_owner now orchestrator =
     \<lparr>gp_id = (if orchestrator then ''builtin:human-created-orchestrator-spawn-authorization''
               else ''builtin:session-spawn-human-gate''),
      gp_name = (if orchestrator then ''Authorize Human-Created Orchestrator Children''
                 else ''Review Agent-Created Sessions''),
      gp_effect = (if individual_owner \<or> orchestrator then Allow else Ask),
      gp_priority = -1000000, gp_enabled = True,
      gp_scope = [(ToolName, ''wollipog.create_session'')],
      gp_owner = None, gp_question_rule = None, gp_conditions = None, gp_ask_timeout = None,
      gp_builtin = True, gp_created_at = now, gp_updated_at = now\<rparr>"

text \<open>\<open>humanRequiredIssueLabel\<close>.\<close>

definition fold_label :: "string \<Rightarrow> string" where
  "fold_label l = to_lower (js_trim l)"

definition label_rule_applies :: "runtime \<Rightarrow> governance_scope \<Rightarrow> governance_policy \<Rightarrow> bool" where
  "label_rule_applies rt g p \<longleftrightarrow>
     gp_enabled p \<and> gp_effect p = Ask \<and> \<not> gp_builtin p \<and>
     (case gp_conditions p of None \<Rightarrow> False | Some c \<Rightarrow> pc_human_required c = Some True) \<and>
     list_all (\<lambda>k. case map_of (gp_scope p) k of None \<Rightarrow> True
                   | Some pat \<Rightarrow> scope_pattern_matches (scope_value g k) pat)
       [OrganizationId, RunnerId, WorkspaceId, AgentId]"

fun human_required_issue_label :: "runtime \<Rightarrow> governance_policy list \<Rightarrow> governance_scope \<Rightarrow> string list \<Rightarrow> string option" where
  "human_required_issue_label rt [] g ls = None"
| "human_required_issue_label rt (p # ps) g ls =
     (case (case gp_conditions p of None \<Rightarrow> None | Some c \<Rightarrow> pc_issue_labels c) of
        None \<Rightarrow> human_required_issue_label rt ps g ls
      | Some wanted \<Rightarrow>
          if \<not> label_rule_applies rt g p then human_required_issue_label rt ps g ls
          else (case find (\<lambda>l. fold_label l \<in> set (map fold_label wanted)) ls of
                  Some l \<Rightarrow> Some l
                | None \<Rightarrow> human_required_issue_label rt ps g ls))"

section \<open>Wildcard matching\<close>

lemma glob_match_Star:
  "glob_match (Star P # gs) s \<longleftrightarrow> (\<exists>a b. s = a @ b \<and> list_all P a \<and> glob_match gs b)"
proof (induction s)
  case (Cons d t)
  have "(\<exists>a b. d # t = a @ b \<and> list_all P a \<and> glob_match gs b) \<longleftrightarrow>
        glob_match gs (d # t) \<or> (P d \<and> (\<exists>a b. t = a @ b \<and> list_all P a \<and> glob_match gs b))" (is "?L \<longleftrightarrow> ?R")
  proof
    assume ?L
    then show ?R by (fastforce simp: Cons_eq_append_conv)
  next
    assume ?R
    then show ?L
    proof (elim disjE conjE exE)
      assume "glob_match gs (d # t)"
      then show ?L by (intro exI[of _ "[]"] exI[of _ "d # t"]) simp
    next
      fix a b assume "P d" "t = a @ b" "list_all P a" "glob_match gs b"
      then show ?L by (intro exI[of _ "d # a"] exI[of _ b]) simp
    qed
  qed
  with Cons show ?case by simp
qed simp

lemma glob_match_Lit:
  "glob_match (Lit c # gs) s \<longleftrightarrow> (\<exists>t. s = c # t \<and> glob_match gs t)"
  by (auto split: list.splits)

lemma glob_match_append:
  "glob_match (xs @ ys) s \<longleftrightarrow> (\<exists>a b. s = a @ b \<and> glob_match xs a \<and> glob_match ys b)"
proof (induction xs arbitrary: s)
  case (Cons x xs)
  show ?case
  proof (cases x)
    case (Lit c)
    then show ?thesis unfolding Lit append_Cons glob_match_Lit Cons.IH by (metis append_Cons)
  next
    case (Star P)
    then show ?thesis unfolding Star append_Cons glob_match_Star Cons.IH by (metis append.assoc)
  qed
qed simp

fun token_avoids :: "char \<Rightarrow> glob \<Rightarrow> bool" where
  "token_avoids c (Lit d) \<longleftrightarrow> d \<noteq> c"
| "token_avoids c (Star P) \<longleftrightarrow> \<not> P c"

lemma glob_match_avoids: "list_all (token_avoids c) gs \<Longrightarrow> glob_match gs s \<Longrightarrow> c \<notin> set s"
proof (induction gs arbitrary: s)
  case (Cons g gs)
  then show ?case
    by (cases g) (auto simp: glob_match_Star glob_match_Lit list_all_iff simp del: glob_match.simps)
qed simp

text \<open>A pattern with no double star and no placeholder is matched character by character.\<close>

definition plain_pattern :: "string \<Rightarrow> bool" where
  "plain_pattern p \<longleftrightarrow> \<not> str_includes p ''**'' \<and> CHR 0x00 \<notin> set p"

lemma wildcard_tokens_plain:
  "plain_pattern p \<Longrightarrow> wildcard_tokens cls p = map (\<lambda>c. if c = CHR ''*'' then Star cls else Lit c) p"
proof (induction cls p rule: wildcard_tokens.induct)
  case (3 cls c d s)
  then have "plain_pattern (d # s)" "\<not> (c = CHR ''*'' \<and> d = CHR ''*'')" "c \<noteq> CHR 0x00"
    by (auto simp: plain_pattern_def)
  with 3 show ?case by simp
qed (auto simp: plain_pattern_def)

lemma plain_pattern_append:
  "plain_pattern (a @ b) \<Longrightarrow> plain_pattern a \<and> plain_pattern b"
  unfolding plain_pattern_def includes_sublist by (auto simp: sublist_append)

lemma plain_pattern_Cons: "plain_pattern (c # p) \<Longrightarrow> plain_pattern p"
  using plain_pattern_append[of "[c]" p] by simp

lemma split_on_slash:
  assumes "c \<notin> set a"
  shows "split_on c (a @ c # b) = a # split_on c b"
  using assms by (simp add: split_on_append split_on_none)

lemma split_on_ConsD:
  "split_on c s = a # r \<Longrightarrow> r \<noteq> [] \<Longrightarrow> \<exists>b. s = a @ c # b \<and> split_on c b = r"
proof (induction s arbitrary: a)
  case (Cons x xs)
  show ?case
  proof (cases "x = c")
    case True
    with Cons.prems show ?thesis by auto
  next
    case False
    obtain w ws where w: "split_on c xs = w # ws" by (cases "split_on c xs") auto
    with Cons.prems False have "a = x # w" "ws = r" by auto
    moreover obtain b where "xs = w @ c # b" "split_on c b = r"
      using Cons.IH w Cons.prems(2) \<open>ws = r\<close> by blast
    ultimately show ?thesis by auto
  qed
qed simp

lemma wildcard_segments:
  "plain_pattern p \<Longrightarrow>
   wildcard_match segment_char p s \<longleftrightarrow>
     list_all2 (wildcard_match segment_char) (split_on (CHR ''/'') p) (split_on (CHR ''/'') s)"
proof (induction "length p" arbitrary: p s rule: less_induct)
  case less
  have avoid: "list_all (token_avoids (CHR ''/'')) (wildcard_tokens segment_char w)"
    if "plain_pattern w" "CHR ''/'' \<notin> set w" for w
    using that by (auto simp: wildcard_tokens_plain list_all_iff segment_char_def)
  show ?case
  proof (cases "CHR ''/'' \<in> set p")
    case False
    then have "split_on (CHR ''/'') p = [p]" by (rule split_on_none)
    moreover have "CHR ''/'' \<notin> set s" if "wildcard_match segment_char p s"
      using that glob_match_avoids[OF avoid[OF less.prems False]] by (simp add: wildcard_match_def)
    moreover have "split_on (CHR ''/'') s = [t] \<Longrightarrow> s = t" for t
      using split_on_piece[of _ "CHR ''/''" s] length_split_on[of "CHR ''/''" s] split_on_none[of "CHR ''/''" s]
      by (auto simp: count_list_0_iff)
    ultimately show ?thesis
      by (auto simp: list_all2_Cons1 split_on_none)
  next
    case True
    then obtain w q where p: "p = w @ CHR ''/'' # q" and w: "CHR ''/'' \<notin> set w"
      by (meson split_list_first)
    have plain: "plain_pattern w" "plain_pattern q"
      using less.prems plain_pattern_append plain_pattern_Cons unfolding p by blast+
    have toks: "wildcard_tokens segment_char p =
        wildcard_tokens segment_char w @ Lit (CHR ''/'') # wildcard_tokens segment_char q"
      using less.prems plain by (simp add: wildcard_tokens_plain) (simp add: p)
    have IH: "wildcard_match segment_char q b \<longleftrightarrow>
        list_all2 (wildcard_match segment_char) (split_on (CHR ''/'') q) (split_on (CHR ''/'') b)" for b
      by (rule less.hyps) (auto simp: p plain)
    have "wildcard_match segment_char p s \<longleftrightarrow>
        (\<exists>a b. s = a @ CHR ''/'' # b \<and> wildcard_match segment_char w a \<and> wildcard_match segment_char q b)"
      unfolding wildcard_match_def toks glob_match_append glob_match_Lit by blast
    also have "\<dots> \<longleftrightarrow> (\<exists>a b. s = a @ CHR ''/'' # b \<and> CHR ''/'' \<notin> set a \<and>
        wildcard_match segment_char w a \<and> wildcard_match segment_char q b)"
      using glob_match_avoids[OF avoid[OF plain(1) w]] unfolding wildcard_match_def by blast
    also have "\<dots> \<longleftrightarrow> (\<exists>a r. split_on (CHR ''/'') s = a # r \<and> wildcard_match segment_char w a \<and>
        list_all2 (wildcard_match segment_char) (split_on (CHR ''/'') q) r)" (is "?L \<longleftrightarrow> ?R")
    proof
      assume ?L
      then show ?R unfolding IH using split_on_slash by metis
    next
      assume ?R
      then obtain a r where ar: "split_on (CHR ''/'') s = a # r" "wildcard_match segment_char w a"
        "list_all2 (wildcard_match segment_char) (split_on (CHR ''/'') q) r" by blast
      then have "r \<noteq> []" by (cases r) (auto simp: list_all2_Nil2)
      with ar(1) obtain b where "s = a @ CHR ''/'' # b" "split_on (CHR ''/'') b = r"
        using split_on_ConsD by metis
      moreover have "CHR ''/'' \<notin> set a" using ar(1) split_on_piece[of a "CHR ''/''" s] by simp
      ultimately show ?L using ar IH by auto
    qed
    finally show ?thesis
      by (auto simp: p split_on_slash[OF w] list_all2_Cons1)
  qed
qed

text \<open>
  A path selector is segment-aware. Where a selector has no double star, it matches a path
  exactly if the segments of their normal forms correspond one to one, each matching its own: a
  single star never reaches past a separator, so a selector of one directory says nothing of the
  directories under it.
\<close>

theorem path_selectors_are_segmentwise:
  assumes "normalized_path win x = Some nv" "normalized_path win p = Some np" "plain_pattern np"
  shows "path_pattern_matches win (Some x) p \<longleftrightarrow>
           nv \<noteq> [] \<and> np \<noteq> [] \<and>
           list_all2 (wildcard_match segment_char) (split_on (CHR ''/'') np) (split_on (CHR ''/'') nv)"
  using assms wildcard_segments[OF assms(3)] by (simp add: path_pattern_matches_def)

text \<open>\<open>/repo/src/*\<close> holds of a file of the directory, written with a dot segment, and of none below it.\<close>

theorem path_selectors_are_segmentwise_witness:
  "path_pattern_matches (\<lambda>s. s) (Some ''/repo/./src/a'') ''/repo/src/*'' \<and>
   \<not> path_pattern_matches (\<lambda>s. s) (Some ''/repo/src/a/b'') ''/repo/src/*''"
proof
  have np: "normalized_path (\<lambda>s. s) ''/repo/src/*'' = Some ''/repo/src/*''" "plain_pattern ''/repo/src/*''"
    by code_simp+
  show "path_pattern_matches (\<lambda>s. s) (Some ''/repo/./src/a'') ''/repo/src/*''"
    by (subst path_selectors_are_segmentwise[of _ _ "''/repo/src/a''", OF _ np]) code_simp+
  show "\<not> path_pattern_matches (\<lambda>s. s) (Some ''/repo/src/a/b'') ''/repo/src/*''"
    by (subst path_selectors_are_segmentwise[of _ _ "''/repo/src/a/b''", OF _ np]) code_simp+
qed

section \<open>The deciding policy\<close>

lemma effect_order_inject [simp]: "effect_order a = effect_order b \<longleftrightarrow> a = b"
  by (cases a; cases b) auto

lemma policy_le_iff:
  "policy_le loc a b \<longleftrightarrow>
     gp_priority b < gp_priority a \<or>
     gp_priority b = gp_priority a \<and>
       (effect_order (gp_effect b) < effect_order (gp_effect a) \<or>
        gp_effect b = gp_effect a \<and> loc (gp_id a) (gp_id b))"
  by (cases "gp_effect a"; cases "gp_effect b"; auto simp: policy_le_def)

text \<open>The order of the policies is a comparator wherever \<open>localeCompare\<close> is one.\<close>

lemma policy_le_comparator: "comparator loc \<Longrightarrow> comparator (policy_le loc)"
proof unfold_locales
  fix x y z
  assume c: "comparator loc"
  show "policy_le loc x y \<or> policy_le loc y x"
    using comparator.le_total[OF c, of "gp_id x" "gp_id y"]
    by (cases "gp_effect x"; cases "gp_effect y"; auto simp: policy_le_iff)
  assume "policy_le loc x y" "policy_le loc y z"
  then show "policy_le loc x z"
    using comparator.le_trans[OF c, of "gp_id x" "gp_id y" "gp_id z"] unfolding policy_le_iff by auto
qed

interpretation by_text: comparator "policy_le ((\<le>) :: string \<Rightarrow> string \<Rightarrow> bool)"
  by (rule policy_le_comparator) unfold_locales

text \<open>
  The effect, said of the set of applicable policies alone: among those of the highest priority a
  denial wins over a question, and a question over a grant; where none applies, ask.
\<close>

definition strongest_effect :: "governance_policy list \<Rightarrow> policy_effect" where
  "strongest_effect ps =
     (let top = filter (\<lambda>p. list_all (\<lambda>q. gp_priority q \<le> gp_priority p) ps) ps
      in if ps = [] \<or> list_ex (\<lambda>p. gp_effect p = Ask) top \<and> \<not> list_ex (\<lambda>p. gp_effect p = Deny) top then Ask
         else if list_ex (\<lambda>p. gp_effect p = Deny) top then Deny else Allow)"

lemma hd_policy_strongest:
  assumes "comparator loc" "ps \<noteq> []"
  shows "gp_effect (hd (js_sort (policy_le loc) ps)) = strongest_effect ps"
proof -
  let ?p = "hd (js_sort (policy_le loc) ps)"
  have mem: "?p \<in> set ps"
    using assms(2) by (metis js_sort_eq_Nil list.set_sel(1) set_js_sort)
  have "policy_le loc ?p q" if "q \<in> set ps" for q
    using comparator.hd_js_sort_least[OF policy_le_comparator[OF assms(1)] that] .
  then have prio: "gp_priority q \<le> gp_priority ?p"
    and eff: "gp_priority q = gp_priority ?p \<Longrightarrow> effect_order (gp_effect q) \<le> effect_order (gp_effect ?p)"
    if "q \<in> set ps" for q
    using that unfolding policy_le_iff by fastforce+
  let ?top = "filter (\<lambda>p. list_all (\<lambda>q. gp_priority q \<le> gp_priority p) ps) ps"
  have top: "q \<in> set ?top \<longleftrightarrow> q \<in> set ps \<and> gp_priority q = gp_priority ?p" for q
    using prio mem by (auto simp: list_all_iff intro: antisym)
  have ex: "list_ex (\<lambda>p. gp_effect p = e) ?top \<longleftrightarrow> (\<exists>q\<in>set ps. gp_priority q = gp_priority ?p \<and> gp_effect q = e)" for e
    unfolding list_ex_iff using top by auto
  have le: "effect_order e \<le> effect_order (gp_effect ?p)" if "list_ex (\<lambda>p. gp_effect p = e) ?top" for e
    using that eff unfolding ex by auto
  have own: "list_ex (\<lambda>p. gp_effect p = gp_effect ?p) ?top"
    using mem unfolding ex by auto
  show ?thesis
    using le[of Ask] le[of Deny] own assms(2) unfolding strongest_effect_def Let_def
    by (cases "gp_effect ?p") (auto split: if_splits)
qed

lemma strongest_effect_perm: "mset ps = mset qs \<Longrightarrow> strongest_effect ps = strongest_effect qs"
proof -
  assume m: "mset ps = mset qs"
  then have s: "set ps = set qs" by (rule mset_eq_setD)
  have e: "ps = [] \<longleftrightarrow> qs = []" using m by auto
  show ?thesis
    unfolding strongest_effect_def Let_def list_ex_iff list_all_iff set_filter s e ..
qed

lemma strongest_effect_Nil [simp]: "strongest_effect [] = Ask"
  by (simp add: strongest_effect_def)

lemma evaluate_approval_effect:
  assumes "comparator (rt_locale_le rt)"
  shows "ad_effect (evaluate_approval_policies rt i ps) = strongest_effect (filter (applicable rt i) ps)"
proof (cases "filter (applicable rt i) ps = []")
  case False
  let ?m = "js_sort (policy_le (rt_locale_le rt)) (filter (applicable rt i) ps)"
  obtain p qs where m: "?m = p # qs"
    using False by (cases ?m) auto
  then show ?thesis
    using hd_policy_strongest[OF assms False] by (simp add: evaluate_approval_policies_def)
qed (simp add: evaluate_approval_policies_def)

lemma evaluate_approval_none:
  "ad_policy (evaluate_approval_policies rt i ps) = None \<longleftrightarrow> filter (applicable rt i) ps = []"
  by (cases "js_sort (policy_le (rt_locale_le rt)) (filter (applicable rt i) ps)")
    (use js_sort_eq_Nil[of "policy_le (rt_locale_le rt)" "filter (applicable rt i) ps"]
      in \<open>simp_all add: evaluate_approval_policies_def\<close>)

text \<open>
  C26: The decision of the stored policies is the strongest applicable effect: of the enabled policies
  without a question rule that match the request, those of the highest priority decide, a denial
  before a question before a grant, and a request no policy matches is asked about. So the order the
  policies are stored in and the way identifiers compare never change the effect, and a hook request
  is deferred to the provider exactly when no policy matches.
\<close>

theorem strongest_policy_decides:
  assumes "comparator (rt_locale_le rt)"
  shows "ad_effect (evaluate_approval_policies rt i ps) = strongest_effect (filter (applicable rt i) ps) \<and>
         (mset qs = mset ps \<longrightarrow>
            ad_effect (evaluate_approval_policies rt i qs) = ad_effect (evaluate_approval_policies rt i ps)) \<and>
         fst (evaluate_hook_approval_policies rt i ps) =
           (if filter (applicable rt i) ps = [] then Defer
            else Effect (strongest_effect (filter (applicable rt i) ps)))"
proof (intro conjI impI)
  show eff: "ad_effect (evaluate_approval_policies rt i ps) = strongest_effect (filter (applicable rt i) ps)" for ps
    by (rule evaluate_approval_effect[OF assms])
  show "fst (evaluate_hook_approval_policies rt i ps) =
      (if filter (applicable rt i) ps = [] then Defer else Effect (strongest_effect (filter (applicable rt i) ps)))"
    using evaluate_approval_none[of rt i ps] eff[of ps] by (simp add: evaluate_hook_approval_policies_def Let_def)
  assume "mset qs = mset ps"
  then show "ad_effect (evaluate_approval_policies rt i qs) = ad_effect (evaluate_approval_policies rt i ps)"
    unfolding eff by (intro strongest_effect_perm) simp
qed

definition sample_runtime :: runtime where
  "sample_runtime = \<lparr>rt_win_normalize = (\<lambda>s. s), rt_parse_url = (\<lambda>s. None), rt_locale_le = (\<le>)\<rparr>"

definition sample_policy :: "string \<Rightarrow> policy_effect \<Rightarrow> int \<Rightarrow> policy_scope \<Rightarrow> governance_policy" where
  "sample_policy i e pr sc =
     \<lparr>gp_id = i, gp_name = i, gp_effect = e, gp_priority = pr, gp_enabled = True, gp_scope = sc,
      gp_owner = None, gp_question_rule = None, gp_conditions = None, gp_ask_timeout = None,
      gp_builtin = False, gp_created_at = 0, gp_updated_at = 0\<rparr>"

definition sample_input :: approval_input where
  "sample_input =
     \<lparr>ai_scope = \<lparr>gs_session_id = ''s'', gs_runner_id = ''r'', gs_organization_id = None, gs_workspace_id = None,
        gs_agent_id = None, gs_tool_name = Some ''Bash'', gs_path = None, gs_network = None, gs_branch = None\<rparr>,
      ai_status = SRunning, ai_cost = 0, ai_calls = 0, ai_escalated = False\<rparr>"

text \<open>A grant of higher priority beats a denial; at the same priority the denial wins.\<close>

theorem strongest_policy_decides_witness:
  "ad_effect (evaluate_approval_policies sample_runtime sample_input
      [sample_policy ''a'' Deny 1 [(ToolName, ''B*'')], sample_policy ''b'' Allow 2 [(ToolName, ''Bash'')]]) = Allow \<and>
   ad_effect (evaluate_approval_policies sample_runtime sample_input
      [sample_policy ''b'' Allow 2 [(ToolName, ''Bash'')], sample_policy ''a'' Deny 2 [(ToolName, ''B*'')]]) = Deny"
proof -
  have c: "comparator (rt_locale_le sample_runtime)"
    unfolding sample_runtime_def by simp unfold_locales
  show ?thesis
    unfolding strongest_policy_decides[OF c, THEN conjunct1] by code_simp
qed

end
