(* ===== verification/Policy_Validation.thy ===== *)
theory Policy_Validation
  imports Policy_Matching
begin

text \<open>
  The validators of \<open>apps/control-plane/src/policy-engine.ts\<close>: the request a provider's hook sends, and
  a governance policy before it is stored. Both read a parsed JSON value.

  A validator is the list of its checks in the order of the code, each with its error; the first one
  that fails is the answer (\<open>first_error\<close>).
\<close>

text \<open>\<open>typeof v !== "string" || !v || v.length > n\<close>.\<close>

definition not_bounded_string :: "nat \<Rightarrow> json option \<Rightarrow> bool" where
  "not_bounded_string n v \<longleftrightarrow> (case as_string v of None \<Rightarrow> True | Some s \<Rightarrow> s = [] \<or> length s > n)"

section \<open>Hook requests\<close>

datatype hook_error =
    HookNotAnObject
  | HookUnsupportedFields
  | HookUnsupportedEvent
  | HookBadProviderSession
  | HookBadField string
  | HookBadRecovery
  | HookContextNotAnObject
  | HookContextFields
  | HookContextInvalid string

record hook_request =
  hr_event_name :: "json option"
  hr_provider_session :: string
  hr_permission_mode :: "string option"
  hr_tool_use_id :: "string option"
  hr_approval_request :: "string option"
  hr_context :: "(string \<times> string) list option"
  hr_recovered_from :: "int option"

definition hook_keys :: "string list" where
  "hook_keys = [''hookEventName'', ''providerSessionId'', ''permissionMode'', ''toolUseId'', ''context'',
     ''transportRecoveredFrom'', ''approvalRequestId'']"

definition hook_context_keys :: "string list" where
  "hook_context_keys = [''toolName'', ''path'', ''network'', ''branch'']"

definition hook_checks :: "(rat \<Rightarrow> string) \<Rightarrow> jobject \<Rightarrow> (bool \<times> hook_error) list" where
  "hook_checks num raw =
     [(extra_keys raw hook_keys, HookUnsupportedFields),
      (js_string_opt num (jget raw ''hookEventName'') \<notin> set [''PreToolUse'', ''PostToolUse'', ''UserPromptSubmit''],
         HookUnsupportedEvent),
      (not_bounded_string 256 (jget raw ''providerSessionId''), HookBadProviderSession)] @
     map (\<lambda>(k, limit). (jget raw k \<noteq> None \<and> not_bounded_string limit (jget raw k), HookBadField k))
       [(''permissionMode'', 64), (''toolUseId'', 512), (''approvalRequestId'', 128)] @
     [(jget raw ''transportRecoveredFrom'' \<noteq> None \<and>
         (case as_safe_integer (jget raw ''transportRecoveredFrom'') of None \<Rightarrow> True | Some n \<Rightarrow> n < 0),
         HookBadRecovery)] @
     (if jget raw ''context'' = None then []
      else case as_object (jget raw ''context'') of
        None \<Rightarrow> [(True, HookContextNotAnObject)]
      | Some src \<Rightarrow>
          (extra_keys src hook_context_keys, HookContextFields) #
          map (\<lambda>k. (jget src k \<noteq> None \<and>
                     (not_bounded_string 4096 (jget src k) \<or>
                      (case as_string (jget src k) of None \<Rightarrow> False | Some s \<Rightarrow> CHR 0x00 \<in> set s)),
                    HookContextInvalid k)) hook_context_keys)"

definition hook_context :: "jobject \<Rightarrow> (string \<times> string) list" where
  "hook_context src = List.map_filter (\<lambda>k. map_option (Pair k) (as_string (jget src k))) hook_context_keys"

definition parse_policy_hook_request :: "(rat \<Rightarrow> string) \<Rightarrow> json \<Rightarrow> hook_error + hook_request" where
  "parse_policy_hook_request num input =
     (case as_object (Some input) of
        None \<Rightarrow> Inl HookNotAnObject
      | Some raw \<Rightarrow>
          (case first_error (hook_checks num raw) of
             Some e \<Rightarrow> Inl e
           | None \<Rightarrow> Inr
               \<lparr>hr_event_name = jget raw ''hookEventName'',
                hr_provider_session = the (as_string (jget raw ''providerSessionId'')),
                hr_permission_mode = as_string (jget raw ''permissionMode''),
                hr_tool_use_id = as_string (jget raw ''toolUseId''),
                hr_approval_request = as_string (jget raw ''approvalRequestId''),
                hr_context = map_option hook_context (as_object (jget raw ''context'')),
                hr_recovered_from = as_safe_integer (jget raw ''transportRecoveredFrom'')\<rparr>))"

section \<open>Stored policies\<close>

datatype policy_error =
    PolicyNotAnObject
  | PolicyUnsupportedFields
  | BadPolicyId
  | BadName
  | ReservedStarterId
  | BadEffect
  | BadPriority
  | BadEnabled
  | BadAskTimeout
  | AskTimeoutNeedsAsk
  | ScopeNotAnObject
  | ScopeUnsupportedFields
  | BadScope
  | AllowTooBroad
  | BadPathSelector
  | BadNetworkSelector
  | InvalidQuestionRule
  | InvalidStarterCategory
  | QuestionRuleNeedsAllow
  | QuestionRuleNeedsOwner
  | QuestionRuleNeedsPattern
  | BadQuestionPattern
  | UnsupportedQuestionScope
  | BadQuestionAnswer
  | OwnerNeedsQuestionRule
  | ConditionsNotAnObject
  | ConditionsUnsupportedFields
  | BadStatuses
  | BadNumericCondition
  | CallConditionNotInteger
  | CostRangeEmpty
  | CallRangeEmpty
  | BadEscalated
  | BadHumanRequired
  | BadIssueLabels
  | IssueLabelsNeedHuman
  | IssueLabelsTooNarrow
  | AllowOnEscalation

definition policy_keys :: "string list" where
  "policy_keys = [''policyId'', ''name'', ''effect'', ''priority'', ''enabled'', ''scope'', ''conditions'',
     ''askTimeout'', ''ownerUserId'', ''questionRule'']"

definition selector_keys :: "string list" where
  "selector_keys = [''organizationId'', ''runnerId'', ''workspaceId'', ''agentId'', ''toolName'', ''path'',
     ''network'', ''branch'']"

definition place_keys :: "string list" where
  "place_keys = [''organizationId'', ''runnerId'', ''workspaceId'', ''agentId'']"

definition policy_id_char :: "char \<Rightarrow> bool" where
  "policy_id_char c \<longleftrightarrow> is_alnum c \<or> c \<in> set ''._:-''"

text \<open>\<open>/^questions:(review|push|evidence):/\<close>: the category.\<close>

definition starter_categories :: "string list" where
  "starter_categories = [''review'', ''push'', ''evidence'']"

definition starter_id :: "string \<Rightarrow> string option" where
  "starter_id i = find (\<lambda>cat. starts_with i (''questions:'' @ cat @ '':'')) starter_categories"

definition win_absolute :: "string \<Rightarrow> bool" where
  "win_absolute p \<longleftrightarrow>
     (case p of [] \<Rightarrow> False
      | a # r \<Rightarrow> a = CHR ''/'' \<or> a = CHR 0x5C \<or>
          ((is_lower a \<or> is_upper a) \<and>
           (case r of b # c # _ \<Rightarrow> b = CHR '':'' \<and> (c = CHR ''/'' \<or> c = CHR 0x5C) | _ \<Rightarrow> False)))"

definition bad_path_selector :: "string \<Rightarrow> bool" where
  "bad_path_selector p \<longleftrightarrow>
     (\<not> starts_with p ''/'' \<and> \<not> win_absolute p) \<or> ''..'' \<in> set (split_on (CHR ''/'') (forward_slashes p))"

definition bad_network_selector :: "string \<Rightarrow> bool" where
  "bad_network_selector n \<longleftrightarrow>
     list_ex (\<lambda>c. c = CHR ''?'' \<or> c = CHR 0x40 \<or> c = CHR ''#'' \<or> is_space c) n \<or>
     (\<not> str_includes n ''://'' \<and> CHR ''/'' \<in> set n)"

definition bad_question_pattern :: "json option \<Rightarrow> bool" where
  "bad_question_pattern v \<longleftrightarrow>
     v \<noteq> None \<and>
     (case as_string v of None \<Rightarrow> True
      | Some p \<Rightarrow> filter (\<lambda>c. c \<noteq> CHR ''*'') (js_trim p) = [] \<or> length p > 512 \<or>
          length (split_on (CHR ''*'') p) > 9)"

definition bad_question_answer :: "json option \<Rightarrow> bool" where
  "bad_question_answer v \<longleftrightarrow>
     (case as_object v of None \<Rightarrow> True
      | Some a \<Rightarrow> length a \<noteq> 1 \<or> extra_keys a [''option'', ''text''] \<or>
          \<not> list_all (\<lambda>x. case as_string (Some x) of None \<Rightarrow> False | Some s \<Rightarrow> 0 < length s \<and> length s \<le> 4096) (map snd a))"

definition question_checks :: "jobject \<Rightarrow> jobject \<Rightarrow> (bool \<times> policy_error) list" where
  "question_checks p sc =
     (case as_object (jget p ''questionRule'') of
        None \<Rightarrow> [(True, InvalidQuestionRule)]
      | Some rule \<Rightarrow>
          [(extra_keys rule [''headerPattern'', ''questionPattern'', ''answer'', ''starterCategory''], InvalidQuestionRule),
           (jget rule ''starterCategory'' \<noteq> None \<and>
              (case as_string (jget rule ''starterCategory'') of None \<Rightarrow> True | Some c \<Rightarrow> c \<notin> set starter_categories),
              InvalidStarterCategory),
           (jget p ''effect'' \<noteq> Some (JStr ''allow'') \<or> jget p ''askTimeout'' \<noteq> None \<or> jget p ''conditions'' \<noteq> None,
              QuestionRuleNeedsAllow),
           (not_bounded_string 128 (jget p ''ownerUserId''), QuestionRuleNeedsOwner),
           (falsy (jget rule ''headerPattern'') \<and> falsy (jget rule ''questionPattern''), QuestionRuleNeedsPattern),
           (bad_question_pattern (jget rule ''headerPattern''), BadQuestionPattern),
           (bad_question_pattern (jget rule ''questionPattern''), BadQuestionPattern),
           (extra_keys sc place_keys, UnsupportedQuestionScope),
           (bad_question_answer (jget rule ''answer''), BadQuestionAnswer)])"

definition status_names :: "string list" where
  "status_names = [''queued'', ''starting'', ''running'', ''input_required'', ''idle'', ''completed'', ''failed'', ''stopped'']"

definition as_number :: "json option \<Rightarrow> rat option" where
  "as_number v = (case v of Some (JNum q) \<Rightarrow> Some q | _ \<Rightarrow> None)"

definition bad_number :: "json option \<Rightarrow> bool" where
  "bad_number v \<longleftrightarrow> v \<noteq> None \<and> (case as_number v of None \<Rightarrow> True | Some q \<Rightarrow> q < 0)"

definition range_empty :: "json option \<Rightarrow> json option \<Rightarrow> bool" where
  "range_empty lo hi \<longleftrightarrow> (case (as_number lo, as_number hi) of (Some a, Some b) \<Rightarrow> a > b | _ \<Rightarrow> False)"

definition bad_labels :: "json option \<Rightarrow> bool" where
  "bad_labels v \<longleftrightarrow>
     (case as_array v of None \<Rightarrow> True
      | Some ls \<Rightarrow> ls = [] \<or> length ls > 20 \<or>
          list_ex (\<lambda>l. case as_string (Some l) of None \<Rightarrow> True | Some s \<Rightarrow> js_trim s = [] \<or> length s > 100) ls)"

definition condition_checks :: "jobject \<Rightarrow> jobject \<Rightarrow> jobject \<Rightarrow> (bool \<times> policy_error) list" where
  "condition_checks p sc c =
     [(extra_keys c [''statuses'', ''minCostUsd'', ''maxCostUsd'', ''minToolCalls'', ''maxToolCalls'', ''escalated'',
         ''humanRequired'', ''issueLabels''], ConditionsUnsupportedFields),
      (jget c ''statuses'' \<noteq> None \<and>
         (case as_array (jget c ''statuses'') of None \<Rightarrow> True
          | Some xs \<Rightarrow> xs = [] \<or> list_ex (\<lambda>x. x \<notin> JStr ` set status_names) xs), BadStatuses),
      (list_ex (\<lambda>k. bad_number (jget c k)) [''minCostUsd'', ''maxCostUsd'', ''minToolCalls'', ''maxToolCalls''],
         BadNumericCondition),
      (jget c ''minToolCalls'' \<noteq> None \<and> as_integer (jget c ''minToolCalls'') = None, CallConditionNotInteger),
      (jget c ''maxToolCalls'' \<noteq> None \<and> as_integer (jget c ''maxToolCalls'') = None, CallConditionNotInteger),
      (range_empty (jget c ''minCostUsd'') (jget c ''maxCostUsd''), CostRangeEmpty),
      (range_empty (jget c ''minToolCalls'') (jget c ''maxToolCalls''), CallRangeEmpty),
      (jget c ''escalated'' \<noteq> None \<and> as_bool (jget c ''escalated'') = None, BadEscalated),
      (jget c ''humanRequired'' \<noteq> None \<and>
         (as_bool (jget c ''humanRequired'') = None \<or> jget p ''effect'' \<noteq> Some (JStr ''ask'')), BadHumanRequired)] @
     (if jget c ''issueLabels'' = None then []
      else
        [(bad_labels (jget c ''issueLabels''), BadIssueLabels),
         (jget c ''humanRequired'' \<noteq> Some (JBool True), IssueLabelsNeedHuman),
         (extra_keys c [''issueLabels'', ''humanRequired''] \<or> extra_keys sc place_keys, IssueLabelsTooNarrow)]) @
     [(jget p ''effect'' = Some (JStr ''allow'') \<and> jget c ''escalated'' \<noteq> None, AllowOnEscalation)]"

definition policy_checks :: "(rat \<Rightarrow> string) \<Rightarrow> jobject \<Rightarrow> jobject \<Rightarrow> (bool \<times> policy_error) list" where
  "policy_checks num p sc =
     [(extra_keys p policy_keys, PolicyUnsupportedFields),
      (case as_string (jget p ''policyId'') of None \<Rightarrow> True
       | Some i \<Rightarrow> \<not> ident_like is_alnum policy_id_char 127 i \<or> starts_with i ''builtin:'', BadPolicyId),
      (case as_string (jget p ''name'') of None \<Rightarrow> True | Some n \<Rightarrow> js_trim n = [] \<or> length n > 160, BadName),
      (case starter_id (the (as_string (jget p ''policyId''))) of None \<Rightarrow> False
       | Some cat \<Rightarrow> jprop (jget p ''questionRule'') ''starterCategory'' \<noteq> Some (JStr cat) \<or>
           the (as_string (jget p ''policyId'')) \<noteq>
             ''questions:'' @ cat @ '':'' @ js_string_opt num (jget p ''ownerUserId''), ReservedStarterId),
      (jget p ''effect'' \<notin> (Some \<circ> JStr) ` set [''allow'', ''deny'', ''ask''], BadEffect),
      (case as_integer (jget p ''priority'') of None \<Rightarrow> True | Some n \<Rightarrow> n < - 100000 \<or> n > 100000, BadPriority),
      (as_bool (jget p ''enabled'') = None, BadEnabled),
      (jget p ''askTimeout'' \<noteq> None \<and>
         (case as_safe_integer (jget p ''askTimeout'') of None \<Rightarrow> True | Some n \<Rightarrow> n < 1 \<or> n > 2000000), BadAskTimeout),
      (jget p ''effect'' \<noteq> Some (JStr ''ask'') \<and> jget p ''askTimeout'' \<noteq> None, AskTimeoutNeedsAsk),
      (as_object (jget p ''scope'') = None, ScopeNotAnObject),
      (extra_keys sc selector_keys, ScopeUnsupportedFields),
      ((sc = [] \<and> falsy (jget p ''questionRule'')) \<or> list_ex (\<lambda>v. not_bounded_string 1024 (Some v)) (map snd sc), BadScope),
      (falsy (jget p ''questionRule'') \<and> jget p ''effect'' = Some (JStr ''allow'') \<and>
         list_all (\<lambda>k. jget sc k = None) (filter (\<lambda>k. k \<noteq> ''organizationId'') selector_keys), AllowTooBroad),
      (case as_string (jget sc ''path'') of None \<Rightarrow> False | Some q \<Rightarrow> q \<noteq> [] \<and> bad_path_selector q, BadPathSelector),
      (case as_string (jget sc ''network'') of None \<Rightarrow> False
       | Some n \<Rightarrow> n \<noteq> [] \<and> n \<noteq> ''requested'' \<and> bad_network_selector n, BadNetworkSelector)] @
     (if jget p ''questionRule'' \<noteq> None then question_checks p sc
      else [(jget p ''ownerUserId'' \<noteq> None, OwnerNeedsQuestionRule)]) @
     (if falsy (jget p ''conditions'') then []
      else case as_object (jget p ''conditions'') of
        None \<Rightarrow> [(True, ConditionsNotAnObject)]
      | Some c \<Rightarrow> condition_checks p sc c)"

definition validate_governance_policy :: "(rat \<Rightarrow> string) \<Rightarrow> json \<Rightarrow> policy_error option" where
  "validate_governance_policy num v =
     (case as_object (Some v) of
        None \<Rightarrow> Some PolicyNotAnObject
      | Some p \<Rightarrow>
          first_error (policy_checks num p (case as_object (jget p ''scope'') of None \<Rightarrow> [] | Some sc \<Rightarrow> sc)))"

section \<open>What an accepted request looks like\<close>

definition bounded_text :: "nat \<Rightarrow> string \<Rightarrow> bool" where
  "bounded_text n s \<longleftrightarrow> s \<noteq> [] \<and> length s \<le> n"

lemma not_bounded_string_iff:
  "\<not> not_bounded_string n v \<longleftrightarrow> (\<exists>s. v = Some (JStr s) \<and> bounded_text n s)"
  by (cases v rule: as_string.cases) (auto simp: not_bounded_string_def bounded_text_def)

definition hook_request_ok :: "hook_request \<Rightarrow> bool" where
  "hook_request_ok r \<longleftrightarrow>
     bounded_text 256 (hr_provider_session r) \<and>
     pred_option (bounded_text 64) (hr_permission_mode r) \<and>
     pred_option (bounded_text 512) (hr_tool_use_id r) \<and>
     pred_option (bounded_text 128) (hr_approval_request r) \<and>
     pred_option (\<lambda>ctx. distinct (map fst ctx) \<and>
        list_all (\<lambda>(k, s). k \<in> set hook_context_keys \<and> bounded_text 4096 s \<and> CHR 0x00 \<notin> set s) ctx) (hr_context r) \<and>
     pred_option (\<lambda>n. 0 \<le> n \<and> n \<le> max_safe_integer) (hr_recovered_from r)"

lemma hook_context_ok:
  assumes "\<And>k s. k \<in> set hook_context_keys \<Longrightarrow> jget src k = Some (JStr s) \<Longrightarrow> bounded_text 4096 s \<and> CHR 0x00 \<notin> set s"
  shows "distinct (map fst (hook_context src)) \<and>
    list_all (\<lambda>(k, s). k \<in> set hook_context_keys \<and> bounded_text 4096 s \<and> CHR 0x00 \<notin> set s) (hook_context src)"
proof -
  let ?f = "\<lambda>k. map_option (Pair k) (as_string (jget src k))"
  have keys: "map fst (List.map_filter ?f ks) = filter (\<lambda>k. ?f k \<noteq> None) ks" for ks
    by (induction ks) (auto simp: List.map_filter_simps)
  have str: "as_string v = Some s \<Longrightarrow> v = Some (JStr s)" for v s
    by (cases v rule: as_string.cases) auto
  have mem: "(k, s) \<in> set (List.map_filter ?f ks) \<Longrightarrow> k \<in> set ks \<and> jget src k = Some (JStr s)" for k s ks
    by (induction ks) (auto simp: List.map_filter_simps split: option.splits dest: str)
  have "distinct hook_context_keys" by code_simp
  then show ?thesis
    unfolding hook_context_def keys list_all_iff using mem[THEN conjunct1] assms[OF mem[THEN conjunct1] mem[THEN conjunct2]]
    by (auto simp: case_prod_beta)
qed

lemma hook_field_ok:
  assumes "first_error (hook_checks num raw) = None" "(k, n) \<in> set [(''permissionMode'', 64), (''toolUseId'', 512), (''approvalRequestId'', 128)]"
  shows "pred_option (bounded_text n) (as_string (jget raw k))"
proof -
  have "\<not> (jget raw k \<noteq> None \<and> not_bounded_string n (jget raw k))"
    by (rule first_error_passed[OF assms(1), of _ "HookBadField k"]) (use assms(2) in \<open>auto simp: hook_checks_def\<close>)
  then show ?thesis by (auto simp: not_bounded_string_iff)
qed

text \<open>
  Every field of an accepted hook request is within its bounds: the session and the optional
  identifiers are non-empty texts of limited length, the context holds only the four selector fields,
  each at most once, non-empty, bounded and free of NUL, and the recovery mark is a non-negative safe
  integer. So nothing unbounded reaches the policy selectors.
\<close>

theorem accepted_hook_requests_are_bounded:
  assumes "parse_policy_hook_request num v = Inr r"
  shows "hook_request_ok r"
proof -
  obtain raw where v: "v = JObj raw" and ok: "first_error (hook_checks num raw) = None"
    using assms by (cases v) (auto simp: parse_policy_hook_request_def split: option.splits)
  note passed = first_error_passed[OF ok]
  have session: "\<not> not_bounded_string 256 (jget raw ''providerSessionId'')"
    by (rule passed[of _ HookBadProviderSession]) (simp add: hook_checks_def)
  have recovery: "\<not> (jget raw ''transportRecoveredFrom'' \<noteq> None \<and>
      (case as_safe_integer (jget raw ''transportRecoveredFrom'') of None \<Rightarrow> True | Some n \<Rightarrow> n < 0))"
    by (rule passed[of _ HookBadRecovery]) (simp add: hook_checks_def)
  then have recovered: "pred_option (\<lambda>n. 0 \<le> n \<and> n \<le> max_safe_integer) (as_safe_integer (jget raw ''transportRecoveredFrom''))"
    by (auto dest: as_safe_integer_SomeD split: option.splits simp: pred_option_def)
  have context_entry: "bounded_text 4096 s \<and> CHR 0x00 \<notin> set s"
    if "jget raw ''context'' = Some (JObj src)" "k \<in> set hook_context_keys" "jget src k = Some (JStr s)" for src k s
  proof -
    have "\<not> (jget src k \<noteq> None \<and> (not_bounded_string 4096 (jget src k) \<or>
        (case as_string (jget src k) of None \<Rightarrow> False | Some s \<Rightarrow> CHR 0x00 \<in> set s)))"
      by (rule passed[of _ "HookContextInvalid k"]) (use that in \<open>auto simp: hook_checks_def\<close>)
    with that(3) have "\<not> not_bounded_string 4096 (Some (JStr s)) \<and> CHR 0x00 \<notin> set s" by simp
    then show ?thesis unfolding not_bounded_string_iff by simp
  qed
  have ctx: "pred_option (\<lambda>ctx. distinct (map fst ctx) \<and>
      list_all (\<lambda>(k, s). k \<in> set hook_context_keys \<and> bounded_text 4096 s \<and> CHR 0x00 \<notin> set s) ctx)
      (map_option hook_context (as_object (jget raw ''context'')))"
  proof (cases "jget raw ''context''" rule: as_object.cases)
    case (1 src)
    then show ?thesis using hook_context_ok[OF context_entry[OF 1]] by simp
  qed simp_all
  obtain s where s: "jget raw ''providerSessionId'' = Some (JStr s)" "bounded_text 256 s"
    using session unfolding not_bounded_string_iff by blast
  note r = assms[unfolded v parse_policy_hook_request_def as_object.simps option.case ok sum.inject(2), symmetric]
  show ?thesis
    unfolding r hook_request_ok_def hook_request.simps s(1) as_string.simps option.sel
    by (intro conjI s(2) recovered ctx hook_field_ok[OF ok]) simp_all
qed

theorem accepted_hook_requests_are_bounded_witness:
  "(case parse_policy_hook_request (\<lambda>q. ''0'') (JObj [(''hookEventName'', JStr ''PreToolUse''),
      (''providerSessionId'', JStr ''p1''), (''context'', JObj [(''path'', JStr ''/repo/a''), (''toolName'', JStr ''Edit'')])]) of
      Inl e \<Rightarrow> False
    | Inr r \<Rightarrow> hr_context r = Some [(''toolName'', ''Edit''), (''path'', ''/repo/a'')] \<and> hook_request_ok r)"
proof -
  let ?v = "JObj [(''hookEventName'', JStr ''PreToolUse''), (''providerSessionId'', JStr ''p1''),
    (''context'', JObj [(''path'', JStr ''/repo/a''), (''toolName'', JStr ''Edit'')])]"
  obtain r where r: "parse_policy_hook_request (\<lambda>q. ''0'') ?v = Inr r"
    "hr_context r = Some [(''toolName'', ''Edit''), (''path'', ''/repo/a'')]"
  proof -
    have "\<not> isl (parse_policy_hook_request (\<lambda>q. ''0'') ?v) \<and>
        hr_context (projr (parse_policy_hook_request (\<lambda>q. ''0'') ?v)) = Some [(''toolName'', ''Edit''), (''path'', ''/repo/a'')]"
      by code_simp
    then show thesis using that by (cases "parse_policy_hook_request (\<lambda>q. ''0'') ?v") auto
  qed
  then show ?thesis using accepted_hook_requests_are_bounded[OF r(1)] by simp
qed

text \<open>
  The event name is compared after \<open>String\<close>, so an array of one event name passes and stays an array
  in the value the parser returns.
\<close>

lemma hook_event_name_may_be_an_array:
  "\<exists>r. parse_policy_hook_request num (JObj [(''hookEventName'', JArr [JStr ''PreToolUse'']),
       (''providerSessionId'', JStr ''p1'')]) = Inr r \<and> hr_event_name r = Some (JArr [JStr ''PreToolUse''])"
  by (simp add: parse_policy_hook_request_def hook_checks_def js_string_opt_def extra_keys_def hook_keys_def
      jkeys_def not_bounded_string_def)

section \<open>What an accepted policy looks like\<close>

definition narrowing_keys :: "string list" where
  "narrowing_keys = [''runnerId'', ''workspaceId'', ''agentId'', ''toolName'', ''path'', ''network'', ''branch'']"

text \<open>
  The shape of a stored policy: its identifier is none of the built-in ones; its priority is above the
  built-in ones; a grant that is no question rule names a selector narrower than the organization and
  never asks whether the runner escalated; a path selector is absolute and climbs nowhere; only a
  question may wait on a timeout.
\<close>

definition stored_policy_ok :: "jobject \<Rightarrow> bool" where
  "stored_policy_ok p \<longleftrightarrow>
     (\<exists>sc. jget p ''scope'' = Some (JObj sc) \<and>
       (\<exists>i. jget p ''policyId'' = Some (JStr i) \<and> ident_like is_alnum policy_id_char 127 i \<and> \<not> starts_with i ''builtin:'') \<and>
       (\<exists>n. as_integer (jget p ''priority'') = Some n \<and> - 100000 \<le> n \<and> n \<le> 100000) \<and>
       (\<forall>k s. (k, s) \<in> set sc \<longrightarrow> (\<exists>t. s = JStr t \<and> bounded_text 1024 t) \<and> k \<in> set selector_keys) \<and>
       (\<forall>q. jget sc ''path'' = Some (JStr q) \<longrightarrow> \<not> bad_path_selector q) \<and>
       (jget p ''effect'' = Some (JStr ''allow'') \<longrightarrow>
          (falsy (jget p ''questionRule'') \<longrightarrow> (\<exists>k\<in>set narrowing_keys. \<exists>t. jget sc k = Some (JStr t) \<and> t \<noteq> [])) \<and>
          (\<forall>c. jget p ''conditions'' = Some (JObj c) \<longrightarrow> jget c ''escalated'' = None)) \<and>
       (jget p ''askTimeout'' \<noteq> None \<longrightarrow> jget p ''effect'' = Some (JStr ''ask'')))"


definition sample_stored_policy :: jobject where
  "sample_stored_policy =
     [(''policyId'', JStr ''allow-src''), (''name'', JStr ''Edit sources''), (''effect'', JStr ''allow''),
      (''priority'', JNum 10), (''enabled'', JBool True), (''scope'', JObj [(''path'', JStr ''/repo/src/**'')])]"


end
