(* ===== verification/Workflow_Graph.thy ===== *)
theory Workflow_Graph
  imports Json "HOL-Library.AList"
begin

text \<open>
  The validator of workflow definitions (\<open>apps/control-plane/src/workflow-graphs.ts\<close>): the shape of
  nodes and edges, reachability from the entry nodes, the producers of artifacts, and the proof that a
  first traversal can start every node.

  The checks of the shape read the parsed JSON value; the graph phases read the nodes and edges of it
  (\<open>decode_node\<close>, \<open>decode_edge\<close>), as the code does through its casts. The loops that run until
  nothing changes are recursive functions with their termination proofs.
\<close>

section \<open>Shape\<close>

definition id_char :: "char \<Rightarrow> bool" where
  "id_char c \<longleftrightarrow> is_alnum c \<or> c = CHR ''_'' \<or> c = CHR ''-''"

definition is_letter :: "char \<Rightarrow> bool" where
  "is_letter c \<longleftrightarrow> is_lower c \<or> is_upper c"

definition wf_id :: "string \<Rightarrow> bool" where
  "wf_id s \<longleftrightarrow> ident_like is_letter id_char 63 s"

definition artifact_name :: "string \<Rightarrow> bool" where
  "artifact_name s \<longleftrightarrow> ident_like is_letter (\<lambda>c. id_char c \<or> c = CHR ''.'') 79 s"

definition policy_ref :: "string \<Rightarrow> bool" where
  "policy_ref s \<longleftrightarrow> ident_like is_alnum (\<lambda>c. id_char c \<or> c = CHR ''.'' \<or> c = CHR '':'') 127 s"

definition node_kinds :: "string list" where
  "node_kinds = [''agent'', ''human_gate'', ''policy_gate'']"

definition artifact_kinds :: "string list" where
  "artifact_kinds = [''html_preview'', ''patch'', ''review_report'', ''screenshot'', ''test_log'', ''verdict'']"

definition edge_conditions :: "string list" where
  "edge_conditions = [''success'', ''failure'', ''accepted'', ''changes_requested'', ''always'']"

definition string_such :: "(string \<Rightarrow> bool) \<Rightarrow> json option \<Rightarrow> bool" where
  "string_such P v \<longleftrightarrow> (case as_string v of None \<Rightarrow> False | Some s \<Rightarrow> P s)"

definition integer_in :: "int \<Rightarrow> int \<Rightarrow> json option \<Rightarrow> bool" where
  "integer_in lo hi v \<longleftrightarrow> (case as_integer v of None \<Rightarrow> False | Some n \<Rightarrow> lo \<le> n \<and> n \<le> hi)"

definition control_char :: "char \<Rightarrow> bool" where
  "control_char c = (let n = of_char c :: nat in n \<le> 8 \<or> n = 11 \<or> n = 12 \<or> (14 \<le> n \<and> n \<le> 31))"

definition valid_text :: "int \<Rightarrow> bool \<Rightarrow> json option \<Rightarrow> bool" where
  "valid_text mx allow_empty v \<longleftrightarrow>
     string_such (\<lambda>s. int (length s) \<le> mx \<and> (allow_empty \<or> js_trim s \<noteq> []) \<and> \<not> list_ex control_char s) v"

definition object_with :: "string list \<Rightarrow> json option \<Rightarrow> bool" where
  "object_with allowed v \<longleftrightarrow> (case as_object v of None \<Rightarrow> False | Some ps \<Rightarrow> \<not> extra_keys ps allowed)"

definition contract_fields :: "string list" where
  "contract_fields = [''name'', ''kind'', ''required'']"

text \<open>The loop of \<open>validateContracts\<close> with the names seen so far.\<close>

fun contracts_ok :: "string list \<Rightarrow> json list \<Rightarrow> bool" where
  "contracts_ok seen [] = True"
| "contracts_ok seen (c # cs) \<longleftrightarrow>
     object_with contract_fields (Some c) \<and>
     string_such artifact_name (jprop (Some c) ''name'') \<and>
     string_such (\<lambda>k. k \<in> set artifact_kinds) (jprop (Some c) ''kind'') \<and>
     (jprop (Some c) ''required'' = None \<or> as_bool (jprop (Some c) ''required'') \<noteq> None) \<and>
     string_such (\<lambda>n. n \<notin> set seen) (jprop (Some c) ''name'') \<and>
     contracts_ok (the (as_string (jprop (Some c) ''name'')) # seen) cs"

definition validate_contracts :: "json option \<Rightarrow> bool" where
  "validate_contracts v \<longleftrightarrow>
     (case as_array v of None \<Rightarrow> False | Some cs \<Rightarrow> length cs \<le> 16 \<and> contracts_ok [] cs)"

definition stop_condition_ok :: "(rat \<Rightarrow> string) \<Rightarrow> json option \<Rightarrow> json option \<Rightarrow> bool" where
  "stop_condition_ok num retry sc \<longleftrightarrow>
     as_object sc \<noteq> None \<and>
     (if jprop sc ''kind'' = Some (JStr ''verdict'') then
        object_with [''kind'', ''artifact'', ''outcomes''] sc \<and>
        string_such artifact_name (jprop sc ''artifact'') \<and>
        (case as_array (jprop sc ''outcomes'') of None \<Rightarrow> False
         | Some os \<Rightarrow> 1 \<le> length os \<and> length os \<le> 3 \<and>
             list_all (\<lambda>x. js_string num x \<in> set [''accepted'', ''changes_requested'', ''rejected'']) os)
      else if jprop sc ''kind'' = Some (JStr ''attempt_limit'') then
        object_with [''kind'', ''maxAttempts''] sc \<and>
        (case (as_integer (jprop sc ''maxAttempts''), as_integer (jprop retry ''maxAttempts'')) of
           (Some n, Some m) \<Rightarrow> 1 \<le> n \<and> n \<le> m | _ \<Rightarrow> False)
      else False)"

definition node_fields :: "string list" where
  "node_fields = [''nodeId'', ''kind'', ''role'', ''agentId'', ''policyId'', ''prompt'', ''inputs'', ''outputs'',
     ''retry'', ''timeoutMs'', ''stopCondition'']"

definition validate_node :: "(rat \<Rightarrow> string) \<Rightarrow> json \<Rightarrow> bool" where
  "validate_node num v \<longleftrightarrow>
     (let f = jprop (Some v) in
      object_with node_fields (Some v) \<and>
      string_such wf_id (f ''nodeId'') \<and>
      string_such (\<lambda>k. k \<in> set node_kinds) (f ''kind'') \<and>
      valid_text 80 False (f ''role'') \<and>
      (f ''prompt'' = None \<or> valid_text 32000 True (f ''prompt'')) \<and>
      object_with [''maxAttempts'', ''backoffMs''] (f ''retry'') \<and>
      integer_in 1 10 (jprop (f ''retry'') ''maxAttempts'') \<and>
      integer_in 0 86400000 (jprop (f ''retry'') ''backoffMs'') \<and>
      integer_in 1000 86400000 (f ''timeoutMs'') \<and>
      validate_contracts (f ''inputs'') \<and> validate_contracts (f ''outputs'') \<and>
      (if f ''kind'' = Some (JStr ''agent'') then string_such wf_id (f ''agentId'') \<and> f ''policyId'' = None
       else if f ''kind'' = Some (JStr ''policy_gate'') then string_such policy_ref (f ''policyId'') \<and> f ''agentId'' = None
       else f ''agentId'' = None \<and> f ''policyId'' = None) \<and>
      (f ''stopCondition'' = None \<or> stop_condition_ok num (f ''retry'') (f ''stopCondition'')))"

section \<open>Nodes and edges\<close>

record wf_contract =
  wc_name :: string
  wc_kind :: string
  wc_required :: bool

datatype wf_stop = NoStop | Verdict string "json list" | AttemptLimit

record wf_node =
  wn_id :: string
  wn_inputs :: "wf_contract list"
  wn_outputs :: "wf_contract list"
  wn_stop :: wf_stop

record wf_edge =
  we_id :: string
  we_from :: string
  we_to :: string
  we_on :: string

definition str_field :: "json \<Rightarrow> string \<Rightarrow> string" where
  "str_field v k = (case as_string (jprop (Some v) k) of None \<Rightarrow> '''' | Some s \<Rightarrow> s)"

definition decode_contract :: "json \<Rightarrow> wf_contract" where
  "decode_contract v = \<lparr>wc_name = str_field v ''name'', wc_kind = str_field v ''kind'',
     wc_required = (jprop (Some v) ''required'' \<noteq> Some (JBool False))\<rparr>"

definition list_field :: "json \<Rightarrow> string \<Rightarrow> json list" where
  "list_field v k = (case as_array (jprop (Some v) k) of None \<Rightarrow> [] | Some xs \<Rightarrow> xs)"

definition decode_node :: "json \<Rightarrow> wf_node" where
  "decode_node v =
     \<lparr>wn_id = str_field v ''nodeId'',
      wn_inputs = map decode_contract (list_field v ''inputs''),
      wn_outputs = map decode_contract (list_field v ''outputs''),
      wn_stop = (case jprop (Some v) ''stopCondition'' of None \<Rightarrow> NoStop
                 | Some sc \<Rightarrow> if jprop (Some sc) ''kind'' = Some (JStr ''verdict'')
                     then Verdict (str_field sc ''artifact'') (list_field sc ''outcomes'') else AttemptLimit)\<rparr>"

definition decode_edge :: "json \<Rightarrow> wf_edge" where
  "decode_edge v = \<lparr>we_id = str_field v ''edgeId'', we_from = str_field v ''from'', we_to = str_field v ''to'',
     we_on = str_field v ''on''\<rparr>"

datatype workflow_error =
    WfUnsupportedFields
  | WfBadName
  | WfBadDescription
  | WfBadMaxTransitions
  | WfBadNodes
  | WfBadEdges
  | WfDuplicateNodes
  | WfInvalidEdge
  | WfNeedsVerdict string
  | WfNoEntry
  | WfUnreachable
  | WfConflictingOutput string
  | WfUnproduced string string
  | WfBadVerdictArtifact string
  | WfDeadlock

section \<open>Edges\<close>

definition edge_shape_ok :: "string list \<Rightarrow> string list \<Rightarrow> json \<Rightarrow> bool" where
  "edge_shape_ok node_ids edge_ids v \<longleftrightarrow>
     object_with [''edgeId'', ''from'', ''to'', ''on''] (Some v) \<and>
     string_such (\<lambda>i. wf_id i \<and> i \<notin> set edge_ids) (jprop (Some v) ''edgeId'') \<and>
     string_such (\<lambda>i. i \<in> set node_ids) (jprop (Some v) ''from'') \<and>
     string_such (\<lambda>i. i \<in> set node_ids) (jprop (Some v) ''to'') \<and>
     jprop (Some v) ''from'' \<noteq> jprop (Some v) ''to'' \<and>
     string_such (\<lambda>c. c \<in> set edge_conditions) (jprop (Some v) ''on'')"

definition verdict_allows :: "wf_node list \<Rightarrow> wf_edge \<Rightarrow> bool" where
  "verdict_allows nodes e \<longleftrightarrow>
     (case find (\<lambda>n. wn_id n = we_from e) nodes of None \<Rightarrow> False
      | Some n \<Rightarrow> (case wn_stop n of Verdict a os \<Rightarrow> JStr (we_on e) \<in> set os | _ \<Rightarrow> False))"

fun check_edges :: "wf_node list \<Rightarrow> string list \<Rightarrow> json list \<Rightarrow> workflow_error option" where
  "check_edges nodes edge_ids [] = None"
| "check_edges nodes edge_ids (v # vs) =
     (if \<not> edge_shape_ok (map wn_id nodes) edge_ids v then Some WfInvalidEdge
      else let e = decode_edge v
           in if (we_on e = ''accepted'' \<or> we_on e = ''changes_requested'') \<and> \<not> verdict_allows nodes e
              then Some (WfNeedsVerdict (we_id e))
              else check_edges nodes (we_id e # edge_ids) vs)"

text \<open>\<open>inbound.get(id)\<close> after the loop.\<close>

definition inbound :: "wf_edge list \<Rightarrow> string \<Rightarrow> nat" where
  "inbound es i = length (filter (\<lambda>e. we_to e = i) es)"

definition roots :: "wf_edge list \<Rightarrow> wf_node list \<Rightarrow> string list" where
  "roots es nodes = map wn_id (filter (\<lambda>n. inbound es (wn_id n) = 0) nodes)"

section \<open>Reachability\<close>

fun sweep_edges :: "wf_edge list \<Rightarrow> string list \<Rightarrow> string list" where
  "sweep_edges [] r = r"
| "sweep_edges (e # es) r =
     sweep_edges es (if we_from e \<in> set r \<and> we_to e \<notin> set r then r @ [we_to e] else r)"

lemma sweep_edges_extends: "\<exists>xs. sweep_edges es r = r @ xs \<and> set xs \<subseteq> we_to ` set es \<and> distinct xs \<and> set xs \<inter> set r = {}"
proof (induction es arbitrary: r)
  case (Cons e es)
  let ?r = "if we_from e \<in> set r \<and> we_to e \<notin> set r then r @ [we_to e] else r"
  obtain xs where xs: "sweep_edges es ?r = ?r @ xs" "set xs \<subseteq> we_to ` set es" "distinct xs" "set xs \<inter> set ?r = {}"
    using Cons by blast
  show ?case
  proof (cases "we_from e \<in> set r \<and> we_to e \<notin> set r")
    case True
    then show ?thesis using xs by (intro exI[of _ "we_to e # xs"]) auto
  next
    case False
    then show ?thesis using xs by (intro exI[of _ xs]) auto
  qed
qed simp

function reachable_loop :: "wf_edge list \<Rightarrow> string list \<Rightarrow> string list" where
  "reachable_loop es r = (let r' = sweep_edges es r in if r' = r then r else reachable_loop es r')"
  by auto

termination
proof (relation "measure (\<lambda>(es, r). card (we_to ` set es - set r))")
  fix es :: "wf_edge list" and r r' :: "string list"
  assume r': "r' = sweep_edges es r" "r' \<noteq> r"
  obtain xs where xs: "r' = r @ xs" "set xs \<subseteq> we_to ` set es" "set xs \<inter> set r = {}"
    using sweep_edges_extends[of es r] r'(1) by auto
  then have "xs \<noteq> []" using r'(2) by auto
  then have "we_to ` set es - set r' \<subset> we_to ` set es - set r"
    using xs by (cases xs) auto
  then show "((es, r'), (es, r)) \<in> measure (\<lambda>(es, r). card (we_to ` set es - set r))"
    by (simp add: psubset_card_mono)
qed simp

declare reachable_loop.simps [simp del]

text \<open>
  \<open>canReach\<close>: one pass over the edges of the node at the head of the queue, \<open>None\<close> when the target
  is met; then the search.
\<close>

fun scan_edges :: "wf_edge list \<Rightarrow> string \<Rightarrow> string \<Rightarrow> string list \<Rightarrow> string list \<Rightarrow> (string list \<times> string list) option" where
  "scan_edges [] cur target seen queue = Some (seen, queue)"
| "scan_edges (e # es) cur target seen queue =
     (if we_from e \<noteq> cur then scan_edges es cur target seen queue
      else if we_to e = target then None
      else if we_to e \<notin> set seen then scan_edges es cur target (we_to e # seen) (queue @ [we_to e])
      else scan_edges es cur target seen queue)"

lemma scan_edges_extends:
  "scan_edges es cur target seen queue = Some (seen', queue') \<Longrightarrow>
   \<exists>xs. queue' = queue @ xs \<and> set seen' = set seen \<union> set xs \<and> set xs \<subseteq> we_to ` set es \<and>
        set xs \<inter> set seen = {} \<and> distinct xs"
proof (induction es arbitrary: seen queue)
  case (Cons e es)
  consider (add) "we_from e = cur" "we_to e \<noteq> target" "we_to e \<notin> set seen"
    | (skip) "scan_edges (e # es) cur target seen queue = scan_edges es cur target seen queue"
    using Cons.prems by (auto split: if_splits)
  then show ?case
  proof cases
    case add
    then obtain xs where xs: "queue' = (queue @ [we_to e]) @ xs" "set seen' = set (we_to e # seen) \<union> set xs"
      "set xs \<subseteq> we_to ` set es" "set xs \<inter> set (we_to e # seen) = {}" "distinct xs"
      using Cons.IH[of "we_to e # seen" "queue @ [we_to e]"] Cons.prems by auto
    then show ?thesis using add by (intro exI[of _ "we_to e # xs"]) auto
  next
    case skip
    then show ?thesis using Cons.IH[of seen queue] Cons.prems by (auto intro: exI)
  qed
qed auto

function can_reach_loop :: "wf_edge list \<Rightarrow> string \<Rightarrow> string list \<Rightarrow> string list \<Rightarrow> bool" where
  "can_reach_loop es target seen [] = False"
| "can_reach_loop es target seen (cur # queue) =
     (case scan_edges es cur target seen queue of
        None \<Rightarrow> True
      | Some (seen', queue') \<Rightarrow> can_reach_loop es target seen' queue')"
  by pat_completeness auto

termination
proof (relation "measures [\<lambda>(es, t, seen, q). card (we_to ` set es - set seen), \<lambda>(es, t, seen, q). length q]")
  fix es target seen cur queue x seen' queue'
  assume s: "scan_edges es cur target seen queue = Some x" "(seen', queue') = x"
  obtain xs where xs: "queue' = queue @ xs" "set seen' = set seen \<union> set xs" "set xs \<subseteq> we_to ` set es"
    "set xs \<inter> set seen = {}"
    using scan_edges_extends[of es cur target seen queue seen' queue'] s by auto
  show "((es, target, seen', queue'), es, target, seen, cur # queue)
      \<in> measures [\<lambda>(es, t, seen, q). card (we_to ` set es - set seen), \<lambda>(es, t, seen, q). length q]"
  proof (cases xs)
    case Nil
    with xs show ?thesis by simp
  next
    case (Cons y ys)
    then have "we_to ` set es - set seen' \<subset> we_to ` set es - set seen"
      using xs by auto
    then show ?thesis by (simp add: psubset_card_mono)
  qed
qed simp

definition can_reach :: "wf_edge list \<Rightarrow> string \<Rightarrow> string \<Rightarrow> bool" where
  "can_reach es src target = can_reach_loop es target [src] [src]"

section \<open>Artifacts\<close>

type_synonym producers = "(string \<times> (string \<times> string) list) list"

definition produced_of :: "producers \<Rightarrow> string \<Rightarrow> (string \<times> string) list" where
  "produced_of m a = (case map_of m a of None \<Rightarrow> [] | Some ps \<Rightarrow> ps)"

fun add_outputs :: "string \<Rightarrow> wf_contract list \<Rightarrow> producers \<Rightarrow> workflow_error + producers" where
  "add_outputs i [] m = Inr m"
| "add_outputs i (c # cs) m =
     (let prior = produced_of m (wc_name c)
      in if list_ex (\<lambda>p. snd p \<noteq> wc_kind c) prior then Inl (WfConflictingOutput (wc_name c))
         else add_outputs i cs (AList.update (wc_name c) (prior @ [(i, wc_kind c)]) m))"

fun collect_producers :: "wf_node list \<Rightarrow> producers \<Rightarrow> workflow_error + producers" where
  "collect_producers [] m = Inr m"
| "collect_producers (n # ns) m =
     (case add_outputs (wn_id n) (wn_outputs n) m of Inl e \<Rightarrow> Inl e | Inr m' \<Rightarrow> collect_producers ns m')"

definition required_inputs :: "wf_node \<Rightarrow> wf_contract list" where
  "required_inputs n = filter wc_required (wn_inputs n)"

definition has_upstream :: "wf_edge list \<Rightarrow> producers \<Rightarrow> wf_node \<Rightarrow> wf_contract \<Rightarrow> bool" where
  "has_upstream es m n c \<longleftrightarrow>
     list_ex (\<lambda>p. fst p \<noteq> wn_id n \<and> snd p = wc_kind c \<and> can_reach es (fst p) (wn_id n)) (produced_of m (wc_name c))"

fun check_inputs :: "wf_edge list \<Rightarrow> producers \<Rightarrow> wf_node list \<Rightarrow> workflow_error option" where
  "check_inputs es m [] = None"
| "check_inputs es m (n # ns) =
     (case find (\<lambda>c. \<not> has_upstream es m n c) (required_inputs n) of
        Some c \<Rightarrow> Some (WfUnproduced (wn_id n) (wc_name c))
      | None \<Rightarrow>
          (case wn_stop n of
             Verdict a os \<Rightarrow>
               if list_ex (\<lambda>c. wc_name c = a \<and> wc_kind c = ''verdict'') (wn_outputs n) then check_inputs es m ns
               else Some (WfBadVerdictArtifact (wn_id n))
           | _ \<Rightarrow> check_inputs es m ns))"

section \<open>The first traversal\<close>

definition dependency_ready :: "wf_edge list \<Rightarrow> string list \<Rightarrow> wf_node \<Rightarrow> bool" where
  "dependency_ready es s n \<longleftrightarrow>
     inbound es (wn_id n) = 0 \<or> list_ex (\<lambda>e. we_to e = wn_id n \<and> we_from e \<in> set s) es"

definition inputs_ready :: "wf_edge list \<Rightarrow> producers \<Rightarrow> string list \<Rightarrow> wf_node \<Rightarrow> bool" where
  "inputs_ready es m s n \<longleftrightarrow>
     list_all (\<lambda>c. list_ex (\<lambda>p. fst p \<noteq> wn_id n \<and> snd p = wc_kind c \<and> fst p \<in> set s \<and> can_reach es (fst p) (wn_id n))
       (produced_of m (wc_name c))) (required_inputs n)"

definition node_ready :: "wf_edge list \<Rightarrow> producers \<Rightarrow> string list \<Rightarrow> wf_node \<Rightarrow> bool" where
  "node_ready es m s n \<longleftrightarrow> dependency_ready es s n \<and> inputs_ready es m s n"

fun sweep_nodes :: "wf_edge list \<Rightarrow> producers \<Rightarrow> wf_node list \<Rightarrow> string list \<Rightarrow> string list" where
  "sweep_nodes es m [] s = s"
| "sweep_nodes es m (n # ns) s =
     sweep_nodes es m ns (if wn_id n \<notin> set s \<and> node_ready es m s n then s @ [wn_id n] else s)"

lemma sweep_nodes_extends:
  "\<exists>xs. sweep_nodes es m ns s = s @ xs \<and> set xs \<subseteq> wn_id ` set ns \<and> distinct xs \<and> set xs \<inter> set s = {}"
proof (induction ns arbitrary: s)
  case (Cons n ns)
  let ?s = "if wn_id n \<notin> set s \<and> node_ready es m s n then s @ [wn_id n] else s"
  obtain xs where xs: "sweep_nodes es m ns ?s = ?s @ xs" "set xs \<subseteq> wn_id ` set ns" "distinct xs" "set xs \<inter> set ?s = {}"
    using Cons by blast
  show ?case
  proof (cases "wn_id n \<notin> set s \<and> node_ready es m s n")
    case True
    then show ?thesis using xs by (intro exI[of _ "wn_id n # xs"]) auto
  next
    case False
    then show ?thesis using xs by (intro exI[of _ xs]) auto
  qed
qed simp

function schedulable_loop :: "wf_edge list \<Rightarrow> producers \<Rightarrow> wf_node list \<Rightarrow> string list \<Rightarrow> string list" where
  "schedulable_loop es m ns s = (let s' = sweep_nodes es m ns s in if s' = s then s else schedulable_loop es m ns s')"
  by auto

termination
proof (relation "measure (\<lambda>(es, m, ns, s). card (wn_id ` set ns - set s))")
  fix es :: "wf_edge list" and m ns and s s' :: "string list"
  assume s': "s' = sweep_nodes es m ns s" "s' \<noteq> s"
  obtain xs where xs: "s' = s @ xs" "set xs \<subseteq> wn_id ` set ns" "set xs \<inter> set s = {}"
    using sweep_nodes_extends[of es m ns s] s'(1) by auto
  then have "xs \<noteq> []" using s'(2) by auto
  then have "wn_id ` set ns - set s' \<subset> wn_id ` set ns - set s"
    using xs by (cases xs) auto
  then show "((es, m, ns, s'), (es, m, ns, s)) \<in> measure (\<lambda>(es, m, ns, s). card (wn_id ` set ns - set s))"
    by (simp add: psubset_card_mono)
qed simp

declare schedulable_loop.simps [simp del]

section \<open>The validator\<close>

definition check_graph :: "wf_node list \<Rightarrow> wf_edge list \<Rightarrow> workflow_error option" where
  "check_graph nodes es =
     (if length (roots es nodes) < 1 then Some WfNoEntry
      else if length (reachable_loop es (js_dedup (roots es nodes))) \<noteq> length nodes then Some WfUnreachable
      else case collect_producers nodes [] of
             Inl e \<Rightarrow> Some e
           | Inr m \<Rightarrow>
               (case check_inputs es m nodes of
                  Some e \<Rightarrow> Some e
                | None \<Rightarrow> if length (schedulable_loop es m nodes []) \<noteq> length nodes then Some WfDeadlock else None))"

definition top_fields :: "string list" where
  "top_fields = [''name'', ''description'', ''maxTransitions'', ''nodes'', ''edges'']"

definition validate_workflow_definition :: "(rat \<Rightarrow> string) \<Rightarrow> json \<Rightarrow> workflow_error option" where
  "validate_workflow_definition num input =
     (let f = jprop (Some input); ns = list_field input ''nodes''; vs = list_field input ''edges'';
          nodes = map decode_node ns
      in if \<not> object_with top_fields (Some input) then Some WfUnsupportedFields
         else if \<not> valid_text 120 False (f ''name'') then Some WfBadName
         else if f ''description'' \<noteq> None \<and> \<not> valid_text 2000 True (f ''description'') then Some WfBadDescription
         else if \<not> integer_in 1 1000 (f ''maxTransitions'') then Some WfBadMaxTransitions
         else if as_array (f ''nodes'') = None \<or> length ns < 1 \<or> length ns > 64 \<or> \<not> list_all (validate_node num) ns
           then Some WfBadNodes
         else if as_array (f ''edges'') = None \<or> length vs > 256 then Some WfBadEdges
         else if length (js_dedup (map wn_id nodes)) \<noteq> length nodes then Some WfDuplicateNodes
         else case check_edges nodes [] vs of
                Some e \<Rightarrow> Some e
              | None \<Rightarrow> check_graph nodes (map decode_edge vs))"

section \<open>The searches are exact\<close>

definition flow :: "wf_edge list \<Rightarrow> (string \<times> string) set" where
  "flow es = (\<lambda>e. (we_from e, we_to e)) ` set es"

lemma flow_iff: "(x, y) \<in> flow es \<longleftrightarrow> (\<exists>e\<in>set es. we_from e = x \<and> we_to e = y)"
  by (auto simp: flow_def)

lemma scan_edges_None:
  "scan_edges es cur t seen q = None \<longleftrightarrow> (cur, t) \<in> flow es"
  by (induction es cur t seen q rule: scan_edges.induct) (auto simp: flow_def)

lemma scan_edges_Some:
  "scan_edges es cur t seen q = Some (seen', q') \<Longrightarrow>
   set seen \<subseteq> set seen' \<and> set seen' \<subseteq> set seen \<union> flow es `` {cur} \<and> flow es `` {cur} \<subseteq> set seen' \<and>
   set q' = set q \<union> (set seen' - set seen)"
proof (induction es cur t seen q rule: scan_edges.induct)
  case (2 e es cur t seen q)
  have f: "flow (e # es) `` {cur} = (if we_from e = cur then {we_to e} else {}) \<union> flow es `` {cur}"
    by (auto simp: flow_def)
  show ?case
  proof (cases "we_from e = cur \<and> we_to e \<noteq> t \<and> we_to e \<notin> set seen")
    case True
    then show ?thesis using 2 unfolding f by auto
  next
    case False
    then show ?thesis using 2 unfolding f by (auto split: if_splits)
  qed
qed (auto simp: flow_def)

definition search_inv :: "wf_edge list \<Rightarrow> string \<Rightarrow> string set \<Rightarrow> string set \<Rightarrow> bool" where
  "search_inv es t seen q \<longleftrightarrow> q \<subseteq> seen \<and> (\<forall>x\<in>seen - q. flow es `` {x} \<subseteq> seen - {t})"

lemma search_inv_closed:
  assumes "search_inv es t seen {}" "x \<in> seen"
  shows "(x, t) \<notin> (flow es)\<^sup>+"
proof -
  have step: "(y, z) \<in> flow es \<Longrightarrow> y \<in> seen \<Longrightarrow> z \<in> seen \<and> z \<noteq> t" for y z
    using assms(1) unfolding search_inv_def by blast
  have "(x, y) \<in> (flow es)\<^sup>+ \<Longrightarrow> y \<in> seen \<and> y \<noteq> t" for y
    by (induction rule: trancl_induct) (use step assms(2) in blast)+
  then show ?thesis by blast
qed

lemma can_reach_loop_iff:
  "search_inv es t (set seen) (set q) \<Longrightarrow>
   can_reach_loop es t seen q \<longleftrightarrow> (\<exists>x\<in>set seen. (x, t) \<in> (flow es)\<^sup>+)"
proof (induction es t seen q rule: can_reach_loop.induct)
  case (1 es t seen)
  then show ?case using search_inv_closed by auto
next
  case (2 es t seen cur q)
  have cur: "cur \<in> set seen" using "2.prems" by (simp add: search_inv_def)
  show ?case
  proof (cases "scan_edges es cur t seen q")
    case None
    then have "(cur, t) \<in> flow es" unfolding scan_edges_None .
    then show ?thesis using cur None by auto
  next
    case (Some r)
    obtain seen' q' where r: "scan_edges es cur t seen q = Some (seen', q')"
      using Some by (cases r) auto
    have not_t: "(cur, t) \<notin> flow es" using r scan_edges_None[of es cur t seen q] by simp
    note s = scan_edges_Some[OF r]
    have "search_inv es t (set seen') (set q')"
      unfolding search_inv_def
    proof (intro conjI ballI)
      show "set q' \<subseteq> set seen'" using s "2.prems" unfolding search_inv_def by auto
      fix x assume x: "x \<in> set seen' - set q'"
      then have "x \<in> set seen" "x \<notin> set q" using s by auto
      then show "flow es `` {x} \<subseteq> set seen' - {t}"
      proof (cases "x = cur")
        case True
        then show ?thesis using s not_t by auto
      next
        case False
        then have "flow es `` {x} \<subseteq> set seen - {t}"
          using "2.prems" \<open>x \<in> set seen\<close> \<open>x \<notin> set q\<close> unfolding search_inv_def by auto
        then show ?thesis using s by auto
      qed
    qed
    then have IH: "can_reach_loop es t seen' q' \<longleftrightarrow> (\<exists>x\<in>set seen'. (x, t) \<in> (flow es)\<^sup>+)"
      using "2.IH"[OF r refl] by simp
    have "(\<exists>x\<in>set seen'. (x, t) \<in> (flow es)\<^sup>+) \<longleftrightarrow> (\<exists>x\<in>set seen. (x, t) \<in> (flow es)\<^sup>+)"
    proof
      assume "\<exists>x\<in>set seen'. (x, t) \<in> (flow es)\<^sup>+"
      then obtain x where x: "x \<in> set seen'" "(x, t) \<in> (flow es)\<^sup>+" by blast
      then have "x \<in> set seen \<or> (cur, x) \<in> flow es" using s by auto
      then show "\<exists>x\<in>set seen. (x, t) \<in> (flow es)\<^sup>+"
        using x(2) cur by (auto intro: trancl_into_trancl2)
    qed (use s in auto)
    then show ?thesis using r IH by simp
  qed
qed

lemma can_reach_iff: "can_reach es a b \<longleftrightarrow> (a, b) \<in> (flow es)\<^sup>+"
  unfolding can_reach_def by (subst can_reach_loop_iff) (auto simp: search_inv_def)

lemma sweep_edges_fixed:
  "sweep_edges es r = r \<Longrightarrow> flow es `` set r \<subseteq> set r"
proof (induction es arbitrary: r)
  case (Cons e es)
  let ?r = "if we_from e \<in> set r \<and> we_to e \<notin> set r then r @ [we_to e] else r"
  obtain xs where "sweep_edges es ?r = ?r @ xs"
    using sweep_edges_extends by blast
  with Cons.prems have "?r = r" by (auto split: if_splits)
  then have "flow es `` set r \<subseteq> set r" "we_from e \<in> set r \<longrightarrow> we_to e \<in> set r"
    using Cons by (auto split: if_splits)
  then show ?case by (auto simp: flow_def)
qed (simp add: flow_def)

lemma rtrancl_Image_twice: "R\<^sup>* `` (R\<^sup>* `` A) = R\<^sup>* `` A"
  by (auto intro: rtrancl_trans)

lemma sweep_edges_sound: "flow es \<subseteq> R \<Longrightarrow> set (sweep_edges es r) \<subseteq> R\<^sup>* `` set r"
proof (induction es arbitrary: r)
  case (Cons e es)
  let ?r = "if we_from e \<in> set r \<and> we_to e \<notin> set r then r @ [we_to e] else r"
  have "(we_from e, we_to e) \<in> R" "flow es \<subseteq> R"
    using Cons.prems by (auto simp: flow_def)
  moreover from this have "set ?r \<subseteq> R\<^sup>* `` set r"
    by auto
  moreover have "set (sweep_edges es ?r) \<subseteq> R\<^sup>* `` set ?r"
    by (rule Cons.IH) fact
  ultimately have "set (sweep_edges es ?r) \<subseteq> R\<^sup>* `` (R\<^sup>* `` set r)"
    by blast
  then show ?case by (simp add: rtrancl_Image_twice)
qed auto

lemma reachable_loop_spec:
  "distinct r \<Longrightarrow> distinct (reachable_loop es r) \<and> set (reachable_loop es r) = (flow es)\<^sup>* `` set r"
proof (induction es r rule: reachable_loop.induct)
  case (1 es r)
  show ?case
  proof (cases "sweep_edges es r = r")
    case True
    have "(flow es)\<^sup>* `` set r \<subseteq> set r"
      by (rule Image_closed_trancl[THEN eq_refl]) (rule sweep_edges_fixed[OF True])
    then have "(flow es)\<^sup>* `` set r = set r" by auto
    then show ?thesis using True "1.prems" by (simp add: reachable_loop.simps[of es r])
  next
    case False
    obtain xs where xs: "sweep_edges es r = r @ xs" "distinct xs" "set xs \<inter> set r = {}"
      using sweep_edges_extends by blast
    have sound: "set (sweep_edges es r) \<subseteq> (flow es)\<^sup>* `` set r"
      by (rule sweep_edges_sound) simp
    then have "(flow es)\<^sup>* `` set (sweep_edges es r) = (flow es)\<^sup>* `` set r"
      using Image_mono[OF subset_refl[of "(flow es)\<^sup>*"] sound] xs(1) unfolding rtrancl_Image_twice by auto
    moreover have "distinct (sweep_edges es r)"
      using xs "1.prems" by auto
    ultimately show ?thesis
      using "1.IH"[OF refl False] False by (simp add: reachable_loop.simps[of es r])
  qed
qed

section \<open>The schedule is found exactly when there is one\<close>

fun runnable :: "wf_edge list \<Rightarrow> producers \<Rightarrow> string list \<Rightarrow> wf_node list \<Rightarrow> bool" where
  "runnable es m s [] = True"
| "runnable es m s (n # ns) \<longleftrightarrow> node_ready es m s n \<and> runnable es m (s @ [wn_id n]) ns"

lemma runnable_append:
  "runnable es m s (xs @ ys) \<longleftrightarrow> runnable es m s xs \<and> runnable es m (s @ map wn_id xs) ys"
  by (induction xs arbitrary: s) auto

lemma node_ready_mono: "set s \<subseteq> set t \<Longrightarrow> node_ready es m s n \<Longrightarrow> node_ready es m t n"
  unfolding node_ready_def dependency_ready_def inputs_ready_def list_all_iff list_ex_iff by blast

lemma sweep_nodes_runnable:
  "\<exists>xs. sweep_nodes es m ns s = s @ map wn_id xs \<and> set xs \<subseteq> set ns \<and> runnable es m s xs"
proof (induction ns arbitrary: s)
  case (Cons n ns)
  show ?case
  proof (cases "wn_id n \<notin> set s \<and> node_ready es m s n")
    case True
    obtain xs where "sweep_nodes es m ns (s @ [wn_id n]) = (s @ [wn_id n]) @ map wn_id xs"
      "set xs \<subseteq> set ns" "runnable es m (s @ [wn_id n]) xs"
      using Cons by blast
    with True show ?thesis by (intro exI[of _ "n # xs"]) auto
  next
    case False
    obtain xs where "sweep_nodes es m ns s = s @ map wn_id xs" "set xs \<subseteq> set ns" "runnable es m s xs"
      using Cons by blast
    with False show ?thesis by (intro exI[of _ xs]) auto
  qed
qed (auto intro: exI[of _ "[]"])

lemma sweep_nodes_fixed:
  "sweep_nodes es m ns s = s \<Longrightarrow> n \<in> set ns \<Longrightarrow> node_ready es m s n \<Longrightarrow> wn_id n \<in> set s"
proof (induction ns arbitrary: s)
  case (Cons x ns)
  let ?s = "if wn_id x \<notin> set s \<and> node_ready es m s x then s @ [wn_id x] else s"
  obtain xs where "sweep_nodes es m ns ?s = ?s @ xs"
    using sweep_nodes_extends by blast
  with Cons.prems(1) have same: "?s = s" by (auto split: if_splits)
  with Cons.prems(1) have "sweep_nodes es m ns s = s" by simp
  then show ?case
    using Cons same by (auto split: if_splits)
qed simp

lemma schedulable_loop_spec:
  "distinct s \<Longrightarrow>
   \<exists>xs. schedulable_loop es m ns s = s @ map wn_id xs \<and> set xs \<subseteq> set ns \<and> runnable es m s xs \<and>
        distinct (s @ map wn_id xs) \<and> sweep_nodes es m ns (s @ map wn_id xs) = s @ map wn_id xs"
proof (induction es m ns s rule: schedulable_loop.induct)
  case (1 es m ns s)
  show ?case
  proof (cases "sweep_nodes es m ns s = s")
    case True
    then show ?thesis using "1.prems" by (intro exI[of _ "[]"]) (simp add: schedulable_loop.simps[of es m ns s])
  next
    case False
    obtain xs where xs: "sweep_nodes es m ns s = s @ map wn_id xs" "set xs \<subseteq> set ns" "runnable es m s xs"
      using sweep_nodes_runnable by blast
    obtain ys where "sweep_nodes es m ns s = s @ ys" "distinct ys" "set ys \<inter> set s = {}"
      using sweep_nodes_extends by blast
    with "1.prems" have "distinct (sweep_nodes es m ns s)" by auto
    from "1.IH"[OF refl False this] obtain zs where zs:
      "schedulable_loop es m ns (s @ map wn_id xs) = (s @ map wn_id xs) @ map wn_id zs" "set zs \<subseteq> set ns"
      "runnable es m (s @ map wn_id xs) zs" "distinct ((s @ map wn_id xs) @ map wn_id zs)"
      "sweep_nodes es m ns ((s @ map wn_id xs) @ map wn_id zs) = (s @ map wn_id xs) @ map wn_id zs"
      unfolding xs(1) by blast
    have "schedulable_loop es m ns s = schedulable_loop es m ns (s @ map wn_id xs)"
      using False xs(1) by (simp add: schedulable_loop.simps[of es m ns s])
    then show ?thesis
      using xs zs by (intro exI[of _ "xs @ zs"]) (simp add: runnable_append)
  qed
qed

lemma runnable_within_fixed:
  assumes "sweep_nodes es m ns t = t" "set xs \<subseteq> set ns" "runnable es m s xs" "set s \<subseteq> set t"
  shows "wn_id ` set xs \<subseteq> set t"
  using assms(2-4)
proof (induction xs arbitrary: s)
  case (Cons x xs)
  then have "wn_id x \<in> set t"
    using sweep_nodes_fixed[OF assms(1), of x] node_ready_mono[of s t] by auto
  moreover have "wn_id ` set xs \<subseteq> set t"
    by (rule Cons.IH[of "s @ [wn_id x]"]) (use Cons.prems calculation in auto)
  ultimately show ?case by simp
qed simp

lemma schedulable_iff:
  assumes "distinct (map wn_id ns)"
  shows "length (schedulable_loop es m ns []) = length ns \<longleftrightarrow> (\<exists>xs. mset xs = mset ns \<and> runnable es m [] xs)"
proof -
  obtain xs where xs: "schedulable_loop es m ns [] = map wn_id xs" "set xs \<subseteq> set ns" "runnable es m [] xs"
    "distinct (map wn_id xs)" "sweep_nodes es m ns (map wn_id xs) = map wn_id xs"
    using schedulable_loop_spec[of "[]" es m ns] by auto
  have d: "distinct ns" "distinct xs"
    using assms xs(4) by (simp_all add: distinct_map)
  have "mset xs = mset ns" if "length xs = length ns"
  proof -
    have "set xs = set ns"
      using d xs(2) that by (metis List.finite_set card_subset_eq distinct_card)
    with d show ?thesis by (simp add: set_eq_iff_mset_eq_distinct)
  qed
  moreover have "length xs = length ns" if "mset ys = mset ns" "runnable es m [] ys" for ys
  proof -
    have ids: "wn_id ` set ys \<subseteq> set (map wn_id xs)"
      by (rule runnable_within_fixed[OF xs(5) _ that(2)]) (use that(1) in \<open>auto dest: mset_eq_setD\<close>)
    have "set ys = set ns" using that(1) by (rule mset_eq_setD)
    with ids xs(2) have "wn_id ` set xs = wn_id ` set ns" by auto
    then show ?thesis
      using assms xs(4) by (metis distinct_card length_map list.set_map)
  qed
  ultimately show ?thesis using xs(1,3) by auto
qed

text \<open>What the producers' map holds: the outputs of the nodes.\<close>

lemma produced_of_update:
  "produced_of (AList.update a v m) b = (if a = b then v else produced_of m b)"
  by (simp add: produced_of_def update_conv')

lemma add_outputs_spec:
  "add_outputs i cs m = Inr m' \<Longrightarrow>
   set (produced_of m' a) = set (produced_of m a) \<union> {(i, wc_kind c) | c. c \<in> set cs \<and> wc_name c = a}"
proof (induction i cs m rule: add_outputs.induct)
  case (2 i c cs m)
  then show ?case by (auto simp: Let_def produced_of_update split: if_splits)
qed simp

lemma collect_producers_spec:
  "collect_producers ns m = Inr m' \<Longrightarrow>
   set (produced_of m' a) =
     set (produced_of m a) \<union> {(wn_id n, wc_kind c) | n c. n \<in> set ns \<and> c \<in> set (wn_outputs n) \<and> wc_name c = a}"
proof (induction ns m rule: collect_producers.induct)
  case (2 n ns m)
  then obtain m1 where m1: "add_outputs (wn_id n) (wn_outputs n) m = Inr m1" "collect_producers ns m1 = Inr m'"
    by (auto split: sum.splits)
  show ?case
    using "2.IH"[OF m1(1) m1(2)] add_outputs_spec[OF m1(1), of a] by auto
qed simp

text \<open>
  The meaning of a first traversal, said without the validator: the nodes run one after the other, each
  an entry node or after one of its predecessors, and each required input was produced, with its kind,
  by another node that ran before and from which the edges lead here.
\<close>

definition supplies :: "wf_edge list \<Rightarrow> wf_node \<Rightarrow> wf_node \<Rightarrow> wf_contract \<Rightarrow> bool" where
  "supplies es p n c \<longleftrightarrow>
     wn_id p \<noteq> wn_id n \<and> (wn_id p, wn_id n) \<in> (flow es)\<^sup>+ \<and>
     (\<exists>out\<in>set (wn_outputs p). wc_name out = wc_name c \<and> wc_kind out = wc_kind c)"

definition may_start :: "wf_edge list \<Rightarrow> wf_node set \<Rightarrow> wf_node \<Rightarrow> bool" where
  "may_start es prev n \<longleftrightarrow>
     ((\<forall>e\<in>set es. we_to e \<noteq> wn_id n) \<or> (\<exists>p\<in>prev. (wn_id p, wn_id n) \<in> flow es)) \<and>
     (\<forall>c\<in>set (required_inputs n). \<exists>p\<in>prev. supplies es p n c)"

fun first_traversal :: "wf_edge list \<Rightarrow> wf_node set \<Rightarrow> wf_node list \<Rightarrow> bool" where
  "first_traversal es prev [] = True"
| "first_traversal es prev (n # ns) \<longleftrightarrow> may_start es prev n \<and> first_traversal es (insert n prev) ns"

lemma inbound_0: "inbound es i = 0 \<longleftrightarrow> (\<forall>e\<in>set es. we_to e \<noteq> i)"
  by (auto simp: inbound_def filter_empty_conv)

lemma node_ready_iff:
  assumes m: "collect_producers ns [] = Inr m" and d: "distinct (map wn_id ns)"
    and prev: "set prev \<subseteq> set ns"
  shows "node_ready es m (map wn_id prev) n \<longleftrightarrow> may_start es (set prev) n"
proof -
  have inj: "p \<in> set prev" if "p \<in> set ns" "wn_id p \<in> wn_id ` set prev" for p
    using d that prev by (auto simp: distinct_map dest: inj_onD)
  have prod: "(i, k) \<in> set (produced_of m a) \<longleftrightarrow>
      (\<exists>p\<in>set ns. i = wn_id p \<and> (\<exists>c\<in>set (wn_outputs p). wc_name c = a \<and> wc_kind c = k))" for i k a
    using collect_producers_spec[OF m, of a] by (auto simp: produced_of_def)
  have "list_ex (\<lambda>p. fst p \<noteq> wn_id n \<and> snd p = wc_kind c \<and> fst p \<in> set (map wn_id prev) \<and> can_reach es (fst p) (wn_id n))
      (produced_of m (wc_name c)) \<longleftrightarrow> (\<exists>p\<in>set prev. supplies es p n c)" (is "?L \<longleftrightarrow> ?R") for c
  proof
    assume ?L
    then obtain i k where ik: "(i, k) \<in> set (produced_of m (wc_name c))" "i \<noteq> wn_id n" "k = wc_kind c"
      "i \<in> wn_id ` set prev" "(i, wn_id n) \<in> (flow es)\<^sup>+"
      by (auto simp: list_ex_iff can_reach_iff)
    then obtain p where p: "p \<in> set ns" "i = wn_id p" "\<exists>c'\<in>set (wn_outputs p). wc_name c' = wc_name c \<and> wc_kind c' = k"
      unfolding prod by blast
    have "p \<in> set prev" by (rule inj) (use ik(4) p in auto)
    moreover have "supplies es p n c" using ik p unfolding supplies_def by auto
    ultimately show ?R by blast
  next
    assume ?R
    then obtain p where p: "p \<in> set prev" "supplies es p n c" by blast
    then have "(wn_id p, wc_kind c) \<in> set (produced_of m (wc_name c))"
      using prev p unfolding prod supplies_def by (intro bexI[of _ p]) auto
    moreover have "wn_id p \<noteq> wn_id n" "can_reach es (wn_id p) (wn_id n)" "wn_id p \<in> set (map wn_id prev)"
      using p by (auto simp: can_reach_iff supplies_def)
    ultimately show ?L unfolding list_ex_iff by (intro bexI[of _ "(wn_id p, wc_kind c)"]) simp_all
  qed
  moreover have "dependency_ready es (map wn_id prev) n \<longleftrightarrow>
      (\<forall>e\<in>set es. we_to e \<noteq> wn_id n) \<or> (\<exists>p\<in>set prev. (wn_id p, wn_id n) \<in> flow es)"
    unfolding dependency_ready_def inbound_0 list_ex_iff flow_iff by auto
  ultimately show ?thesis
    unfolding node_ready_def inputs_ready_def may_start_def by (simp add: list_all_iff)
qed

lemma runnable_first_traversal:
  assumes "collect_producers ns [] = Inr m" "distinct (map wn_id ns)" "set prev \<subseteq> set ns" "set xs \<subseteq> set ns"
  shows "runnable es m (map wn_id prev) xs \<longleftrightarrow> first_traversal es (set prev) xs"
  using assms(3,4)
proof (induction xs arbitrary: prev)
  case (Cons x xs)
  then show ?case
    using node_ready_iff[OF assms(1,2) Cons.prems(1)] Cons.IH[of "prev @ [x]"] by simp
qed simp

lemma collect_not_deadlock: "collect_producers ns m \<noteq> Inl WfDeadlock"
proof (induction ns m rule: collect_producers.induct)
  case (2 n ns m)
  have "add_outputs i cs m' \<noteq> Inl WfDeadlock" for i cs m'
    by (induction i cs m' rule: add_outputs.induct) (simp_all add: Let_def)
  with 2 this[of "wn_id n" "wn_outputs n" m] show ?case by (auto split: sum.splits)
qed simp

lemma inputs_not_deadlock: "check_inputs es m ns \<noteq> Some WfDeadlock"
  by (induction es m ns rule: check_inputs.induct) (auto split: option.splits wf_stop.splits)

lemma check_graph_deadlock_iff:
  assumes "distinct (map wn_id ns)" "check_graph ns es = None \<or> check_graph ns es = Some WfDeadlock"
  shows "check_graph ns es = None \<longleftrightarrow> (\<exists>xs. mset xs = mset ns \<and> first_traversal es {} xs)"
proof -
  obtain m where m: "collect_producers ns [] = Inr m"
    and c: "check_graph ns es = (if length (schedulable_loop es m ns []) \<noteq> length ns then Some WfDeadlock else None)"
    using assms(2) collect_not_deadlock[of ns "[]"] inputs_not_deadlock[of es _ ns]
    by (cases "collect_producers ns []") (auto simp: check_graph_def split: if_splits option.splits)
  have "runnable es m [] xs \<longleftrightarrow> first_traversal es {} xs" if "mset xs = mset ns" for xs
    using runnable_first_traversal[OF m assms(1), of "[]" xs] mset_eq_setD[OF that] by simp
  then show ?thesis
    unfolding c using schedulable_iff[OF assms(1), of es m] by auto
qed

section \<open>Accepted definitions\<close>

lemma check_edges_ends:
  "check_edges nodes seen vs = None \<Longrightarrow> v \<in> set vs \<Longrightarrow>
   we_from (decode_edge v) \<in> wn_id ` set nodes \<and> we_to (decode_edge v) \<in> wn_id ` set nodes"
proof (induction nodes seen vs rule: check_edges.induct)
  case (2 nodes seen w vs)
  have ok: "edge_shape_ok (map wn_id nodes) seen w"
    using "2.prems"(1) by (simp split: if_splits)
  then have "we_from (decode_edge w) \<in> wn_id ` set nodes \<and> we_to (decode_edge w) \<in> wn_id ` set nodes"
    by (auto simp: edge_shape_ok_def string_such_def decode_edge_def str_field_def split: option.splits)
  moreover have "check_edges nodes (we_id (decode_edge w) # seen) vs = None"
    using "2.prems"(1) ok by (simp add: Let_def split: if_splits)
  ultimately show ?case
    using "2.IH"[of "decode_edge w"] ok "2.prems" by (auto simp: Let_def split: if_splits)
qed simp

lemma distinct_dedup_length: "length (js_dedup xs) = length xs \<Longrightarrow> distinct xs"
  by (metis card_distinct distinct_card distinct_js_dedup set_js_dedup)

lemma validate_workflow_None:
  assumes "validate_workflow_definition num v = None"
  defines "ns \<equiv> map decode_node (list_field v ''nodes'')" and "es \<equiv> map decode_edge (list_field v ''edges'')"
  shows "distinct (map wn_id ns)" "flow es \<subseteq> wn_id ` set ns \<times> wn_id ` set ns" "check_graph ns es = None"
proof -
  have c: "length (js_dedup (map wn_id ns)) = length ns" "check_edges ns [] (list_field v ''edges'') = None"
    "check_graph ns es = None"
    using assms(1) unfolding validate_workflow_definition_def Let_def ns_def[symmetric] es_def[symmetric]
    by (auto split: if_splits option.splits)
  show "distinct (map wn_id ns)"
    using distinct_dedup_length[of "map wn_id ns"] c(1) by simp
  show "flow es \<subseteq> wn_id ` set ns \<times> wn_id ` set ns"
    using check_edges_ends[OF c(2)] by (auto simp: flow_def es_def)
  show "check_graph ns es = None" by (rule c(3))
qed

lemma check_graph_reachable:
  assumes "check_graph ns es = None" "distinct (map wn_id ns)" "flow es \<subseteq> wn_id ` set ns \<times> wn_id ` set ns"
  shows "(flow es)\<^sup>* `` set (roots es ns) = wn_id ` set ns"
proof -
  let ?r = "reachable_loop es (js_dedup (roots es ns))"
  have r: "distinct ?r" "set ?r = (flow es)\<^sup>* `` set (roots es ns)"
    using reachable_loop_spec[of "js_dedup (roots es ns)" es] by simp_all
  have "length ?r = length ns"
    using assms(1) by (simp add: check_graph_def split: if_splits)
  then have "card (set ?r) = card (wn_id ` set ns)"
    using distinct_card[OF r(1)] distinct_card[OF assms(2)] by simp
  moreover have "set ?r \<subseteq> wn_id ` set ns"
  proof -
    have "(x, y) \<in> (flow es)\<^sup>* \<Longrightarrow> x \<in> wn_id ` set ns \<Longrightarrow> y \<in> wn_id ` set ns" for x y
      by (induction rule: rtrancl_induct) (use assms(3) in auto)
    moreover have "set (roots es ns) \<subseteq> wn_id ` set ns" by (auto simp: roots_def)
    ultimately show ?thesis unfolding r(2) by blast
  qed
  ultimately show ?thesis unfolding r(2)[symmetric] by (intro card_subset_eq) auto
qed

text \<open>
  C21: An accepted workflow can run. Its nodes have distinct identifiers, every edge joins two of them,
  the entry nodes lead to every node and to nothing else, and there is an order of all nodes in which
  each one starts at an entry or after a predecessor, with every required input produced before.
\<close>

theorem accepted_workflows_can_run:
  assumes "validate_workflow_definition num v = None"
  shows "let ns = map decode_node (list_field v ''nodes''); es = map decode_edge (list_field v ''edges'')
         in distinct (map wn_id ns) \<and> flow es \<subseteq> wn_id ` set ns \<times> wn_id ` set ns \<and>
            (flow es)\<^sup>* `` set (roots es ns) = wn_id ` set ns \<and>
            (\<exists>xs. mset xs = mset ns \<and> first_traversal es {} xs)"
proof -
  note v = validate_workflow_None[OF assms]
  show ?thesis
    using v check_graph_reachable[OF v(3,1,2)] check_graph_deadlock_iff[OF v(1)] unfolding Let_def by blast
qed

definition wf_agent_node :: "string \<Rightarrow> string \<Rightarrow> string \<Rightarrow> string \<Rightarrow> json list \<Rightarrow> json list \<Rightarrow> (string \<times> json) list \<Rightarrow> json" where
  "wf_agent_node i role agent prompt ins outs rest =
     JObj ([(''nodeId'', JStr i), (''kind'', JStr ''agent''), (''role'', JStr role), (''agentId'', JStr agent),
       (''prompt'', JStr prompt), (''inputs'', JArr ins), (''outputs'', JArr outs),
       (''retry'', JObj [(''maxAttempts'', JNum 2), (''backoffMs'', JNum 1000)]), (''timeoutMs'', JNum 3600000)] @ rest)"

definition wf_artifact :: "string \<Rightarrow> string \<Rightarrow> json" where
  "wf_artifact n k = JObj [(''name'', JStr n), (''kind'', JStr k)]"

definition wf_edge_json :: "string \<Rightarrow> string \<Rightarrow> string \<Rightarrow> string \<Rightarrow> json" where
  "wf_edge_json i a b c = JObj [(''edgeId'', JStr i), (''from'', JStr a), (''to'', JStr b), (''on'', JStr c)]"

definition BUILD_REVIEW_WORKFLOW :: json where
  "BUILD_REVIEW_WORKFLOW = JObj
     [(''name'', JStr ''Build and independent review''),
      (''description'', JStr ''Claude builds, Codex reviews, and Claude addresses findings until accepted or capped.''),
      (''maxTransitions'', JNum 24),
      (''nodes'', JArr
        [wf_agent_node ''build'' ''builder'' ''claude'' ''Implement the requested change and publish a patch artifact.''
           [] [wf_artifact ''implementation_patch'' ''patch''] [],
         wf_agent_node ''review'' ''reviewer'' ''codex'' ''Review the implementation independently and publish a report and structured verdict.''
           [wf_artifact ''implementation_patch'' ''patch'']
           [wf_artifact ''review_report'' ''review_report'', wf_artifact ''review_verdict'' ''verdict'']
           [(''stopCondition'', JObj [(''kind'', JStr ''verdict''), (''artifact'', JStr ''review_verdict''),
              (''outcomes'', JArr [JStr ''accepted'', JStr ''changes_requested'', JStr ''rejected''])])],
         wf_agent_node ''address'' ''remediator'' ''claude'' ''Address the independent review findings and publish an updated patch.''
           [wf_artifact ''review_report'' ''review_report''] [wf_artifact ''implementation_patch'' ''patch''] []]),
      (''edges'', JArr
        [wf_edge_json ''build_to_review'' ''build'' ''review'' ''success'',
         wf_edge_json ''review_to_address'' ''review'' ''address'' ''changes_requested'',
         wf_edge_json ''address_to_review'' ''address'' ''review'' ''success''])]"

text \<open>The built-in build and review workflow is accepted, so it can run, review loop and all.\<close>

theorem accepted_workflows_can_run_witness:
  "validate_workflow_definition (\<lambda>q. ''0'') BUILD_REVIEW_WORKFLOW = None \<and>
   (let ns = map decode_node (list_field BUILD_REVIEW_WORKFLOW ''nodes'');
        es = map decode_edge (list_field BUILD_REVIEW_WORKFLOW ''edges'')
    in \<exists>xs. mset xs = mset ns \<and> first_traversal es {} xs)"
proof
  show ok: "validate_workflow_definition (\<lambda>q. ''0'') BUILD_REVIEW_WORKFLOW = None" by code_simp
  show "let ns = map decode_node (list_field BUILD_REVIEW_WORKFLOW ''nodes'');
        es = map decode_edge (list_field BUILD_REVIEW_WORKFLOW ''edges'')
    in \<exists>xs. mset xs = mset ns \<and> first_traversal es {} xs"
    using accepted_workflows_can_run[OF ok] unfolding Let_def by blast
qed

text \<open>
  The deadlock answer is exact. Once the other checks of the graph pass, the validator accepts
  exactly if some order of the nodes is a first traversal, so it rejects no workflow that could start
  and lets none through that is stuck on its own artifacts.
\<close>

theorem deadlock_answer_is_exact:
  assumes "distinct (map wn_id ns)" "check_graph ns es \<in> {None, Some WfDeadlock}"
  shows "check_graph ns es = Some WfDeadlock \<longleftrightarrow> \<not> (\<exists>xs. mset xs = mset ns \<and> first_traversal es {} xs)"
  using assms check_graph_deadlock_iff[OF assms(1), of es] by auto

text \<open>A consumer whose only producer runs after it.\<close>

definition stuck_nodes :: "wf_node list" where
  "stuck_nodes =
     [\<lparr>wn_id = ''start'', wn_inputs = [], wn_outputs = [], wn_stop = NoStop\<rparr>,
      \<lparr>wn_id = ''a'', wn_inputs = [\<lparr>wc_name = ''x'', wc_kind = ''patch'', wc_required = True\<rparr>], wn_outputs = [], wn_stop = NoStop\<rparr>,
      \<lparr>wn_id = ''b'', wn_inputs = [], wn_outputs = [\<lparr>wc_name = ''x'', wc_kind = ''patch'', wc_required = True\<rparr>], wn_stop = NoStop\<rparr>]"

definition stuck_edges :: "wf_edge list" where
  "stuck_edges =
     [\<lparr>we_id = ''e1'', we_from = ''start'', we_to = ''a'', we_on = ''success''\<rparr>,
      \<lparr>we_id = ''e2'', we_from = ''a'', we_to = ''b'', we_on = ''success''\<rparr>,
      \<lparr>we_id = ''e3'', we_from = ''b'', we_to = ''a'', we_on = ''success''\<rparr>]"

theorem deadlock_answer_is_exact_witness:
  "check_graph stuck_nodes stuck_edges = Some WfDeadlock \<and>
   (\<nexists>xs. mset xs = mset stuck_nodes \<and> first_traversal stuck_edges {} xs)"
proof
  show dead: "check_graph stuck_nodes stuck_edges = Some WfDeadlock" by code_simp
  have "distinct (map wn_id stuck_nodes)" by code_simp
  then show "\<nexists>xs. mset xs = mset stuck_nodes \<and> first_traversal stuck_edges {} xs"
    using deadlock_answer_is_exact[of stuck_nodes stuck_edges] dead by simp
qed

end
