(* ===== verification/Ndjson_Buffer.thy ===== *)
theory Ndjson_Buffer
  imports Json
begin

text \<open>
  The bounded line buffer over an agent's stdout (\<open>apps/runner/src/bounded-ndjson.ts\<close>): it frames
  newline-delimited text without keeping more than a maximum of bytes, and discards an oversized record
  through its newline. The two callbacks are its outputs, in order.
\<close>

record ndjson =
  nd_buffer :: string
  nd_bytes :: int
  nd_discarding :: bool

definition nd_empty :: ndjson where
  "nd_empty = \<lparr>nd_buffer = [], nd_bytes = 0, nd_discarding = False\<rparr>"

datatype nd_output = Line string | Overflow

text \<open>\<open>Buffer.byteLength\<close>: the length in UTF-8.\<close>

definition char_bytes :: "char \<Rightarrow> int" where
  "char_bytes c = (if (of_char c :: nat) < 128 then 1 else 2)"

definition byte_length :: "string \<Rightarrow> int" where
  "byte_length s = sum_list (map char_bytes s)"

definition newline :: char where
  "newline = CHR 0x0A"

text \<open>One segment, up to the next newline or the end of the chunk.\<close>

definition nd_segment :: "int \<Rightarrow> ndjson \<Rightarrow> string \<Rightarrow> ndjson \<times> nd_output list" where
  "nd_segment mx b seg =
     (if nd_discarding b then (b, [])
      else if byte_length seg > mx - nd_bytes b
      then (\<lparr>nd_buffer = [], nd_bytes = 0, nd_discarding = True\<rparr>, [Overflow])
      else (b\<lparr>nd_buffer := nd_buffer b @ seg, nd_bytes := nd_bytes b + byte_length seg\<rparr>, []))"

function nd_push :: "int \<Rightarrow> ndjson \<Rightarrow> string \<Rightarrow> ndjson \<times> nd_output list" where
  "nd_push mx b chunk =
     (if chunk = [] then (b, [])
      else let seg = takeWhile (\<lambda>c. c \<noteq> newline) chunk;
               rest = dropWhile (\<lambda>c. c \<noteq> newline) chunk;
               (b1, os1) = nd_segment mx b seg
           in if rest = [] then (b1, os1)
              else let os2 = (if nd_discarding b1 then [] else [Line (nd_buffer b1)]);
                       (b3, os3) = nd_push mx nd_empty (tl rest)
                   in (b3, os1 @ os2 @ os3))"
  by auto

termination
proof (relation "measure (\<lambda>(mx, b, chunk). length chunk)")
  fix mx :: int and b :: ndjson and chunk seg rest p
  assume rest: "rest = dropWhile (\<lambda>c. c \<noteq> newline) chunk" "rest \<noteq> []"
  have "length (tl rest) < length rest" using rest(2) by (cases rest) auto
  also have "length rest \<le> length chunk" unfolding rest(1) by (rule length_dropWhile_le)
  finally show "((mx, nd_empty, tl rest), (mx, b, chunk)) \<in> measure (\<lambda>(mx, b, chunk). length chunk)"
    by simp
qed simp

declare nd_push.simps [simp del]

definition nd_take_trailing :: "ndjson \<Rightarrow> ndjson \<times> string" where
  "nd_take_trailing b = (nd_empty, if nd_discarding b then [] else nd_buffer b)"

definition nd_reset :: "ndjson \<Rightarrow> ndjson" where
  "nd_reset b = nd_empty"

section \<open>Character by character\<close>

text \<open>The buffer's contract, one character at a time.\<close>

definition nd_char :: "int \<Rightarrow> ndjson \<Rightarrow> char \<Rightarrow> ndjson \<times> nd_output list" where
  "nd_char mx b c =
     (if c = newline then (nd_empty, if nd_discarding b then [] else [Line (nd_buffer b)])
      else if nd_discarding b then (b, [])
      else if nd_bytes b + char_bytes c > mx
      then (\<lparr>nd_buffer = [], nd_bytes = 0, nd_discarding = True\<rparr>, [Overflow])
      else (b\<lparr>nd_buffer := nd_buffer b @ [c], nd_bytes := nd_bytes b + char_bytes c\<rparr>, []))"

lemma byte_length_simps [simp]: "byte_length [] = 0" "byte_length (c # s) = char_bytes c + byte_length s"
  "byte_length (s @ t) = byte_length s + byte_length t"
  by (simp_all add: byte_length_def)

lemma char_bytes_pos: "0 < char_bytes c"
  by (simp add: char_bytes_def)

lemma byte_length_nonneg: "0 \<le> byte_length s"
  by (induction s) (auto simp: char_bytes_def)

lemma run_discarding:
  "newline \<notin> set seg \<Longrightarrow> nd_discarding b \<Longrightarrow> run_out (nd_char mx) b seg = (b, [])"
  by (induction seg) (auto simp: nd_char_def)

definition nd_fits :: "int \<Rightarrow> ndjson \<Rightarrow> bool" where
  "nd_fits mx b \<longleftrightarrow> nd_bytes b = byte_length (nd_buffer b) \<and> nd_bytes b \<le> mx"

lemma nd_segment_chars:
  "newline \<notin> set seg \<Longrightarrow> nd_fits mx b \<Longrightarrow> nd_segment mx b seg = run_out (nd_char mx) b seg"
proof (induction seg arbitrary: b)
  case Nil
  then show ?case by (simp add: nd_segment_def nd_fits_def)
next
  case (Cons c seg)
  show ?case
  proof (cases "nd_discarding b")
    case True
    then show ?thesis using Cons.prems run_discarding[of "c # seg" b mx] by (simp add: nd_segment_def)
  next
    case False
    have pos: "0 \<le> byte_length seg" by (rule byte_length_nonneg)
    show ?thesis
    proof (cases "nd_bytes b + char_bytes c > mx")
      case True
      let ?d = "\<lparr>nd_buffer = [], nd_bytes = 0, nd_discarding = True\<rparr>"
      have "run_out (nd_char mx) ?d seg = (?d, [])"
        by (rule run_discarding) (use Cons.prems in auto)
      then show ?thesis
        using True False pos Cons.prems by (auto simp: nd_segment_def nd_char_def[of mx b c])
    next
      case fits: False
      let ?b = "b\<lparr>nd_buffer := nd_buffer b @ [c], nd_bytes := nd_bytes b + char_bytes c\<rparr>"
      have "nd_segment mx ?b seg = run_out (nd_char mx) ?b seg"
        using Cons fits by (intro Cons.IH) (auto simp: nd_fits_def)
      then show ?thesis
        using False fits Cons.prems by (auto simp: nd_segment_def nd_char_def[of mx b c] algebra_simps)
    qed
  qed
qed

lemma nd_fits_empty: "0 \<le> mx \<Longrightarrow> nd_fits mx nd_empty"
  by (simp add: nd_fits_def nd_empty_def)

lemma nd_char_fits: "0 \<le> mx \<Longrightarrow> nd_fits mx b \<Longrightarrow> nd_fits mx (fst (nd_char mx b c))"
  by (auto simp: nd_char_def nd_fits_def nd_empty_def)

lemma run_chars_fits: "0 \<le> mx \<Longrightarrow> nd_fits mx b \<Longrightarrow> nd_fits mx (fst (run_out (nd_char mx) b cs))"
proof (induction cs arbitrary: b)
  case (Cons c cs)
  then show ?case using nd_char_fits[of mx b c] by (auto simp: case_prod_beta Let_def)
qed simp

lemma nd_push_chars:
  "0 \<le> mx \<Longrightarrow> nd_fits mx b \<Longrightarrow> nd_push mx b chunk = run_out (nd_char mx) b chunk"
proof (induction mx b chunk rule: nd_push.induct)
  case (1 mx b chunk)
  show ?case
  proof (cases "chunk = []")
    case True
    then show ?thesis by (simp add: nd_push.simps)
  next
    case nonempty: False
    let ?seg = "takeWhile (\<lambda>c. c \<noteq> newline) chunk" and ?rest = "dropWhile (\<lambda>c. c \<noteq> newline) chunk"
    obtain b1 os1 where seg: "nd_segment mx b ?seg = (b1, os1)" by (cases "nd_segment mx b ?seg")
    have "newline \<notin> set ?seg" by (auto dest: set_takeWhileD)
    then have chars: "run_out (nd_char mx) b ?seg = (b1, os1)"
      using nd_segment_chars "1.prems" seg by metis
    show ?thesis
    proof (cases ?rest)
      case Nil
      then have "chunk = ?seg" using takeWhile_dropWhile_id[of "\<lambda>c. c \<noteq> newline" chunk] by (metis append_Nil2)
      then show ?thesis using seg chars Nil nonempty by (simp add: nd_push.simps[of mx b chunk])
    next
      case (Cons c rest)
      have c: "c = newline" using hd_dropWhile[of "\<lambda>c. c \<noteq> newline" chunk] Cons by simp
      have chunk: "chunk = ?seg @ newline # rest"
        using takeWhile_dropWhile_id[of "\<lambda>c. c \<noteq> newline" chunk] unfolding Cons c by simp
      have IH: "nd_push mx nd_empty rest = run_out (nd_char mx) nd_empty rest"
        using "1.IH"[OF nonempty refl refl seg[symmetric] refl] Cons nd_fits_empty "1.prems" by simp
      have "run_out (nd_char mx) b chunk =
          (let (s', os) = run_out (nd_char mx) b ?seg; (s'', os') = run_out (nd_char mx) s' (newline # rest) in (s'', os @ os'))"
        by (subst chunk) (rule run_out_append)
      also have "\<dots> = nd_push mx b chunk"
        using seg IH nonempty Cons unfolding chars
        by (simp add: nd_push.simps[of mx b chunk] nd_char_def[of mx _ newline] case_prod_beta Let_def)
      finally show ?thesis ..
    qed
  qed
qed

lemma nd_push_fits: "0 \<le> mx \<Longrightarrow> nd_fits mx b \<Longrightarrow> nd_fits mx (fst (nd_push mx b chunk))"
  by (simp add: nd_push_chars run_chars_fits)

text \<open>However the stream is cut into chunks, pushing them is running over its characters.\<close>

lemma run_chunks_chars:
  "0 \<le> mx \<Longrightarrow> nd_fits mx b \<Longrightarrow> run_out (nd_push mx) b chunks = run_out (nd_char mx) b (concat chunks)"
proof (induction chunks arbitrary: b)
  case (Cons c cs)
  have "run_out (nd_push mx) (fst (nd_push mx b c)) cs = run_out (nd_char mx) (fst (nd_push mx b c)) (concat cs)"
    using Cons nd_push_fits by blast
  then show ?case
    using Cons.prems by (simp add: run_out_append nd_push_chars case_prod_beta Let_def)
qed simp

section \<open>The records of the stream\<close>

text \<open>
  What a stream holds, said without a buffer: a complete record of at most the limit is a line, a
  larger one is dropped with one report, and an unterminated last record is reported once it is too
  large.
\<close>

definition record_output :: "int \<Rightarrow> string \<Rightarrow> nd_output" where
  "record_output mx r = (if byte_length r \<le> mx then Line r else Overflow)"

definition stream_outputs :: "int \<Rightarrow> string \<Rightarrow> nd_output list" where
  "stream_outputs mx s =
     (let rs = split_on newline s
      in map (record_output mx) (butlast rs) @ (if byte_length (last rs) \<le> mx then [] else [Overflow]))"

lemma run_record:
  assumes "newline \<notin> set r" "0 \<le> mx"
  shows "run_out (nd_char mx) nd_empty r =
    (if byte_length r \<le> mx then (\<lparr>nd_buffer = r, nd_bytes = byte_length r, nd_discarding = False\<rparr>, [])
     else (\<lparr>nd_buffer = [], nd_bytes = 0, nd_discarding = True\<rparr>, [Overflow]))"
  using nd_segment_chars[OF assms(1) nd_fits_empty[OF assms(2)]] by (auto simp: nd_segment_def nd_empty_def)

lemma run_stream_outputs:
  "0 \<le> mx \<Longrightarrow> snd (run_out (nd_char mx) nd_empty s) = stream_outputs mx s"
proof (induction "length s" arbitrary: s rule: less_induct)
  case less
  show ?case
  proof (cases "newline \<in> set s")
    case False
    then show ?thesis
      using run_record[OF False less.prems] by (simp add: stream_outputs_def split_on_none)
  next
    case True
    then obtain r t where s: "s = r @ newline # t" "newline \<notin> set r"
      by (meson split_list_first)
    have IH: "snd (run_out (nd_char mx) nd_empty t) = stream_outputs mx t"
      by (rule less.hyps) (use s less.prems in auto)
    have "stream_outputs mx s = record_output mx r # stream_outputs mx t"
      unfolding s(1) using s(2) by (simp add: stream_outputs_def split_on_append split_on_none Let_def)
    moreover have "snd (run_out (nd_char mx) nd_empty s) = record_output mx r # snd (run_out (nd_char mx) nd_empty t)"
      unfolding s(1) run_out_append run_record[OF s(2) less.prems]
      by (simp add: nd_char_def[of mx _ newline] record_output_def case_prod_beta Let_def)
    ultimately show ?thesis using IH by simp
  qed
qed



end
