(* ===== verification/Json_Rpc.thy ===== *)
theory Json_Rpc
  imports Ndjson_Buffer
begin

text \<open>
  The JSON-RPC peer over an agent's stdio (\<open>apps/runner/src/jsonrpc.ts\<close>).

  An event is one entry of the code from outside: a call of a public method, a chunk of stdout, an
  error of stdin, a deadline timer, or the settlement of a handler's promise. What the peer does
  outwards is its outputs: settled promises, written messages, handler calls, transport reports. A
  write that may throw takes its outcome from the event (\<open>Some message\<close> where it throws). Pending
  requests are keyed by the identifier as it stands in a message. \<open>JSON.parse\<close> is an argument.
\<close>

section \<open>State\<close>

record rpc_error =
  re_code :: "json option"
  re_message :: "json option"
  re_data :: "json option"
  re_transport_failure :: bool
  re_request_timeout :: bool
  re_discarded_record :: bool
  re_method :: "string option"
  re_not_sent :: bool

definition local_error :: "int \<Rightarrow> string \<Rightarrow> rpc_error" where
  "local_error code msg =
     \<lparr>re_code = Some (JNum (of_int code)), re_message = Some (JStr msg), re_data = None,
      re_transport_failure = False, re_request_timeout = False, re_discarded_record = False,
      re_method = None, re_not_sent = False\<rparr>"

record rpc_pending =
  rq_method :: string
  rq_timer :: "rat option"
  rq_fail_on_discarded :: bool

record rpc_peer =
  rp_next_id :: int
  rp_pending :: "(json \<times> rpc_pending) list"
  rp_request_handlers :: "string list"
  rp_notification_handlers :: "string list"
  rp_input :: ndjson
  rp_closed :: bool
  rp_down :: bool

definition rpc_init :: rpc_peer where
  "rpc_init = \<lparr>rp_next_id = 1, rp_pending = [], rp_request_handlers = [], rp_notification_handlers = [],
     rp_input = nd_empty, rp_closed = False, rp_down = False\<rparr>"

text \<open>
  \<open>Refused\<close> is a promise rejected before it had an identifier; \<open>Issued\<close> gives one its identifier.
  \<open>Uncaught\<close> is an exception out of the stdout listener, on which the runner shuts down.
\<close>

datatype rpc_output =
    Refused rpc_error
  | Issued json
  | Resolved json "json option"
  | Rejected json rpc_error
  | Wrote json
  | TransportError string
  | HandleRequest string "json option" json
  | HandleNotification string "json option"
  | Uncaught

datatype deadline = At rat | NotFinite

section \<open>Failing requests\<close>

definition reject_all :: "rpc_error \<Rightarrow> rpc_peer \<Rightarrow> rpc_output list" where
  "reject_all err s = map (\<lambda>(i, p). Rejected i err) (rp_pending s)"

definition transport_error :: "string \<Rightarrow> rpc_error" where
  "transport_error msg = (local_error (- 32000) msg)\<lparr>re_transport_failure := True\<rparr>"

definition fail_transport :: "string \<Rightarrow> rpc_peer \<Rightarrow> rpc_peer \<times> rpc_output list" where
  "fail_transport err s =
     (if rp_closed s then (s, [])
      else (s\<lparr>rp_closed := True, rp_pending := []\<rparr>,
            reject_all (transport_error (''transport failed: '' @ err)) s @ [TransportError err]))"

definition rpc_dispose :: "string \<Rightarrow> rpc_peer \<Rightarrow> rpc_peer \<times> rpc_output list" where
  "rpc_dispose reason s =
     (s\<lparr>rp_closed := True, rp_pending := []\<rparr>, reject_all (transport_error reason) s)"

definition discarded_error :: "string \<Rightarrow> rpc_error" where
  "discarded_error m =
     (local_error (- 32003) (''discarded an oversized JSON-RPC record while awaiting '' @ m))
       \<lparr>re_transport_failure := True, re_discarded_record := True, re_method := Some m\<rparr>"

definition fail_discard_sensitive :: "rpc_peer \<Rightarrow> rpc_peer \<times> rpc_output list" where
  "fail_discard_sensitive s =
     (s\<lparr>rp_pending := filter (\<lambda>(i, p). \<not> rq_fail_on_discarded p) (rp_pending s)\<rparr>,
      map (\<lambda>(i, p). Rejected i (discarded_error (rq_method p)))
        (filter (\<lambda>(i, p). rq_fail_on_discarded p) (rp_pending s)))"

definition rpc_write :: "json \<Rightarrow> string option \<Rightarrow> rpc_peer \<Rightarrow> rpc_peer \<times> rpc_output list" where
  "rpc_write obj w s =
     (if rp_closed s then (s, [])
      else case w of None \<Rightarrow> (s, [Wrote obj]) | Some err \<Rightarrow> fail_transport err s)"

section \<open>Requests\<close>

definition opt_field :: "string \<Rightarrow> json option \<Rightarrow> (string \<times> json) list" where
  "opt_field k v = (case v of None \<Rightarrow> [] | Some x \<Rightarrow> [(k, x)])"

definition closed_error :: "string \<Rightarrow> rpc_error" where
  "closed_error m = (local_error (- 32000) (''connection closed (cannot call '' @ m @ '')''))
     \<lparr>re_transport_failure := True, re_not_sent := True\<rparr>"

definition expired_error :: "string \<Rightarrow> rpc_error" where
  "expired_error m = (local_error (- 32002) (''request deadline exceeded (cannot call '' @ m @ '')''))
     \<lparr>re_request_timeout := True, re_not_sent := True, re_method := Some m\<rparr>"

definition timeout_error :: "string \<Rightarrow> rpc_error" where
  "timeout_error m = (local_error (- 32002) (''request deadline exceeded ('' @ m @ '')''))
     \<lparr>re_request_timeout := True, re_method := Some m\<rparr>"

text \<open>\<open>now\<close> is the clock at the check, \<open>now2\<close> when the timer is armed.\<close>

definition rpc_request ::
    "string \<Rightarrow> json option \<Rightarrow> deadline option \<Rightarrow> bool \<Rightarrow> rat \<Rightarrow> rat \<Rightarrow> string option \<Rightarrow> rpc_peer \<Rightarrow> rpc_peer \<times> rpc_output list" where
  "rpc_request m params dl fail_on_discarded now now2 w s =
     (if rp_closed s then (s, [Refused (closed_error m)])
      else if (case dl of None \<Rightarrow> False | Some NotFinite \<Rightarrow> True | Some (At d) \<Rightarrow> d \<le> now)
      then (s, [Refused (expired_error m)])
      else let i = JNum (of_int (rp_next_id s));
               timer = (case dl of Some (At d) \<Rightarrow> Some (min (max 0 (d - now2)) 2147483647) | _ \<Rightarrow> None);
               p = \<lparr>rq_method = m, rq_timer = timer, rq_fail_on_discarded = fail_on_discarded\<rparr>;
               s1 = s\<lparr>rp_next_id := rp_next_id s + 1, rp_pending := AList.update i p (rp_pending s)\<rparr>;
               (s2, os) = rpc_write (JObj ([(''jsonrpc'', JStr ''2.0''), (''id'', i), (''method'', JStr m)] @
                                      opt_field ''params'' params)) w s1
           in (s2, Issued i # os))"

definition rpc_timer_fires :: "json \<Rightarrow> rpc_peer \<Rightarrow> rpc_peer \<times> rpc_output list" where
  "rpc_timer_fires i s =
     (case map_of (rp_pending s) i of
        None \<Rightarrow> (s, [])
      | Some p \<Rightarrow> if rq_timer p = None then (s, [])
          else (s\<lparr>rp_pending := AList.delete i (rp_pending s)\<rparr>, [Rejected i (timeout_error (rq_method p))]))"

definition rpc_notify :: "string \<Rightarrow> json option \<Rightarrow> string option \<Rightarrow> rpc_peer \<Rightarrow> rpc_peer \<times> rpc_output list" where
  "rpc_notify m params w s =
     rpc_write (JObj ([(''jsonrpc'', JStr ''2.0''), (''method'', JStr m)] @ opt_field ''params'' params)) w s"

section \<open>Incoming messages\<close>

text \<open>\<open>inboundError\<close>: the three wire fields and none of the local markers.\<close>

definition inbound_error :: "json option \<Rightarrow> rpc_error" where
  "inbound_error e =
     \<lparr>re_code = jprop e ''code'', re_message = jprop e ''message'', re_data = jprop e ''data'',
      re_transport_failure = False, re_request_timeout = False, re_discarded_record = False,
      re_method = None, re_not_sent = False\<rparr>"

definition rpc_dispatch :: "json \<Rightarrow> string option \<Rightarrow> rpc_peer \<Rightarrow> rpc_peer \<times> rpc_output list" where
  "rpc_dispatch msg w s =
     (if msg = JNull then (s\<lparr>rp_down := True\<rparr>, [Uncaught])
      else let f = jprop (Some msg); m = f ''method'' in
        if f ''id'' \<noteq> None \<and> (f ''result'' \<noteq> None \<or> f ''error'' \<noteq> None) then
          (let i = the (f ''id'') in
           case map_of (rp_pending s) i of
             None \<Rightarrow> (s, [])
           | Some p \<Rightarrow>
               (s\<lparr>rp_pending := AList.delete i (rp_pending s)\<rparr>,
                [if \<not> falsy (f ''error'') then Rejected i (inbound_error (f ''error'')) else Resolved i (f ''result'')]))
        else if \<not> falsy m \<and> f ''id'' \<noteq> None then
          (case as_string m of
             Some name \<Rightarrow>
               if name \<in> set (rp_request_handlers s) then (s, [HandleRequest name (f ''params'') (the (f ''id''))])
               else rpc_write (JObj [(''jsonrpc'', JStr ''2.0''), (''id'', the (f ''id'')),
                      (''error'', JObj [(''code'', JNum (- 32601)), (''message'', JStr ''method not found'')])]) w s
           | None \<Rightarrow> rpc_write (JObj [(''jsonrpc'', JStr ''2.0''), (''id'', the (f ''id'')),
                      (''error'', JObj [(''code'', JNum (- 32601)), (''message'', JStr ''method not found'')])]) w s)
        else (case as_string m of
             Some name \<Rightarrow>
               if name \<noteq> [] \<and> name \<in> set (rp_notification_handlers s) then (s, [HandleNotification name (f ''params'')])
               else (s, [])
           | None \<Rightarrow> (s, [])))"

definition process_line :: "(string \<Rightarrow> json option) \<Rightarrow> string \<Rightarrow> string option \<Rightarrow> rpc_peer \<Rightarrow> rpc_peer \<times> rpc_output list" where
  "process_line parse raw w s =
     (let line = js_trim raw
      in if line = [] then (s, [])
         else case parse line of None \<Rightarrow> (s, []) | Some msg \<Rightarrow> rpc_dispatch msg w s)"

definition on_overflow :: "rpc_peer \<Rightarrow> rpc_peer \<times> rpc_output list" where
  "on_overflow s =
     and_then (\<lambda>s. (s, [TransportError ''discarded oversized JSON-RPC stdout record''])) fail_discard_sensitive s"

fun on_records :: "(string \<Rightarrow> json option) \<Rightarrow> nd_output list \<Rightarrow> string option list \<Rightarrow> rpc_peer \<Rightarrow> rpc_peer \<times> rpc_output list" where
  "on_records parse [] ws s = (s, [])"
| "on_records parse (r # rs) ws s =
     (if rp_down s then (s, [])
      else and_then
             (case r of Line l \<Rightarrow> process_line parse l (case ws of [] \<Rightarrow> None | w # _ \<Rightarrow> w) | Overflow \<Rightarrow> on_overflow)
             (on_records parse rs (tl ws)) s)"

definition rpc_data :: "(string \<Rightarrow> json option) \<Rightarrow> int \<Rightarrow> string \<Rightarrow> string option list \<Rightarrow> rpc_peer \<Rightarrow> rpc_peer \<times> rpc_output list" where
  "rpc_data parse mx chunk ws s =
     (let (b, rs) = nd_push mx (rp_input s) chunk in on_records parse rs ws (s\<lparr>rp_input := b\<rparr>))"

text \<open>The settlement of an incoming request's handler.\<close>

definition handler_result :: "json \<Rightarrow> json option \<Rightarrow> string option \<Rightarrow> rpc_peer \<Rightarrow> rpc_peer \<times> rpc_output list" where
  "handler_result i r w s =
     rpc_write (JObj [(''jsonrpc'', JStr ''2.0''), (''id'', i), (''result'', case r of None \<Rightarrow> JNull | Some v \<Rightarrow> v)]) w s"

definition handler_error :: "json \<Rightarrow> string \<Rightarrow> string option \<Rightarrow> rpc_peer \<Rightarrow> rpc_peer \<times> rpc_output list" where
  "handler_error i msg w s =
     rpc_write (JObj [(''jsonrpc'', JStr ''2.0''), (''id'', i),
       (''error'', JObj [(''code'', JNum (- 32000)), (''message'', JStr msg)])]) w s"

section \<open>Runs\<close>

datatype rpc_event =
    Request string "json option" "deadline option" bool rat rat "string option"
  | Notify string "json option" "string option"
  | Data string "string option list"
  | StdinError string
  | TimerFires json
  | Dispose string
  | HandlerResult json "json option" "string option"
  | HandlerError json string "string option"
  | OnRequest string
  | OnNotification string

fun rpc_act :: "(string \<Rightarrow> json option) \<Rightarrow> int \<Rightarrow> rpc_event \<Rightarrow> rpc_peer \<Rightarrow> rpc_peer \<times> rpc_output list" where
  "rpc_act parse mx (Request m p dl f n n2 w) s = rpc_request m p dl f n n2 w s"
| "rpc_act parse mx (Notify m p w) s = rpc_notify m p w s"
| "rpc_act parse mx (Data chunk ws) s = rpc_data parse mx chunk ws s"
| "rpc_act parse mx (StdinError err) s = fail_transport err s"
| "rpc_act parse mx (TimerFires i) s = rpc_timer_fires i s"
| "rpc_act parse mx (Dispose reason) s = rpc_dispose reason s"
| "rpc_act parse mx (HandlerResult i r w) s = handler_result i r w s"
| "rpc_act parse mx (HandlerError i e w) s = handler_error i e w s"
| "rpc_act parse mx (OnRequest m) s = (s\<lparr>rp_request_handlers := List.insert m (rp_request_handlers s)\<rparr>, [])"
| "rpc_act parse mx (OnNotification m) s = (s\<lparr>rp_notification_handlers := List.insert m (rp_notification_handlers s)\<rparr>, [])"

text \<open>After an uncaught exception the process is gone.\<close>

definition rpc_step :: "(string \<Rightarrow> json option) \<Rightarrow> int \<Rightarrow> rpc_peer \<Rightarrow> rpc_event \<Rightarrow> rpc_peer \<times> rpc_output list" where
  "rpc_step parse mx s e = (if rp_down s then (s, []) else rpc_act parse mx e s)"

section \<open>Accounting of requests\<close>

definition pending_ids :: "rpc_peer \<Rightarrow> json list" where
  "pending_ids s = map fst (rp_pending s)"

fun issued1 :: "rpc_output \<Rightarrow> json list" where
  "issued1 (Issued i) = [i]"
| "issued1 _ = []"

fun settled1 :: "rpc_output \<Rightarrow> json list" where
  "settled1 (Resolved i v) = [i]"
| "settled1 (Rejected i e) = [i]"
| "settled1 _ = []"

definition issued :: "rpc_output list \<Rightarrow> json list" where
  "issued os = concat (map issued1 os)"

definition settled :: "rpc_output list \<Rightarrow> json list" where
  "settled os = concat (map settled1 os)"

lemma issued_simps [simp]: "issued [] = []" "issued (x # os) = issued1 x @ issued os" "issued (as @ bs) = issued as @ issued bs"
  by (simp_all add: issued_def)

lemma settled_simps [simp]: "settled [] = []" "settled (x # os) = settled1 x @ settled os" "settled (as @ bs) = settled as @ settled bs"
  by (simp_all add: settled_def)

text \<open>The identifiers handed out so far.\<close>

definition used_id :: "rpc_peer \<Rightarrow> json \<Rightarrow> bool" where
  "used_id s i \<longleftrightarrow> (\<exists>n. i = JNum (of_int n) \<and> 1 \<le> n \<and> n < rp_next_id s)"

definition rpc_good :: "rpc_peer \<Rightarrow> bool" where
  "rpc_good s \<longleftrightarrow> distinct (pending_ids s) \<and> list_all (used_id s) (pending_ids s) \<and> 1 \<le> rp_next_id s \<and>
     (rp_closed s \<longrightarrow> rp_pending s = [])"

text \<open>What a step that hands out no identifier does to the pending requests: it settles what it drops.\<close>

definition settles :: "rpc_peer \<Rightarrow> rpc_peer \<times> rpc_output list \<Rightarrow> bool" where
  "settles s r \<longleftrightarrow>
     rp_next_id (fst r) = rp_next_id s \<and> issued (snd r) = [] \<and> rpc_good (fst r) \<and>
     mset (pending_ids (fst r)) + mset (settled (snd r)) = mset (pending_ids s)"

lemma settlesD:
  "settles s r \<Longrightarrow> rpc_good (fst r)" "settles s r \<Longrightarrow> rp_next_id (fst r) = rp_next_id s"
  by (simp_all add: settles_def)

lemma settles_and_then:
  assumes "settles s (f s)" "settles (fst (f s)) (g (fst (f s)))"
  shows "settles s (and_then f g s)"
  using assms unfolding settles_def by (simp add: add.assoc add.commute add.left_commute)

lemma settles_same:
  assumes "rpc_good s" "rp_pending t = rp_pending s" "rp_next_id t = rp_next_id s" "rp_closed t = rp_closed s"
    "issued os = []" "settled os = []"
  shows "settles s (t, os)"
  using assms by (simp add: settles_def rpc_good_def pending_ids_def used_id_def list_all_iff)

lemma settled_rejects: "settled (map (\<lambda>(i, p). Rejected i (g p)) m) = map fst m"
  "issued (map (\<lambda>(i, p). Rejected i (g p)) m) = []"
  by (induction m) auto

lemma settles_close:
  assumes "rpc_good s" "issued os = []" "settled os = []"
  shows "settles s (s\<lparr>rp_closed := True, rp_pending := []\<rparr>, reject_all err s @ os)"
  using assms settled_rejects[of "\<lambda>p. err" "rp_pending s"]
  by (simp add: settles_def rpc_good_def pending_ids_def reject_all_def)

lemma settles_fail_transport: "rpc_good s \<Longrightarrow> settles s (fail_transport err s)"
  unfolding fail_transport_def by (simp add: settles_close settles_same)

lemma settles_dispose: "rpc_good s \<Longrightarrow> settles s (rpc_dispose reason s)"
  using settles_close[of s "[]"] by (simp add: rpc_dispose_def)

lemma settles_write: "rpc_good s \<Longrightarrow> settles s (rpc_write obj w s)"
  by (simp add: rpc_write_def settles_same settles_fail_transport split: option.splits)

lemma settles_delete:
  assumes "rpc_good s" "map_of (rp_pending s) i = Some p" "issued os = []" "settled os = [i]"
  shows "settles s (s\<lparr>rp_pending := AList.delete i (rp_pending s)\<rparr>, os)"
proof -
  have d: "distinct (pending_ids s)" using assms(1) by (simp add: rpc_good_def)
  have keys: "pending_ids (s\<lparr>rp_pending := AList.delete i (rp_pending s)\<rparr>) = remove1 i (pending_ids s)"
    using d by (simp add: pending_ids_def delete_keys distinct_remove1_removeAll)
  have "i \<in> set (pending_ids s)" using assms(2) by (force simp: pending_ids_def dest: map_of_SomeD)
  then have "mset (remove1 i (pending_ids s)) + {#i#} = mset (pending_ids s)"
    by (simp add: insert_DiffM)
  then show ?thesis
    using assms d unfolding settles_def
    by (auto simp: rpc_good_def keys list_all_iff used_id_def dest: notin_set_remove1 set_remove1_subset[THEN subsetD])
qed

lemma mset_split_filter: "mset (map fst (filter P m)) + mset (map fst (filter (\<lambda>x. \<not> P x) m)) = mset (map fst m)"
  by (induction m) auto

lemma settles_discard:
  assumes "rpc_good s"
  shows "settles s (fail_discard_sensitive s)"
proof -
  let ?P = "\<lambda>(i, p). rq_fail_on_discarded p"
  have neg: "(\<lambda>(i, p). \<not> rq_fail_on_discarded p) = (\<lambda>x. \<not> ?P x)" by auto
  have "set (map fst (filter Q (rp_pending s))) \<subseteq> set (map fst (rp_pending s))" for Q by auto
  moreover have "distinct (map fst (filter Q (rp_pending s)))" for Q
    using assms by (auto simp: rpc_good_def pending_ids_def distinct_map inj_on_def)
  ultimately show ?thesis
    using assms mset_split_filter[of "\<lambda>x. \<not> ?P x" "rp_pending s"]
    unfolding fail_discard_sensitive_def neg settles_def
    by (auto simp: settled_rejects rpc_good_def pending_ids_def list_all_iff used_id_def)
qed

lemma settles_timer: "rpc_good s \<Longrightarrow> settles s (rpc_timer_fires i s)"
  by (auto simp: rpc_timer_fires_def settles_same intro: settles_delete split: option.splits)

lemma settles_dispatch: "rpc_good s \<Longrightarrow> settles s (rpc_dispatch msg w s)"
  unfolding rpc_dispatch_def Let_def
  by (auto simp: settles_same settles_write intro: settles_delete split: option.splits)

lemma settles_line: "rpc_good s \<Longrightarrow> settles s (process_line parse raw w s)"
  by (simp add: process_line_def settles_dispatch settles_same Let_def split: option.splits)

lemma settles_overflow: "rpc_good s \<Longrightarrow> settles s (on_overflow s)"
  unfolding on_overflow_def by (rule settles_and_then) (simp_all add: settles_same settles_discard)

lemma settles_records: "rpc_good s \<Longrightarrow> settles s (on_records parse rs ws s)"
proof (induction parse rs ws s rule: on_records.induct)
  case (2 parse r rs ws s)
  let ?f = "case r of Line l \<Rightarrow> process_line parse l (case ws of [] \<Rightarrow> None | w # _ \<Rightarrow> w) | Overflow \<Rightarrow> on_overflow"
  have f: "settles s (?f s)"
    using 2(2) by (cases r) (simp_all add: settles_line settles_overflow)
  have "settles s (and_then ?f (on_records parse rs (tl ws)) s)" if "\<not> rp_down s"
  proof (rule settles_and_then[where f = "?f", OF f])
    show "settles (fst (?f s)) (on_records parse rs (tl ws) (fst (?f s)))"
      by (rule "2.IH") (use that settlesD(1)[OF f] in auto)
  qed
  then show ?case using 2(2) by (simp add: settles_same)
qed (simp add: settles_same)

lemma settles_data: "rpc_good s \<Longrightarrow> settles s (rpc_data parse mx chunk ws s)"
proof -
  assume s: "rpc_good s"
  obtain b rs where b: "nd_push mx (rp_input s) chunk = (b, rs)" by (cases "nd_push mx (rp_input s) chunk")
  have "settles s (s\<lparr>rp_input := b\<rparr>, [])" using s by (rule settles_same) simp_all
  then have "settles (s\<lparr>rp_input := b\<rparr>) (on_records parse rs ws (s\<lparr>rp_input := b\<rparr>))"
    by (intro settles_records) (auto dest: settlesD)
  then show ?thesis by (simp add: rpc_data_def b settles_def pending_ids_def)
qed

text \<open>A step hands out at most the next identifier, and keeps the account.\<close>

definition accounted :: "rpc_peer \<Rightarrow> rpc_peer \<times> rpc_output list \<Rightarrow> bool" where
  "accounted s r \<longleftrightarrow>
     rpc_good (fst r) \<and> rp_next_id s \<le> rp_next_id (fst r) \<and>
     mset (pending_ids (fst r)) + mset (settled (snd r)) = mset (pending_ids s) + mset (issued (snd r)) \<and>
     issued (snd r) = map (\<lambda>n. JNum (of_int n)) [rp_next_id s..rp_next_id (fst r) - 1]"

lemma settles_accounted: "settles s r \<Longrightarrow> accounted s r"
  by (simp add: settles_def accounted_def)

lemma accounted_request:
  assumes "rpc_good s"
  shows "accounted s (rpc_request m params dl fd n n2 w s)"
proof -
  let ?i = "JNum (of_int (rp_next_id s)) :: json"
  have fresh: "?i \<notin> set (pending_ids s)"
    using assms by (auto simp: rpc_good_def list_all_iff used_id_def)
  then have none: "map_of (rp_pending s) ?i = None"
    by (simp add: pending_ids_def map_of_eq_None_iff)
  have written: "accounted s (s2, Issued ?i # os)"
    if w: "rpc_write obj w (s\<lparr>rp_next_id := rp_next_id s + 1, rp_pending := AList.update ?i p (rp_pending s)\<rparr>) = (s2, os)"
      and open_s: "\<not> rp_closed s" for obj p s2 os
  proof -
    let ?s1 = "s\<lparr>rp_next_id := rp_next_id s + 1, rp_pending := AList.update ?i p (rp_pending s)\<rparr>"
    have ids: "pending_ids ?s1 = pending_ids s @ [?i]"
      by (simp add: pending_ids_def alist_update_new[OF none])
    have "rpc_good ?s1"
      using assms fresh open_s unfolding rpc_good_def ids by (auto simp: list_all_iff used_id_def)
    then have "settles ?s1 (s2, os)" using settles_write w by metis
    then show ?thesis
      unfolding settles_def ids by (simp add: accounted_def upto_rec1)
  qed
  have same: "accounted s (s, [Refused e])" for e
    by (rule settles_accounted) (use assms in \<open>simp add: settles_same\<close>)
  show ?thesis
    unfolding rpc_request_def Let_def using same written by (auto split: prod.splits)
qed

lemma accounted_step:
  assumes "rpc_good s"
  shows "accounted s (rpc_step parse mx s e)"
proof -
  have "accounted s (rpc_act parse mx e s)"
    using assms settles_write[OF assms]
    by (cases e)
      (simp_all add: accounted_request settles_accounted settles_data settles_fail_transport settles_timer
        settles_dispose settles_same rpc_notify_def handler_result_def handler_error_def)
  moreover have "accounted s (s, [])"
    by (rule settles_accounted) (use assms in \<open>simp add: settles_same\<close>)
  ultimately show ?thesis by (simp add: rpc_step_def)
qed

interpretation rpc: emitting_machine "rpc_step parse mx" rpc_good
  by unfold_locales (use accounted_step accounted_def in blast)

lemma rpc_init_good: "rpc_good rpc_init"
  by (simp add: rpc_good_def rpc_init_def pending_ids_def)

lemma accounted_run:
  "rpc_good s \<Longrightarrow> accounted s (run_out (rpc_step parse mx) s es)"
proof (induction es arbitrary: s)
  case Nil
  then show ?case by (simp add: accounted_def)
next
  case (Cons e es)
  note step = accounted_step[OF Cons.prems, of parse mx e]
  let ?s = "fst (rpc_step parse mx s e)" and ?os = "snd (rpc_step parse mx s e)"
  have rest: "accounted ?s (run_out (rpc_step parse mx) ?s es)"
    by (rule Cons.IH) (use step in \<open>simp add: accounted_def\<close>)
  let ?r = "run_out (rpc_step parse mx) ?s es"
  have run: "run_out (rpc_step parse mx) s (e # es) = (fst ?r, ?os @ snd ?r)"
    by (simp add: case_prod_beta Let_def)
  have "[rp_next_id s..rp_next_id (fst ?r) - 1] = [rp_next_id s..rp_next_id ?s - 1] @ [rp_next_id ?s..rp_next_id (fst ?r) - 1]"
    using step rest upto_split1[of "rp_next_id s" "rp_next_id ?s" "rp_next_id (fst ?r) - 1"]
    unfolding accounted_def by (smt (verit) append_self_conv upto_empty)
  then show ?case
    using step rest unfolding run accounted_def by (auto simp: ac_simps) 
qed

text \<open>
  C8: Every request is settled once. In any run, the identifiers handed out are 1, 2, 3 and so on;
  each of them is either still pending or was settled exactly once, by a response, a deadline, a
  discarded record, a broken transport or the disposal of the peer; and once the peer is closed
  nothing is left pending.
\<close>

theorem requests_settle_exactly_once:
  "let (s, os) = run_out (rpc_step parse mx) rpc_init es
   in issued os = map (\<lambda>n. JNum (of_int n)) [1..rp_next_id s - 1] \<and>
      mset (map fst (rp_pending s)) + mset (settled os) = mset (issued os) \<and>
      distinct (map fst (rp_pending s) @ settled os) \<and>
      (if rp_closed s then rp_pending s = [] else True)"
proof -
  obtain s os where r: "run_out (rpc_step parse mx) rpc_init es = (s, os)"
    by (cases "run_out (rpc_step parse mx) rpc_init es")
  have acc: "accounted rpc_init (s, os)"
    using accounted_run[OF rpc_init_good, of parse mx es] unfolding r .
  have init: "rp_next_id rpc_init = 1" "pending_ids rpc_init = []"
    by (simp_all add: rpc_init_def pending_ids_def)
  have iss: "issued os = map (\<lambda>n. JNum (of_int n)) [1..rp_next_id s - 1]"
    using acc unfolding accounted_def init by simp
  have bal: "mset (pending_ids s @ settled os) = mset (issued os)"
    using acc unfolding accounted_def init by simp
  have "distinct (issued os)" unfolding iss by (simp add: distinct_map inj_on_def)
  then have "distinct (pending_ids s @ settled os)"
    using bal by (metis mset_eq_imp_distinct_iff)
  then show ?thesis
    using iss bal acc unfolding r accounted_def init by (simp add: pending_ids_def rpc_good_def)
qed

section \<open>Delivery markers\<close>

text \<open>A rejection as the agent's own error: none of the markers the peer adds.\<close>

definition unmarked :: "rpc_error \<Rightarrow> bool" where
  "unmarked e \<longleftrightarrow> \<not> re_transport_failure e \<and> \<not> re_request_timeout e \<and> \<not> re_discarded_record e \<and>
     re_method e = None \<and> \<not> re_not_sent e"

fun marked_right :: "rpc_output \<Rightarrow> bool" where
  "marked_right (Rejected i e) = (\<not> re_not_sent e)"
| "marked_right (Refused e) = re_not_sent e"
| "marked_right _ = True"

definition right :: "rpc_peer \<times> rpc_output list \<Rightarrow> bool" where
  "right r \<longleftrightarrow> list_all marked_right (snd r)"

lemma right_and_then: "right (f s) \<Longrightarrow> right (g (fst (f s))) \<Longrightarrow> right (and_then f g s)"
  by (simp add: right_def)

lemma error_markers [simp]:
  "\<not> re_not_sent (transport_error m)" "\<not> re_not_sent (discarded_error m)" "\<not> re_not_sent (timeout_error m)"
  "\<not> re_not_sent (inbound_error e)" "re_not_sent (closed_error m)" "re_not_sent (expired_error m)" "unmarked (inbound_error e)"
  by (simp_all add: transport_error_def discarded_error_def timeout_error_def inbound_error_def closed_error_def
      expired_error_def local_error_def unmarked_def)

lemma right_fail: "right (fail_transport err s)"
  by (auto simp: right_def fail_transport_def reject_all_def list_all_iff)

lemma right_write: "right (rpc_write obj w s)"
  using right_fail by (auto simp: right_def rpc_write_def split: option.splits)

lemma right_dispatch: "right (rpc_dispatch msg w s)"
  using right_write unfolding rpc_dispatch_def Let_def by (auto simp: right_def split: option.splits)

lemma right_line: "right (process_line parse raw w s)"
  using right_dispatch by (auto simp: right_def process_line_def Let_def split: option.splits)

lemma right_overflow: "right (on_overflow s)"
  by (auto simp: right_def on_overflow_def fail_discard_sensitive_def list_all_iff)

lemma right_records: "right (on_records parse rs ws s)"
proof (induction parse rs ws s rule: on_records.induct)
  case (2 parse r rs ws s)
  let ?f = "case r of Line l \<Rightarrow> process_line parse l (case ws of [] \<Rightarrow> None | w # _ \<Rightarrow> w) | Overflow \<Rightarrow> on_overflow"
  have f: "right (?f s)" by (cases r) (simp_all add: right_line right_overflow)
  have "right (and_then ?f (on_records parse rs (tl ws)) s)" if "\<not> rp_down s"
  proof (rule right_and_then[where f = "?f", OF f])
    show "right (on_records parse rs (tl ws) (fst (?f s)))"
      by (rule "2.IH") (use that in simp)
  qed
  then show ?case by (simp add: right_def)
qed (simp add: right_def)

lemma right_request: "right (rpc_request m params dl fd n n2 w s)"
  using right_write unfolding rpc_request_def Let_def right_def
  by (auto split: prod.splits) (metis snd_conv)

lemma right_step: "right (rpc_step parse mx s e)"
proof -
  have "right (rpc_act parse mx e s)"
  proof (cases e)
    case (Data chunk ws)
    then show ?thesis using right_records by (simp add: rpc_data_def case_prod_beta)
  next
    case (TimerFires i)
    then show ?thesis by (auto simp: right_def rpc_timer_fires_def split: option.splits)
  next
    case (Dispose r)
    then show ?thesis by (auto simp: right_def rpc_dispose_def reject_all_def list_all_iff)
  qed (simp_all add: right_request right_fail right_write rpc_notify_def handler_result_def handler_error_def,
       simp_all add: right_def)
  then show ?thesis by (simp add: rpc_step_def right_def)
qed

lemma right_run: "right (run_out (rpc_step parse mx) s es)"
proof (induction es arbitrary: s)
  case (Cons e es)
  show ?case
    using right_step[of parse mx s e] Cons[of "fst (rpc_step parse mx s e)"]
    by (simp add: right_def case_prod_beta Let_def)
qed (simp add: right_def)

lemma dispatch_unmarked:
  "list_all (\<lambda>x. case x of Rejected i e \<Rightarrow> unmarked e | _ \<Rightarrow> True) (snd (rpc_dispatch msg None s))"
  unfolding rpc_dispatch_def Let_def by (auto simp: rpc_write_def split: option.splits)

text \<open>C31: 
  The delivery markers can be trusted. A promise carries the not-sent marker exactly when it was
  refused before it had an identifier, and then nothing was written and nothing changed, so such a
  request is safe to retry; a request that may have reached the agent never carries it. And a rejection
  made of the agent's own error carries none of the peer's markers, whatever the agent sent.
\<close>

theorem delivery_markers_are_local:
  "list_all marked_right (snd (run_out (rpc_step parse mx) s es)) \<and>
   list_all (\<lambda>x. case x of Rejected i e \<Rightarrow> unmarked e | _ \<Rightarrow> True) (snd (rpc_dispatch msg None s)) \<and>
   (case rpc_step parse mx s (Request m params dl fd n n2 w) of
      (s', Refused e # os) \<Rightarrow> s' = s \<and> os = [] \<and> re_not_sent e
    | _ \<Rightarrow> True)"
proof (intro conjI)
  show "list_all marked_right (snd (run_out (rpc_step parse mx) s es))"
    using right_run unfolding right_def .
  show "list_all (\<lambda>x. case x of Rejected i e \<Rightarrow> unmarked e | _ \<Rightarrow> True) (snd (rpc_dispatch msg None s))"
    by (rule dispatch_unmarked)
  show "case rpc_step parse mx s (Request m params dl fd n n2 w) of
      (s', Refused e # os) \<Rightarrow> s' = s \<and> os = [] \<and> re_not_sent e | _ \<Rightarrow> True"
    by (auto simp: rpc_step_def rpc_request_def Let_def split: prod.splits list.splits rpc_output.splits if_splits)
qed

text \<open>
  A stdout line holding the JSON value null is parsed and dispatched, and reading its fields throws out
  of the stream's listener.
\<close>

lemma null_line_is_uncaught:
  assumes "parse ''null'' = Some JNull" "4 \<le> mx"
  shows "snd (rpc_step parse mx rpc_init (Data (''null'' @ [newline]) [])) = [Uncaught]"
proof -
  have push: "nd_push mx nd_empty (''null'' @ [newline]) = run_out (nd_char mx) nd_empty (''null'' @ [newline])"
    using assms(2) by (intro nd_push_chars nd_fits_empty) simp_all
  have outs: "snd (run_out (nd_char mx) nd_empty (''null'' @ [newline])) = [Line ''null'']"
    using run_stream_outputs[of mx "''null'' @ [newline]"] assms(2)
    by (simp add: stream_outputs_def record_output_def newline_def char_bytes_def)
  have "snd (nd_push mx nd_empty (''null'' @ [newline])) = [Line ''null'']"
    unfolding push by (rule outs)
  moreover have "js_trim ''null'' = ''null''" by code_simp
  ultimately show ?thesis
    using assms(1)
    by (simp add: rpc_step_def rpc_data_def case_prod_beta process_line_def rpc_dispatch_def rpc_init_def Let_def)
qed

end
