(* ===== verification/Command_Authority.thy ===== *)
theory Command_Authority
  imports Json
begin

text \<open>
  The registry of provider commands a runner may invoke for a session
  (\<open>apps/runner/src/session-command-authority.ts\<close>).

  A catalogue's fingerprint is the list of the fields that go into the JSON text of the code, which is
  that list written out. The fresh identifiers of a refresh (\<open>randomUUID\<close>) are its arguments. Of a
  session snapshot only what the overlay reads and writes is kept.
\<close>

section \<open>Commands and catalogues\<close>

datatype execution_mode = Passthrough | Structured

record invocation =
  iv_id :: string
  iv_revision :: string
  iv_mode :: execution_mode

record slash_command =
  sc_name :: string
  sc_source :: string
  sc_description :: "string option"
  sc_hint :: "string option"
  sc_invocation :: "invocation option"

record authorized_command =
  ac_command :: slash_command
  ac_id :: string

type_synonym fingerprint = "(string \<times> string \<times> string option \<times> string option) list"

record catalog =
  ca_revision :: string
  ca_fingerprint :: fingerprint
  ca_provenance :: string
  ca_mode :: execution_mode
  ca_commands :: "authorized_command list"

definition command_without_invocation :: "slash_command \<Rightarrow> slash_command" where
  "command_without_invocation c =
     \<lparr>sc_name = sc_name c, sc_source = sc_source c, sc_description = sc_description c, sc_hint = sc_hint c,
      sc_invocation = None\<rparr>"

definition normalize_catalog :: "slash_command list \<Rightarrow> slash_command list" where
  "normalize_catalog cs = map command_without_invocation cs"

definition catalog_fingerprint :: "slash_command list \<Rightarrow> fingerprint" where
  "catalog_fingerprint cs = map (\<lambda>c. (sc_name c, sc_source c, sc_description c, sc_hint c)) cs"

definition with_invocation :: "slash_command \<Rightarrow> string \<Rightarrow> string \<Rightarrow> execution_mode \<Rightarrow> slash_command" where
  "with_invocation c i rvn mode = c\<lparr>sc_invocation := Some \<lparr>iv_id = i, iv_revision = rvn, iv_mode = mode\<rparr>\<rparr>"

definition overlay_commands :: "catalog \<Rightarrow> slash_command list" where
  "overlay_commands ca =
     map (\<lambda>a. with_invocation (ac_command a) (ac_id a) (ca_revision ca) (ca_mode ca)) (ca_commands ca)"

section \<open>The registry\<close>

type_synonym registry = "(string \<times> catalog) list"

definition same_catalog :: "catalog \<Rightarrow> fingerprint \<Rightarrow> string \<Rightarrow> execution_mode \<Rightarrow> bool" where
  "same_catalog ca fp prov mode \<longleftrightarrow> ca_fingerprint ca = fp \<and> ca_provenance ca = prov \<and> ca_mode ca = mode"

text \<open>\<open>rvn\<close> and \<open>ids\<close> are the fresh identifiers, one for each command.\<close>

definition ca_refresh ::
    "string \<Rightarrow> slash_command list \<Rightarrow> string \<Rightarrow> execution_mode \<Rightarrow> string \<Rightarrow> string list \<Rightarrow> registry \<Rightarrow> registry \<times> slash_command list" where
  "ca_refresh sid cmds prov mode rvn ids m =
     (let normalized = normalize_catalog cmds; fp = catalog_fingerprint normalized;
          new = \<lparr>ca_revision = ''catalog_'' @ rvn, ca_fingerprint = fp, ca_provenance = prov, ca_mode = mode,
            ca_commands = map2 (\<lambda>c i. \<lparr>ac_command = c, ac_id = ''command_'' @ i\<rparr>) normalized ids\<rparr>
      in case map_of m sid of
           Some ca \<Rightarrow> if same_catalog ca fp prov mode then (m, overlay_commands ca)
                      else (AList.update sid new m, overlay_commands new)
         | None \<Rightarrow> (AList.update sid new m, overlay_commands new))"

definition ca_clear :: "string \<Rightarrow> registry \<Rightarrow> registry \<times> bool" where
  "ca_clear sid m = (AList.delete sid m, map_of m sid \<noteq> None)"

definition ca_clear_all :: "registry \<Rightarrow> registry" where
  "ca_clear_all m = []"

record resolve_request =
  rr_session :: string
  rr_command_id :: string
  rr_revision :: string
  rr_mode :: execution_mode

datatype authorization_error = CatalogStale | CommandUnavailable | ModeUnsupported

record authorization =
  au_command :: slash_command
  au_name :: string
  au_mode :: execution_mode

definition ca_resolve :: "registry \<Rightarrow> resolve_request \<Rightarrow> authorization_error + authorization" where
  "ca_resolve m r =
     (case map_of m (rr_session r) of
        None \<Rightarrow> Inl CommandUnavailable
      | Some ca \<Rightarrow>
          if rr_revision r \<noteq> ca_revision ca then Inl CatalogStale
          else case find (\<lambda>a. ac_id a = rr_command_id r) (ca_commands ca) of
                 None \<Rightarrow> Inl CommandUnavailable
               | Some a \<Rightarrow>
                   if rr_mode r \<noteq> ca_mode ca then Inl ModeUnsupported
                   else Inr \<lparr>au_command = ac_command a, au_name = sc_name (ac_command a), au_mode = ca_mode ca\<rparr>)"

section \<open>Snapshots\<close>

record 'a capabilities =
  cp_slash_commands :: "slash_command list option"
  cp_rest :: 'a

record 'a snapshot =
  sn_id :: string
  sn_capabilities :: "'a capabilities option"

definition SESSION_COMMAND_AUTHORITY_PROTOCOL_VERSION :: nat where
  "SESSION_COMMAND_AUTHORITY_PROTOCOL_VERSION = 75"

text \<open>\<open>fresh\<close> is the capabilities object with nothing but the commands.\<close>

definition overlay_snapshot :: "'a \<Rightarrow> registry \<Rightarrow> 'a snapshot \<Rightarrow> nat option \<Rightarrow> 'a snapshot" where
  "overlay_snapshot fresh m sn version =
     (let visible = (case sn_capabilities sn of None \<Rightarrow> None
            | Some cp \<Rightarrow> map_option (map command_without_invocation) (cp_slash_commands cp));
          commands = (case (version, map_of m (sn_id sn)) of
              (Some v, Some ca) \<Rightarrow>
                if v \<ge> SESSION_COMMAND_AUTHORITY_PROTOCOL_VERSION then Some (overlay_commands ca) else visible
            | _ \<Rightarrow> visible)
      in case sn_capabilities sn of
           None \<Rightarrow> (case commands of None \<Rightarrow> sn
                    | Some cs \<Rightarrow> sn\<lparr>sn_capabilities := Some \<lparr>cp_slash_commands = Some cs, cp_rest = fresh\<rparr>\<rparr>)
         | Some cp \<Rightarrow> (case commands of None \<Rightarrow> sn
                    | Some cs \<Rightarrow> sn\<lparr>sn_capabilities := Some (cp\<lparr>cp_slash_commands := Some cs\<rparr>)\<rparr>))"

section \<open>Runs\<close>

datatype ca_event =
    Refresh string "slash_command list" string execution_mode string "string list"
  | Clear string
  | ClearAll

fun ca_step :: "registry \<Rightarrow> ca_event \<Rightarrow> registry" where
  "ca_step m (Refresh sid cmds prov mode rvn ids) = fst (ca_refresh sid cmds prov mode rvn ids m)"
| "ca_step m (Clear sid) = fst (ca_clear sid m)"
| "ca_step m ClearAll = ca_clear_all m"

text \<open>The identifiers a refresh draws: one revision and an identifier for each command.\<close>

fun draws_enough :: "ca_event \<Rightarrow> bool" where
  "draws_enough (Refresh sid cmds prov mode rvn ids) \<longleftrightarrow> length ids = length cmds \<and> distinct ids"
| "draws_enough _ = True"

fun drawn_revision :: "ca_event \<Rightarrow> string list" where
  "drawn_revision (Refresh sid cmds prov mode rvn ids) = [rvn]"
| "drawn_revision _ = []"

definition drawn :: "ca_event list \<Rightarrow> string list" where
  "drawn es = concat (map drawn_revision es)"

text \<open>What each session was last refreshed with, and not cleared since.\<close>

fun latest1 :: "(string \<Rightarrow> (slash_command list \<times> string \<times> execution_mode) option) \<Rightarrow> ca_event \<Rightarrow>
    string \<Rightarrow> (slash_command list \<times> string \<times> execution_mode) option" where
  "latest1 f (Refresh sid cmds prov mode rvn ids) = f(sid := Some (cmds, prov, mode))"
| "latest1 f (Clear sid) = f(sid := None)"
| "latest1 f ClearAll = (\<lambda>_. None)"

definition latest :: "ca_event list \<Rightarrow> string \<Rightarrow> (slash_command list \<times> string \<times> execution_mode) option" where
  "latest es = foldl latest1 (\<lambda>_. None) es"

definition catalog_for :: "catalog \<Rightarrow> slash_command list \<times> string \<times> execution_mode \<Rightarrow> bool" where
  "catalog_for ca r \<longleftrightarrow>
     (case r of (cmds, prov, mode) \<Rightarrow>
        map ac_command (ca_commands ca) = normalize_catalog cmds \<and> ca_provenance ca = prov \<and> ca_mode ca = mode \<and>
        ca_fingerprint ca = catalog_fingerprint (normalize_catalog cmds) \<and> distinct (map ac_id (ca_commands ca)))"

definition tracks :: "registry \<Rightarrow> (string \<Rightarrow> (slash_command list \<times> string \<times> execution_mode) option) \<Rightarrow> bool" where
  "tracks m f \<longleftrightarrow> (\<forall>sid. rel_option catalog_for (map_of m sid) (f sid))"

lemma fingerprint_inject:
  "catalog_fingerprint (normalize_catalog xs) = catalog_fingerprint (normalize_catalog ys) \<longleftrightarrow>
   normalize_catalog xs = normalize_catalog ys"
  unfolding catalog_fingerprint_def normalize_catalog_def
  by (induction xs arbitrary: ys) (auto simp: command_without_invocation_def Cons_eq_map_conv)

lemma new_catalog_for:
  assumes "length ids = length cmds" "distinct ids"
  shows "catalog_for \<lparr>ca_revision = r, ca_fingerprint = catalog_fingerprint (normalize_catalog cmds), ca_provenance = prov,
     ca_mode = mode, ca_commands = map2 (\<lambda>c i. \<lparr>ac_command = c, ac_id = ''command_'' @ i\<rparr>) (normalize_catalog cmds) ids\<rparr>
     (cmds, prov, mode)"
proof -
  let ?cs = "map2 (\<lambda>c i. \<lparr>ac_command = c, ac_id = ''command_'' @ i\<rparr>) (normalize_catalog cmds) ids"
  have "map ac_command ?cs = normalize_catalog cmds"
    using assms(1) by (intro nth_equalityI) (auto simp: normalize_catalog_def)
  moreover have "map ac_id ?cs = map ((@) ''command_'') ids"
    using assms(1) by (intro nth_equalityI) (auto simp: normalize_catalog_def)
  ultimately show ?thesis
    using assms(2) by (simp add: catalog_for_def distinct_map inj_on_def)
qed

lemma tracks_update: "tracks m f \<Longrightarrow> catalog_for ca r \<Longrightarrow> tracks (AList.update sid ca m) (f(sid := Some r))"
  by (simp add: tracks_def update_conv')

lemma tracks_step:
  assumes "tracks m f" "draws_enough e"
  shows "tracks (ca_step m e) (latest1 f e)"
proof (cases e)
  case (Refresh sid cmds prov mode rvn ids)
  then have new: "catalog_for \<lparr>ca_revision = ''catalog_'' @ rvn, ca_fingerprint = catalog_fingerprint (normalize_catalog cmds),
      ca_provenance = prov, ca_mode = mode,
      ca_commands = map2 (\<lambda>c i. \<lparr>ac_command = c, ac_id = ''command_'' @ i\<rparr>) (normalize_catalog cmds) ids\<rparr> (cmds, prov, mode)"
    using assms(2) by (intro new_catalog_for) auto
  show ?thesis
  proof (cases "\<exists>ca. map_of m sid = Some ca \<and> same_catalog ca (catalog_fingerprint (normalize_catalog cmds)) prov mode")
    case True
    then obtain ca where ca: "map_of m sid = Some ca" "same_catalog ca (catalog_fingerprint (normalize_catalog cmds)) prov mode"
      by blast
    obtain r where r: "f sid = Some r" "catalog_for ca r"
      using assms(1) ca(1) unfolding tracks_def by (metis option_rel_Some1)
    have "catalog_for ca (cmds, prov, mode)"
      using r(2) ca(2) fingerprint_inject by (auto simp: catalog_for_def same_catalog_def split: prod.splits)
    then have "tracks m (f(sid := Some (cmds, prov, mode)))"
      using assms(1) ca(1) by (simp add: tracks_def)
    then show ?thesis using Refresh ca by (simp add: ca_refresh_def Let_def)
  next
    case False
    then have "ca_step m e = AList.update sid \<lparr>ca_revision = ''catalog_'' @ rvn,
      ca_fingerprint = catalog_fingerprint (normalize_catalog cmds), ca_provenance = prov, ca_mode = mode,
      ca_commands = map2 (\<lambda>c i. \<lparr>ac_command = c, ac_id = ''command_'' @ i\<rparr>) (normalize_catalog cmds) ids\<rparr> m"
      using Refresh by (auto simp: ca_refresh_def Let_def split: option.splits)
    then show ?thesis using tracks_update[OF assms(1) new] Refresh by simp
  qed
next
  case (Clear sid)
  then show ?thesis using assms(1) by (simp add: tracks_def ca_clear_def delete_conv')
qed (simp add: tracks_def ca_clear_all_def)

lemma tracks_run: "tracks m f \<Longrightarrow> list_all draws_enough es \<Longrightarrow> tracks (foldl ca_step m es) (foldl latest1 f es)"
  by (induction es arbitrary: m f) (auto intro: tracks_step)

lemma tracks_latest: "list_all draws_enough es \<Longrightarrow> tracks (foldl ca_step [] es) (latest es)"
  unfolding latest_def by (rule tracks_run) (simp_all add: tracks_def)

section \<open>Authority\<close>

text \<open>The commands a session shows with their authority.\<close>

definition offered :: "registry \<Rightarrow> string \<Rightarrow> slash_command list" where
  "offered m sid = (case map_of m sid of None \<Rightarrow> [] | Some ca \<Rightarrow> overlay_commands ca)"

lemma resolve_offered:
  assumes "tracks m f"
  shows "ca_resolve m r = Inr a \<longleftrightarrow>
    (\<exists>c\<in>set (offered m (rr_session r)).
       sc_invocation c = Some \<lparr>iv_id = rr_command_id r, iv_revision = rr_revision r, iv_mode = rr_mode r\<rparr> \<and>
       a = \<lparr>au_command = command_without_invocation c, au_name = sc_name c, au_mode = rr_mode r\<rparr>)"
proof (cases "map_of m (rr_session r)")
  case None
  then show ?thesis by (simp add: ca_resolve_def offered_def)
next
  case (Some ca)
  then obtain cmds prov mode where for_ca: "catalog_for ca (cmds, prov, mode)"
    using assms unfolding tracks_def by (metis option_rel_Some1 prod_cases3)
  have plain: "command_without_invocation (ac_command x) = ac_command x" if "x \<in> set (ca_commands ca)" for x
  proof -
    have "ac_command x \<in> set (map ac_command (ca_commands ca))" using that by simp
    moreover have "map ac_command (ca_commands ca) = normalize_catalog cmds" using for_ca by (simp add: catalog_for_def)
    ultimately have "ac_command x \<in> set (normalize_catalog cmds)" by (simp only:)
    then show ?thesis by (auto simp: normalize_catalog_def command_without_invocation_def)
  qed
  have uniq: "find (\<lambda>x. ac_id x = i) (ca_commands ca) = Some x \<longleftrightarrow> x \<in> set (ca_commands ca) \<and> ac_id x = i" for i x
  proof
    assume "find (\<lambda>x. ac_id x = i) (ca_commands ca) = Some x"
    then show "x \<in> set (ca_commands ca) \<and> ac_id x = i" by (rule find_SomeD)
  next
    assume x: "x \<in> set (ca_commands ca) \<and> ac_id x = i"
    then obtain y where y: "find (\<lambda>x. ac_id x = i) (ca_commands ca) = Some y"
      by (cases "find (\<lambda>x. ac_id x = i) (ca_commands ca)") (auto dest: find_NoneD)
    then have "y \<in> set (ca_commands ca)" "ac_id y = i" by (auto dest: find_SomeD)
    then have "y = x" using x for_ca by (auto simp: catalog_for_def distinct_map dest: inj_onD)
    with y show "find (\<lambda>x. ac_id x = i) (ca_commands ca) = Some x" by simp
  qed
  have "ca_resolve m r = Inr a \<longleftrightarrow> (\<exists>x. find (\<lambda>x. ac_id x = rr_command_id r) (ca_commands ca) = Some x \<and>
      rr_revision r = ca_revision ca \<and> rr_mode r = ca_mode ca \<and>
      a = \<lparr>au_command = ac_command x, au_name = sc_name (ac_command x), au_mode = ca_mode ca\<rparr>)"
    using Some by (auto simp: ca_resolve_def split: option.splits)
  also have "\<dots> \<longleftrightarrow> (\<exists>x\<in>set (ca_commands ca). ac_id x = rr_command_id r \<and> rr_revision r = ca_revision ca \<and>
      rr_mode r = ca_mode ca \<and> a = \<lparr>au_command = ac_command x, au_name = sc_name (ac_command x), au_mode = ca_mode ca\<rparr>)"
    unfolding uniq by blast
  also have "\<dots> \<longleftrightarrow> (\<exists>c\<in>set (offered m (rr_session r)).
       sc_invocation c = Some \<lparr>iv_id = rr_command_id r, iv_revision = rr_revision r, iv_mode = rr_mode r\<rparr> \<and>
       a = \<lparr>au_command = command_without_invocation c, au_name = sc_name c, au_mode = rr_mode r\<rparr>)"
    using Some plain by (auto simp: offered_def overlay_commands_def with_invocation_def command_without_invocation_def)
  finally show ?thesis .
qed

text \<open>
  Authority is exactly what the latest catalogue offers. After any history, a request is authorized
  if and only if its identifier, revision and mode are those of a command the session currently offers,
  and it resolves to that command; and the commands offered are those of the latest refresh of the
  session since it was cleared, in its mode.
\<close>

theorem authority_is_the_latest_catalog:
  assumes "list_all draws_enough es"
  shows "let m = foldl ca_step [] es
         in (ca_resolve m r = Inr a \<longleftrightarrow>
              (\<exists>c\<in>set (offered m (rr_session r)).
                 sc_invocation c = Some \<lparr>iv_id = rr_command_id r, iv_revision = rr_revision r, iv_mode = rr_mode r\<rparr> \<and>
                 a = \<lparr>au_command = command_without_invocation c, au_name = sc_name c, au_mode = rr_mode r\<rparr>)) \<and>
            map command_without_invocation (offered m sid) =
              (case latest es sid of None \<Rightarrow> [] | Some (cmds, prov, mode) \<Rightarrow> normalize_catalog cmds)"
proof -
  let ?m = "foldl ca_step [] es"
  have t: "tracks ?m (latest es)" by (rule tracks_latest[OF assms])
  have "rel_option catalog_for (map_of ?m sid) (latest es sid)"
    using t by (simp add: tracks_def)
  then have "map command_without_invocation (offered ?m sid) =
      (case latest es sid of None \<Rightarrow> [] | Some (cmds, prov, mode) \<Rightarrow> normalize_catalog cmds)"
  proof (cases rule: option.rel_cases)
    case (Some ca x)
    obtain cmds prov mode where x: "x = (cmds, prov, mode)" by (cases x)
    have "map ac_command (ca_commands ca) = normalize_catalog cmds"
      using Some x by (simp add: catalog_for_def)
    moreover have "map command_without_invocation (overlay_commands ca) =
        map command_without_invocation (map ac_command (ca_commands ca))"
      by (simp add: overlay_commands_def with_invocation_def command_without_invocation_def)
    ultimately show ?thesis
      using Some x by (simp add: offered_def normalize_catalog_def command_without_invocation_def comp_def)
  qed (simp add: offered_def)
  then show ?thesis using resolve_offered[OF t] unfolding Let_def by blast
qed

text \<open>\<open>current_revisions\<close> only ever gains a revision just drawn.\<close>

definition current_revisions :: "registry \<Rightarrow> string set" where
  "current_revisions m = {rvn. \<exists>sid ca. map_of m sid = Some ca \<and> ca_revision ca = ''catalog_'' @ rvn}"

lemma current_revisions_step: "current_revisions (ca_step m e) \<subseteq> current_revisions m \<union> set (drawn_revision e)"
proof (cases e)
  case (Refresh sid cmds prov mode rvn ids)
  then show ?thesis
    by (auto simp: ca_refresh_def Let_def current_revisions_def update_conv' split: option.splits if_splits)
next
  case (Clear sid)
  then show ?thesis by (auto simp: ca_clear_def current_revisions_def delete_conv' split: if_splits)
qed (simp add: ca_clear_all_def current_revisions_def)

lemma current_revisions_run: "current_revisions (foldl ca_step m es) \<subseteq> current_revisions m \<union> set (drawn es)"
proof (induction es arbitrary: m)
  case (Cons e es)
  have "set (drawn (e # es)) = set (drawn_revision e) \<union> set (drawn es)" by (simp add: drawn_def)
  then show ?case using Cons[of "ca_step m e"] current_revisions_step[of m e] by auto
qed (simp add: drawn_def)

text \<open>
  A revoked command stays revoked. With every revision drawn fresh, once the catalogue a revision
  was drawn for has been replaced or cleared, no later history makes a request with that revision
  succeed.
\<close>

theorem revoked_stays_revoked:
  assumes "distinct (drawn (es1 @ es2))" "rvn \<in> set (drawn es1)" "rvn \<notin> current_revisions (foldl ca_step [] es1)"
    and "rr_revision r = ''catalog_'' @ rvn"
  shows "\<exists>e. ca_resolve (foldl ca_step [] (es1 @ es2)) r = Inl e"
proof -
  have "rvn \<notin> set (drawn es2)" using assms(1,2) by (auto simp: drawn_def)
  then have "rvn \<notin> current_revisions (foldl ca_step [] (es1 @ es2))"
    using current_revisions_run[of "foldl ca_step [] es1" es2] assms(3) by auto
  then have "ca_revision ca \<noteq> rr_revision r"
    if "map_of (foldl ca_step [] (es1 @ es2)) (rr_session r) = Some ca" for ca
    using that unfolding current_revisions_def assms(4) by blast
  then show ?thesis
    by (cases "map_of (foldl ca_step [] (es1 @ es2)) (rr_session r)") (fastforce simp: ca_resolve_def)+
qed

definition sample_command :: slash_command where
  "sample_command = \<lparr>sc_name = ''review'', sc_source = ''builtin'', sc_description = None, sc_hint = None, sc_invocation = None\<rparr>"

theorem authority_is_the_latest_catalog_witness:
  "let m = foldl ca_step [] [Refresh ''s'' [sample_command] ''p'' Passthrough ''r1'' [''i1'']]
   in ca_resolve m \<lparr>rr_session = ''s'', rr_command_id = ''command_i1'', rr_revision = ''catalog_r1'', rr_mode = Passthrough\<rparr> =
        Inr \<lparr>au_command = sample_command, au_name = ''review'', au_mode = Passthrough\<rparr> \<and>
      map command_without_invocation (offered m ''s'') = [sample_command]"
proof -
  let ?es = "[Refresh ''s'' [sample_command] ''p'' Passthrough ''r1'' [''i1'']]"
  have en: "list_all draws_enough ?es" by simp
  have off: "offered (foldl ca_step [] ?es) ''s'' =
      [sample_command\<lparr>sc_invocation := Some \<lparr>iv_id = ''command_i1'', iv_revision = ''catalog_r1'', iv_mode = Passthrough\<rparr>\<rparr>]"
    by code_simp
  show ?thesis
    using authority_is_the_latest_catalog[OF en, of "\<lparr>rr_session = ''s'', rr_command_id = ''command_i1'', rr_revision = ''catalog_r1'',
        rr_mode = Passthrough\<rparr>" "\<lparr>au_command = sample_command, au_name = ''review'', au_mode = Passthrough\<rparr>" "''s''"]
    unfolding Let_def resolve_request.simps off by (simp add: command_without_invocation_def sample_command_def)
qed

text \<open>Clearing a session revokes its revision.\<close>

theorem revoked_stays_revoked_witness:
  "\<exists>e. ca_resolve (foldl ca_step [] ([Refresh ''s'' [sample_command] ''p'' Passthrough ''r1'' [''i1''], Clear ''s''] @
       [Refresh ''s'' [sample_command] ''p'' Passthrough ''r2'' [''i2'']]))
     \<lparr>rr_session = ''s'', rr_command_id = ''command_i1'', rr_revision = ''catalog_r1'', rr_mode = Passthrough\<rparr> = Inl e"
proof (rule revoked_stays_revoked)
  have "foldl ca_step [] [Refresh ''s'' [sample_command] ''p'' Passthrough ''r1'' [''i1''], Clear ''s''] = []" by code_simp
  then show "''r1'' \<notin> current_revisions (foldl ca_step [] [Refresh ''s'' [sample_command] ''p'' Passthrough ''r1'' [''i1''], Clear ''s''])"
    by (simp only: current_revisions_def) simp
qed (simp_all add: drawn_def)

end
