(* ===== verification/Cron_Schedule.thy ===== *)
theory Cron_Schedule
  imports Json "HOL-Library.AList"
begin

text \<open>
  The automation scheduler's cron parser and next-fire search
  (\<open>packages/protocol/src/cron-schedule.ts\<close>), which the control plane and the web editor share.

  Instants are milliseconds since the epoch, as integers. What \<open>Intl\<close> knows of time zones is an
  argument: the local date and time of an instant (\<open>fmt\<close>), and the canonical name of a zone. The
  UTC calendar of \<open>Date\<close> is the proleptic Gregorian one, computed from day numbers.
\<close>

section \<open>Bounded caches\<close>

text \<open>\<open>lruGet\<close> and \<open>lruSet\<close>: insertion order is the order of use.\<close>

definition lru_get :: "'k \<Rightarrow> ('k \<times> 'v) list \<Rightarrow> ('k \<times> 'v) list \<times> 'v option" where
  "lru_get k m =
     (case map_of m k of None \<Rightarrow> (m, None) | Some v \<Rightarrow> (AList.update k v (AList.delete k m), Some v))"

definition lru_set :: "nat \<Rightarrow> 'k \<Rightarrow> 'v \<Rightarrow> ('k \<times> 'v) list \<Rightarrow> ('k \<times> 'v) list" where
  "lru_set limit k v m =
     (let m' = AList.update k v (AList.delete k m)
      in if length m' > limit then AList.delete (fst (hd m')) m' else m')"

definition timezone_cache_key :: "string \<Rightarrow> string" where
  "timezone_cache_key tz = map (\<lambda>c. if is_upper c then lower_char c else c) tz"

section \<open>Parsing\<close>

datatype cron_error =
    InvalidValue string
  | OutOfBounds string
  | EmptyEntry
  | InvalidField string
  | InvalidRange string
  | DescendingRange string
  | SelectsNothing string
  | BadLength
  | NotFiveFields
  | TimezoneRequired
  | UnknownTimezone string
  | BadCursor
  | NoFireTime

record cron_field =
  cf_values :: "int list"
  cf_wildcard :: bool

record parsed_cron =
  pc_minute :: cron_field
  pc_hour :: cron_field
  pc_day_of_month :: cron_field
  pc_month :: cron_field
  pc_day_of_week :: cron_field

definition digits_value :: "string \<Rightarrow> int" where
  "digits_value s = foldl (\<lambda>n c. n * 10 + (of_char c - 48)) 0 s"

definition parse_number :: "string \<Rightarrow> int \<Rightarrow> int \<Rightarrow> bool \<Rightarrow> cron_error + int" where
  "parse_number raw lo hi sunday =
     (if raw = [] \<or> \<not> list_all is_digit raw then Inl (InvalidValue raw)
      else let n = digits_value raw
           in if n < lo \<or> n > (if sunday then 7 else hi) then Inl (OutOfBounds raw)
              else Inr (if sunday \<and> n = 7 then 0 else n))"

text \<open>\<open>for (let value = start; value <= end; value += step)\<close>; a step is at least one.\<close>

function step_values :: "int \<Rightarrow> int \<Rightarrow> int \<Rightarrow> int list" where
  "step_values v e st = (if v > e \<or> st < 1 then [] else v # step_values (v + st) e st)"
  by auto

termination
  by (relation "measure (\<lambda>(v, e, st). nat (e - v + 1))") auto

declare step_values.simps [simp del]

definition parse_range :: "string \<Rightarrow> bool \<Rightarrow> int \<Rightarrow> int \<Rightarrow> bool \<Rightarrow> cron_error + (int \<times> int)" where
  "parse_range base stepped lo hi sunday =
     (if base = ''*'' then Inr (lo, hi)
      else if CHR ''-'' \<in> set base then
        (case split_on (CHR ''-'') base of
           [a, b] \<Rightarrow>
             (case parse_number a lo (if sunday then 7 else hi) False of Inl e \<Rightarrow> Inl e
              | Inr s \<Rightarrow>
                  (case parse_number b lo (if sunday then 7 else hi) False of Inl e \<Rightarrow> Inl e
                   | Inr t \<Rightarrow> if s > t then Inl (DescendingRange base) else Inr (s, t)))
         | _ \<Rightarrow> Inl (InvalidRange base))
      else (case parse_number base lo hi sunday of Inl e \<Rightarrow> Inl e
            | Inr s \<Rightarrow> Inr (s, if stepped then hi else s)))"

definition parse_part :: "string \<Rightarrow> string \<Rightarrow> int \<Rightarrow> int \<Rightarrow> bool \<Rightarrow> cron_error + int list" where
  "parse_part raw part lo hi sunday =
     (if part = [] then Inl EmptyEntry
      else let pieces = split_on (CHR ''/'') part; base = hd pieces
           in if length pieces > 2 \<or> base = [] then Inl (InvalidField raw)
              else case (if length pieces = 1 then Inr 1 else parse_number (pieces ! 1) 1 (hi - lo + 1) False) of
                     Inl e \<Rightarrow> Inl e
                   | Inr st \<Rightarrow>
                       (case parse_range base (length pieces \<noteq> 1) lo hi sunday of
                          Inl e \<Rightarrow> Inl e
                        | Inr (s, t) \<Rightarrow> Inr (map (\<lambda>v. if sunday \<and> v = 7 then 0 else v) (step_values s t st))))"

fun parse_parts :: "string \<Rightarrow> string list \<Rightarrow> int \<Rightarrow> int \<Rightarrow> bool \<Rightarrow> cron_error + int list" where
  "parse_parts raw [] lo hi sunday = Inr []"
| "parse_parts raw (p # ps) lo hi sunday =
     (case parse_part raw p lo hi sunday of Inl e \<Rightarrow> Inl e
      | Inr vs \<Rightarrow> (case parse_parts raw ps lo hi sunday of Inl e \<Rightarrow> Inl e | Inr ws \<Rightarrow> Inr (vs @ ws)))"

definition parse_field :: "string \<Rightarrow> int \<Rightarrow> int \<Rightarrow> bool \<Rightarrow> cron_error + cron_field" where
  "parse_field raw lo hi sunday =
     (case parse_parts raw (split_on (CHR '','') raw) lo hi sunday of
        Inl e \<Rightarrow> Inl e
      | Inr vs \<Rightarrow>
          (let sorted_values = js_sort (\<le>) (js_dedup vs)
           in if sorted_values = [] then Inl (SelectsNothing raw)
              else Inr \<lparr>cf_values = sorted_values, cf_wildcard = (sorted_values = [lo..hi])\<rparr>))"

text \<open>\<open>s.replace(/\s+/g, " ")\<close>.\<close>

fun collapse_spaces :: "bool \<Rightarrow> string \<Rightarrow> string" where
  "collapse_spaces after_space [] = []"
| "collapse_spaces after_space (c # s) =
     (if is_space c then (if after_space then [] else '' '') @ collapse_spaces True s
      else c # collapse_spaces False s)"

definition MAX_EXPRESSION_LENGTH :: nat where
  "MAX_EXPRESSION_LENGTH = 128"

definition parse_cron :: "string \<Rightarrow> cron_error + parsed_cron" where
  "parse_cron expr =
     (let normalized = collapse_spaces False (js_trim expr)
      in if normalized = [] \<or> length normalized > MAX_EXPRESSION_LENGTH then Inl BadLength
         else case split_on (CHR '' '') normalized of
           [a, b, c, d, e] \<Rightarrow>
             (case parse_field a 0 59 False of Inl x \<Rightarrow> Inl x | Inr fa \<Rightarrow>
              case parse_field b 0 23 False of Inl x \<Rightarrow> Inl x | Inr fb \<Rightarrow>
              case parse_field c 1 31 False of Inl x \<Rightarrow> Inl x | Inr fc \<Rightarrow>
              case parse_field d 1 12 False of Inl x \<Rightarrow> Inl x | Inr fd \<Rightarrow>
              case parse_field e 0 6 True of Inl x \<Rightarrow> Inl x | Inr fe \<Rightarrow>
              Inr \<lparr>pc_minute = fa, pc_hour = fb, pc_day_of_month = fc, pc_month = fd, pc_day_of_week = fe\<rparr>)
         | _ \<Rightarrow> Inl NotFiveFields)"

section \<open>Time zones\<close>

definition MAX_VALIDATED_TIMEZONES :: nat where
  "MAX_VALIDATED_TIMEZONES = 128"

text \<open>\<open>canonical\<close> is \<open>Intl\<close>'s name of a zone, or None where it throws.\<close>

definition validate_time_zone ::
    "(string \<Rightarrow> string option) \<Rightarrow> string \<Rightarrow> (string \<times> string) list \<Rightarrow> (string \<times> string) list \<times> (cron_error + string)" where
  "validate_time_zone canonical tz cache =
     (let normalized = js_trim tz
      in if normalized = [] \<or> length normalized > 128 then (cache, Inl TimezoneRequired)
         else let key = timezone_cache_key normalized; (cache1, hit) = lru_get key cache
              in case hit of
                   Some z \<Rightarrow> if z \<noteq> [] then (cache1, Inr z)
                     else (case canonical normalized of
                             None \<Rightarrow> (cache1, Inl (UnknownTimezone normalized))
                           | Some c \<Rightarrow> (lru_set MAX_VALIDATED_TIMEZONES key c cache1, Inr c))
                 | None \<Rightarrow>
                     (case canonical normalized of
                        None \<Rightarrow> (cache1, Inl (UnknownTimezone normalized))
                      | Some c \<Rightarrow> (lru_set MAX_VALIDATED_TIMEZONES key c cache1, Inr c)))"

section \<open>The calendar\<close>

definition MINUTE_MS :: int where "MINUTE_MS = 60000"
definition HOUR_MS :: int where "HOUR_MS = 60 * MINUTE_MS"
definition DAY_MS :: int where "DAY_MS = 24 * HOUR_MS"

definition days_of_civil :: "int \<Rightarrow> int \<Rightarrow> int \<Rightarrow> int" where
  "days_of_civil y m d =
     (let y' = (if m \<le> 2 then y - 1 else y); yoe = y' mod 400;
          doy = (153 * (if m > 2 then m - 3 else m + 9) + 2) div 5 + d - 1;
          doe = yoe * 365 + yoe div 4 - yoe div 100 + doy
      in (y' div 400) * 146097 + doe - 719468)"

definition civil_of_days :: "int \<Rightarrow> int \<times> int \<times> int" where
  "civil_of_days n =
     (let z = n + 719468; doe = z mod 146097;
          yoe = (doe - doe div 1460 + doe div 36524 - doe div 146096) div 365;
          doy = doe - (365 * yoe + yoe div 4 - yoe div 100); mp = (5 * doy + 2) div 153;
          d = doy - (153 * mp + 2) div 5 + 1; m = (if mp < 10 then mp + 3 else mp - 9);
          y = yoe + (z div 146097) * 400 + (if m \<le> 2 then 1 else 0)
      in (y, m, d))"

text \<open>\<open>Date.UTC(year, month - 1, day, hour, minute)\<close> and \<open>getUTCDay()\<close>.\<close>

definition date_utc :: "int \<Rightarrow> int \<Rightarrow> int \<Rightarrow> int \<Rightarrow> int \<Rightarrow> int" where
  "date_utc y m d h mi = days_of_civil y m d * DAY_MS + h * HOUR_MS + mi * MINUTE_MS"

definition week_day :: "int \<Rightarrow> int \<Rightarrow> int \<Rightarrow> int" where
  "week_day y m d = (days_of_civil y m d + 4) mod 7"

record local_parts =
  lp_year :: int
  lp_month :: int
  lp_day :: int
  lp_hour :: int
  lp_minute :: int

definition local_minute :: "local_parts \<Rightarrow> int" where
  "local_minute p = date_utc (lp_year p) (lp_month p) (lp_day p) (lp_hour p) (lp_minute p)"

section \<open>Offset models\<close>

type_synonym zone_format = "string \<Rightarrow> int \<Rightarrow> local_parts"

record offset_segment =
  os_start :: int
  os_end :: int
  os_offset :: int

definition offset_at :: "zone_format \<Rightarrow> string \<Rightarrow> int \<Rightarrow> int" where
  "offset_at fmt tz epoch = local_minute (fmt tz epoch) - epoch"

text \<open>
  \<open>transitionMinute\<close>. The instants it sees are whole minutes, so it halves their number: the midpoint
  of the code, rounded down to a minute, is the rounded midpoint of the minute counts.
\<close>

function transition_minute :: "zone_format \<Rightarrow> string \<Rightarrow> int \<Rightarrow> int \<Rightarrow> int \<Rightarrow> int" where
  "transition_minute fmt tz start_offset low high =
     (if high - low > 1 then
        let mid = (low + high) div 2
        in if offset_at fmt tz (mid * MINUTE_MS) = start_offset
           then transition_minute fmt tz start_offset mid high
           else transition_minute fmt tz start_offset low mid
      else high)"
  by auto

termination
  by (relation "measure (\<lambda>(fmt, tz, off, low, high). nat (high - low))") auto

declare transition_minute.simps [simp del]

text \<open>The probing loop: the start of the open segment, its offset, and the segments so far.\<close>

fun probe_loop :: "zone_format \<Rightarrow> string \<Rightarrow> int \<Rightarrow> int \<Rightarrow> int list \<Rightarrow> int \<times> int \<times> offset_segment list" where
  "probe_loop fmt tz seg_start off [] = (seg_start, off, [])"
| "probe_loop fmt tz seg_start off (p # ps) =
     (let next_off = offset_at fmt tz p
      in if next_off = off then probe_loop fmt tz seg_start off ps
         else let t = transition_minute fmt tz off ((p - HOUR_MS) div MINUTE_MS) (p div MINUTE_MS) * MINUTE_MS;
                  (s, w, segs) = probe_loop fmt tz t next_off ps
              in (s, w, \<lparr>os_start = seg_start, os_end = t, os_offset = off\<rparr> # segs))"

definition OFFSET_WINDOW_MS :: int where "OFFSET_WINDOW_MS = 24 * HOUR_MS"

definition offset_model :: "zone_format \<Rightarrow> string \<Rightarrow> int \<Rightarrow> int \<Rightarrow> int \<Rightarrow> offset_segment list" where
  "offset_model fmt tz y m d =
     (let local_day = date_utc y m d 0 0;
          start = local_day - OFFSET_WINDOW_MS; stop = local_day + 24 * HOUR_MS + OFFSET_WINDOW_MS;
          (s, off, segs) = probe_loop fmt tz start (offset_at fmt tz start)
             (step_values (start + HOUR_MS) stop HOUR_MS)
      in segs @ [\<lparr>os_start = s, os_end = stop, os_offset = off\<rparr>])"

text \<open>The cache of models in front of \<open>offsetModel\<close>, by zone and date.\<close>

definition MAX_OFFSET_MODELS :: nat where "MAX_OFFSET_MODELS = 512"

type_synonym model_cache = "((string \<times> int \<times> int \<times> int) \<times> offset_segment list) list"

definition cached_offset_model ::
    "zone_format \<Rightarrow> string \<Rightarrow> int \<Rightarrow> int \<Rightarrow> int \<Rightarrow> model_cache \<Rightarrow> model_cache \<times> offset_segment list" where
  "cached_offset_model fmt tz y m d cache =
     (case map_of cache (tz, y, m, d) of
        Some segs \<Rightarrow> (AList.update (tz, y, m, d) segs (AList.delete (tz, y, m, d) cache), segs)
      | None \<Rightarrow>
          (let segs = offset_model fmt tz y m d; c = AList.update (tz, y, m, d) segs cache
           in (if length c > MAX_OFFSET_MODELS then AList.delete (fst (hd c)) c else c, segs)))"

definition segment_at :: "offset_segment list \<Rightarrow> int \<Rightarrow> offset_segment option" where
  "segment_at model g = find (\<lambda>s. g \<ge> os_start s \<and> g < os_end s) model"

text \<open>The convergence of \<open>localEpoch\<close>, with the attempts left.\<close>

fun converge :: "nat \<Rightarrow> int \<Rightarrow> offset_segment list \<Rightarrow> int \<Rightarrow> int option" where
  "converge 0 desired model g =
     (case segment_at model g of None \<Rightarrow> None
      | Some s \<Rightarrow> if g + os_offset s = desired then Some g else None)"
| "converge (Suc n) desired model g =
     (case segment_at model g of None \<Rightarrow> None
      | Some s \<Rightarrow>
          (let delta = desired - (g + os_offset s)
           in if delta = 0 then Some g else converge n desired model (g + delta)))"

definition local_epoch :: "local_parts \<Rightarrow> offset_segment list \<Rightarrow> int option" where
  "local_epoch p model = converge 4 (local_minute p) model (local_minute p)"

section \<open>The next fire\<close>

definition day_matches :: "parsed_cron \<Rightarrow> int \<Rightarrow> int \<Rightarrow> int \<Rightarrow> bool" where
  "day_matches c y m d =
     (let dom = (d \<in> set (cf_values (pc_day_of_month c)));
          dow = (week_day y m d \<in> set (cf_values (pc_day_of_week c)))
      in if cf_wildcard (pc_day_of_month c) \<and> cf_wildcard (pc_day_of_week c) then True
         else if cf_wildcard (pc_day_of_month c) then dow
         else if cf_wildcard (pc_day_of_week c) then dom
         else dom \<or> dow)"

definition improve :: "int \<Rightarrow> int option \<Rightarrow> int option \<Rightarrow> int option" where
  "improve after best e =
     (case e of None \<Rightarrow> best
      | Some x \<Rightarrow> if x > after \<and> (case best of None \<Rightarrow> True | Some b \<Rightarrow> x < b) then Some x else best)"

text \<open>The inner loop; the flag says it left both loops.\<close>

fun minute_loop ::
    "int \<Rightarrow> int \<Rightarrow> int \<Rightarrow> offset_segment list \<Rightarrow> (int \<Rightarrow> local_parts) \<Rightarrow> int option \<Rightarrow> int list \<Rightarrow> int option \<times> bool" where
  "minute_loop after mn mx model parts best [] = (best, False)"
| "minute_loop after mn mx model parts best (mi # ms) =
     (let desired = local_minute (parts mi)
      in if desired - mn \<le> after then minute_loop after mn mx model parts best ms
         else if (case best of None \<Rightarrow> False | Some b \<Rightarrow> desired - mx \<ge> b) then (best, True)
         else minute_loop after mn mx model parts (improve after best (local_epoch (parts mi) model)) ms)"

fun hour_loop ::
    "int \<Rightarrow> int \<Rightarrow> int \<Rightarrow> offset_segment list \<Rightarrow> (int \<Rightarrow> int \<Rightarrow> local_parts) \<Rightarrow> int list \<Rightarrow> int option \<Rightarrow> int list \<Rightarrow> int option" where
  "hour_loop after mn mx model parts minutes best [] = best"
| "hour_loop after mn mx model parts minutes best (h # hs) =
     (if local_minute (parts h (last minutes)) - mn \<le> after then hour_loop after mn mx model parts minutes best hs
      else case minute_loop after mn mx model (parts h) best minutes of
             (b, left) \<Rightarrow> if left then b else hour_loop after mn mx model parts minutes b hs)"

definition parts_of :: "int \<Rightarrow> int \<Rightarrow> int \<Rightarrow> int \<Rightarrow> int \<Rightarrow> local_parts" where
  "parts_of y m d h mi = \<lparr>lp_year = y, lp_month = m, lp_day = d, lp_hour = h, lp_minute = mi\<rparr>"

definition search_day :: "parsed_cron \<Rightarrow> int \<Rightarrow> offset_segment list \<Rightarrow> int \<Rightarrow> int \<Rightarrow> int \<Rightarrow> int option" where
  "search_day c after model y m d =
     hour_loop after (Min (os_offset ` set model)) (Max (os_offset ` set model)) model (parts_of y m d)
       (cf_values (pc_minute c)) None (cf_values (pc_hour c))"

fun day_loop :: "(int \<Rightarrow> int \<Rightarrow> int \<Rightarrow> int option) \<Rightarrow> parsed_cron \<Rightarrow> nat \<Rightarrow> int \<Rightarrow> cron_error + int" where
  "day_loop search c 0 n = Inl NoFireTime"
| "day_loop search c (Suc k) n =
     (case civil_of_days n of (y, m, d) \<Rightarrow>
        if m \<in> set (cf_values (pc_month c)) \<and> day_matches c y m d
        then (case search y m d of Some e \<Rightarrow> Inr e | None \<Rightarrow> day_loop search c k (n + 1))
        else day_loop search c k (n + 1))"

definition SEARCH_DAYS :: nat where "SEARCH_DAYS = 366 * 5"

text \<open>\<open>tz\<close> is the validated zone.\<close>

definition next_cron_fire :: "zone_format \<Rightarrow> string \<Rightarrow> parsed_cron \<Rightarrow> int \<Rightarrow> cron_error + int" where
  "next_cron_fire fmt tz c after =
     (if after < 0 then Inl BadCursor
      else let p = fmt tz after
           in day_loop (\<lambda>y m d. search_day c after (offset_model fmt tz y m d) y m d) c SEARCH_DAYS
                (days_of_civil (lp_year p) (lp_month p) (lp_day p)))"

text \<open>The call with an expression: the cursor, the expression and the zone are checked in that order.\<close>

definition next_cron_fire_of ::
    "zone_format \<Rightarrow> (string \<Rightarrow> string option) \<Rightarrow> string \<Rightarrow> string \<Rightarrow> (string \<times> string) list \<Rightarrow> int \<Rightarrow> cron_error + int" where
  "next_cron_fire_of fmt canonical expr tz cache after =
     (if after < 0 then Inl BadCursor
      else case parse_cron expr of Inl e \<Rightarrow> Inl e
        | Inr c \<Rightarrow> (case snd (validate_time_zone canonical tz cache) of Inl e \<Rightarrow> Inl e
            | Inr zone \<Rightarrow> next_cron_fire fmt zone c after))"

section \<open>The caches are transparent and bounded\<close>

definition entries_sound :: "('k \<Rightarrow> 'v) \<Rightarrow> ('k \<times> 'v) list \<Rightarrow> bool" where
  "entries_sound f c \<longleftrightarrow> distinct (map fst c) \<and> (\<forall>e\<in>set c. snd e = f (fst e))"

lemma entries_sound_get: "entries_sound f c \<Longrightarrow> map_of c k = Some v \<Longrightarrow> v = f k"
  unfolding entries_sound_def by (auto dest!: map_of_SomeD)

lemma entries_sound_delete: "entries_sound f c \<Longrightarrow> entries_sound f (AList.delete k c)"
  unfolding entries_sound_def using alist_delete_ok[of c k] by (auto simp: AList.delete_eq)

lemma set_update_alist: "set (AList.update k v c) \<subseteq> insert (k, v) (set c)"
  by (induction c) auto

lemma entries_sound_update: "entries_sound f c \<Longrightarrow> v = f k \<Longrightarrow> entries_sound f (AList.update k v c)"
  unfolding entries_sound_def using set_update_alist[of k v c] by (fastforce simp: distinct_update)

lemma alist_length_delete_hd: "m \<noteq> [] \<Longrightarrow> length (AList.delete (fst (hd m)) m) < length m"
  by (cases m) (auto simp: AList.delete_eq less_Suc_eq_le split: prod.splits)

lemma length_move_last:
  "jmap_ok m \<Longrightarrow> map_of m k \<noteq> None \<Longrightarrow> length (AList.update k v (AList.delete k m)) = length m"
  using alist_length_delete[of m k] by (simp add: alist_length_update delete_conv')

definition cache_sound :: "zone_format \<Rightarrow> model_cache \<Rightarrow> bool" where
  "cache_sound fmt c \<longleftrightarrow> entries_sound (\<lambda>(tz, y, m, d). offset_model fmt tz y m d) c \<and> length c \<le> MAX_OFFSET_MODELS"

theorem offset_cache_transparent:
  assumes "cache_sound fmt c"
  shows "snd (cached_offset_model fmt tz y m d c) = offset_model fmt tz y m d \<and>
    cache_sound fmt (fst (cached_offset_model fmt tz y m d c))"
proof -
  let ?k = "(tz, y, m, d)" and ?f = "\<lambda>(tz, y, m, d). offset_model fmt tz y m d" and ?v = "offset_model fmt tz y m d"
  have s: "entries_sound ?f c" and l: "length c \<le> MAX_OFFSET_MODELS" using assms by (auto simp: cache_sound_def)
  have u: "entries_sound ?f (AList.update ?k ?v b)" if "entries_sound ?f b" for b
    using that by (intro entries_sound_update) auto
  show ?thesis
  proof (cases "map_of c ?k")
    case (Some segs)
    then have "segs = ?v" using entries_sound_get[OF s Some] by simp
    moreover have "length (AList.update ?k ?v (AList.delete ?k c)) \<le> MAX_OFFSET_MODELS"
      using length_move_last[of c ?k ?v] Some s l by (simp add: entries_sound_def)
    ultimately show ?thesis
      using Some u[OF entries_sound_delete[OF s]] by (simp add: cached_offset_model_def cache_sound_def)
  next
    case None
    let ?c = "AList.update ?k ?v c"
    have "length ?c = Suc (length c)" using None by (simp add: alist_length_update)
    moreover from this have "length (AList.delete (fst (hd ?c)) ?c) < length ?c"
      by (intro alist_length_delete_hd) auto
    ultimately show ?thesis
      using None l u[OF s] entries_sound_delete[OF u[OF s]]
      by (simp add: cached_offset_model_def cache_sound_def Let_def)
  qed
qed

section \<open>Parsed fields\<close>

definition field_ok :: "int \<Rightarrow> int \<Rightarrow> cron_field \<Rightarrow> bool" where
  "field_ok lo hi f \<longleftrightarrow> cf_values f \<noteq> [] \<and> sorted_wrt (<) (cf_values f) \<and> set (cf_values f) \<subseteq> {lo..hi} \<and>
     (cf_wildcard f \<longleftrightarrow> set (cf_values f) = {lo..hi})"

definition cron_ok :: "parsed_cron \<Rightarrow> bool" where
  "cron_ok c \<longleftrightarrow> field_ok 0 59 (pc_minute c) \<and> field_ok 0 23 (pc_hour c) \<and> field_ok 1 31 (pc_day_of_month c) \<and>
     field_ok 1 12 (pc_month c) \<and> field_ok 0 6 (pc_day_of_week c)"

lemma step_values_bounds: "x \<in> set (step_values v e st) \<Longrightarrow> v \<le> x \<and> x \<le> e"
proof (induction v e st rule: step_values.induct)
  case (1 v e st)
  then show ?case by (subst (asm) step_values.simps) (fastforce split: if_splits)
qed

lemma parse_number_bounds:
  "parse_number raw lo hi sunday = Inr n \<Longrightarrow> lo \<le> 0 \<or> \<not> sunday \<Longrightarrow> lo \<le> n \<and> n \<le> (if sunday then 7 else hi)"
  by (auto simp: parse_number_def Let_def split: if_splits)

lemma parse_range_bounds:
  assumes "parse_range base stepped lo hi sunday = Inr (s, t)" "lo \<le> hi" "sunday \<Longrightarrow> lo = 0 \<and> hi = 6"
  shows "lo \<le> s \<and> t \<le> (if sunday then 7 else hi)"
proof -
  have n: "parse_number r lo h al = Inr n \<Longrightarrow> al \<longrightarrow> sunday \<Longrightarrow> lo \<le> n \<and> n \<le> (if al then 7 else h)" for r h al n
    using parse_number_bounds[of r lo h al n] assms(3) by auto
  show ?thesis
    using assms n[of _ _ False] n[of base hi sunday]
    by (auto simp: parse_range_def split: if_splits list.splits sum.splits)
qed

lemma parse_part_bounds:
  assumes "parse_part raw p lo hi sunday = Inr vs" "lo \<le> hi" "sunday \<Longrightarrow> lo = 0 \<and> hi = 6"
  shows "set vs \<subseteq> {lo..hi}"
proof -
  obtain s t st where r: "parse_range (hd (split_on (CHR ''/'') p)) (length (split_on (CHR ''/'') p) \<noteq> 1) lo hi sunday = Inr (s, t)"
    and vs: "vs = map (\<lambda>v. if sunday \<and> v = 7 then 0 else v) (step_values s t st)"
    using assms(1) by (auto simp: parse_part_def Let_def split: if_splits sum.splits)
  have "lo \<le> s" "t \<le> (if sunday then 7 else hi)"
    using parse_range_bounds[OF r assms(2,3)] by auto
  moreover have "x \<in> set (step_values s t st) \<Longrightarrow> s \<le> x \<and> x \<le> t" for x by (rule step_values_bounds)
  ultimately show ?thesis using assms(3) unfolding vs by (fastforce split: if_splits)
qed

lemma parse_parts_bounds:
  "parse_parts raw ps lo hi sunday = Inr vs \<Longrightarrow> lo \<le> hi \<Longrightarrow> (sunday \<Longrightarrow> lo = 0 \<and> hi = 6) \<Longrightarrow> set vs \<subseteq> {lo..hi}"
proof (induction ps arbitrary: vs)
  case (Cons p ps)
  obtain v1 v2 where v: "parse_part raw p lo hi sunday = Inr v1" "parse_parts raw ps lo hi sunday = Inr v2" "vs = v1 @ v2"
    using Cons.prems(1) by (auto split: sum.splits)
  have "set v1 \<subseteq> {lo..hi}" by (rule parse_part_bounds[OF v(1) Cons.prems(2,3)])
  moreover have "set v2 \<subseteq> {lo..hi}" by (rule Cons.IH[OF v(2) Cons.prems(2,3)])
  ultimately show ?case unfolding v(3) by simp
qed simp

lemma sorted_dedup: "sorted_wrt (<) (js_sort (\<le>) (js_dedup (vs :: int list)))"
  by (simp add: sorted_distinct_strict)

lemma sorted_range_eq: "sorted_wrt (<) xs \<Longrightarrow> xs = [lo..hi] \<longleftrightarrow> set xs = {lo..hi :: int}"
  by (metis set_upto sorted_distinct_set_unique sorted_wrt_upto strict_sorted_iff)

lemma parse_field_ok:
  assumes "parse_field raw lo hi sunday = Inr f" "lo \<le> hi" "sunday \<Longrightarrow> lo = 0 \<and> hi = 6"
  shows "field_ok lo hi f"
proof -
  obtain vs where vs: "parse_parts raw (split_on (CHR '','') raw) lo hi sunday = Inr vs"
    and f: "f = \<lparr>cf_values = js_sort (\<le>) (js_dedup vs), cf_wildcard = (js_sort (\<le>) (js_dedup vs) = [lo..hi])\<rparr>"
    and ne: "js_sort (\<le>) (js_dedup vs) \<noteq> []"
    using assms(1) by (auto simp: parse_field_def Let_def split: sum.splits if_splits)
  have "set (js_sort (\<le>) (js_dedup vs)) \<subseteq> {lo..hi}"
    using parse_parts_bounds[OF vs assms(2,3)] by simp
  then show ?thesis
    using sorted_dedup[of vs] sorted_range_eq[OF sorted_dedup[of vs], of lo hi] ne unfolding field_ok_def f by simp
qed

lemma parse_cron_ok: "parse_cron expr = Inr c \<Longrightarrow> cron_ok c"
  by (auto simp: parse_cron_def cron_ok_def Let_def intro: parse_field_ok split: if_splits list.splits sum.splits)

section \<open>The pruned search is the exhaustive one\<close>

lemma find_segment: "segment_at model g = Some s \<Longrightarrow> s \<in> set model"
  by (auto simp: segment_at_def dest: find_SomeD)

lemma converge_offset: "converge n desired model g = Some e \<Longrightarrow> \<exists>s\<in>set model. e + os_offset s = desired"
proof (induction n desired model g rule: converge.induct)
  case (1 desired model g)
  then show ?case by (auto split: option.splits if_splits dest: find_segment)
next
  case (2 n desired model g)
  then show ?case
    by (cases "segment_at model g") (auto simp: Let_def split: if_splits dest: find_segment)
qed

lemma local_epoch_bounds:
  assumes "local_epoch p model = Some e"
  shows "local_minute p - Max (os_offset ` set model) \<le> e" "e \<le> local_minute p - Min (os_offset ` set model)"
proof -
  obtain s where s: "s \<in> set model" "e + os_offset s = local_minute p"
    using converge_offset assms unfolding local_epoch_def by blast
  have "Min (os_offset ` set model) \<le> os_offset s" "os_offset s \<le> Max (os_offset ` set model)"
    using s(1) by simp_all
  with s(2) show "local_minute p - Max (os_offset ` set model) \<le> e" "e \<le> local_minute p - Min (os_offset ` set model)"
    by auto
qed

definition improve_all :: "int \<Rightarrow> offset_segment list \<Rightarrow> int option \<Rightarrow> local_parts list \<Rightarrow> int option" where
  "improve_all after model best ps = foldl (\<lambda>b p. improve after b (local_epoch p model)) best ps"

lemma improve_all_simps [simp]:
  "improve_all after model best [] = best"
  "improve_all after model best (p # ps) = improve_all after model (improve after best (local_epoch p model)) ps"
  "improve_all after model best (ps @ qs) = improve_all after model (improve_all after model best ps) qs"
  by (simp_all add: improve_all_def)

lemma improve_early:
  "local_minute p - Min (os_offset ` set model) \<le> after \<Longrightarrow> improve after best (local_epoch p model) = best"
  using local_epoch_bounds(2)[of p model] by (fastforce simp: improve_def split: option.splits)

lemma improve_late:
  "b \<le> local_minute p - Max (os_offset ` set model) \<Longrightarrow> improve after (Some b) (local_epoch p model) = Some b"
  using local_epoch_bounds(1)[of p model] by (fastforce simp: improve_def split: option.splits)

lemma improve_all_late:
  "\<forall>p\<in>set ps. b \<le> local_minute p - Max (os_offset ` set model) \<Longrightarrow> improve_all after model (Some b) ps = Some b"
  by (induction ps) (auto simp: improve_late)

lemma improve_all_early:
  "\<forall>p\<in>set ps. local_minute p - Min (os_offset ` set model) \<le> after \<Longrightarrow> improve_all after model best ps = best"
  by (induction ps) (auto simp: improve_early)

lemma minute_loop_spec:
  assumes "sorted_wrt (\<lambda>a b. local_minute (parts a) \<le> local_minute (parts b)) ms"
    and "minute_loop after (Min (os_offset ` set model)) (Max (os_offset ` set model)) model parts best ms = (b, left)"
  shows "b = improve_all after model best (map parts ms) \<and>
    (left \<longrightarrow> (\<exists>x m. b = Some x \<and> m \<in> set ms \<and> x \<le> local_minute (parts m) - Max (os_offset ` set model)))"
  using assms
proof (induction ms arbitrary: best)
  case (Cons m ms)
  let ?mx = "Max (os_offset ` set model)"
  consider (early) "local_minute (parts m) - Min (os_offset ` set model) \<le> after"
    | (late) x where "\<not> local_minute (parts m) - Min (os_offset ` set model) \<le> after" "best = Some x" "x \<le> local_minute (parts m) - ?mx"
    | (go) "\<not> local_minute (parts m) - Min (os_offset ` set model) \<le> after"
        "\<not> (case best of None \<Rightarrow> False | Some b \<Rightarrow> local_minute (parts m) - ?mx \<ge> b)"
    by (cases best) auto
  then show ?case
  proof cases
    case early
    then show ?thesis using Cons improve_early[of "parts m" model after best] by (auto simp: Let_def)
  next
    case late
    have "\<forall>p\<in>set (map parts (m # ms)). x \<le> local_minute p - ?mx"
      using Cons.prems(1) late(3) by fastforce
    then have "improve_all after model (Some x) (map parts (m # ms)) = Some x"
      by (rule improve_all_late)
    then show ?thesis using late Cons.prems(2) by (auto simp: Let_def simp del: improve_all_simps)
  next
    case go
    then show ?thesis using Cons by (auto simp: Let_def)
  qed
qed simp

lemma local_minute_parts:
  "local_minute (parts_of y m d h mi) = days_of_civil y m d * DAY_MS + h * HOUR_MS + mi * MINUTE_MS"
  by (simp add: local_minute_def parts_of_def date_utc_def)

lemma hour_loop_spec:
  assumes ms: "ms \<noteq> []" "sorted_wrt (<) ms" "set ms \<subseteq> {0..59}" and hs: "sorted_wrt (<) hs"
  shows "hour_loop after (Min (os_offset ` set model)) (Max (os_offset ` set model)) model (parts_of y mo d) ms best hs =
    improve_all after model best (concat (map (\<lambda>h. map (parts_of y mo d h) ms) hs))"
  using hs
proof (induction hs arbitrary: best)
  case (Cons h hs)
  let ?mx = "Max (os_offset ` set model)" and ?mn = "Min (os_offset ` set model)"
  let ?row = "\<lambda>h. map (parts_of y mo d h) ms"
  have last: "mi \<in> set ms \<Longrightarrow> mi \<le> last ms" for mi
    using ms(1,2) by (metis last_in_set order_le_less sorted_wrt_append append_butlast_last_id Un_iff set_append list.set_intros(1) set_ConsD list.set(1) empty_iff)
  have next_row: "h < h' \<Longrightarrow> mi \<in> set ms \<Longrightarrow> mi' \<in> set ms \<Longrightarrow>
      local_minute (parts_of y mo d h mi) \<le> local_minute (parts_of y mo d h' mi')" for h' mi mi'
  proof -
    assume "h < h'" "mi \<in> set ms" "mi' \<in> set ms"
    then have "mi \<le> 59" "0 \<le> mi'" "h + 1 \<le> h'" using ms(3) by auto
    then have "h * HOUR_MS + mi * MINUTE_MS \<le> h' * HOUR_MS + mi' * MINUTE_MS"
      by (simp add: HOUR_MS_def MINUTE_MS_def)
    then show ?thesis by (simp add: local_minute_parts)
  qed
  show ?case
  proof (cases "local_minute (parts_of y mo d h (last ms)) - ?mn \<le> after")
    case True
    have "\<forall>p\<in>set (?row h). local_minute p - ?mn \<le> after"
      using True last by (fastforce simp: local_minute_parts MINUTE_MS_def)
    then show ?thesis using True Cons improve_all_early[of "?row h" model after best] by simp
  next
    case False
    have sorted: "sorted_wrt (\<lambda>a b. local_minute (parts_of y mo d h a) \<le> local_minute (parts_of y mo d h b)) ms"
      using ms(2) by (rule sorted_wrt_mono_rel[rotated]) (simp add: local_minute_parts MINUTE_MS_def)
    obtain b left where loop: "minute_loop after ?mn ?mx model (parts_of y mo d h) best ms = (b, left)"
      by (cases "minute_loop after ?mn ?mx model (parts_of y mo d h) best ms")
    note spec = minute_loop_spec[OF sorted loop]
    show ?thesis
    proof (cases left)
      case True
      then obtain x mi where x: "b = Some x" "mi \<in> set ms" "x \<le> local_minute (parts_of y mo d h mi) - ?mx"
        using spec by blast
      have "\<forall>p\<in>set (concat (map ?row hs)). x \<le> local_minute p - ?mx"
        using Cons.prems x(2,3) next_row by fastforce
      then have "improve_all after model (Some x) (concat (map ?row hs)) = Some x"
        by (rule improve_all_late)
      then show ?thesis using False loop True spec x(1) by simp
    next
      case no: False
      then show ?thesis using False loop spec Cons by simp
    qed
  qed
qed simp

text \<open>The exhaustive search: the earliest of all instants of the day that are after the cursor.\<close>

fun earliest :: "int list \<Rightarrow> int option" where
  "earliest [] = None"
| "earliest (e # es) = (case earliest es of None \<Rightarrow> Some e | Some x \<Rightarrow> Some (min e x))"

lemma earliest_Min: "earliest es = (if es = [] then None else Some (Min (set es)))"
  by (induction es) auto

definition day_candidates :: "parsed_cron \<Rightarrow> offset_segment list \<Rightarrow> int \<Rightarrow> int \<Rightarrow> int \<Rightarrow> int list" where
  "day_candidates c model y m d =
     List.map_filter (\<lambda>p. local_epoch p model)
       (concat (map (\<lambda>h. map (parts_of y m d h) (cf_values (pc_minute c))) (cf_values (pc_hour c))))"

lemma improve_all_earliest:
  "improve_all after model best ps =
     earliest ((case best of None \<Rightarrow> [] | Some b \<Rightarrow> [b]) @ filter (\<lambda>e. e > after) (List.map_filter (\<lambda>p. local_epoch p model) ps))"
proof (induction ps arbitrary: best)
  case Nil
  then show ?case by (simp add: List.map_filter_simps split: option.splits)
next
  case (Cons p ps)
  show ?case
    by (cases "local_epoch p model"; cases best)
      (auto simp: Cons improve_def List.map_filter_simps min_def split: option.splits)
qed

lemma search_day_exhaustive:
  assumes "cron_ok c"
  shows "search_day c after model y m d = earliest (filter (\<lambda>e. e > after) (day_candidates c model y m d))"
proof -
  have "field_ok 0 59 (pc_minute c)" "field_ok 0 23 (pc_hour c)" using assms by (simp_all add: cron_ok_def)
  then show ?thesis
    unfolding search_day_def field_ok_def
    by (subst hour_loop_spec) (simp_all add: improve_all_earliest day_candidates_def)
qed

text \<open>A day of the search: its date matches, and its instants after the cursor.\<close>

definition fires_on :: "parsed_cron \<Rightarrow> int \<Rightarrow> bool" where
  "fires_on c n \<longleftrightarrow> (case civil_of_days n of (y, m, d) \<Rightarrow> m \<in> set (cf_values (pc_month c)) \<and> day_matches c y m d)"

definition instants_on :: "zone_format \<Rightarrow> string \<Rightarrow> parsed_cron \<Rightarrow> int \<Rightarrow> int \<Rightarrow> int list" where
  "instants_on fmt tz c after n =
     (case civil_of_days n of (y, m, d) \<Rightarrow> filter (\<lambda>e. e > after) (day_candidates c (offset_model fmt tz y m d) y m d))"

lemma day_loop_spec:
  assumes "\<And>n. (case civil_of_days n of (y, m, d) \<Rightarrow> search y m d) = earliest (cand n)"
  shows "case day_loop search c k n of
      Inl e \<Rightarrow> e = NoFireTime \<and> (\<forall>i<k. fires_on c (n + int i) \<longrightarrow> cand (n + int i) = [])
    | Inr e \<Rightarrow> \<exists>i<k. fires_on c (n + int i) \<and> e \<in> set (cand (n + int i)) \<and> (\<forall>x\<in>set (cand (n + int i)). e \<le> x) \<and>
        (\<forall>j<i. fires_on c (n + int j) \<longrightarrow> cand (n + int j) = [])"
proof (induction k arbitrary: n)
  case (Suc k)
  have shift: "n + int (Suc i) = n + 1 + int i" for i by simp
  show ?case
  proof (cases "fires_on c n \<and> cand n \<noteq> []")
    case True
    then obtain e where e: "earliest (cand n) = Some e" by (simp add: earliest_Min)
    then have "day_loop search c (Suc k) n = Inr e"
      using True assms[of n] by (auto simp: fires_on_def split: prod.splits)
    moreover have "e \<in> set (cand n)" "\<forall>x\<in>set (cand n). e \<le> x"
      using e True by (auto simp: earliest_Min)
    ultimately show ?thesis using True by (simp add: exI[of _ 0])
  next
    case False
    then have step: "day_loop search c (Suc k) n = day_loop search c k (n + 1)"
      using assms[of n] by (auto simp: fires_on_def split: prod.splits)
    have none: "fires_on c n \<longrightarrow> cand n = []" using False by blast
    show ?thesis
    proof (cases "day_loop search c k (n + 1)")
      case (Inl x)
      then show ?thesis using Suc[of "n + 1"] none unfolding step by (simp add: All_less_Suc2 add.assoc)
    next
      case (Inr e)
      then obtain i where "i < k" "fires_on c (n + 1 + int i)" "e \<in> set (cand (n + 1 + int i))"
        "\<forall>x\<in>set (cand (n + 1 + int i)). e \<le> x" "\<forall>j<i. fires_on c (n + 1 + int j) \<longrightarrow> cand (n + 1 + int j) = []"
        using Suc[of "n + 1"] by auto
      then show ?thesis
        using none unfolding step Inr sum.case
        by (intro exI[of _ "Suc i"]) (simp add: shift All_less_Suc2 del: of_nat_Suc)
    qed
  qed
qed simp

text \<open>
  C19: The search finds the next fire and nothing else. For any parsed expression, what the code returns
  is the earliest instant after the cursor on the first day, within five years, whose date matches and
  on which some wall-clock minute of the expression exists after the cursor; every instant on it reads,
  at an offset of that day, as a minute of the expression; and it fails exactly when no such day exists.
  So the pruning by offset bounds loses no candidate.
\<close>

theorem next_fire_is_the_earliest:
  assumes "parse_cron expr = Inr c" "0 \<le> after"
  shows "let p = fmt tz after; today = days_of_civil (lp_year p) (lp_month p) (lp_day p)
         in case next_cron_fire fmt tz c after of
              Inl err \<Rightarrow> err = NoFireTime \<and>
                (\<forall>i<SEARCH_DAYS. fires_on c (today + int i) \<longrightarrow> instants_on fmt tz c after (today + int i) = [])
            | Inr e \<Rightarrow> after < e \<and> (\<exists>i<SEARCH_DAYS.
                fires_on c (today + int i) \<and> e \<in> set (instants_on fmt tz c after (today + int i)) \<and>
                (\<forall>x\<in>set (instants_on fmt tz c after (today + int i)). e \<le> x) \<and>
                (\<forall>j<i. fires_on c (today + int j) \<longrightarrow> instants_on fmt tz c after (today + int j) = []))"
proof -
  let ?p = "fmt tz after"
  let ?today = "days_of_civil (lp_year ?p) (lp_month ?p) (lp_day ?p)"
  let ?search = "\<lambda>y m d. search_day c after (offset_model fmt tz y m d) y m d"
  have ok: "cron_ok c" by (rule parse_cron_ok[OF assms(1)])
  have "(case civil_of_days n of (y, m, d) \<Rightarrow> ?search y m d) = earliest (instants_on fmt tz c after n)" for n
    by (simp add: search_day_exhaustive[OF ok] instants_on_def split: prod.splits)
  note spec = day_loop_spec[of ?search "instants_on fmt tz c after", OF this, where c = c and k = SEARCH_DAYS and n = ?today]
  have next_fire: "next_cron_fire fmt tz c after = day_loop ?search c SEARCH_DAYS ?today"
    using assms(2) by (simp add: next_cron_fire_def Let_def)
  have later: "e \<in> set (instants_on fmt tz c after n) \<Longrightarrow> after < e" for e n
    by (auto simp: instants_on_def split: prod.splits)
  show ?thesis
    using spec later unfolding Let_def next_fire by (cases "day_loop ?search c SEARCH_DAYS ?today") auto
qed

text \<open>At the epoch, a Thursday, in UTC: the next Monday, 5 January 1970, at half past nine.\<close>

definition utc_format :: zone_format where
  "utc_format tz epoch =
     (case civil_of_days (epoch div DAY_MS) of (y, m, d) \<Rightarrow>
        parts_of y m d (epoch mod DAY_MS div HOUR_MS) (epoch mod HOUR_MS div MINUTE_MS))"

definition monday_cron :: parsed_cron where
  "monday_cron =
     \<lparr>pc_minute = \<lparr>cf_values = [30], cf_wildcard = False\<rparr>, pc_hour = \<lparr>cf_values = [9], cf_wildcard = False\<rparr>,
      pc_day_of_month = \<lparr>cf_values = [1..31], cf_wildcard = True\<rparr>,
      pc_month = \<lparr>cf_values = [1..12], cf_wildcard = True\<rparr>,
      pc_day_of_week = \<lparr>cf_values = [1], cf_wildcard = False\<rparr>\<rparr>"

lemma monday_fire: "next_cron_fire utc_format ''UTC'' monday_cron 0 = Inr 379800000"
proof -
  have model: "offset_model utc_format ''UTC'' 1970 1 5 = [\<lparr>os_start = 259200000, os_end = 518400000, os_offset = 0\<rparr>]"
    by code_simp
  have found: "search_day monday_cron 0 [\<lparr>os_start = 259200000, os_end = 518400000, os_offset = 0\<rparr>] 1970 1 5 = Some 379800000"
    by code_simp
  have days: "civil_of_days 0 = (1970, 1, 1)" "civil_of_days 1 = (1970, 1, 2)" "civil_of_days 2 = (1970, 1, 3)"
    "civil_of_days 3 = (1970, 1, 4)" "civil_of_days 4 = (1970, 1, 5)"
    by code_simp+
  have dates: "\<not> day_matches monday_cron 1970 1 1" "\<not> day_matches monday_cron 1970 1 2"
    "\<not> day_matches monday_cron 1970 1 3" "\<not> day_matches monday_cron 1970 1 4" "day_matches monday_cron 1970 1 5"
    "1 \<in> set (cf_values (pc_month monday_cron))"
    by code_simp+
  have today: "days_of_civil (lp_year (utc_format ''UTC'' 0)) (lp_month (utc_format ''UTC'' 0)) (lp_day (utc_format ''UTC'' 0)) = 0"
    by code_simp
  let ?s = "\<lambda>y m d. search_day monday_cron 0 (offset_model utc_format ''UTC'' y m d) y m d"
  note steps = day_loop.simps(2)[of ?s monday_cron 1829 0] day_loop.simps(2)[of ?s monday_cron 1828 1]
    day_loop.simps(2)[of ?s monday_cron 1827 2] day_loop.simps(2)[of ?s monday_cron 1826 3]
    day_loop.simps(2)[of ?s monday_cron 1825 4]
  show ?thesis
    unfolding next_cron_fire_def Let_def today using steps by (simp add: days dates model found SEARCH_DAYS_def)
qed

theorem next_fire_is_the_earliest_witness:
  "parse_cron ''30 9 * * 1'' = Inr monday_cron \<and> next_cron_fire utc_format ''UTC'' monday_cron 0 = Inr 379800000 \<and>
   (\<exists>i<SEARCH_DAYS. fires_on monday_cron (int i) \<and>
      379800000 \<in> set (instants_on utc_format ''UTC'' monday_cron 0 (int i)))"
proof -
  have c: "parse_cron ''30 9 * * 1'' = Inr monday_cron" by code_simp
  have today: "days_of_civil (lp_year (utc_format ''UTC'' 0)) (lp_month (utc_format ''UTC'' 0)) (lp_day (utc_format ''UTC'' 0)) = 0"
    by code_simp
  have "(0::int) \<le> 0" by simp
  from next_fire_is_the_earliest[OF c this, of utc_format "''UTC''"] c monday_fire show ?thesis
    unfolding Let_def today monday_fire by auto
qed

end
