(* ===== verification/Fuzzy_Path.thy ===== *)
theory Fuzzy_Path
  imports Prelude
begin

text \<open>
  Go to File's fuzzy path matching (\<open>packages/protocol/src/fuzzy-path-match.ts\<close>): a query matches a
  path when its characters occur in it in order; the score prefers segment and word starts,
  consecutive runs and the file name.

  Paths and needles are lists of UTF-16 code units. The case mapping of units outside ASCII, a table
  of the language's runtime, is the argument \<open>uc\<close>; inside ASCII it is written out. The two
  score rows are scratch space that survives from call to call, so they are arguments with arbitrary
  contents, indexed by level and offset as the code lays them out. \<open>alignFrom\<close> is a dynamic program
  over rows; the last section proves that it finds the best of all placements, and that the
  positions it traces back are such a placement.
\<close>

section \<open>Constants\<close>

type_synonym units = "nat list"

definition SCORE_MATCH :: int where "SCORE_MATCH = 16"
definition GAP_START :: int where "GAP_START = -3"
definition GAP_EXTEND :: int where "GAP_EXTEND = -1"
definition BONUS_CONSECUTIVE :: int where "BONUS_CONSECUTIVE = 5"
definition BONUS_SEGMENT :: int where "BONUS_SEGMENT = 10"
definition BONUS_WORD :: int where "BONUS_WORD = 8"
definition BONUS_CAMEL :: int where "BONUS_CAMEL = 7"
definition BONUS_NAME :: int where "BONUS_NAME = 4"
definition FIRST_CHARACTER_MULTIPLIER :: int where "FIRST_CHARACTER_MULTIPLIER = 2"
definition NAME_ONLY :: int where "NAME_ONLY = 40"
definition NAME_EXACT :: int where "NAME_EXACT = 64"
definition NAME_PREFIX :: int where "NAME_PREFIX = 24"
definition MAX_ALIGNMENT_CELLS :: int where "MAX_ALIGNMENT_CELLS = 65536"
definition NONE :: int where "NONE = -1000000000"
definition CLEAN_NAME_RUN :: nat where "CLEAN_NAME_RUN = 3"

lemmas fuzzy_consts = SCORE_MATCH_def GAP_START_def GAP_EXTEND_def BONUS_CONSECUTIVE_def BONUS_SEGMENT_def
  BONUS_WORD_def BONUS_CAMEL_def BONUS_NAME_def FIRST_CHARACTER_MULTIPLIER_def

record fuzzy_match =
  fm_score :: int
  fm_positions :: "nat list"

section \<open>Case folding\<close>

text \<open>Upper and lower case of a code unit outside ASCII, as units.\<close>

record case_tables =
  ct_lower :: "nat \<Rightarrow> units"
  ct_upper :: "nat \<Rightarrow> units"

definition ascii_lower :: "nat \<Rightarrow> nat" where
  "ascii_lower u = (if 65 \<le> u \<and> u \<le> 90 then u + 32 else u)"

definition ascii_upper :: "nat \<Rightarrow> nat" where
  "ascii_upper u = (if 97 \<le> u \<and> u \<le> 122 then u - 32 else u)"

definition unit_lower :: "case_tables \<Rightarrow> nat \<Rightarrow> units" where
  "unit_lower uc u = (if u < 128 then [ascii_lower u] else ct_lower uc u)"

definition unit_upper :: "case_tables \<Rightarrow> nat \<Rightarrow> units" where
  "unit_upper uc u = (if u < 128 then [ascii_upper u] else ct_upper uc u)"

definition fold_case :: "case_tables \<Rightarrow> units \<Rightarrow> units" where
  "fold_case uc txt =
     (if \<forall>u\<in>set txt. u \<le> 127 then map ascii_lower txt
      else concat (map (\<lambda>u. let l = unit_lower uc u in if length l = 1 then l else [u]) txt))"

definition is_white :: "nat \<Rightarrow> bool" where
  "is_white u \<longleftrightarrow> 9 \<le> u \<and> u \<le> 13 \<or> u = 32 \<or> u = 160 \<or> u = 5760 \<or> 8192 \<le> u \<and> u \<le> 8202 \<or>
     u \<in> {8232, 8233, 8239, 8287, 12288, 65279}"

definition fuzzy_path_needle :: "case_tables \<Rightarrow> units \<Rightarrow> units" where
  "fuzzy_path_needle uc query = fold_case uc (filter (\<lambda>u. \<not> is_white u) query)"

text \<open>\<open>charCodeAt\<close> is \<open>NaN\<close> out of range, which no comparison accepts.\<close>

definition char_code_at :: "units \<Rightarrow> nat \<Rightarrow> nat option" where
  "char_code_at path i = (if i < length path then Some (path ! i) else None)"

definition is_lower :: "case_tables \<Rightarrow> nat \<Rightarrow> bool" where
  "is_lower uc u =
     (if u < 128 then 97 \<le> u \<and> u \<le> 122 else [u] \<noteq> unit_upper uc u \<and> [u] = unit_lower uc u)"

definition is_upper :: "case_tables \<Rightarrow> nat \<Rightarrow> bool" where
  "is_upper uc u =
     (if u < 128 then 65 \<le> u \<and> u \<le> 90 else [u] \<noteq> unit_lower uc u \<and> [u] = unit_upper uc u)"

definition on_code :: "(nat \<Rightarrow> bool) \<Rightarrow> nat option \<Rightarrow> bool" where
  "on_code P u = (case u of None \<Rightarrow> False | Some c \<Rightarrow> P c)"

section \<open>Bonuses and the score of a placement\<close>

text \<open>\<open>path.lastIndexOf("/") + 1\<close>.\<close>

definition name_start :: "units \<Rightarrow> nat" where
  "name_start path =
     (case find (\<lambda>k. path ! k = 47) (rev [0..<length path]) of None \<Rightarrow> 0 | Some k \<Rightarrow> k + 1)"

definition bonus_at :: "case_tables \<Rightarrow> units \<Rightarrow> nat \<Rightarrow> nat \<Rightarrow> int" where
  "bonus_at uc path index ns =
     (let name = if index \<ge> ns then BONUS_NAME else 0;
          previous = if index = 0 then Some 47 else char_code_at path (index - 1)
      in if previous = Some 47 then BONUS_SEGMENT + name
         else if previous \<in> {Some 45, Some 95, Some 46, Some 32} then BONUS_WORD + name
         else let current = char_code_at path index;
                  digit = on_code (\<lambda>c. 48 \<le> c \<and> c \<le> 57) current
              in if on_code (is_lower uc) previous \<and> on_code (is_upper uc) current \<or>
                    digit \<and> (on_code (is_lower uc) previous \<or> on_code (is_upper uc) previous)
                 then BONUS_CAMEL + name else name)"

definition run_bonus :: "int \<Rightarrow> int \<Rightarrow> int" where
  "run_bonus own run = max (max own run) BONUS_CONSECUTIVE"

text \<open>One step of the \<open>forEach\<close>: the score so far, the bonus of the run's start, the last position.\<close>

definition score_step ::
    "(nat \<Rightarrow> int) \<Rightarrow> int \<times> int \<times> nat option \<Rightarrow> nat \<Rightarrow> int \<times> int \<times> nat option" where
  "score_step bonus st position =
     (case st of (score, run, prev) \<Rightarrow>
        case prev of
          None \<Rightarrow> (score + (SCORE_MATCH + bonus position * FIRST_CHARACTER_MULTIPLIER), bonus position, Some position)
        | Some p \<Rightarrow>
            (let skipped = int position - int p - 1
             in if skipped = 0 then (score + (SCORE_MATCH + run_bonus (bonus position) run), run, Some position)
                else (score + (SCORE_MATCH + bonus position + GAP_START + GAP_EXTEND * (skipped - 1)),
                      bonus position, Some position)))"

definition score_positions :: "case_tables \<Rightarrow> units \<Rightarrow> nat list \<Rightarrow> nat \<Rightarrow> int" where
  "score_positions uc path positions ns = fst (foldl (score_step (\<lambda>p. bonus_at uc path p ns)) (0, 0, None) positions)"

definition fuzzy_path_placement_score :: "case_tables \<Rightarrow> units \<Rightarrow> nat list \<Rightarrow> int" where
  "fuzzy_path_placement_score uc path positions = score_positions uc path positions (name_start path)"

section \<open>Clean matches\<close>

text \<open>The run that starts at the head: its length, and what is left.\<close>

fun take_run :: "nat \<Rightarrow> nat list \<Rightarrow> nat \<times> nat list" where
  "take_run p [] = (0, [])"
| "take_run p (q # qs) = (if q = p + 1 then (case take_run q qs of (k, rest) \<Rightarrow> (Suc k, rest)) else (0, q # qs))"

lemma take_run_shorter [termination_simp]: "(k, rest) = take_run p ps \<Longrightarrow> length rest \<le> length ps"
  by (induction p ps arbitrary: k rest rule: take_run.induct) (force split: if_splits prod.splits)+

fun clean_runs :: "case_tables \<Rightarrow> units \<Rightarrow> nat \<Rightarrow> nat list \<Rightarrow> bool" where
  "clean_runs uc path ns [] = True"
| "clean_runs uc path ns (first # ps) =
     (case take_run first ps of (k, rest) \<Rightarrow>
        let word_start = bonus_at uc path first ns - (if first \<ge> ns then BONUS_NAME else 0) > 0
        in if \<not> word_start \<and> \<not> (first \<ge> ns \<and> Suc k \<ge> CLEAN_NAME_RUN) then False
           else clean_runs uc path ns rest)"

definition fuzzy_path_match_is_clean :: "case_tables \<Rightarrow> units \<Rightarrow> nat list \<Rightarrow> bool" where
  "fuzzy_path_match_is_clean uc path positions \<longleftrightarrow>
     clean_runs uc path (name_start path) positions \<and> length positions > 0"

section \<open>Levels\<close>

text \<open>\<open>indexOf\<close> on an array of numbers.\<close>

fun js_index_of :: "'a list \<Rightarrow> 'a \<Rightarrow> int" where
  "js_index_of [] x = -1"
| "js_index_of (y # ys) x = (if y = x then 0 else case js_index_of ys x of k \<Rightarrow> if k < 0 then -1 else k + 1)"

definition LEVEL_VALUES :: "int list" where
  "LEVEL_VALUES =
     js_sort (\<le>) (js_dedup (map (\<lambda>bonus. max bonus BONUS_CONSECUTIVE)
       (concat (map (\<lambda>base. [base, base + BONUS_NAME]) [0, BONUS_CAMEL, BONUS_WORD, BONUS_SEGMENT]))))"

definition LEVELS :: nat where "LEVELS = length LEVEL_VALUES"

definition LEVEL_OF :: "int list" where
  "LEVEL_OF = map (\<lambda>bonus. js_index_of LEVEL_VALUES (max bonus BONUS_CONSECUTIVE)) [0..BONUS_SEGMENT + BONUS_NAME]"

definition level_of :: "int \<Rightarrow> nat" where
  "level_of bonus = nat (LEVEL_OF ! nat bonus)"

section \<open>The window of each character\<close>

definition index_of :: "units \<Rightarrow> nat \<Rightarrow> nat \<Rightarrow> nat option" where
  "index_of h c j = find (\<lambda>k. h ! k = c) [j..<length h]"

definition last_index_of :: "units \<Rightarrow> nat \<Rightarrow> int \<Rightarrow> int" where
  "last_index_of h c j =
     (case find (\<lambda>k. h ! k = c) (rev [0..<min (nat (max j 0) + 1) (length h)]) of None \<Rightarrow> -1 | Some k \<Rightarrow> int k)"

text \<open>The first loop, from \<open>j\<close>; \<open>None\<close> is the \<open>return null\<close>.\<close>

fun earliest_offsets :: "units \<Rightarrow> units \<Rightarrow> nat \<Rightarrow> nat list option" where
  "earliest_offsets h [] j = Some []"
| "earliest_offsets h (c # cs) j =
     (case index_of h c j of None \<Rightarrow> None | Some k \<Rightarrow> map_option ((#) k) (earliest_offsets h cs (k + 1)))"

text \<open>The second loop, over the reversed needle.\<close>

fun latest_rev :: "units \<Rightarrow> units \<Rightarrow> int \<Rightarrow> int list" where
  "latest_rev h [] j = []"
| "latest_rev h (c # cs) j = (let k = last_index_of h c j in k # latest_rev h cs (k - 1))"

definition latest_offsets :: "units \<Rightarrow> units \<Rightarrow> int list" where
  "latest_offsets h needle = rev (latest_rev h (rev needle) (int (length h) - 1))"

section \<open>The alignment\<close>

type_synonym score_row = "nat \<Rightarrow> nat \<Rightarrow> int"
type_synonym back_state = "nat \<times> nat"
type_synonym back_table = "nat \<Rightarrow> nat \<Rightarrow> nat \<Rightarrow> back_state option"

definition set_cell :: "score_row \<Rightarrow> nat \<Rightarrow> nat \<Rightarrow> int \<Rightarrow> score_row" where
  "set_cell row level j v = (\<lambda>l k. if l = level \<and> k = j then v else row l k)"

text \<open>\<open>from[(i * LEVELS + level) * n + j] = state\<close>, when positions are wanted.\<close>

definition set_from :: "bool \<Rightarrow> back_table \<Rightarrow> nat \<Rightarrow> nat \<Rightarrow> nat \<Rightarrow> back_state option \<Rightarrow> back_table" where
  "set_from wanted f i level j st =
     (if wanted then (\<lambda>a l k. if a = i \<and> l = level \<and> k = j then st else f a l k) else f)"

definition clear_row :: "nat \<Rightarrow> nat \<Rightarrow> score_row \<Rightarrow> score_row" where
  "clear_row n offset row = (\<lambda>l k. if l < LEVELS \<and> offset - 2 \<le> k \<and> k < n then NONE else row l k)"

text \<open>The offsets from \<open>e\<close> through the last one, which is an \<open>int\<close>.\<close>

definition window :: "nat \<Rightarrow> int \<Rightarrow> nat list" where
  "window e l = [e..<nat (l + 1)]"

definition first_row :: "(nat \<Rightarrow> int) \<Rightarrow> units \<Rightarrow> nat \<Rightarrow> nat list \<Rightarrow> score_row \<Rightarrow> score_row" where
  "first_row bonus h c js row =
     foldl (\<lambda>r j. if h ! j \<noteq> c then r
                   else set_cell r (level_of (bonus j)) j (SCORE_MATCH + bonus j * FIRST_CHARACTER_MULTIPLIER)) row js"

text \<open>The loop-carried state of a row: the row being written, the best gapped start and its origin, the table.\<close>

record row_state =
  rs_row :: score_row
  rs_gap :: int
  rs_gap_from :: "back_state option"
  rs_from :: back_table

text \<open>The scan of the levels two back.\<close>

definition scan_gap :: "score_row \<Rightarrow> nat \<Rightarrow> int \<times> back_state option \<Rightarrow> nat list \<Rightarrow> int \<times> back_state option" where
  "scan_gap prev skipped = foldl (\<lambda>(gap, gap_from) level.
     if prev level skipped > NONE \<and> prev level skipped + GAP_START > gap
     then (prev level skipped + GAP_START, Some (level, skipped)) else (gap, gap_from))"

text \<open>Continue each run, keeping its level.\<close>

definition continue_runs ::
    "bool \<Rightarrow> nat \<Rightarrow> score_row \<Rightarrow> nat \<Rightarrow> int \<Rightarrow> score_row \<times> back_table \<Rightarrow> nat list \<Rightarrow> score_row \<times> back_table" where
  "continue_runs wanted i prev j bonus = foldl (\<lambda>(row, f) level.
     if prev level (j - 1) \<le> NONE then (row, f)
     else (set_cell row level j (prev level (j - 1) + SCORE_MATCH + max bonus (LEVEL_VALUES ! level)),
           set_from wanted f i level j (Some (level, j - 1))))"

text \<open>Or start a new run here after a gap.\<close>

definition start_run ::
    "bool \<Rightarrow> nat \<Rightarrow> int \<Rightarrow> back_state option \<Rightarrow> nat \<Rightarrow> int \<Rightarrow> score_row \<times> back_table \<Rightarrow> score_row \<times> back_table" where
  "start_run wanted i gap gap_from j bonus st =
     (case st of (row, f) \<Rightarrow>
        if gap > NONE
        then (let level = level_of bonus; jump = gap + SCORE_MATCH + bonus
              in if jump > row level j then (set_cell row level j jump, set_from wanted f i level j gap_from) else (row, f))
        else (row, f))"

definition row_step ::
    "bool \<Rightarrow> (nat \<Rightarrow> int) \<Rightarrow> units \<Rightarrow> nat \<Rightarrow> nat \<Rightarrow> nat \<Rightarrow> nat \<Rightarrow> score_row \<Rightarrow> row_state \<Rightarrow> nat \<Rightarrow> row_state" where
  "row_step wanted bonus h i c e_prev e prev s j =
     (let gap = if rs_gap s > NONE then rs_gap s + GAP_EXTEND else rs_gap s;
          (gap, gap_from) =
            (if e_prev + 2 \<le> j then scan_gap prev (j - 2) (gap, rs_gap_from s) [0..<LEVELS] else (gap, rs_gap_from s));
          s = s\<lparr>rs_gap := gap, rs_gap_from := gap_from\<rparr>
      in if j < e \<or> h ! j \<noteq> c then s
         else (case start_run wanted i gap gap_from j (bonus j)
                      (continue_runs wanted i prev j (bonus j) (rs_row s, rs_from s) [0..<LEVELS]) of
                 (row, f) \<Rightarrow> s\<lparr>rs_row := row, rs_from := f\<rparr>))"

text \<open>The rows from the second character on; each iteration swaps the two rows.\<close>

fun align_rows ::
    "bool \<Rightarrow> (nat \<Rightarrow> int) \<Rightarrow> units \<Rightarrow> nat \<Rightarrow> (nat \<times> nat \<times> int) list \<Rightarrow> nat \<Rightarrow> score_row \<Rightarrow> score_row \<Rightarrow> back_table \<Rightarrow>
     score_row \<times> back_table" where
  "align_rows wanted bonus h i [] e_prev previous current f = (previous, f)"
| "align_rows wanted bonus h i ((c, e, l) # rows) e_prev previous current f =
     (let s = foldl (row_step wanted bonus h i c e_prev e previous)
                \<lparr>rs_row = clear_row (length h) e current, rs_gap = NONE, rs_gap_from = None, rs_from = f\<rparr>
                (window (e_prev + 1) l)
      in align_rows wanted bonus h (Suc i) rows e (rs_row s) previous (rs_from s))"

text \<open>The best end state, the first of equals.\<close>

definition best_end :: "score_row \<Rightarrow> nat list \<Rightarrow> back_state option" where
  "best_end row js =
     foldl (\<lambda>end (j, level).
       if row level j > NONE \<and> (case end of None \<Rightarrow> True | Some (l, k) \<Rightarrow> row level j > row l k)
       then Some (level, j) else end)
     None (concat (map (\<lambda>j. map (\<lambda>level. (j, level)) [0..<LEVELS]) js))"

text \<open>The positions, unshifted from the end back to row 0; an unset entry stops the walk.\<close>

fun trace_back :: "back_table \<Rightarrow> nat \<Rightarrow> back_state \<Rightarrow> nat list \<Rightarrow> nat list" where
  "trace_back f 0 (l, j) acc = j # acc"
| "trace_back f (Suc i) (l, j) acc =
     (case f (Suc i) l j of None \<Rightarrow> j # acc | Some st \<Rightarrow> trace_back f i st (j # acc))"

text \<open>
  \<open>alignFrom\<close>: the budget left, and the match if there is one. \<open>scratch\<close> is the two rows as the last
  call left them.
\<close>

definition align_from ::
    "case_tables \<Rightarrow> score_row \<times> score_row \<Rightarrow> units \<Rightarrow> units \<Rightarrow> units \<Rightarrow> nat \<Rightarrow> nat \<Rightarrow> bool \<Rightarrow> int option \<Rightarrow>
     int option \<times> fuzzy_match option" where
  "align_from uc scratch path h needle start ns wanted budget =
     (case earliest_offsets h needle start of
        None \<Rightarrow> (budget, None)
      | Some es \<Rightarrow>
          (let ls = latest_offsets h needle;
               cells = int (length needle) * (int (length h) - int start)
           in if cells > MAX_ALIGNMENT_CELLS \<or> (case budget of None \<Rightarrow> False | Some b \<Rightarrow> b < cells)
              then (let positions = map nat ls
                    in (budget, Some \<lparr>fm_score = score_positions uc path positions ns,
                                       fm_positions = if wanted then positions else []\<rparr>))
              else
                let budget = map_option (\<lambda>b. b - cells) budget;
                    bonus = (\<lambda>j. bonus_at uc path j ns);
                    row = first_row bonus h (hd needle) (window (hd es) (hd ls)) (clear_row (length h) (hd es) (fst scratch));
                    (row, f) = align_rows wanted bonus h 1 (zip (tl needle) (zip (tl es) (tl ls))) (hd es) row
                                 (snd scratch) (\<lambda>i l j. None)
                in (budget,
                    case best_end row (window (last es) (last ls)) of
                      None \<Rightarrow> None
                    | Some (level, j) \<Rightarrow>
                        Some \<lparr>fm_score = row level j,
                              fm_positions = if wanted then trace_back f (length needle - 1) (level, j) [] else []\<rparr>)))"

text \<open>
  \<open>align\<close>: the better of the match within the whole path and, with a bonus, within the file name.
  \<open>scratch k\<close> is the two rows as the \<open>k\<close>-th alignment finds them.
\<close>

definition align ::
    "case_tables \<Rightarrow> (nat \<Rightarrow> score_row \<times> score_row) \<Rightarrow> units \<Rightarrow> units \<Rightarrow> bool \<Rightarrow> int option \<Rightarrow> int option \<times> fuzzy_match option" where
  "align uc scratch path needle wanted budget =
     (if needle = [] \<or> length needle > length path then (budget, None)
      else
        let h = fold_case uc path; ns = name_start path
        in case align_from uc (scratch 0) path h needle 0 ns wanted budget of
             (budget, None) \<Rightarrow> (budget, None)
           | (budget, Some in_path) \<Rightarrow>
               (case (if ns = 0 then (budget, Some in_path) else align_from uc (scratch 1) path h needle ns ns wanted budget) of
                  (budget, in_name) \<Rightarrow>
                    let best = (case in_name of
                          None \<Rightarrow> in_path
                        | Some m \<Rightarrow> if fm_score m + NAME_ONLY \<ge> fm_score in_path
                                     then m\<lparr>fm_score := fm_score m + NAME_ONLY\<rparr> else in_path);
                        name = drop ns h
                    in (budget, Some (best\<lparr>fm_score := fm_score best +
                          (if name = needle then NAME_EXACT
                           else if take (length needle) name = needle then NAME_PREFIX else 0)\<rparr>))))"

definition fuzzy_path_score ::
    "case_tables \<Rightarrow> (nat \<Rightarrow> score_row \<times> score_row) \<Rightarrow> units \<Rightarrow> units \<Rightarrow> int option \<Rightarrow> int option \<times> int option" where
  "fuzzy_path_score uc scratch path needle budget =
     (case align uc scratch path needle False budget of (b, r) \<Rightarrow> (b, map_option fm_score r))"

definition fuzzy_path_match :: "case_tables \<Rightarrow> (nat \<Rightarrow> score_row \<times> score_row) \<Rightarrow> units \<Rightarrow> units \<Rightarrow> fuzzy_match option" where
  "fuzzy_path_match uc scratch path needle = snd (align uc scratch path needle True None)"


section \<open>The levels of the bonuses\<close>

definition BONUSES :: "int set" where "BONUSES = {0, 4, 7, 8, 10, 11, 12, 14}"

lemma level_values: "LEVEL_VALUES = [5, 7, 8, 10, 11, 12, 14]"
  by (simp add: LEVEL_VALUES_def fuzzy_consts)

lemma levels [simp]: "LEVELS = 7"
  by (simp add: LEVELS_def level_values)

lemma level_of_lookup: "0 \<le> b \<Longrightarrow> b \<le> 14 \<Longrightarrow> level_of b = nat (js_index_of LEVEL_VALUES (max b 5))"
  using nth_upto[of 0 "nat b" 14] by (simp add: level_of_def LEVEL_OF_def fuzzy_consts)

lemma level_of_bonus:
  assumes "b \<in> BONUSES"
  shows "level_of b < 7" "LEVEL_VALUES ! level_of b = max b 5"
proof -
  have "level_of b < 7 \<and> LEVEL_VALUES ! level_of b = max b 5"
    using assms level_of_lookup[of b] unfolding BONUSES_def by (auto simp: level_values)
  then show "level_of b < 7" "LEVEL_VALUES ! level_of b = max b 5" by auto
qed

lemma bonus_at_bonus: "bonus_at uc path j ns \<in> BONUSES"
  by (auto simp: bonus_at_def Let_def fuzzy_consts BONUSES_def)

section \<open>Placements\<close>

definition placement :: "units \<Rightarrow> units \<Rightarrow> nat \<Rightarrow> nat list \<Rightarrow> bool" where
  "placement h cs start ps \<longleftrightarrow>
     sorted_wrt (<) ps \<and> (\<forall>p\<in>set ps. start \<le> p \<and> p < length h) \<and> map ((!) h) ps = cs"

lemma placement_length: "placement h cs start ps \<Longrightarrow> length ps = length cs"
  by (auto simp: placement_def)

lemma placement_Nil [simp]: "placement h [] start ps \<longleftrightarrow> ps = []"
  by (auto simp: placement_def)

lemma placement_snoc [simp]:
  "placement h (cs @ [c]) start (qs @ [j]) \<longleftrightarrow>
     placement h cs start qs \<and> (\<forall>q\<in>set qs. q < j) \<and> start \<le> j \<and> j < length h \<and> h ! j = c"
  by (auto simp: placement_def sorted_wrt_append)

lemma placement_snocE:
  assumes "placement h (cs @ [c]) start ps"
  obtains qs j where "ps = qs @ [j]" "placement h cs start qs" "\<forall>q\<in>set qs. q < j" "start \<le> j" "j < length h" "h ! j = c"
proof -
  have "ps \<noteq> []" using placement_length[OF assms] by auto
  then obtain qs j where "ps = qs @ [j]" by (cases ps rule: rev_cases) auto
  with assms that show ?thesis by auto
qed

lemma placement_last_max: "placement h cs start qs \<Longrightarrow> q \<in> set qs \<Longrightarrow> q \<le> last qs"
  by (cases qs rule: rev_cases) (auto simp: placement_def sorted_wrt_append less_imp_le)

text \<open>The score of a placement, and the bonus its last run carries.\<close>

definition pstate :: "(nat \<Rightarrow> int) \<Rightarrow> nat list \<Rightarrow> int \<times> int \<times> nat option" where
  "pstate bonus ps = foldl (score_step bonus) (0, 0, None) ps"

definition pscore :: "(nat \<Rightarrow> int) \<Rightarrow> nat list \<Rightarrow> int" where
  "pscore bonus ps = fst (pstate bonus ps)"

definition prun :: "(nat \<Rightarrow> int) \<Rightarrow> nat list \<Rightarrow> int" where
  "prun bonus ps = fst (snd (pstate bonus ps))"

lemma pstate_prev: "snd (snd (pstate bonus ps)) = (if ps = [] then None else Some (last ps))"
  by (cases ps rule: rev_cases) (auto simp: pstate_def score_step_def Let_def split: prod.splits option.splits)

lemma pstate_eq: "pstate bonus ps = (pscore bonus ps, prun bonus ps, if ps = [] then None else Some (last ps))"
  using pstate_prev[of bonus ps] by (simp add: pscore_def prun_def prod_eq_iff)

lemma pstate_snoc: "pstate bonus (ps @ [j]) = score_step bonus (pstate bonus ps) j"
  by (simp add: pstate_def)

lemma place_first: "pscore bonus [j] = 16 + bonus j * 2" "prun bonus [j] = bonus j"
  by (simp_all add: pscore_def prun_def pstate_def score_step_def fuzzy_consts)

lemma place_next:
  assumes "ps \<noteq> []" "j = last ps + 1"
  shows "pscore bonus (ps @ [j]) = pscore bonus ps + 16 + max (bonus j) (max (prun bonus ps) 5)"
    "prun bonus (ps @ [j]) = prun bonus ps"
  using assms
  by (simp_all add: pscore_def[of bonus "ps @ _"] prun_def[of bonus "ps @ _"] pstate_snoc pstate_eq[of bonus ps]
      score_step_def Let_def run_bonus_def fuzzy_consts)

lemma place_gap:
  assumes "ps \<noteq> []" "last ps + 1 < j"
  shows "pscore bonus (ps @ [j]) = pscore bonus ps + 16 + bonus j - 3 - (int j - int (last ps) - 2)"
    "prun bonus (ps @ [j]) = bonus j"
  using assms
  by (simp_all add: pscore_def[of bonus "ps @ _"] prun_def[of bonus "ps @ _"] pstate_snoc pstate_eq[of bonus ps]
      score_step_def Let_def fuzzy_consts)

lemma score_positions_pscore: "score_positions uc path ps ns = pscore (\<lambda>p. bonus_at uc path p ns) ps"
  by (simp add: score_positions_def pscore_def pstate_def)


section \<open>The windows\<close>

lemma placement_Cons [simp]:
  "placement h (c # cs) start (p # ps) \<longleftrightarrow> start \<le> p \<and> p < length h \<and> h ! p = c \<and> placement h cs (p + 1) ps"
  by (auto simp: placement_def Suc_le_eq)

lemma placement_ConsE:
  assumes "placement h (c # cs) start ps"
  obtains p qs where "ps = p # qs" "start \<le> p" "p < length h" "h ! p = c" "placement h cs (p + 1) qs"
  using assms placement_length[OF assms] by (cases ps) auto

lemma placement_mono: "placement h cs s ps \<Longrightarrow> t \<le> s \<Longrightarrow> placement h cs t ps"
  by (auto simp: placement_def)

lemma placement_append:
  "placement h (cs @ ds) start (ps @ qs) \<longleftrightarrow>
     placement h cs start ps \<and> placement h ds start qs \<and> (\<forall>p\<in>set ps. \<forall>q\<in>set qs. p < q)"
  if "length ps = length cs" for ps qs
  using that by (auto simp: placement_def sorted_wrt_append)

lemma find_upt_first: "find P [a..<b] = Some k \<Longrightarrow> a \<le> q \<Longrightarrow> q < k \<Longrightarrow> \<not> P q"
proof (induction b)
  case (Suc b)
  then show ?case
    by (cases "find P [a..<b]") (auto simp: find_append dest: find_NoneD[of P _ q] split: if_splits)
qed simp

lemma find_upt_last: "find P (rev [0..<n]) = Some k \<Longrightarrow> k < q \<Longrightarrow> q < n \<Longrightarrow> \<not> P q"
  by (induction n) (auto simp: less_Suc_eq split: if_splits)

lemma index_of_Some:
  "index_of h c j = Some k \<Longrightarrow> j \<le> k \<and> k < length h \<and> h ! k = c \<and> (\<forall>q. j \<le> q \<and> h ! q = c \<longrightarrow> k \<le> q)"
proof -
  assume k: "index_of h c j = Some k"
  then have "k \<in> set [j..<length h] \<and> h ! k = c" unfolding index_of_def by (rule find_SomeD)
  moreover have "k \<le> q" if "j \<le> q" "h ! q = c" for q
    using find_upt_first[of "\<lambda>k. h ! k = c" j "length h" k q] k that by (force simp: index_of_def)
  ultimately show ?thesis by auto
qed

lemma index_of_least:
  assumes "j \<le> p" "p < length h" "h ! p = c"
  obtains k where "index_of h c j = Some k" "j \<le> k" "k \<le> p" "k < length h" "h ! k = c"
proof (cases "index_of h c j")
  case None
  then have "p \<notin> set [j..<length h] \<or> h ! p \<noteq> c" unfolding index_of_def by (auto dest: find_NoneD)
  with assms show thesis by auto
next
  case (Some k)
  then show thesis using index_of_Some[OF Some] assms that by auto
qed

lemma earliest_placement: "earliest_offsets h cs j = Some es \<Longrightarrow> placement h cs j es"
proof (induction h cs j arbitrary: es rule: earliest_offsets.induct)
  case (2 h c cs j)
  from "2.prems" obtain k es' where k: "index_of h c j = Some k" "es = k # es'" "earliest_offsets h cs (k + 1) = Some es'"
    by (auto split: option.splits)
  then show ?case using "2.IH"[OF k(1) k(3)] index_of_Some[OF k(1)] by simp
qed simp

lemma earliest_least:
  "placement h cs j ps \<Longrightarrow> \<exists>es. earliest_offsets h cs j = Some es \<and> list_all2 (\<le>) es ps"
proof (induction cs arbitrary: j ps)
  case (Cons c cs)
  obtain p qs where ps: "ps = p # qs" "j \<le> p" "p < length h" "h ! p = c" "placement h cs (p + 1) qs"
    using Cons.prems by (rule placement_ConsE)
  obtain k where k: "index_of h c j = Some k" "k \<le> p"
    using index_of_least[OF ps(2-4)] by metis
  have "placement h cs (k + 1) qs" using ps(5) k(2) by (auto elim: placement_mono)
  from Cons.IH[OF this] k ps(1) show ?case by auto
qed simp

lemma earliest_prefix:
  "earliest_offsets h (cs @ ds) j = Some es \<Longrightarrow> earliest_offsets h cs j = Some (take (length cs) es)"
proof (induction cs arbitrary: j es)
  case (Cons c cs)
  obtain k es' where k: "index_of h c j = Some k" "es = k # es'" "earliest_offsets h (cs @ ds) (k + 1) = Some es'"
    using Cons.prems by (auto split: option.splits)
  then show ?case using Cons.IH[OF k(3)] by simp
qed simp

lemma last_index_of_ge:
  assumes "h ! p = c" "p < length h" "int p \<le> j"
  obtains k where "last_index_of h c j = int k" "p \<le> k" "int k \<le> j" "k < length h" "h ! k = c"
proof -
  let ?N = "min (nat (max j 0) + 1) (length h)"
  have p: "p < ?N" using assms by auto
  obtain k where k: "find (\<lambda>k. h ! k = c) (rev [0..<?N]) = Some k"
    using p assms(1) by (cases "find (\<lambda>k. h ! k = c) (rev [0..<?N])") (auto dest: find_NoneD[where x = p])
  then have k': "k < ?N" "h ! k = c" using find_SomeD[OF k] by auto
  have "p \<le> k"
    using find_upt_last[OF k, of p] assms(1) p by force
  moreover have "int k \<le> j" using k'(1) assms(3) by auto
  ultimately show thesis using that[of k] k k' by (simp add: last_index_of_def)
qed

lemma latest_rev_greatest:
  "placement h (rev cs) start ps \<Longrightarrow> \<forall>p\<in>set ps. int p \<le> j \<Longrightarrow>
     \<exists>ls. latest_rev h cs j = map int (rev ls) \<and> placement h (rev cs) start ls \<and> list_all2 (\<le>) ps ls \<and>
       (\<forall>p\<in>set ls. int p \<le> j)"
proof (induction cs arbitrary: ps j)
  case (Cons c cs)
  have "placement h (rev cs @ [c]) start ps" using Cons.prems(1) by simp
  then obtain qs p where ps: "ps = qs @ [p]" "placement h (rev cs) start qs" "\<forall>q\<in>set qs. q < p" "start \<le> p" "p < length h" "h ! p = c"
    by (rule placement_snocE)
  obtain k where k: "last_index_of h c j = int k" "p \<le> k" "int k \<le> j" "k < length h" "h ! k = c"
    using last_index_of_ge[OF ps(6,5)] Cons.prems(2) ps(1) by auto
  have "\<forall>q\<in>set qs. int q \<le> int k - 1" using ps(3) k(2) by force
  from Cons.IH[OF ps(2) this] obtain ls where ls: "latest_rev h cs (int k - 1) = map int (rev ls)"
    "placement h (rev cs) start ls" "list_all2 (\<le>) qs ls" "\<forall>p\<in>set ls. int p \<le> int k - 1" by blast
  have "placement h (rev cs @ [c]) start (ls @ [k])" using ls k ps(4) by force
  moreover have "list_all2 (\<le>) ps (ls @ [k])" using ls(3) k(2) ps(1) by (simp add: list_all2_appendI)
  moreover have "\<forall>p\<in>set (ls @ [k]). int p \<le> j" using ls(4) k(3) by force
  ultimately show ?case using ls(1) k(1) by (intro exI[of _ "ls @ [k]"]) simp
qed simp

lemma latest_greatest:
  assumes "placement h cs start ps"
  obtains ls where "latest_offsets h cs = map int ls" "placement h cs start ls"
    "\<And>qs. placement h cs start qs \<Longrightarrow> list_all2 (\<le>) qs ls"
proof -
  have le: "\<forall>p\<in>set qs. int p \<le> int (length h) - 1" if "placement h cs start qs" for qs
    using that by (force simp: placement_def)
  have *: "\<exists>ls. latest_rev h (rev cs) (int (length h) - 1) = map int (rev ls) \<and> placement h cs start ls \<and> list_all2 (\<le>) qs ls"
    if "placement h cs start qs" for qs
    using latest_rev_greatest[of h "rev cs" start qs "int (length h) - 1"] le[OF that] that by auto
  from *[OF assms] obtain ls where ls: "latest_rev h (rev cs) (int (length h) - 1) = map int (rev ls)" "placement h cs start ls"
    by blast
  have "list_all2 (\<le>) qs ls" if "placement h cs start qs" for qs
    using *[OF that] ls(1) by (auto simp: inj_map_eq_map)
  then show thesis using that[of ls] ls by (simp add: latest_offsets_def rev_map)
qed


text \<open>
  What the row loops rely on: row \<open>i\<close> may be written only from \<open>es ! i\<close> through \<open>ls ! i\<close>, since the
  last character of any placement of the first \<open>i + 1\<close> characters that can still be completed lies there.
\<close>

definition windows_ok :: "units \<Rightarrow> units \<Rightarrow> nat \<Rightarrow> nat list \<Rightarrow> nat list \<Rightarrow> bool" where
  "windows_ok h needle start es ls \<longleftrightarrow> length es = length needle \<and> length ls = length needle \<and>
     (\<forall>i<length needle. start \<le> es ! i \<and> es ! i \<le> ls ! i \<and> ls ! i < length h) \<and>
     (\<forall>i. Suc i < length needle \<longrightarrow> es ! i < es ! Suc i) \<and>
     (\<forall>i<length needle. \<forall>qs j. placement h (take (Suc i) needle) start (qs @ [j]) \<longrightarrow>
        es ! i \<le> j \<and> (j \<le> ls ! i \<longrightarrow> qs \<noteq> [] \<longrightarrow> last qs \<le> ls ! (i - 1)))"

lemma windows:
  assumes "earliest_offsets h needle start = Some es"
  obtains ls where "latest_offsets h needle = map int ls" "placement h needle start ls" "windows_ok h needle start es ls"
    "\<And>qs. placement h needle start qs \<Longrightarrow> list_all2 (\<le>) qs ls"
proof -
  have es: "placement h needle start es" using assms by (rule earliest_placement)
  obtain ls where ls: "latest_offsets h needle = map int ls" "placement h needle start ls"
    "\<And>qs. placement h needle start qs \<Longrightarrow> list_all2 (\<le>) qs ls" using latest_greatest[OF es] by metis
  have len: "length es = length needle" "length ls = length needle"
    using placement_length es ls(2) by auto
  have "es ! i \<le> j \<and> (j \<le> ls ! i \<longrightarrow> qs \<noteq> [] \<longrightarrow> last qs \<le> ls ! (i - 1))"
    if i: "i < length needle" and q: "placement h (take (Suc i) needle) start (qs @ [j])" for i qs j
  proof -
    have lq: "length qs = i" using placement_length[OF q] i by simp
    have "earliest_offsets h (take (Suc i) needle) start = Some (take (length (take (Suc i) needle)) es)"
      by (rule earliest_prefix[where ds = "drop (Suc i) needle"]) (simp add: assms)
    with earliest_least[OF q] have "list_all2 (\<le>) (take (Suc i) es) (qs @ [j])" using i by (simp add: min.absorb2 Suc_le_eq)
    from list_all2_nthD[OF this, of i] have "take (Suc i) es ! i \<le> (qs @ [j]) ! i" using len i by simp
    then have 1: "es ! i \<le> j" using lq by (simp add: nth_append)
    have "last qs \<le> ls ! (i - 1)" if jl: "j \<le> ls ! i" and ne: "qs \<noteq> []"
    proof -
      have sl: "sorted_wrt (<) ls" "map ((!) h) ls = needle" using ls(2) by (auto simp: placement_def)
      have "\<forall>p\<in>set (drop (Suc i) ls). j < p"
      proof
        fix p assume "p \<in> set (drop (Suc i) ls)"
        then obtain k where k: "k < length (drop (Suc i) ls)" "p = drop (Suc i) ls ! k" by (auto simp: in_set_conv_nth)
        then have "ls ! i < ls ! (Suc i + k)" using sorted_wrt_nth_less[OF sl(1), of i "Suc i + k"] by auto
        with k jl show "j < p" by simp
      qed
      moreover have q': "\<forall>p\<in>set qs. p < j" using q by (auto simp: placement_def sorted_wrt_append)
      moreover have "placement h (drop (Suc i) needle) start (drop (Suc i) ls)"
        using ls(2) by (auto simp: placement_def sorted_wrt_drop drop_map dest: in_set_dropD)
      ultimately have "placement h (take (Suc i) needle @ drop (Suc i) needle) start ((qs @ [j]) @ drop (Suc i) ls)"
        using q placement_length[OF q] q' by (subst placement_append) (auto intro: order.strict_trans)
      then have "list_all2 (\<le>) ((qs @ [j]) @ drop (Suc i) ls) ls" using ls(3) by simp
      from list_all2_nthD[OF this, of "i - 1"]
      have "((qs @ [j]) @ drop (Suc i) ls) ! (i - 1) \<le> ls ! (i - 1)" using lq by simp
      then show ?thesis using lq ne by (auto simp: nth_append last_conv_nth)
    qed
    with 1 show ?thesis by blast
  qed
  moreover have "es ! i < es ! Suc i" if "Suc i < length needle" for i
    using es that len sorted_wrt_nth_less[of "(<)" es i "Suc i"] by (simp add: placement_def)
  moreover have "start \<le> es ! i \<and> es ! i \<le> ls ! i \<and> ls ! i < length h" if "i < length needle" for i
    using es ls(2) that len list_all2_nthD[OF ls(3)[OF es], of i] by (auto simp: placement_def)
  ultimately have "windows_ok h needle start es ls" unfolding windows_ok_def using len by blast
  then show thesis using that ls by blast
qed

section \<open>One pass over a row\<close>

lemma first_row_cell:
  "first_row bonus h c js row l k =
     (if k \<in> set js \<and> h ! k = c \<and> l = level_of (bonus k) then 16 + bonus k * 2 else row l k)"
  unfolding first_row_def
  by (induction js arbitrary: row) (auto simp: set_cell_def fuzzy_consts)

lemma scan_gap_spec:
  assumes "scan_gap prev s (g, gf) xs = (g', gf')"
  shows "g \<le> g' \<and> (\<forall>l\<in>set xs. prev l s > NONE \<longrightarrow> prev l s - 3 \<le> g') \<and>
    (g' = g \<and> gf' = gf \<or> (\<exists>l\<in>set xs. prev l s > NONE \<and> g' = prev l s - 3 \<and> gf' = Some (l, s)))"
  using assms
proof (induction xs arbitrary: g gf)
  case Nil
  then show ?case by (simp add: scan_gap_def)
next
  case (Cons x xs)
  define g1 where "g1 = (if prev x s > NONE \<and> prev x s - 3 > g then prev x s - 3 else g)"
  define f1 where "f1 = (if prev x s > NONE \<and> prev x s - 3 > g then Some (x, s) else gf)"
  have "scan_gap prev s (g1, f1) xs = (g', gf')"
    using Cons.prems by (auto simp: scan_gap_def g1_def f1_def GAP_START_def)
  from Cons.IH[OF this] show ?case by (auto simp: g1_def f1_def split: if_splits)
qed

lemma continue_runs_cell:
  assumes "continue_runs wanted i prev j b (row, f) xs = (row', f')" "distinct xs"
  shows "row' l k = (if k = j \<and> l \<in> set xs \<and> prev l (j - 1) > NONE
             then prev l (j - 1) + 16 + max b (LEVEL_VALUES ! l) else row l k)"
    and "f' a l k = (if wanted \<and> a = i \<and> k = j \<and> l \<in> set xs \<and> prev l (j - 1) > NONE
             then Some (l, j - 1) else f a l k)"
proof -
  have "row' l k = (if k = j \<and> l \<in> set xs \<and> prev l (j - 1) > NONE
             then prev l (j - 1) + 16 + max b (LEVEL_VALUES ! l) else row l k) \<and>
       f' a l k = (if wanted \<and> a = i \<and> k = j \<and> l \<in> set xs \<and> prev l (j - 1) > NONE
             then Some (l, j - 1) else f a l k)"
    using assms
  proof (induction xs arbitrary: row f)
    case Nil
    then show ?case by (simp add: continue_runs_def)
  next
    case (Cons x xs)
    define r1 where "r1 = (if prev x (j - 1) \<le> NONE then row
        else set_cell row x j (prev x (j - 1) + 16 + max b (LEVEL_VALUES ! x)))"
    define f1 where "f1 = (if prev x (j - 1) \<le> NONE then f else set_from wanted f i x j (Some (x, j - 1)))"
    have "continue_runs wanted i prev j b (r1, f1) xs = (row', f')"
      using Cons.prems(1) by (simp add: continue_runs_def r1_def f1_def SCORE_MATCH_def split: if_splits)
    from Cons.IH[OF this] Cons.prems(2) show ?case
      by (auto simp: r1_def f1_def set_cell_def set_from_def)
  qed
  then show "row' l k = (if k = j \<and> l \<in> set xs \<and> prev l (j - 1) > NONE
             then prev l (j - 1) + 16 + max b (LEVEL_VALUES ! l) else row l k)"
    and "f' a l k = (if wanted \<and> a = i \<and> k = j \<and> l \<in> set xs \<and> prev l (j - 1) > NONE
             then Some (l, j - 1) else f a l k)" by blast+
qed


lemma trace_back_cong:
  "\<forall>a\<le>i. g a = f a \<Longrightarrow> trace_back g i st acc = trace_back f i st acc"
  by (induction f i st acc rule: trace_back.induct) (auto split: option.splits)

lemma trace_back_other:
  "\<forall>a. a \<noteq> Suc i \<longrightarrow> g a = f a \<Longrightarrow> g (Suc i) l k = f (Suc i) l k \<Longrightarrow>
     trace_back g (Suc i) (l, k) acc = trace_back f (Suc i) (l, k) acc"
  by (auto split: option.splits intro: trace_back_cong)

text \<open>A cell that stands for a placement, which the back table recovers.\<close>

definition cell_ok ::
    "(nat \<Rightarrow> int) \<Rightarrow> units \<Rightarrow> units \<Rightarrow> nat \<Rightarrow> bool \<Rightarrow> back_table \<Rightarrow> nat \<Rightarrow> nat \<Rightarrow> nat \<Rightarrow> int \<Rightarrow> nat list \<Rightarrow> bool" where
  "cell_ok bonus h cs start wanted f i l k v ps \<longleftrightarrow>
     placement h cs start ps \<and> last ps = k \<and> pscore bonus ps = v \<and> level_of (prun bonus ps) = l \<and>
     (wanted \<longrightarrow> (\<forall>acc. trace_back f i (l, k) acc = ps @ acc))"

definition row_sound ::
    "(nat \<Rightarrow> int) \<Rightarrow> units \<Rightarrow> units \<Rightarrow> nat \<Rightarrow> bool \<Rightarrow> back_table \<Rightarrow> nat \<Rightarrow> nat \<Rightarrow> nat \<Rightarrow> score_row \<Rightarrow> bool" where
  "row_sound bonus h cs start wanted f i e J row \<longleftrightarrow>
     (\<forall>l<7. \<forall>k. e \<le> k \<and> k < J \<and> row l k > NONE \<longrightarrow> (\<exists>ps. cell_ok bonus h cs start wanted f i l k (row l k) ps))"

definition row_complete :: "(nat \<Rightarrow> int) \<Rightarrow> units \<Rightarrow> units \<Rightarrow> nat \<Rightarrow> nat \<Rightarrow> score_row \<Rightarrow> bool" where
  "row_complete bonus h cs start J row \<longleftrightarrow>
     (\<forall>ps. placement h cs start ps \<and> last ps < J \<longrightarrow> pscore bonus ps \<le> row (level_of (prun bonus ps)) (last ps))"

text \<open>The best gapped start before offset \<open>J\<close>.\<close>

definition gap_inv :: "nat \<Rightarrow> score_row \<Rightarrow> nat \<Rightarrow> int \<Rightarrow> back_state option \<Rightarrow> bool" where
  "gap_inv e prev J g gf \<longleftrightarrow>
     (g > NONE \<longrightarrow> (\<exists>l<7. \<exists>k. e \<le> k \<and> k + 3 \<le> J \<and> prev l k > NONE \<and> g = prev l k - (int J - int k) \<and> gf = Some (l, k))) \<and>
     (\<forall>l<7. \<forall>k. e \<le> k \<and> k + 3 \<le> J \<and> prev l k > NONE \<longrightarrow> prev l k - (int J - int k) \<le> g)"

lemma gap_inv_step:
  assumes "gap_inv e prev J g gf"
    and g1: "g1 = (if g > NONE then g + GAP_EXTEND else g)"
    and g2: "(g2, gf2) = (if e + 2 \<le> J then scan_gap prev (J - 2) (g1, gf) [0..<LEVELS] else (g1, gf))"
  shows "gap_inv e prev (Suc J) g2 gf2"
proof -
  have le: "g1 \<le> g2 \<and> (e + 2 \<le> J \<longrightarrow> (\<forall>l<7. prev l (J - 2) > NONE \<longrightarrow> prev l (J - 2) - 3 \<le> g2))"
    and src: "g2 = g1 \<and> gf2 = gf \<or>
      e + 2 \<le> J \<and> (\<exists>l<7. prev l (J - 2) > NONE \<and> g2 = prev l (J - 2) - 3 \<and> gf2 = Some (l, J - 2))"
    using g2 scan_gap_spec[of prev "J - 2" g1 gf "[0..<LEVELS]" g2 gf2] by (auto split: if_splits)
  have "\<exists>l<7. \<exists>k. e \<le> k \<and> k + 3 \<le> Suc J \<and> prev l k > NONE \<and> g2 = prev l k - (int (Suc J) - int k) \<and> gf2 = Some (l, k)"
    if big: "g2 > NONE"
    using src
  proof
    assume eq: "g2 = g1 \<and> gf2 = gf"
    with big g1 have g: "g > NONE" "g1 = g - 1" by (auto simp: GAP_EXTEND_def split: if_splits)
    with assms(1) obtain l k where "l < 7" "e \<le> k" "k + 3 \<le> J" "prev l k > NONE" "g = prev l k - (int J - int k)" "gf = Some (l, k)"
      unfolding gap_inv_def by blast
    with eq g(2) show ?thesis by (intro exI[of _ l] conjI exI[of _ k]) auto
  next
    assume "e + 2 \<le> J \<and> (\<exists>l<7. prev l (J - 2) > NONE \<and> g2 = prev l (J - 2) - 3 \<and> gf2 = Some (l, J - 2))"
    then obtain l where "e + 2 \<le> J" "l < 7" "prev l (J - 2) > NONE" "g2 = prev l (J - 2) - 3" "gf2 = Some (l, J - 2)" by blast
    then show ?thesis by (intro exI[of _ l] conjI exI[of _ "J - 2"]) auto
  qed
  moreover have "prev l k - (int (Suc J) - int k) \<le> g2"
    if k: "l < 7" "e \<le> k" "k + 3 \<le> Suc J" "prev l k > NONE" for l k
  proof (cases "k + 3 \<le> J")
    case True
    with assms(1) k have "prev l k - (int J - int k) \<le> g" unfolding gap_inv_def by blast
    with g1 le show ?thesis by (auto simp: GAP_EXTEND_def split: if_splits)
  next
    case False
    with k have "k = J - 2" "e + 2 \<le> J" by auto
    with le k show ?thesis by auto
  qed
  ultimately show ?thesis unfolding gap_inv_def by blast
qed

text \<open>
  The alignment relies on the bonuses being the ones the levels were made for.
\<close>

locale bonus_scheme =
  fixes bonus :: "nat \<Rightarrow> int"
  assumes bonus_in: "bonus j \<in> BONUSES"
begin

lemma bonus_nonneg: "0 \<le> bonus j"
  using bonus_in[of j] by (auto simp: BONUSES_def)

lemma prun_in: "prun bonus ps \<in> BONUSES"
proof (induction ps rule: rev_induct)
  case Nil
  then show ?case by (simp add: prun_def pstate_def BONUSES_def)
next
  case (snoc j ps)
  have "prun bonus (ps @ [j]) = bonus j \<or> prun bonus (ps @ [j]) = prun bonus ps"
    by (auto simp: prun_def pstate_snoc score_step_def Let_def split: prod.splits option.splits)
  with snoc bonus_in show ?case by metis
qed

lemma pscore_bound: "placement h cs start ps \<Longrightarrow> ps \<noteq> [] \<Longrightarrow> int start - int (last ps) \<le> pscore bonus ps"
proof (induction ps arbitrary: cs rule: rev_induct)
  case (snoc j ps)
  show ?case
  proof (cases "ps = []")
    case True
    with snoc.prems bonus_nonneg[of j] show ?thesis by (auto simp: place_first placement_def)
  next
    case False
    have "placement h (map ((!) h) ps @ [h ! j]) start (ps @ [j])" using snoc.prems by (auto simp: placement_def)
    then have p: "placement h (map ((!) h) ps) start ps" "\<forall>q\<in>set ps. q < j" unfolding placement_snoc by auto
    from False p(2) have "last ps < j" by auto
    with snoc.IH[OF p(1) False] False bonus_nonneg[of j] show ?thesis
      by (cases "j = last ps + 1") (auto simp: place_next place_gap)
  qed
qed simp

lemma extend_next:
  assumes "cell_ok bonus h cs start wanted f i l k v ps" "cs \<noteq> []" "k + 1 < length h" "h ! (k + 1) = c"
    and "\<forall>a\<le>i. f' a = f a" "wanted \<longrightarrow> f' (Suc i) l (k + 1) = Some (l, k)"
  shows "cell_ok bonus h (cs @ [c]) start wanted f' (Suc i) l (k + 1) (v + 16 + max (bonus (k + 1)) (LEVEL_VALUES ! l)) (ps @ [k + 1])"
proof -
  have ps: "placement h cs start ps" "last ps = k" "ps \<noteq> []" "level_of (prun bonus ps) = l"
    using assms(1,2) placement_length by (fastforce simp: cell_ok_def)+
  moreover have "\<forall>q\<in>set ps. q < k + 1" using placement_last_max[OF ps(1)] ps(2) by fastforce
  moreover have "start \<le> k" using ps(1-3) by (auto simp: placement_def)
  moreover have "LEVEL_VALUES ! l = max (prun bonus ps) 5" using level_of_bonus(2)[OF prun_in[of ps]] ps(4) by simp
  moreover have "trace_back f' i (l, k) acc = trace_back f i (l, k) acc" for acc
    using assms(5) by (rule trace_back_cong)
  ultimately show ?thesis
    using assms by (auto simp: cell_ok_def place_next)
qed

lemma extend_gap:
  assumes "cell_ok bonus h cs start wanted f i l k v ps" "cs \<noteq> []" "k + 1 < j" "j < length h" "h ! j = c"
    and "\<forall>a\<le>i. f' a = f a" "wanted \<longrightarrow> f' (Suc i) (level_of (bonus j)) j = Some (l, k)"
  shows "cell_ok bonus h (cs @ [c]) start wanted f' (Suc i) (level_of (bonus j)) j
    (v + 16 + bonus j - 3 - (int j - int k - 2)) (ps @ [j])"
proof -
  have ps: "placement h cs start ps" "last ps = k" "ps \<noteq> []"
    using assms(1,2) placement_length by (fastforce simp: cell_ok_def)+
  moreover have "\<forall>q\<in>set ps. q < j" using placement_last_max[OF ps(1)] ps(2) assms(3) by fastforce
  moreover have "start \<le> k" using ps(1-3) by (auto simp: placement_def)
  moreover have "trace_back f' i (l, k) acc = trace_back f i (l, k) acc" for acc
    using assms(6) by (rule trace_back_cong)
  ultimately show ?thesis
    using assms by (auto simp: cell_ok_def place_gap)
qed

end


text \<open>The state of a pass over row \<open>i + 1\<close> before offset \<open>J\<close>: the prefix grows from \<open>cs\<close> to \<open>cs @ [c]\<close>.\<close>

definition pass_inv ::
    "(nat \<Rightarrow> int) \<Rightarrow> units \<Rightarrow> units \<Rightarrow> nat \<Rightarrow> nat \<Rightarrow> bool \<Rightarrow> back_table \<Rightarrow> nat \<Rightarrow> nat \<Rightarrow> nat \<Rightarrow> score_row \<Rightarrow> nat \<Rightarrow> row_state \<Rightarrow> bool" where
  "pass_inv bonus h cs c start wanted f0 i e_prev e prev J s \<longleftrightarrow>
     gap_inv e_prev prev J (rs_gap s) (rs_gap_from s) \<and>
     (\<forall>a. a \<noteq> Suc i \<longrightarrow> rs_from s a = f0 a) \<and>
     (\<forall>l<7. \<forall>k. e \<le> k \<and> J \<le> k \<and> k < length h \<longrightarrow> rs_row s l k = NONE) \<and>
     row_sound bonus h (cs @ [c]) start wanted (rs_from s) (Suc i) e J (rs_row s) \<and>
     row_complete bonus h (cs @ [c]) start J (rs_row s)"

text \<open>What the previous row and the windows give the pass.\<close>

definition pass_pre ::
    "(nat \<Rightarrow> int) \<Rightarrow> units \<Rightarrow> units \<Rightarrow> nat \<Rightarrow> nat \<Rightarrow> bool \<Rightarrow> back_table \<Rightarrow> nat \<Rightarrow> nat \<Rightarrow> nat \<Rightarrow> nat \<Rightarrow> nat \<Rightarrow> score_row \<Rightarrow> bool" where
  "pass_pre bonus h cs c start wanted f0 i e_prev l_prev e l prev \<longleftrightarrow>
     cs \<noteq> [] \<and> int (length h) \<le> int start + 65536 \<and> e_prev < e \<and> l < length h \<and>
     row_sound bonus h cs start wanted f0 i e_prev (length h) prev \<and>
     row_complete bonus h cs start (Suc l_prev) prev \<and>
     (\<forall>qs j. placement h (cs @ [c]) start (qs @ [j]) \<longrightarrow>
        e \<le> j \<and> e_prev \<le> last qs \<and> (j \<le> l \<longrightarrow> last qs \<le> l_prev))"

context bonus_scheme
begin

lemma row_step_cells:
  assumes s': "s' = row_step wanted bonus h (Suc i) c e_prev e prev s J"
    and m: "e \<le> J" "h ! J = c" and fresh: "\<forall>l<7. rs_row s l J = NONE"
    and l: "l < 7"
  shows "rs_row s' l J =
      (let cont = if prev l (J - 1) > NONE then prev l (J - 1) + 16 + max (bonus J) (LEVEL_VALUES ! l) else NONE;
           jump = rs_gap s' + 16 + bonus J
       in if rs_gap s' > NONE \<and> l = level_of (bonus J) \<and> jump > cont then jump else cont)"
    and "wanted \<Longrightarrow> rs_from s' (Suc i) l J =
      (let cont = if prev l (J - 1) > NONE then prev l (J - 1) + 16 + max (bonus J) (LEVEL_VALUES ! l) else NONE;
           jump = rs_gap s' + 16 + bonus J
       in if rs_gap s' > NONE \<and> l = level_of (bonus J) \<and> jump > cont then rs_gap_from s'
          else if prev l (J - 1) > NONE then Some (l, J - 1) else rs_from s (Suc i) l J)"
proof -
  obtain row1 f1 where c1: "continue_runs wanted (Suc i) prev J (bonus J) (rs_row s, rs_from s) [0..<LEVELS] = (row1, f1)"
    by fastforce
  note cell = continue_runs_cell[OF c1]
  have r1: "row1 l J = (if prev l (J - 1) > NONE then prev l (J - 1) + 16 + max (bonus J) (LEVEL_VALUES ! l) else NONE)"
    using cell(1)[of l J] l fresh by simp
  have f1: "f1 (Suc i) l J = (if wanted \<and> prev l (J - 1) > NONE then Some (l, J - 1) else rs_from s (Suc i) l J)"
    using cell(2)[of "Suc i" l J] l by simp
  have upd: "(rs_row s', rs_from s') = start_run wanted (Suc i) (rs_gap s') (rs_gap_from s') J (bonus J) (row1, f1)"
    unfolding s' row_step_def Let_def using m c1 by (auto split: prod.splits)
  show "rs_row s' l J =
      (let cont = if prev l (J - 1) > NONE then prev l (J - 1) + 16 + max (bonus J) (LEVEL_VALUES ! l) else NONE;
           jump = rs_gap s' + 16 + bonus J
       in if rs_gap s' > NONE \<and> l = level_of (bonus J) \<and> jump > cont then jump else cont)"
    using upd r1 by (auto simp: start_run_def Let_def set_cell_def SCORE_MATCH_def split: if_splits)
  show "rs_from s' (Suc i) l J =
      (let cont = if prev l (J - 1) > NONE then prev l (J - 1) + 16 + max (bonus J) (LEVEL_VALUES ! l) else NONE;
           jump = rs_gap s' + 16 + bonus J
       in if rs_gap s' > NONE \<and> l = level_of (bonus J) \<and> jump > cont then rs_gap_from s'
          else if prev l (J - 1) > NONE then Some (l, J - 1) else rs_from s (Suc i) l J)" if wanted
    using upd r1 f1 that by (auto simp: start_run_def Let_def set_from_def SCORE_MATCH_def split: if_splits)
qed

lemma row_step_skip:
  assumes "s' = row_step wanted bonus h (Suc i) c e_prev e prev s J" "J < e \<or> h ! J \<noteq> c"
  shows "rs_row s' = rs_row s" "rs_from s' = rs_from s"
  using assms by (auto simp: row_step_def Let_def split: prod.splits)

lemma start_run_cell:
  "start_run wanted i g gf J b (row1, f1) = (row2, f2) \<Longrightarrow> k \<noteq> J \<or> a \<noteq> i \<Longrightarrow> f2 a l k = f1 a l k"
  "start_run wanted i g gf J b (row1, f1) = (row2, f2) \<Longrightarrow> k \<noteq> J \<Longrightarrow> row2 l k = row1 l k"
  by (auto simp: start_run_def Let_def set_cell_def set_from_def split: if_splits)

lemma row_step_others:
  assumes s': "s' = row_step wanted bonus h (Suc i) c e_prev e prev s J"
  shows "k \<noteq> J \<Longrightarrow> rs_row s' l k = rs_row s l k" "k \<noteq> J \<or> a \<noteq> Suc i \<Longrightarrow> rs_from s' a l k = rs_from s a l k"
proof -
  obtain row1 f1 where c1: "continue_runs wanted (Suc i) prev J (bonus J) (rs_row s, rs_from s) [0..<LEVELS] = (row1, f1)"
    by (metis surj_pair)
  note cell = continue_runs_cell[OF c1 distinct_upt]
  have upd: "start_run wanted (Suc i) (rs_gap s') (rs_gap_from s') J (bonus J) (row1, f1) = (rs_row s', rs_from s')"
    if "\<not> (J < e \<or> h ! J \<noteq> c)"
    unfolding s' row_step_def Let_def using that c1 by (auto split: prod.splits)
  note st = start_run_cell[OF upd]
  show "rs_row s' l k = rs_row s l k" if "k \<noteq> J"
    by (cases "J < e \<or> h ! J \<noteq> c") (simp_all add: row_step_skip[OF s'] st(2) cell(1) that)
  show "rs_from s' a l k = rs_from s a l k" if "k \<noteq> J \<or> a \<noteq> Suc i"
    by (cases "J < e \<or> h ! J \<noteq> c") (use that in \<open>auto simp: row_step_skip[OF s'] st(1) cell(2)\<close>)
qed

lemma row_step_other:
  assumes "s' = row_step wanted bonus h (Suc i) c e_prev e prev s J" "k \<noteq> J"
  shows "rs_row s' l k = rs_row s l k" "rs_from s' a l k = rs_from s a l k"
  using row_step_others[OF assms(1)] assms(2) by auto

lemma row_step_from_other:
  assumes "s' = row_step wanted bonus h (Suc i) c e_prev e prev s J" "a \<noteq> Suc i"
  shows "rs_from s' a = rs_from s a"
  by (intro ext row_step_others(2)[OF assms(1)] disjI2 assms(2))

lemma row_step_gap:
  assumes "s' = row_step wanted bonus h (Suc i) c e_prev e prev s J" "gap_inv e_prev prev J (rs_gap s) (rs_gap_from s)"
  shows "gap_inv e_prev prev (Suc J) (rs_gap s') (rs_gap_from s')"
proof -
  let ?g1 = "if rs_gap s > NONE then rs_gap s + GAP_EXTEND else rs_gap s"
  obtain g2 gf2 where g2: "(g2, gf2) =
      (if e_prev + 2 \<le> J then scan_gap prev (J - 2) (?g1, rs_gap_from s) [0..<LEVELS] else (?g1, rs_gap_from s))"
    by (metis surj_pair)
  have "rs_gap s' = g2 \<and> rs_gap_from s' = gf2"
    unfolding assms(1) row_step_def Let_def g2[symmetric] by (simp split: prod.splits)
  with gap_inv_step[OF assms(2) refl g2] show ?thesis by simp
qed

end


context bonus_scheme
begin

lemma pass_cell_sound:
  assumes pre: "pass_pre bonus h cs c start wanted f0 i e_prev l_prev e lst prev"
    and inv: "pass_inv bonus h cs c start wanted f0 i e_prev e prev J s"
    and J: "e_prev + 1 \<le> J" "J \<le> lst"
    and s': "s' = row_step wanted bonus h (Suc i) c e_prev e prev s J"
    and m: "e \<le> J" "h ! J = c" and l: "l < 7" "rs_row s' l J > NONE"
  shows "\<exists>ps. cell_ok bonus h (cs @ [c]) start wanted (rs_from s') (Suc i) l J (rs_row s' l J) ps"
proof -
  have Jn: "J < length h" and cs: "cs \<noteq> []" using pre J(2) by (auto simp: pass_pre_def)
  have fresh: "\<forall>l<7. rs_row s l J = NONE" using inv m Jn by (auto simp: pass_inv_def)
  have fa: "\<forall>a\<le>i. rs_from s' a = f0 a"
    using inv row_step_from_other[OF s'] by (auto simp: pass_inv_def)
  have gap: "gap_inv e_prev prev (Suc J) (rs_gap s') (rs_gap_from s')"
    using inv by (intro row_step_gap[OF s']) (simp add: pass_inv_def)
  have prev: "\<exists>ps. cell_ok bonus h cs start wanted f0 i l k (prev l k) ps"
    if "l < 7" "e_prev \<le> k" "k < length h" "prev l k > NONE" for l k
    using pre that by (auto simp: pass_pre_def row_sound_def)
  define cont where "cont = (if prev l (J - 1) > NONE then prev l (J - 1) + 16 + max (bonus J) (LEVEL_VALUES ! l) else NONE)"
  note cells = row_step_cells[OF s' m fresh l(1), unfolded Let_def, folded cont_def]
  show ?thesis
  proof (cases "rs_gap s' > NONE \<and> l = level_of (bonus J) \<and> rs_gap s' + 16 + bonus J > cont")
    case True
    with gap obtain l0 k where k: "l0 < 7" "e_prev \<le> k" "k + 3 \<le> Suc J" "prev l0 k > NONE"
      "rs_gap s' = prev l0 k - (int (Suc J) - int k)" "rs_gap_from s' = Some (l0, k)"
      unfolding gap_inv_def by blast
    then obtain ps where ps: "cell_ok bonus h cs start wanted f0 i l0 k (prev l0 k) ps"
      using prev[of l0 k] Jn by auto
    have "wanted \<longrightarrow> rs_from s' (Suc i) (level_of (bonus J)) J = Some (l0, k)" using cells(2) True k(6) by (auto simp: Let_def)
    from extend_gap[OF ps cs _ Jn m(2) fa this] k(3)
    have "cell_ok bonus h (cs @ [c]) start wanted (rs_from s') (Suc i) (level_of (bonus J)) J
        (prev l0 k + 16 + bonus J - 3 - (int J - int k - 2)) (ps @ [J])" by simp
    moreover have "rs_row s' l J = prev l0 k + 16 + bonus J - 3 - (int J - int k - 2)"
      using cells(1) True k(5) by simp
    ultimately show ?thesis using True by auto
  next
    case False
    then have r: "rs_row s' l J = cont" using cells(1) by auto
    with l(2) have c: "prev l (J - 1) > NONE" by (auto simp: cont_def split: if_splits)
    have "e_prev \<le> J - 1" "J - 1 < length h" using J Jn by auto
    then obtain ps where ps: "cell_ok bonus h cs start wanted f0 i l (J - 1) (prev l (J - 1)) ps"
      using prev[OF l(1) _ _ c] by blast
    have J1: "J - 1 + 1 = J" using J by simp
    have "wanted \<longrightarrow> rs_from s' (Suc i) l J = Some (l, J - 1)" using cells(2) False c by (auto simp: Let_def)
    with extend_next[OF ps cs, unfolded J1, OF Jn m(2) fa] r c show ?thesis by (auto simp: cont_def)
  qed
qed

lemma pass_cell_complete:
  assumes pre: "pass_pre bonus h cs c start wanted f0 i e_prev l_prev e lst prev"
    and inv: "pass_inv bonus h cs c start wanted f0 i e_prev e prev J s"
    and J: "J \<le> lst"
    and s': "s' = row_step wanted bonus h (Suc i) c e_prev e prev s J"
    and p: "placement h (cs @ [c]) start (qs @ [J])"
  shows "pscore bonus (qs @ [J]) \<le> rs_row s' (level_of (prun bonus (qs @ [J]))) J"
proof -
  have q: "placement h cs start qs" "\<forall>q\<in>set qs. q < J" "J < length h" "h ! J = c" using p by auto
  have cs: "cs \<noteq> []" using pre by (simp add: pass_pre_def)
  with placement_length[OF q(1)] have qne: "qs \<noteq> []" by auto
  have w: "e \<le> J" "e_prev \<le> last qs" "last qs \<le> l_prev" using pre p J unfolding pass_pre_def by blast+
  have fresh: "\<forall>l<7. rs_row s l J = NONE" using inv w(1) q(3) by (auto simp: pass_inv_def)
  have qJ: "last qs < J" using q(2) qne by auto
  let ?l = "level_of (prun bonus qs)"
  have pl: "pscore bonus qs \<le> prev ?l (last qs)" "?l < 7" "LEVEL_VALUES ! ?l = max (prun bonus qs) 5"
    using pre q(1) w(3) level_of_bonus[OF prun_in[of qs]] by (auto simp: pass_pre_def row_complete_def less_Suc_eq_le)
  have nb: "int (length h) \<le> int start + 65536" using pre by (simp add: pass_pre_def)
  have bound: "NONE + 100 < pscore bonus qs - (int J - int (last qs))"
    using pscore_bound[OF q(1) qne] nb qJ q(3) by (simp add: NONE_def)
  show ?thesis
  proof (cases "J = last qs + 1")
    case True
    have "prev ?l (J - 1) > NONE" using bound pl(1) True by simp
    then have "rs_row s' ?l J \<ge> prev ?l (J - 1) + 16 + max (bonus J) (LEVEL_VALUES ! ?l)"
      using row_step_cells(1)[OF s' w(1) q(4) fresh pl(2)] by (auto simp: Let_def)
    with place_next[OF qne True, of bonus] pl True show ?thesis by simp
  next
    case False
    with qJ have far: "last qs + 1 < J" by simp
    have b: "level_of (bonus J) < 7" using level_of_bonus(1)[OF bonus_in[of J]] .
    have gap: "gap_inv e_prev prev (Suc J) (rs_gap s') (rs_gap_from s')"
      using inv by (intro row_step_gap[OF s']) (simp add: pass_inv_def)
    have "prev ?l (last qs) > NONE" using bound pl(1) qJ by linarith
    with gap pl(2) w(2) far have "prev ?l (last qs) - (int (Suc J) - int (last qs)) \<le> rs_gap s'"
      unfolding gap_inv_def by auto
    then have g: "pscore bonus qs - (int J - int (last qs)) - 1 \<le> rs_gap s'" using pl(1) by simp
    with bound have "rs_gap s' > NONE" by linarith
    then have "rs_row s' (level_of (bonus J)) J \<ge> rs_gap s' + 16 + bonus J"
      using row_step_cells(1)[OF s' w(1) q(4) fresh b] by (auto simp: Let_def)
    with g place_gap[OF qne far, of bonus] show ?thesis by simp
  qed
qed

lemma pass_step:
  assumes pre: "pass_pre bonus h cs c start wanted f0 i e_prev l_prev e lst prev"
    and inv: "pass_inv bonus h cs c start wanted f0 i e_prev e prev J s"
    and J: "e_prev + 1 \<le> J" "J \<le> lst"
  shows "pass_inv bonus h cs c start wanted f0 i e_prev e prev (Suc J)
    (row_step wanted bonus h (Suc i) c e_prev e prev s J)"
proof -
  define s' where "s' = row_step wanted bonus h (Suc i) c e_prev e prev s J"
  note oth = row_step_other[OF s'_def] and skip = row_step_skip[OF s'_def]
  have sound: "\<exists>ps. cell_ok bonus h (cs @ [c]) start wanted (rs_from s') (Suc i) l k (rs_row s' l k) ps"
    if k: "l < 7" "e \<le> k" "k < Suc J" "rs_row s' l k > NONE" for l k
  proof (cases "k = J")
    case True
    have fresh: "rs_row s l J = NONE" using inv J pre k True by (auto simp: pass_inv_def pass_pre_def)
    have "\<not> (J < e \<or> h ! J \<noteq> c)"
    proof
      assume "J < e \<or> h ! J \<noteq> c"
      then have "rs_row s' = rs_row s" by (rule skip(1))
      with k(4) fresh True show False by simp
    qed
    with pass_cell_sound[OF pre inv J s'_def, of l] k True show ?thesis by simp
  next
    case False
    with k oth(1)[of k l] have "l < 7" "e \<le> k" "k < J" "rs_row s l k > NONE" by auto
    with inv obtain ps where ps: "cell_ok bonus h (cs @ [c]) start wanted (rs_from s) (Suc i) l k (rs_row s l k) ps"
      unfolding pass_inv_def row_sound_def by blast
    have "trace_back (rs_from s') (Suc i) (l, k) acc = trace_back (rs_from s) (Suc i) (l, k) acc" for acc
      using row_step_from_other[OF s'_def] oth(2)[OF False] by (intro trace_back_other) auto
    with ps oth(1)[OF False] show ?thesis unfolding cell_ok_def by metis
  qed
  have complete: "pscore bonus ps \<le> rs_row s' (level_of (prun bonus ps)) (last ps)"
    if p: "placement h (cs @ [c]) start ps" "last ps < Suc J" for ps
  proof (cases "last ps = J")
    case True
    obtain qs j where "ps = qs @ [j]" using p(1) by (rule placement_snocE)
    with True p(1) pass_cell_complete[OF pre inv J(2) s'_def, of qs] show ?thesis by simp
  next
    case False
    with p inv have "pscore bonus ps \<le> rs_row s (level_of (prun bonus ps)) (last ps)"
      by (simp add: pass_inv_def row_complete_def)
    with oth(1)[OF False] show ?thesis by simp
  qed
  have "gap_inv e_prev prev (Suc J) (rs_gap s') (rs_gap_from s')"
    using inv by (intro row_step_gap[OF s'_def]) (simp add: pass_inv_def)
  moreover have "\<forall>a. a \<noteq> Suc i \<longrightarrow> rs_from s' a = f0 a"
    using inv row_step_from_other[OF s'_def] by (simp add: pass_inv_def)
  moreover have "\<forall>l<7. \<forall>k. e \<le> k \<and> Suc J \<le> k \<and> k < length h \<longrightarrow> rs_row s' l k = NONE"
    using inv oth(1) by (auto simp: pass_inv_def)
  ultimately show ?thesis
    using sound complete unfolding pass_inv_def row_sound_def row_complete_def s'_def[symmetric] by blast
qed

lemma pass_run:
  assumes pre: "pass_pre bonus h cs c start wanted f0 i e_prev l_prev e lst prev"
    and s: "pass_inv bonus h cs c start wanted f0 i e_prev e prev (e_prev + 1) s"
    and J: "e_prev + 1 \<le> J" "J \<le> Suc lst"
  shows "pass_inv bonus h cs c start wanted f0 i e_prev e prev J
    (foldl (row_step wanted bonus h (Suc i) c e_prev e prev) s [e_prev + 1..<J])"
  using J
proof (induction J rule: dec_induct)
  case base
  then show ?case using s by simp
next
  case (step J)
  then show ?case using pass_step[OF pre step.IH] by simp
qed

end


section \<open>All rows\<close>

context bonus_scheme
begin

lemma pass_pre_windows:
  assumes w: "windows_ok h needle start es ls" and n: "int (length h) \<le> int start + 65536"
    and k: "Suc k < length needle"
    and prev: "row_sound bonus h (take (Suc k) needle) start wanted f k (es ! k) (length h) prev"
      "row_complete bonus h (take (Suc k) needle) start (Suc (ls ! k)) prev"
  shows "pass_pre bonus h (take (Suc k) needle) (needle ! Suc k) start wanted f k (es ! k) (ls ! k) (es ! Suc k) (ls ! Suc k) prev"
proof -
  have "es ! Suc k \<le> j \<and> es ! k \<le> last qs \<and> (j \<le> ls ! Suc k \<longrightarrow> last qs \<le> ls ! k)"
    if p: "placement h (take (Suc k) needle @ [needle ! Suc k]) start (qs @ [j])" for qs j
  proof -
    have q: "placement h (take (Suc k) needle) start qs" using p by simp
    have ne: "qs \<noteq> []" using placement_length[OF q] k by auto
    then have "placement h (take (Suc k) needle) start (butlast qs @ [last qs])" using q by simp
    then have "es ! k \<le> last qs" using w k unfolding windows_ok_def by (metis Suc_lessD)
    moreover have "placement h (take (Suc (Suc k)) needle) start (qs @ [j])"
      using p k by (simp add: take_Suc_conv_app_nth)
    then have "es ! Suc k \<le> j \<and> (j \<le> ls ! Suc k \<longrightarrow> last qs \<le> ls ! k)"
      using w k ne unfolding windows_ok_def by (metis diff_Suc_1)
    ultimately show ?thesis by blast
  qed
  then show ?thesis using w n k prev unfolding pass_pre_def windows_ok_def by auto
qed

lemma pass_init:
  assumes "pass_pre bonus h cs c start wanted f k e_prev l_prev e lst prev"
  shows "pass_inv bonus h cs c start wanted f k e_prev e prev (e_prev + 1)
    \<lparr>rs_row = clear_row (length h) e current, rs_gap = NONE, rs_gap_from = None, rs_from = f\<rparr>"
proof -
  have "e_prev + 1 \<le> last ps" if p: "placement h (cs @ [c]) start ps" for ps
  proof -
    obtain qs j where "ps = qs @ [j]" using p by (rule placement_snocE)
    with p assms show ?thesis by (fastforce simp: pass_pre_def)
  qed
  then show ?thesis using assms
    by (fastforce simp: pass_inv_def gap_inv_def clear_row_def row_sound_def row_complete_def pass_pre_def)
qed

lemma align_rows_ok:
  assumes w: "windows_ok h needle start es ls" and n: "int (length h) \<le> int start + 65536"
  shows "Suc k \<le> length needle \<Longrightarrow>
    row_sound bonus h (take (Suc k) needle) start wanted f k (es ! k) (length h) prev \<Longrightarrow>
    row_complete bonus h (take (Suc k) needle) start (Suc (ls ! k)) prev \<Longrightarrow>
    align_rows wanted bonus h (Suc k)
      (zip (drop (Suc k) needle) (zip (drop (Suc k) es) (drop (Suc k) (map int ls)))) (es ! k) prev cur f = (row, f') \<Longrightarrow>
    row_sound bonus h needle start wanted f' (length needle - 1) (last es) (length h) row \<and>
    row_complete bonus h needle start (Suc (last ls)) row"
proof (induction "length needle - Suc k" arbitrary: k prev cur f)
  case 0
  then have k: "Suc k = length needle" by simp
  have len: "length es = length needle" "length ls = length needle" using w by (auto simp: windows_ok_def)
  with k have "es \<noteq> []" "ls \<noteq> []" by auto
  moreover have m: "length needle - 1 = k" using k by simp
  ultimately have "last es = es ! k" "last ls = ls ! k" unfolding m[symmetric] by (simp_all add: last_conv_nth len)
  with 0 k m show ?case by simp
next
  case (Suc x)
  then have k: "Suc k < length needle" by simp
  have len: "length es = length needle" "length ls = length needle" using w by (auto simp: windows_ok_def)
  have rows: "zip (drop (Suc k) needle) (zip (drop (Suc k) es) (drop (Suc k) (map int ls))) =
      (needle ! Suc k, es ! Suc k, int (ls ! Suc k)) #
      zip (drop (Suc (Suc k)) needle) (zip (drop (Suc (Suc k)) es) (drop (Suc (Suc k)) (map int ls)))"
    using k len by (simp add: Cons_nth_drop_Suc[symmetric] drop_map)
  let ?s0 = "\<lparr>rs_row = clear_row (length h) (es ! Suc k) cur, rs_gap = NONE, rs_gap_from = None, rs_from = f\<rparr>"
  let ?s = "foldl (row_step wanted bonus h (Suc k) (needle ! Suc k) (es ! k) (es ! Suc k) prev) ?s0 (window (es ! k + 1) (int (ls ! Suc k)))"
  note pre = pass_pre_windows[OF w n k Suc.prems(2,3)]
  have win: "window (es ! k + 1) (int (ls ! Suc k)) = [es ! k + 1..<Suc (ls ! Suc k)]"
    unfolding window_def by (simp add: nat_add_distrib)
  have "es ! k < es ! Suc k" "es ! Suc k \<le> ls ! Suc k" using w k by (auto simp: windows_ok_def)
  then have inv: "pass_inv bonus h (take (Suc k) needle) (needle ! Suc k) start wanted f k (es ! k) (es ! Suc k) prev
      (Suc (ls ! Suc k)) ?s"
    unfolding win by (intro pass_run[OF pre pass_init[OF pre]]) auto
  have t: "take (Suc (Suc k)) needle = take (Suc k) needle @ [needle ! Suc k]" using k by (rule take_Suc_conv_app_nth)
  have "row_sound bonus h (take (Suc (Suc k)) needle) start wanted (rs_from ?s) (Suc k) (es ! Suc k) (length h) (rs_row ?s)"
    unfolding row_sound_def
  proof (intro allI impI)
    fix l q assume l: "l < 7" and q: "es ! Suc k \<le> q \<and> q < length h \<and> rs_row ?s l q > NONE"
    have "q < Suc (ls ! Suc k)"
    proof (rule ccontr)
      assume "\<not> q < Suc (ls ! Suc k)"
      with inv l q have "rs_row ?s l q = NONE" unfolding pass_inv_def by (metis not_less)
      with q show False by simp
    qed
    with inv l q t show "\<exists>ps. cell_ok bonus h (take (Suc (Suc k)) needle) start wanted (rs_from ?s) (Suc k) l q (rs_row ?s l q) ps"
      unfolding pass_inv_def row_sound_def by simp
  qed
  moreover have "row_complete bonus h (take (Suc (Suc k)) needle) start (Suc (ls ! Suc k)) (rs_row ?s)"
    using inv t by (simp add: pass_inv_def)
  moreover have "align_rows wanted bonus h (Suc (Suc k))
      (zip (drop (Suc (Suc k)) needle) (zip (drop (Suc (Suc k)) es) (drop (Suc (Suc k)) (map int ls))))
      (es ! Suc k) (rs_row ?s) prev (rs_from ?s) = (row, f')"
    using Suc.prems(4) unfolding rows by (simp add: Let_def)
  ultimately show ?case using Suc.hyps(1)[of "Suc k" "rs_from ?s" "rs_row ?s" prev] Suc.hyps(2) k by simp
qed

lemma first_row_ok:
  assumes w: "windows_ok h needle start es ls" and ne: "needle \<noteq> []"
    and row: "row = first_row bonus h (hd needle) (window (hd es) (int (hd ls))) (clear_row (length h) (hd es) r)"
  shows "row_sound bonus h (take (Suc 0) needle) start wanted f 0 (es ! 0) (length h) row"
    and "row_complete bonus h (take (Suc 0) needle) start (Suc (ls ! 0)) row"
proof -
  have len: "0 < length needle" "length es = length needle" "length ls = length needle"
    using w ne by (auto simp: windows_ok_def)
  have win0: "start \<le> es ! 0" "ls ! 0 < length h" and least: "placement h (take (Suc 0) needle) start ([] @ [j]) \<Longrightarrow> es ! 0 \<le> j" for j
    using w len unfolding windows_ok_def by blast+
  have nes: "es \<noteq> []" "ls \<noteq> []" using len by auto
  have hd: "hd es = es ! 0" "hd ls = ls ! 0" "hd needle = needle ! 0"
    using nes ne by (simp_all add: hd_conv_nth)
  have t: "take (Suc 0) needle = [needle ! 0]" using ne by (cases needle) auto
  have one: "placement h [needle ! 0] start ps \<longleftrightarrow> (\<exists>j. ps = [j] \<and> start \<le> j \<and> j < length h \<and> h ! j = needle ! 0)" for ps
    by (auto elim!: placement_ConsE)
  have win: "set (window (hd es) (int (hd ls))) = {es ! 0..ls ! 0}"
    unfolding window_def hd by (auto simp: nat_add_distrib)
  have cell: "row l k = (if es ! 0 \<le> k \<and> k \<le> ls ! 0 \<and> h ! k = needle ! 0 \<and> l = level_of (bonus k)
      then 16 + bonus k * 2 else clear_row (length h) (es ! 0) r l k)" for l k
    unfolding row first_row_cell win by (simp add: hd)
  show "row_sound bonus h (take (Suc 0) needle) start wanted f 0 (es ! 0) (length h) row"
    unfolding row_sound_def t
  proof (intro allI impI)
    fix l k assume l: "l < 7" and k: "es ! 0 \<le> k \<and> k < length h \<and> row l k > NONE"
    then have "h ! k = needle ! 0" "l = level_of (bonus k)" "row l k = 16 + bonus k * 2"
      unfolding cell by (auto simp: clear_row_def split: if_splits)
    then have "cell_ok bonus h [needle ! 0] start wanted f 0 l k (row l k) [k]"
      using k win0(1) by (auto simp: cell_ok_def place_first)
    then show "\<exists>ps. cell_ok bonus h [needle ! 0] start wanted f 0 l k (row l k) ps" by blast
  qed
  show "row_complete bonus h (take (Suc 0) needle) start (Suc (ls ! 0)) row"
    unfolding row_complete_def t one
    using least unfolding t by (auto simp: cell place_first)
qed

end

section \<open>The best end\<close>

lemma best_end_fold:
  assumes "foldl (\<lambda>end (j, level).
       if row level j > NONE \<and> (case end of None \<Rightarrow> True | Some (l, k) \<Rightarrow> row level j > row l k)
       then Some (level, j) else end) e0 xs = r"
    and "\<forall>l k. e0 = Some (l, k) \<longrightarrow> row l k > NONE"
  shows "(case r of
      None \<Rightarrow> e0 = None \<and> (\<forall>(j, l)\<in>set xs. \<not> row l j > NONE)
    | Some (l, k) \<Rightarrow> row l k > NONE \<and> (r = e0 \<or> (k, l) \<in> set xs) \<and>
        (\<forall>(j, l')\<in>set xs. row l' j > NONE \<longrightarrow> row l' j \<le> row l k) \<and>
        (\<forall>l' j. e0 = Some (l', j) \<longrightarrow> row l' j \<le> row l k))"
  using assms
proof (induction xs arbitrary: e0)
  case Nil
  then show ?case by (auto split: option.splits)
next
  case (Cons x xs)
  obtain j level where x: "x = (j, level)" by (cases x)
  define e1 where "e1 = (if row level j > NONE \<and> (case e0 of None \<Rightarrow> True | Some (l, k) \<Rightarrow> row level j > row l k)
       then Some (level, j) else e0)"
  have e1: "\<forall>l k. e1 = Some (l, k) \<longrightarrow> row l k > NONE" using Cons.prems(2) by (auto simp: e1_def)
  from Cons.IH[OF _ e1] Cons.prems(1) have ih: "(case r of
      None \<Rightarrow> e1 = None \<and> (\<forall>(j, l)\<in>set xs. \<not> row l j > NONE)
    | Some (l, k) \<Rightarrow> row l k > NONE \<and> (r = e1 \<or> (k, l) \<in> set xs) \<and>
        (\<forall>(j, l')\<in>set xs. row l' j > NONE \<longrightarrow> row l' j \<le> row l k) \<and>
        (\<forall>l' j. e1 = Some (l', j) \<longrightarrow> row l' j \<le> row l k))"
    by (simp add: x e1_def)
  have le: "\<exists>l k. e1 = Some (l, k) \<and> row level j \<le> row l k" if "row level j > NONE"
    using that by (cases e0) (auto simp: e1_def)
  have le0: "\<exists>l k. e1 = Some (l, k) \<and> row l' j' \<le> row l k" if "e0 = Some (l', j')" for l' j'
    using that by (auto simp: e1_def)
  show ?case
  proof (cases r)
    case None
    with ih have e: "e1 = None" "\<forall>(j, l)\<in>set xs. \<not> row l j > NONE" by auto
    then have "e0 = None" by (auto simp: e1_def split: if_splits)
    moreover have "\<not> row level j > NONE" using le e(1) by auto
    ultimately show ?thesis using None e(2) x by simp
  next
    case (Some st)
    obtain l k where st: "st = (l, k)" by (cases st)
    with ih Some have i: "row l k > NONE" "r = e1 \<or> (k, l) \<in> set xs"
      "\<forall>(j, l')\<in>set xs. row l' j > NONE \<longrightarrow> row l' j \<le> row l k" "\<forall>l' j. e1 = Some (l', j) \<longrightarrow> row l' j \<le> row l k" by auto
    have "r = e0 \<or> (k, l) \<in> set (x # xs)" using i(2) Some st x by (auto simp: e1_def split: if_splits)
    moreover have "row level j > NONE \<longrightarrow> row level j \<le> row l k" using le i(4) by fastforce
    moreover have "\<forall>l' j. e0 = Some (l', j) \<longrightarrow> row l' j \<le> row l k" using le0 i(4) by fastforce
    ultimately show ?thesis using Some st i x by simp
  qed
qed

lemma best_end_spec:
  assumes "best_end row js = r"
  shows "case r of
      None \<Rightarrow> \<forall>j\<in>set js. \<forall>l<7. \<not> row l j > NONE
    | Some (l, k) \<Rightarrow> l < 7 \<and> k \<in> set js \<and> row l k > NONE \<and> (\<forall>j\<in>set js. \<forall>l'<7. row l' j > NONE \<longrightarrow> row l' j \<le> row l k)"
proof -
  have pairs: "set (concat (map (\<lambda>j. map (\<lambda>level. (j, level)) [0..<LEVELS]) js)) = {(j, l). j \<in> set js \<and> l < 7}"
    by auto
  have "case r of
      None \<Rightarrow> (None :: back_state option) = None \<and> (\<forall>(j, l)\<in>{(j, l). j \<in> set js \<and> l < 7}. \<not> row l j > NONE)
    | Some (l, k) \<Rightarrow> row l k > NONE \<and> (r = None \<or> (k, l) \<in> {(j, l). j \<in> set js \<and> l < 7}) \<and>
        (\<forall>(j, l')\<in>{(j, l). j \<in> set js \<and> l < 7}. row l' j > NONE \<longrightarrow> row l' j \<le> row l k) \<and>
        (\<forall>l' j. (None :: back_state option) = Some (l', j) \<longrightarrow> row l' j \<le> row l k)"
    using best_end_fold[of row None "concat (map (\<lambda>j. map (\<lambda>level. (j, level)) [0..<LEVELS]) js)" r, unfolded pairs] assms
    by (simp add: best_end_def)
  then show ?thesis by (auto split: option.splits)
qed

context bonus_scheme
begin

lemma best_end_optimal:
  assumes s: "row_sound bonus h needle start wanted f (length needle - 1) e (length h) row"
    and c: "row_complete bonus h needle start (Suc lst) row"
    and n: "int (length h) \<le> int start + 65536" and lst: "lst < length h"
    and range: "\<And>ps. placement h needle start ps \<Longrightarrow> e \<le> last ps \<and> last ps \<le> lst"
    and ne: "needle \<noteq> []" and ps: "placement h needle start ps"
  obtains l k qs where "best_end row (window e (int lst)) = Some (l, k)"
    "cell_ok bonus h needle start wanted f (length needle - 1) l k (row l k) qs"
    "\<And>ps. placement h needle start ps \<Longrightarrow> pscore bonus ps \<le> row l k"
proof -
  have win: "set (window e (int lst)) = {e..lst}" by (auto simp: window_def nat_add_distrib)
  have pos: "pscore bonus ps \<le> row (level_of (prun bonus ps)) (last ps)" "row (level_of (prun bonus ps)) (last ps) > NONE"
    "level_of (prun bonus ps) < 7" "last ps \<in> {e..lst}" if p: "placement h needle start ps" for ps
  proof -
    have ne': "ps \<noteq> []" using placement_length[OF p] ne by auto
    show le: "pscore bonus ps \<le> row (level_of (prun bonus ps)) (last ps)"
      using c p range[OF p] by (simp add: row_complete_def less_Suc_eq_le)
    have "last ps < length h" using range[OF p] lst by simp
    then show "row (level_of (prun bonus ps)) (last ps) > NONE"
      using le pscore_bound[OF p ne'] n by (simp add: NONE_def)
    show "level_of (prun bonus ps) < 7" by (rule level_of_bonus(1)[OF prun_in])
    show "last ps \<in> {e..lst}" using range[OF p] by simp
  qed
  note spec = best_end_spec[OF refl, of "window e (int lst)" row, unfolded win]
  obtain l k where r: "best_end row (window e (int lst)) = Some (l, k)"
  proof (cases "best_end row (window e (int lst))")
    case None
    with spec pos[OF ps] have False by auto
    then show thesis by blast
  next
    case (Some st)
    then show thesis using that by (cases st) auto
  qed
  with spec have b: "l < 7" "e \<le> k" "k \<le> lst" "row l k > NONE"
    "\<And>j l'. j \<in> {e..lst} \<Longrightarrow> l' < 7 \<Longrightarrow> row l' j > NONE \<Longrightarrow> row l' j \<le> row l k" by auto
  then have "\<exists>qs. cell_ok bonus h needle start wanted f (length needle - 1) l k (row l k) qs"
    using s lst unfolding row_sound_def by auto
  then obtain qs where "cell_ok bonus h needle start wanted f (length needle - 1) l k (row l k) qs" by blast
  moreover have "pscore bonus ps \<le> row l k" if p: "placement h needle start ps" for ps
    using pos(1)[OF p] b(5)[OF pos(4)[OF p] pos(3)[OF p] pos(2)[OF p]] by simp
  ultimately show thesis using that r by blast
qed

end

interpretation bon: bonus_scheme "\<lambda>j. bonus_at uc path j ns" for uc path ns
  by unfold_locales (rule bonus_at_bonus)


section \<open>The alignment is the best placement\<close>

definition affordable :: "nat \<Rightarrow> nat \<Rightarrow> nat \<Rightarrow> int option \<Rightarrow> bool" where
  "affordable m n start budget \<longleftrightarrow>
     (let cells = int m * (int n - int start)
      in cells \<le> MAX_ALIGNMENT_CELLS \<and> (case budget of None \<Rightarrow> True | Some b \<Rightarrow> cells \<le> b))"

lemma cells_bound:
  assumes "affordable m n start budget" "m \<noteq> 0"
  shows "int n \<le> int start + 65536"
proof (rule ccontr)
  assume "\<not> ?thesis"
  then have "65536 < int n - int start" by simp
  moreover have "int n - int start \<le> int m * (int n - int start)"
    using mult_right_mono[of 1 "int m" "int n - int start"] assms(2) calculation by simp
  moreover have "int m * (int n - int start) \<le> 65536"
    using assms(1) unfolding affordable_def MAX_ALIGNMENT_CELLS_def Let_def by blast
  ultimately show False by linarith
qed

lemma align_from_none:
  "needle \<noteq> [] \<Longrightarrow> (\<nexists>ps. placement h needle start ps) \<Longrightarrow> align_from uc scratch path h needle start ns wanted budget = (budget, None)"
  using earliest_placement[of h needle start] by (cases "earliest_offsets h needle start") (auto simp: align_from_def)

lemma align_from_some:
  assumes ne: "needle \<noteq> []" and ps: "placement h needle start ps"
  obtains b' m where "align_from uc scratch path h needle start ns wanted budget = (b', Some m)"
    "\<exists>qs. placement h needle start qs \<and> fm_score m = score_positions uc path qs ns \<and>
       fm_positions m = (if wanted then qs else [])"
    "affordable (length needle) (length h) start budget \<Longrightarrow>
       \<forall>qs. placement h needle start qs \<longrightarrow> score_positions uc path qs ns \<le> fm_score m"
proof -
  obtain es where es: "earliest_offsets h needle start = Some es" using earliest_least[OF ps] by blast
  obtain ls where ls: "latest_offsets h needle = map int ls" "placement h needle start ls"
    "windows_ok h needle start es ls" "\<And>qs. placement h needle start qs \<Longrightarrow> list_all2 (\<le>) qs ls"
    using windows[OF es] by metis
  show thesis
  proof (cases "affordable (length needle) (length h) start budget")
    case False
    then have "align_from uc scratch path h needle start ns wanted budget =
        (budget, Some \<lparr>fm_score = score_positions uc path ls ns, fm_positions = if wanted then ls else []\<rparr>)"
      by (auto simp: align_from_def es ls(1) affordable_def Let_def comp_def not_less not_le split: option.splits)
    then show thesis using that ls(2) False by auto
  next
    case True
    let ?b = "\<lambda>j. bonus_at uc path j ns"
    define row0 where "row0 = first_row ?b h (hd needle) (window (hd es) (hd (map int ls))) (clear_row (length h) (hd es) (fst scratch))"
    obtain row f where r: "align_rows wanted ?b h 1 (zip (tl needle) (zip (tl es) (tl (map int ls)))) (hd es) row0
        (snd scratch) (\<lambda>i l j. None) = (row, f)" by (metis surj_pair)
    have len: "length es = length needle" "length ls = length needle" using ls(3) by (auto simp: windows_ok_def)
    then have nes: "es \<noteq> []" "ls \<noteq> []" using ne by auto
    have n: "int (length h) \<le> int start + 65536" using cells_bound[OF True] ne by simp
    have hd: "hd es = es ! 0" "hd (map int ls) = int (hd ls)" using nes by (simp_all add: hd_conv_nth hd_map)
    have row0: "row0 = first_row ?b h (hd needle) (window (hd es) (int (hd ls))) (clear_row (length h) (hd es) (fst scratch))"
      by (simp add: row0_def hd(2))
    note first = bon.first_row_ok[OF ls(3) ne row0]
    have r': "align_rows wanted ?b h (Suc 0) (zip (drop (Suc 0) needle) (zip (drop (Suc 0) es) (drop (Suc 0) (map int ls))))
        (es ! 0) row0 (snd scratch) (\<lambda>i l j. None) = (row, f)"
      using r hd(1) by (simp add: drop_Suc)
    have rows: "row_sound ?b h needle start wanted f (length needle - 1) (last es) (length h) row \<and>
        row_complete ?b h needle start (Suc (last ls)) row"
      using ne by (intro bon.align_rows_ok[OF ls(3) n _ first r']) (simp add: Suc_le_eq)
    have ends: "last es \<le> last qs \<and> last qs \<le> last ls" if q: "placement h needle start qs" for qs
    proof -
      have "list_all2 (\<le>) es qs" using earliest_least[OF q] es by auto
      moreover have "length qs = length needle" using placement_length[OF q] .
      ultimately show ?thesis
        using list_all2_nthD[of "(\<le>)" es qs "length needle - 1"] list_all2_nthD[OF ls(4)[OF q], of "length needle - 1"] len ne nes
          \<open>length qs = length needle\<close>
        by (cases "qs = []") (auto simp: last_conv_nth)
    qed
    have lst: "last ls < length h" using ls(2) nes(2) by (auto simp: placement_def)
    obtain l k qs where best: "best_end row (window (last es) (int (last ls))) = Some (l, k)"
      "cell_ok ?b h needle start wanted f (length needle - 1) l k (row l k) qs"
      "\<And>ps. placement h needle start ps \<Longrightarrow> pscore ?b ps \<le> row l k"
      using bon.best_end_optimal[OF conjunct1[OF rows] conjunct2[OF rows] n lst ends ne ps] by blast
    let ?m = "\<lparr>fm_score = row l k, fm_positions = if wanted then trace_back f (length needle - 1) (l, k) [] else []\<rparr>"
    have "last (map int ls) = int (last ls)" using nes by (simp add: last_map)
    then have "align_from uc scratch path h needle start ns wanted budget =
        (map_option (\<lambda>b. b - int (length needle) * (int (length h) - int start)) budget, Some ?m)"
      using True r best(1) unfolding align_from_def es ls(1) affordable_def row0_def[symmetric]
      by (auto simp: Let_def row0_def[symmetric] split: option.splits)
    moreover have "placement h needle start qs" "fm_score ?m = score_positions uc path qs ns"
      "fm_positions ?m = (if wanted then qs else [])"
      using best(2) by (auto simp: cell_ok_def score_positions_pscore)
    ultimately show thesis using that best(3) by (auto simp: score_positions_pscore)
  qed
qed


text \<open>What a placement of the needle is worth as a match of the path.\<close>

definition match_value :: "case_tables \<Rightarrow> units \<Rightarrow> units \<Rightarrow> nat list \<Rightarrow> int" where
  "match_value uc path needle qs =
     (let ns = name_start path; name = drop ns (fold_case uc path)
      in score_positions uc path qs ns + (if \<forall>q\<in>set qs. ns \<le> q then NAME_ONLY else 0) +
         (if name = needle then NAME_EXACT else if take (length needle) name = needle then NAME_PREFIX else 0))"

lemma length_fold_case [simp]: "length (fold_case uc path) = length path"
proof -
  have "length (concat (map (\<lambda>u. let l = unit_lower uc u in if length l = 1 then l else [u]) xs)) = length xs" for xs
    by (induction xs) (auto simp: Let_def)
  then show ?thesis by (auto simp: fold_case_def)
qed

lemma placement_from: "placement h cs 0 qs \<Longrightarrow> \<forall>q\<in>set qs. s \<le> q \<Longrightarrow> placement h cs s qs"
  by (auto simp: placement_def)

lemma placement_fits: "placement h cs start qs \<Longrightarrow> length cs \<le> length h"
proof -
  assume p: "placement h cs start qs"
  then have "distinct qs" "set qs \<subseteq> {0..<length h}" by (auto simp: placement_def strict_sorted_iff)
  then have "card (set qs) \<le> length h" using card_mono[of "{0..<length h}" "set qs"] by simp
  with placement_length[OF p] distinct_card[OF \<open>distinct qs\<close>] show ?thesis by simp
qed

lemma affordable_suffix: "affordable m n 0 None \<Longrightarrow> affordable m n s None"
proof -
  assume "affordable m n 0 None"
  moreover have "int m * (int n - int s) \<le> int m * int n" by (intro mult_left_mono) auto
  ultimately show ?thesis by (auto simp: affordable_def Let_def)
qed

lemma align_none:
  "(\<nexists>qs. placement (fold_case uc path) needle 0 qs) \<Longrightarrow> snd (align uc scratch path needle wanted None) = None"
  by (cases "needle = []") (simp_all add: align_def align_from_none)

lemma align_some:
  assumes ne: "needle \<noteq> []" and p: "placement (fold_case uc path) needle 0 ps"
  obtains m qs where "snd (align uc scratch path needle wanted None) = Some m"
    "placement (fold_case uc path) needle 0 qs" "fm_positions m = (if wanted then qs else [])"
    "affordable (length needle) (length path) 0 None \<Longrightarrow> fm_score m = match_value uc path needle qs \<and>
       (\<forall>qs. placement (fold_case uc path) needle 0 qs \<longrightarrow> match_value uc path needle qs \<le> fm_score m)"
proof -
  define h where "h = fold_case uc path"
  define ns where "ns = name_start path"
  define tail where "tail = (let name = drop ns h in
    if name = needle then NAME_EXACT else if take (length needle) name = needle then NAME_PREFIX else 0)"
  define aff where "aff = affordable (length needle) (length path) 0 None"
  have lh: "length h = length path" by (simp add: h_def)
  have p: "placement h needle 0 ps" using p by (simp add: h_def)
  have val: "match_value uc path needle qs =
      score_positions uc path qs ns + (if \<forall>q\<in>set qs. ns \<le> q then 40 else 0) + tail" for qs
    by (simp add: match_value_def tail_def h_def ns_def Let_def NAME_ONLY_def)
  obtain b1 m1 q1 where m1: "align_from uc (scratch 0) path h needle 0 ns wanted None = (b1, Some m1)"
    "placement h needle 0 q1" "fm_score m1 = score_positions uc path q1 ns" "fm_positions m1 = (if wanted then q1 else [])"
    "\<And>qs. aff \<Longrightarrow> placement h needle 0 qs \<Longrightarrow> score_positions uc path qs ns \<le> fm_score m1"
    using align_from_some[OF ne p, of uc "scratch 0" path ns wanted None] unfolding aff_def lh by metis
  have b1: "b1 = None" using m1(1) by (auto simp: align_from_def Let_def split: option.splits if_splits prod.splits)
  define r2 where "r2 = (if ns = 0 then (b1, Some m1) else align_from uc (scratch 1) path h needle ns ns wanted b1)"
  have r2: "case snd r2 of
      None \<Rightarrow> \<nexists>qs. placement h needle ns qs
    | Some m2 \<Rightarrow> \<exists>q2. placement h needle ns q2 \<and> fm_score m2 = score_positions uc path q2 ns \<and>
        fm_positions m2 = (if wanted then q2 else []) \<and>
        (aff \<longrightarrow> (\<forall>qs. placement h needle ns qs \<longrightarrow> score_positions uc path qs ns \<le> fm_score m2))"
  proof (cases "ns = 0")
    case True
    with m1 show ?thesis by (auto simp: r2_def)
  next
    case False
    show ?thesis
    proof (cases "\<exists>qs. placement h needle ns qs")
      case True
      then obtain qs where qs: "placement h needle ns qs" by blast
      obtain b2 m2 where m2: "align_from uc (scratch 1) path h needle ns ns wanted None = (b2, Some m2)"
        "\<exists>qs. placement h needle ns qs \<and> fm_score m2 = score_positions uc path qs ns \<and> fm_positions m2 = (if wanted then qs else [])"
        "affordable (length needle) (length h) ns None \<Longrightarrow> \<forall>qs. placement h needle ns qs \<longrightarrow> score_positions uc path qs ns \<le> fm_score m2"
        using align_from_some[OF ne qs] by metis
      have "aff \<Longrightarrow> affordable (length needle) (length h) ns None" using affordable_suffix by (simp add: aff_def lh)
      with m2 False b1 show ?thesis by (auto simp: r2_def)
    next
      case none: False
      then show ?thesis using align_from_none[OF ne none] False b1 by (simp add: r2_def)
    qed
  qed
  define best where "best = (case snd r2 of None \<Rightarrow> m1
      | Some m \<Rightarrow> if fm_score m + NAME_ONLY \<ge> fm_score m1 then m\<lparr>fm_score := fm_score m + NAME_ONLY\<rparr> else m1)"
  have short: "\<not> (needle = [] \<or> length needle > length path)" using ne placement_fits[OF p] lh by simp
  have al: "snd (align uc scratch path needle wanted None) = Some (best\<lparr>fm_score := fm_score best + tail\<rparr>)"
    unfolding align_def if_not_P[OF short] Let_def h_def[symmetric] ns_def[symmetric] m1(1)
    by (simp add: r2_def[symmetric] best_def tail_def Let_def split: prod.splits)
  have name: "placement h needle ns qs" if "placement h needle 0 qs" "\<forall>q\<in>set qs. ns \<le> q" for qs
    using that by (rule placement_from)
  show thesis
  proof (cases "\<exists>m2. snd r2 = Some m2 \<and> fm_score m2 + NAME_ONLY \<ge> fm_score m1")
    case True
    then obtain m2 where m2: "snd r2 = Some m2" "fm_score m2 + 40 \<ge> fm_score m1" by (auto simp: NAME_ONLY_def)
    with r2 obtain q2 where q2: "placement h needle ns q2" "fm_score m2 = score_positions uc path q2 ns"
      "fm_positions m2 = (if wanted then q2 else [])"
      "aff \<Longrightarrow> \<forall>qs. placement h needle ns qs \<longrightarrow> score_positions uc path qs ns \<le> fm_score m2" by auto
    have best: "best = m2\<lparr>fm_score := fm_score m2 + 40\<rparr>" using m2 by (simp add: best_def NAME_ONLY_def)
    have "\<forall>q\<in>set q2. ns \<le> q" using q2(1) by (auto simp: placement_def)
    moreover have "match_value uc path needle qs \<le> fm_score best + tail" if "aff" "placement h needle 0 qs" for qs
      using name[OF that(2)] q2(4)[OF that(1)] m1(5)[OF that] m2(2) by (force simp: val best)
    moreover have "placement h needle 0 q2" using q2(1) by (rule placement_mono) simp
    ultimately show thesis using that[OF al, of q2] q2 by (auto simp: val best h_def aff_def)
  next
    case False
    then have best: "best = m1" by (auto simp: best_def split: option.splits)
    have out: "fm_score m1 > score_positions uc path qs ns + 40" if a: "aff" "placement h needle 0 qs" "\<forall>q\<in>set qs. ns \<le> q" for qs
    proof -
      have n: "placement h needle ns qs" using name a by blast
      with r2 obtain m2 where m2: "snd r2 = Some m2" by (auto split: option.splits)
      with r2 a n have "score_positions uc path qs ns \<le> fm_score m2" by auto
      with m2 False show ?thesis by (auto simp: NAME_ONLY_def)
    qed
    have "match_value uc path needle qs \<le> fm_score best + tail" if "aff" "placement h needle 0 qs" for qs
      using out[OF that] m1(5)[OF that] by (auto simp: val best)
    moreover have "fm_score best + tail = match_value uc path needle q1" if "aff"
      using out[OF that m1(2)] m1(3) by (auto simp: val best)
    ultimately show thesis using that[OF al, of q1] m1 by (auto simp: best h_def aff_def)
  qed
qed


text \<open>
  C18: Go to File finds the best match. \<open>fuzzyPathMatch\<close> returns nothing exactly when the needle's
  characters do not occur in the folded path in order; otherwise the positions it traces back are an
  in-order placement of the needle. Within the cell limit its score is that placement's own value,
  and no placement anywhere in the path is worth more, whatever the scratch rows hold: the rows keep
  one state per carried bonus, clear only from just before each window, and prune to the windows, and
  lose nothing. The score alone, computed without back-pointers, is the same number.
\<close>

theorem fuzzy_match_is_the_best_placement:
  assumes "needle \<noteq> []"
  shows "(case fuzzy_path_match uc scratch path needle of
      None \<Rightarrow> \<nexists>qs. placement (fold_case uc path) needle 0 qs
    | Some m \<Rightarrow> placement (fold_case uc path) needle 0 (fm_positions m) \<and>
        (int (length needle) * int (length path) \<le> MAX_ALIGNMENT_CELLS \<longrightarrow>
           fm_score m = match_value uc path needle (fm_positions m) \<and>
           (\<forall>qs. placement (fold_case uc path) needle 0 qs \<longrightarrow> match_value uc path needle qs \<le> fm_score m) \<and>
           snd (fuzzy_path_score uc scratch' path needle None) = Some (fm_score m)))"
proof (cases "\<exists>qs. placement (fold_case uc path) needle 0 qs")
  case False
  then show ?thesis using align_none by (simp add: fuzzy_path_match_def)
next
  case True
  then obtain ps where p: "placement (fold_case uc path) needle 0 ps" by blast
  have aff: "affordable (length needle) (length path) 0 None \<longleftrightarrow> int (length needle) * int (length path) \<le> MAX_ALIGNMENT_CELLS"
    by (simp add: affordable_def)
  obtain m qs where m: "snd (align uc scratch path needle True None) = Some m"
    "placement (fold_case uc path) needle 0 qs" "fm_positions m = qs"
    "affordable (length needle) (length path) 0 None \<Longrightarrow> fm_score m = match_value uc path needle qs \<and>
       (\<forall>qs. placement (fold_case uc path) needle 0 qs \<longrightarrow> match_value uc path needle qs \<le> fm_score m)"
    using align_some[OF assms p, of scratch True] by (metis (full_types))
  obtain m' qs' where m': "snd (align uc scratch' path needle False None) = Some m'"
    "placement (fold_case uc path) needle 0 qs'"
    "affordable (length needle) (length path) 0 None \<Longrightarrow> fm_score m' = match_value uc path needle qs' \<and>
       (\<forall>qs. placement (fold_case uc path) needle 0 qs \<longrightarrow> match_value uc path needle qs \<le> fm_score m')"
    using align_some[OF assms p, of scratch' False] by metis
  have "fm_score m' = fm_score m" if "affordable (length needle) (length path) 0 None"
    using m(2,4) m'(2,3) that by (metis order.antisym)
  with m m'(1) show ?thesis
    by (auto simp: fuzzy_path_match_def fuzzy_path_score_def aff split: prod.splits)
qed

text \<open>The query \<open>ab\<close> in the path \<open>a/ab\<close>: the file name's own letters are underlined.\<close>

definition plain_tables :: case_tables where
  "plain_tables = \<lparr>ct_lower = (\<lambda>u. [u]), ct_upper = (\<lambda>u. [u])\<rparr>"

definition clean_scratch :: "nat \<Rightarrow> score_row \<times> score_row" where
  "clean_scratch = (\<lambda>k. (\<lambda>l j. 0, \<lambda>l j. 0))"

lemma match_ab:
  "fuzzy_path_match plain_tables clean_scratch [97, 47, 97, 98] [97, 98] = Some \<lparr>fm_score = 178, fm_positions = [2, 3]\<rparr>"
  by code_simp

theorem fuzzy_match_is_the_best_placement_witness:
  "placement (fold_case plain_tables [97, 47, 97, 98]) [97, 98] 0 [2, 3] \<and>
   match_value plain_tables [97, 47, 97, 98] [97, 98] [2, 3] = 178 \<and>
   placement (fold_case plain_tables [97, 47, 97, 98]) [97, 98] 0 [0, 3] \<and>
   match_value plain_tables [97, 47, 97, 98] [97, 98] [0, 3] \<le> 178"
proof -
  have "placement (fold_case plain_tables [97, 47, 97, 98]) [97, 98] 0 [0, 3]" by code_simp
  then show ?thesis
    using fuzzy_match_is_the_best_placement[where needle = "[97, 98]" and uc = plain_tables and
        scratch = clean_scratch and path = "[97, 47, 97, 98]" and scratch' = clean_scratch]
    by (simp add: match_ab MAX_ALIGNMENT_CELLS_def)
qed

end
