(* ===== verification/Usage_Event.thy ===== *)
theory Usage_Event
  imports Json
begin

text \<open>
  The \<open>token_usage\<close> payload of a session event and a provider's cumulative checkpoint
  (\<open>packages/protocol/src/index.ts\<close>), shared by the runner's accounting of Claude usage and by the
  rate-priced totals. Counters and texts that arrive from a provider are JSON values, since the code
  checks their type where it reads them; a missing property is \<open>None\<close>.
\<close>

datatype live_usage = Provisional | Republished | Settled

record usage_event =
  ue_input :: "json option"
  ue_output :: "json option"
  ue_cached :: "json option"
  ue_cache_creation :: "json option"
  ue_reasoning :: "json option"
  ue_model :: "json option"
  ue_cost :: "json option"
  ue_estimate :: bool
  ue_incomplete :: bool
  ue_live :: "live_usage option"
  ue_independent :: bool
  ue_request_input :: "json option"
  ue_service_tier :: "json option"
  ue_parent :: "string option"

definition plain_usage :: usage_event where
  "plain_usage = \<lparr>ue_input = None, ue_output = None, ue_cached = None, ue_cache_creation = None, ue_reasoning = None,
     ue_model = None, ue_cost = None, ue_estimate = False, ue_incomplete = False, ue_live = None, ue_independent = False,
     ue_request_input = None, ue_service_tier = None, ue_parent = None\<rparr>"

datatype accounting_scope = ProcessScope | ConversationScope

record model_usage =
  mu_input :: rat
  mu_output :: rat
  mu_cache_read :: rat
  mu_cache_creation :: rat
  mu_cost :: "rat option"
  mu_canonical :: "string option"
  mu_thinking :: "rat option"

record usage_checkpoint =
  uc_scope :: "accounting_scope option"
  uc_session :: string
  uc_total :: rat
  uc_models :: "(string \<times> model_usage) list"

end
