(* ===== verification/Rate_Priced_Usage.thy ===== *)
theory Rate_Priced_Usage
  imports Usage_Event
begin

text \<open>
  Cumulative usage that the control plane prices from its rate table
  (\<open>packages/protocol/src/rate-priced-usage.ts\<close>): one entry per pricing key, accrued by the runner and
  by the control plane with the same rule, and parsed from a peer's snapshot. The key is the JSON text
  of the model, the tier and whether the request size is known; it is modelled as that triple.
\<close>

section \<open>Records\<close>

record rate_priced_total =
  rp_model :: "string option"
  rp_tier :: "string option"
  rp_request :: "(rat \<times> rat) option"
  rp_input :: int
  rp_net_input :: int
  rp_output :: int
  rp_cached :: int
  rp_cache_creation :: int
  rp_reasoning :: int

definition RATE_PRICED_USAGE_BUCKETS :: "(string \<times> (rate_priced_total \<Rightarrow> int)) list" where
  "RATE_PRICED_USAGE_BUCKETS = [(''inputTokens'', rp_input), (''netInputTokens'', rp_net_input),
     (''outputTokens'', rp_output), (''cachedInputTokens'', rp_cached),
     (''cacheCreationInputTokens'', rp_cache_creation), (''reasoningOutputTokens'', rp_reasoning)]"

definition RATE_PRICED_USAGE_MAX_ENTRIES :: nat where "RATE_PRICED_USAGE_MAX_ENTRIES = 32"
definition MAX_TOKENS :: int where "MAX_TOKENS = 1000000000000"
definition INVALID_SERVICE_TIER :: string where "INVALID_SERVICE_TIER = ''<invalid>''"

definition token_count :: "json option \<Rightarrow> int" where
  "token_count v = (case v of Some (JNum q) \<Rightarrow> if q \<ge> 0 then min \<lfloor>q\<rfloor> MAX_TOKENS else 0 | _ \<Rightarrow> 0)"

definition bounded_text :: "json option \<Rightarrow> nat \<Rightarrow> string option" where
  "bounded_text v limit =
     (case v of Some (JStr s) \<Rightarrow> let t = take limit (js_trim s) in if length t > 0 then Some t else None | _ \<Rightarrow> None)"

definition nonneg_number :: "json option \<Rightarrow> rat option" where
  "nonneg_number v = (case v of Some (JNum q) \<Rightarrow> if q \<ge> 0 then Some q else None | _ \<Rightarrow> None)"

definition rate_priced_usage_record :: "usage_event \<Rightarrow> rate_priced_total option" where
  "rate_priced_usage_record p =
     (if (case ue_parent p of None \<Rightarrow> False | Some s \<Rightarrow> s \<noteq> []) \<and> \<not> ue_independent p then None
      else if ue_live p = Some Provisional \<or> ue_incomplete p then None
      else if nonneg_number (ue_cost p) \<noteq> None then None
      else
        let input = token_count (ue_input p); output = token_count (ue_output p);
            cached = token_count (ue_cached p); creation = token_count (ue_cache_creation p)
        in if input = 0 \<and> output = 0 \<and> cached = 0 \<and> creation = 0 then None
           else Some \<lparr>
             rp_model = bounded_text (ue_model p) 128,
             rp_tier = (case ue_service_tier p of None \<Rightarrow> None | Some (JStr t) \<Rightarrow> Some (take 64 t) | _ \<Rightarrow> Some INVALID_SERVICE_TIER),
             rp_request = map_option (\<lambda>q. (q, q)) (nonneg_number (ue_request_input p)),
             rp_input = input, rp_net_input = max 0 (input - cached), rp_output = output, rp_cached = cached,
             rp_cache_creation = creation, rp_reasoning = min output (token_count (ue_reasoning p))\<rparr>)"

type_synonym pricing_key = "string option \<times> string option \<times> bool"

definition rate_priced_usage_key :: "rate_priced_total \<Rightarrow> pricing_key" where
  "rate_priced_usage_key e = (rp_model e, rp_tier e, rp_request e \<noteq> None)"

section \<open>Accrual\<close>

definition add_bucket :: "int \<Rightarrow> int \<Rightarrow> int" where
  "add_bucket a b = min (a + b) MAX_TOKENS"

definition merge_total :: "rate_priced_total \<Rightarrow> rate_priced_total \<Rightarrow> rate_priced_total" where
  "merge_total prior r = \<lparr>
     rp_model = rp_model prior, rp_tier = rp_tier prior,
     rp_request = (case (rp_request prior, rp_request r) of
         (Some (a, b), Some (c, d)) \<Rightarrow> Some (min a c, max b d) | _ \<Rightarrow> None),
     rp_input = add_bucket (rp_input prior) (rp_input r),
     rp_net_input = add_bucket (rp_net_input prior) (rp_net_input r),
     rp_output = add_bucket (rp_output prior) (rp_output r),
     rp_cached = add_bucket (rp_cached prior) (rp_cached r),
     rp_cache_creation = add_bucket (rp_cache_creation prior) (rp_cache_creation r),
     rp_reasoning = add_bucket (rp_reasoning prior) (rp_reasoning r)\<rparr>"

text \<open>Replace the first entry with the key; the code finds its index first.\<close>

fun merge_first :: "pricing_key \<Rightarrow> rate_priced_total \<Rightarrow> rate_priced_total list \<Rightarrow> rate_priced_total list" where
  "merge_first k r [] = []"
| "merge_first k r (e # es) =
     (if rate_priced_usage_key e = k then merge_total e r # es else e # merge_first k r es)"

definition accrue_rate_priced_usage ::
    "rate_priced_total list \<Rightarrow> usage_event \<Rightarrow> rate_priced_total list option" where
  "accrue_rate_priced_usage totals p =
     (case rate_priced_usage_record p of
        None \<Rightarrow> Some totals
      | Some r \<Rightarrow>
          let k = rate_priced_usage_key r
          in if list_all (\<lambda>e. rate_priced_usage_key e \<noteq> k) totals
             then (if length totals \<ge> RATE_PRICED_USAGE_MAX_ENTRIES then None else Some (totals @ [r]))
             else Some (merge_first k r totals))"

text \<open>A session's usage in order, until the entries can no longer be complete.\<close>

fun accrue_all :: "rate_priced_total list \<Rightarrow> usage_event list \<Rightarrow> rate_priced_total list option" where
  "accrue_all totals [] = Some totals"
| "accrue_all totals (p # ps) =
     (case accrue_rate_priced_usage totals p of None \<Rightarrow> None | Some t \<Rightarrow> accrue_all t ps)"

section \<open>The wire format\<close>

definition is_count :: "json option \<Rightarrow> bool" where
  "is_count v \<longleftrightarrow> (case as_safe_integer v of None \<Rightarrow> False | Some n \<Rightarrow> 0 \<le> n \<and> n \<le> MAX_TOKENS)"

definition the_count :: "json option \<Rightarrow> int" where
  "the_count v = (case as_safe_integer v of None \<Rightarrow> 0 | Some n \<Rightarrow> n)"

text \<open>The properties of a value whose \<open>typeof\<close> is \<open>object\<close>; an array has no named ones.\<close>

fun object_props :: "json option \<Rightarrow> jobject option" where
  "object_props (Some (JObj ps)) = Some ps"
| "object_props (Some (JArr xs)) = Some []"
| "object_props _ = None"

definition parse_range :: "json option \<Rightarrow> (rat \<times> rat) option option" where
  "parse_range v =
     (if v = None then Some None
      else case object_props v of None \<Rightarrow> None
        | Some ps \<Rightarrow>
            (case (jget ps ''min'', jget ps ''max'') of
               (Some (JNum a), Some (JNum b)) \<Rightarrow> if a < 0 \<or> b < a then None else Some (Some (a, b))
             | _ \<Rightarrow> None))"

definition parse_entry :: "json \<Rightarrow> rate_priced_total option" where
  "parse_entry raw =
     (case object_props (Some raw) of None \<Rightarrow> None
      | Some ps \<Rightarrow>
          if jget ps ''model'' \<noteq> None \<and> map_option JStr (bounded_text (jget ps ''model'') 128) \<noteq> jget ps ''model'' then None
          else if (case jget ps ''serviceTier'' of None \<Rightarrow> False | Some (JStr t) \<Rightarrow> length t > 64 | _ \<Rightarrow> True) then None
          else if \<not> list_all (\<lambda>(k, f). is_count (jget ps k)) RATE_PRICED_USAGE_BUCKETS then None
          else case parse_range (jget ps ''requestInputTokens'') of None \<Rightarrow> None
            | Some request \<Rightarrow> Some \<lparr>
                rp_model = as_string (jget ps ''model''), rp_tier = as_string (jget ps ''serviceTier''),
                rp_request = request,
                rp_input = the_count (jget ps ''inputTokens''), rp_net_input = the_count (jget ps ''netInputTokens''),
                rp_output = the_count (jget ps ''outputTokens''), rp_cached = the_count (jget ps ''cachedInputTokens''),
                rp_cache_creation = the_count (jget ps ''cacheCreationInputTokens''),
                rp_reasoning = the_count (jget ps ''reasoningOutputTokens'')\<rparr>)"

fun parse_entries :: "pricing_key list \<Rightarrow> json list \<Rightarrow> rate_priced_total list option" where
  "parse_entries keys [] = Some []"
| "parse_entries keys (raw # rest) =
     (case parse_entry raw of None \<Rightarrow> None
      | Some e \<Rightarrow> if rate_priced_usage_key e \<in> set keys then None
                   else map_option ((#) e) (parse_entries (keys @ [rate_priced_usage_key e]) rest))"

definition parse_rate_priced_usage :: "json option \<Rightarrow> rate_priced_total list option" where
  "parse_rate_priced_usage v =
     (case as_array v of None \<Rightarrow> None
      | Some xs \<Rightarrow> if length xs > RATE_PRICED_USAGE_MAX_ENTRIES then None else parse_entries [] xs)"

text \<open>An entry as it is sent: its present properties, in the order its literal builds them.\<close>

definition entry_json :: "rate_priced_total \<Rightarrow> json" where
  "entry_json e = JObj
     ((case rp_model e of None \<Rightarrow> [] | Some m \<Rightarrow> [(''model'', JStr m)]) @
      (case rp_tier e of None \<Rightarrow> [] | Some t \<Rightarrow> [(''serviceTier'', JStr t)]) @
      (case rp_request e of None \<Rightarrow> [] | Some (a, b) \<Rightarrow> [(''requestInputTokens'', JObj [(''min'', JNum a), (''max'', JNum b)])]) @
      map (\<lambda>(k, f). (k, JNum (of_int (f e)))) RATE_PRICED_USAGE_BUCKETS)"

section \<open>What accrual computes\<close>

definition priced_records :: "usage_event list \<Rightarrow> rate_priced_total list" where
  "priced_records ps = List.map_filter rate_priced_usage_record ps"

lemma js_dedup_snoc: "js_dedup (xs @ [x]) = (if x \<in> set xs then js_dedup xs else js_dedup xs @ [x])"
  by (induction xs) (auto simp: filter_empty_conv)

lemma bucket_cases:
  "(\<forall>(n, f)\<in>set RATE_PRICED_USAGE_BUCKETS. P f) \<longleftrightarrow>
     P rp_input \<and> P rp_net_input \<and> P rp_output \<and> P rp_cached \<and> P rp_cache_creation \<and> P rp_reasoning"
  by (simp add: RATE_PRICED_USAGE_BUCKETS_def)

lemma token_count_bounds: "0 \<le> token_count v" "token_count v \<le> MAX_TOKENS"
  by (auto simp: token_count_def MAX_TOKENS_def split: option.splits json.splits)

definition counts_ok :: "rate_priced_total \<Rightarrow> bool" where
  "counts_ok e \<longleftrightarrow> (\<forall>(n, f)\<in>set RATE_PRICED_USAGE_BUCKETS. 0 \<le> f e \<and> f e \<le> MAX_TOKENS)"

lemma record_counts: "rate_priced_usage_record p = Some r \<Longrightarrow> counts_ok r"
  unfolding counts_ok_def bucket_cases[where P = "\<lambda>f. 0 \<le> f r \<and> f r \<le> MAX_TOKENS"]
  using token_count_bounds[of "ue_input p"] token_count_bounds[of "ue_output p"] token_count_bounds[of "ue_cached p"]
    token_count_bounds[of "ue_cache_creation p"] token_count_bounds[of "ue_reasoning p"]
  by (auto simp: rate_priced_usage_record_def Let_def split: if_splits)

lemma merge_key: "rate_priced_usage_key e = rate_priced_usage_key r \<Longrightarrow> rate_priced_usage_key (merge_total e r) = rate_priced_usage_key e"
  by (auto simp: rate_priced_usage_key_def merge_total_def split: option.splits)

lemma merge_bucket: "(n, f) \<in> set RATE_PRICED_USAGE_BUCKETS \<Longrightarrow> f (merge_total e r) = min (f e + f r) MAX_TOKENS"
  by (auto simp: RATE_PRICED_USAGE_BUCKETS_def merge_total_def add_bucket_def)

lemma merge_first_keys:
  "rate_priced_usage_key r = k \<Longrightarrow> map rate_priced_usage_key (merge_first k r ts) = map rate_priced_usage_key ts"
  by (induction ts) (auto simp: merge_key)

lemma merge_first_set:
  "distinct (map rate_priced_usage_key ts) \<Longrightarrow> e \<in> set (merge_first k r ts) \<Longrightarrow>
     (e \<in> set ts \<and> rate_priced_usage_key e \<noteq> k) \<or> (\<exists>e'\<in>set ts. rate_priced_usage_key e' = k \<and> e = merge_total e' r)"
proof (induction ts)
  case (Cons a ts)
  show ?case
  proof (cases "rate_priced_usage_key a = k")
    case True
    then have "\<forall>x\<in>set ts. rate_priced_usage_key x \<noteq> k" using Cons.prems(1) by (force simp: image_iff)
    with True Cons.prems show ?thesis by auto
  next
    case False
    with Cons show ?thesis by auto
  qed
qed simp

definition accrued :: "rate_priced_total list \<Rightarrow> rate_priced_total list \<Rightarrow> bool" where
  "accrued rs ts \<longleftrightarrow> map rate_priced_usage_key ts = js_dedup (map rate_priced_usage_key rs) \<and>
     (\<forall>e\<in>set ts. \<forall>(n, f)\<in>set RATE_PRICED_USAGE_BUCKETS.
        f e = min MAX_TOKENS (sum_list (map f (filter (\<lambda>r. rate_priced_usage_key r = rate_priced_usage_key e) rs))))"

lemma accrued_distinct: "accrued rs ts \<Longrightarrow> distinct (map rate_priced_usage_key ts)"
  by (simp add: accrued_def)

lemma accrued_bucket:
  "accrued rs ts \<Longrightarrow> e \<in> set ts \<Longrightarrow> (n, f) \<in> set RATE_PRICED_USAGE_BUCKETS \<Longrightarrow>
     f e = min MAX_TOKENS (sum_list (map f (filter (\<lambda>r. rate_priced_usage_key r = rate_priced_usage_key e) rs)))"
  by (fastforce simp: accrued_def)

lemma accrued_new:
  assumes acc: "accrued rs ts" and r: "counts_ok r" and new: "list_all (\<lambda>e. rate_priced_usage_key e \<noteq> rate_priced_usage_key r) ts"
  shows "accrued (rs @ [r]) (ts @ [r])"
proof -
  have keys: "set (map rate_priced_usage_key ts) = set (map rate_priced_usage_key rs)"
    using acc by (simp add: accrued_def del: set_map)
  then have fresh: "rate_priced_usage_key r \<notin> set (map rate_priced_usage_key rs)"
    using new by (force simp: list_all_iff)
  then have none: "filter (\<lambda>r'. rate_priced_usage_key r' = rate_priced_usage_key r) rs = []"
    unfolding filter_empty_conv by (metis image_eqI set_map)
  have "f e = min MAX_TOKENS (sum_list (map f (filter (\<lambda>r. rate_priced_usage_key r = rate_priced_usage_key e) (rs @ [r]))))"
    if e: "e \<in> set (ts @ [r])" and f: "(n, f) \<in> set RATE_PRICED_USAGE_BUCKETS" for e n f
  proof (cases "e \<in> set ts")
    case True
    then have "rate_priced_usage_key r \<noteq> rate_priced_usage_key e" using new by (auto simp: list_all_iff)
    then show ?thesis using accrued_bucket[OF acc True f] by simp
  next
    case False
    then have "e = r" using e by simp
    moreover have "0 \<le> f r \<and> f r \<le> MAX_TOKENS" using r f by (fastforce simp: counts_ok_def)
    ultimately show ?thesis using none by simp
  qed
  moreover have "map rate_priced_usage_key (ts @ [r]) = js_dedup (map rate_priced_usage_key (rs @ [r]))"
    using acc fresh by (simp add: accrued_def js_dedup_snoc)
  ultimately show ?thesis unfolding accrued_def by blast
qed

lemma accrued_merge:
  assumes acc: "accrued rs ts" and r: "counts_ok r" and old: "\<not> list_all (\<lambda>e. rate_priced_usage_key e \<noteq> rate_priced_usage_key r) ts"
  shows "accrued (rs @ [r]) (merge_first (rate_priced_usage_key r) r ts)"
proof -
  let ?k = "rate_priced_usage_key r"
  have keys: "set (map rate_priced_usage_key ts) = set (map rate_priced_usage_key rs)"
    using acc by (simp add: accrued_def del: set_map)
  obtain e0 where "e0 \<in> set ts" "rate_priced_usage_key e0 = ?k" using old by (auto simp: list_all_iff)
  then have "?k \<in> set (map rate_priced_usage_key ts)" by (metis image_eqI set_map)
  then have old': "?k \<in> set (map rate_priced_usage_key rs)" unfolding keys .
  have "f e = min MAX_TOKENS (sum_list (map f (filter (\<lambda>r. rate_priced_usage_key r = rate_priced_usage_key e) (rs @ [r]))))"
    if e: "e \<in> set (merge_first ?k r ts)" and f: "(n, f) \<in> set RATE_PRICED_USAGE_BUCKETS" for e n f
    using merge_first_set[OF accrued_distinct[OF acc] e]
  proof
    assume "e \<in> set ts \<and> rate_priced_usage_key e \<noteq> ?k"
    then show ?thesis using accrued_bucket[OF acc _ f, of e] by auto
  next
    assume "\<exists>e'\<in>set ts. rate_priced_usage_key e' = ?k \<and> e = merge_total e' r"
    then obtain e' where e': "e' \<in> set ts" "rate_priced_usage_key e' = ?k" "e = merge_total e' r" by blast
    then have ke: "rate_priced_usage_key e = ?k" using merge_key by metis
    have "0 \<le> f r" using r f by (fastforce simp: counts_ok_def)
    moreover have "f e = min (f e' + f r) MAX_TOKENS" unfolding e'(3) using f by (rule merge_bucket)
    ultimately show ?thesis using accrued_bucket[OF acc e'(1) f] ke e'(2) by simp
  qed
  moreover have "map rate_priced_usage_key (merge_first ?k r ts) = js_dedup (map rate_priced_usage_key (rs @ [r]))"
    using acc old' by (simp add: merge_first_keys accrued_def js_dedup_snoc)
  ultimately show ?thesis unfolding accrued_def by blast
qed

lemma js_dedup_prefix_length: "length (js_dedup xs) \<le> length (js_dedup (xs @ ys))"
proof (induction ys rule: rev_induct)
  case (snoc y ys)
  then show ?case using js_dedup_snoc[of "xs @ ys" y] by (auto simp: append_assoc[symmetric] simp del: append_assoc)
qed simp

lemma accrue_all_accrued:
  assumes "accrued rs ts" "length ts \<le> RATE_PRICED_USAGE_MAX_ENTRIES"
  shows "case accrue_all ts ps of
      None \<Rightarrow> length (js_dedup (map rate_priced_usage_key (rs @ priced_records ps))) > RATE_PRICED_USAGE_MAX_ENTRIES
    | Some ts' \<Rightarrow> accrued (rs @ priced_records ps) ts' \<and> length ts' \<le> RATE_PRICED_USAGE_MAX_ENTRIES"
  using assms
proof (induction ps arbitrary: rs ts)
  case Nil
  then show ?case by (simp add: priced_records_def map_filter_simps)
next
  case (Cons p ps)
  show ?case
  proof (cases "rate_priced_usage_record p")
    case None
    then have "priced_records (p # ps) = priced_records ps" by (simp add: priced_records_def map_filter_simps)
    then show ?thesis unfolding \<open>priced_records (p # ps) = priced_records ps\<close>
      using Cons.IH[OF Cons.prems] None by (simp add: accrue_rate_priced_usage_def)
  next
    case (Some r)
    have recs: "rs @ priced_records (p # ps) = (rs @ [r]) @ priced_records ps"
      using Some by (simp add: priced_records_def map_filter_simps)
    have r: "counts_ok r" using Some by (rule record_counts)
    show ?thesis
    proof (cases "list_all (\<lambda>e. rate_priced_usage_key e \<noteq> rate_priced_usage_key r) ts")
      case new: True
      have acc: "accrued (rs @ [r]) (ts @ [r])" using Cons.prems(1) r new by (rule accrued_new)
      show ?thesis
      proof (cases "length ts \<ge> RATE_PRICED_USAGE_MAX_ENTRIES")
        case True
        have "length (js_dedup (map rate_priced_usage_key (rs @ [r]))) = Suc (length ts)"
          using acc by (metis accrued_def length_append_singleton length_map)
        moreover have "length (js_dedup (map rate_priced_usage_key (rs @ [r]))) \<le>
            length (js_dedup (map rate_priced_usage_key ((rs @ [r]) @ priced_records ps)))"
          unfolding map_append[of _ "rs @ [r]"] by (rule js_dedup_prefix_length)
        ultimately show ?thesis unfolding recs using Some new True by (simp add: accrue_rate_priced_usage_def Let_def)
      next
        case False
        then show ?thesis using Cons.IH[OF acc] Some new unfolding recs by (simp add: accrue_rate_priced_usage_def Let_def)
      qed
    next
      case old: False
      have acc: "accrued (rs @ [r]) (merge_first (rate_priced_usage_key r) r ts)" using Cons.prems(1) r old by (rule accrued_merge)
      have "length (merge_first (rate_priced_usage_key r) r ts) = length ts"
        using merge_first_keys[OF refl, of r ts] by (metis length_map)
      then show ?thesis using Cons.IH[OF acc] Cons.prems(2) Some old unfolding recs by (simp add: accrue_rate_priced_usage_def Let_def)
    qed
  qed
qed


section \<open>What the parser accepts\<close>

definition entry_ok :: "rate_priced_total \<Rightarrow> bool" where
  "entry_ok e \<longleftrightarrow> counts_ok e \<and> (case rp_model e of None \<Rightarrow> True | Some m \<Rightarrow> bounded_text (Some (JStr m)) 128 = Some m) \<and>
     (case rp_tier e of None \<Rightarrow> True | Some t \<Rightarrow> length t \<le> 64) \<and>
     (case rp_request e of None \<Rightarrow> True | Some (a, b) \<Rightarrow> 0 \<le> a \<and> a \<le> b)"

lemma is_count_of_int: "0 \<le> n \<Longrightarrow> n \<le> MAX_TOKENS \<Longrightarrow> is_count (Some (JNum (of_int n))) \<and> the_count (Some (JNum (of_int n))) = n"
  by (auto simp: is_count_def the_count_def MAX_TOKENS_def max_safe_integer_def safe_integer_def Let_def)

lemma jget_entry:
  assumes "entry_json e = JObj ps"
  shows "jget ps ''model'' = map_option JStr (rp_model e)" "jget ps ''serviceTier'' = map_option JStr (rp_tier e)"
    "jget ps ''requestInputTokens'' = map_option (\<lambda>(a, b). JObj [(''min'', JNum a), (''max'', JNum b)]) (rp_request e)"
    "jget ps ''inputTokens'' = Some (JNum (of_int (rp_input e)))"
    "jget ps ''netInputTokens'' = Some (JNum (of_int (rp_net_input e)))"
    "jget ps ''outputTokens'' = Some (JNum (of_int (rp_output e)))"
    "jget ps ''cachedInputTokens'' = Some (JNum (of_int (rp_cached e)))"
    "jget ps ''cacheCreationInputTokens'' = Some (JNum (of_int (rp_cache_creation e)))"
    "jget ps ''reasoningOutputTokens'' = Some (JNum (of_int (rp_reasoning e)))"
  using assms by (auto simp: entry_json_def RATE_PRICED_USAGE_BUCKETS_def split: option.splits)

lemma parse_entry_json: "entry_ok e \<Longrightarrow> parse_entry (entry_json e) = Some e"
proof -
  assume ok: "entry_ok e"
  obtain ps where ps: "entry_json e = JObj ps" by (simp add: entry_json_def)
  note get = jget_entry[OF ps]
  have counts: "0 \<le> rp_input e \<and> rp_input e \<le> MAX_TOKENS" "0 \<le> rp_net_input e \<and> rp_net_input e \<le> MAX_TOKENS"
    "0 \<le> rp_output e \<and> rp_output e \<le> MAX_TOKENS" "0 \<le> rp_cached e \<and> rp_cached e \<le> MAX_TOKENS"
    "0 \<le> rp_cache_creation e \<and> rp_cache_creation e \<le> MAX_TOKENS" "0 \<le> rp_reasoning e \<and> rp_reasoning e \<le> MAX_TOKENS"
    using ok by (auto simp: entry_ok_def counts_ok_def RATE_PRICED_USAGE_BUCKETS_def)
  have range: "parse_range (jget ps ''requestInputTokens'') = Some (rp_request e)"
    using ok unfolding get by (cases "rp_request e") (auto simp: parse_range_def entry_ok_def)
  have texts: "\<not> (jget ps ''model'' \<noteq> None \<and> map_option JStr (bounded_text (jget ps ''model'') 128) \<noteq> jget ps ''model'')"
    "\<not> (case jget ps ''serviceTier'' of None \<Rightarrow> False | Some (JStr t) \<Rightarrow> length t > 64 | _ \<Rightarrow> True)"
    using ok unfolding get by (auto simp: entry_ok_def split: option.splits)
  have all: "list_all (\<lambda>(k, f). is_count (jget ps k)) RATE_PRICED_USAGE_BUCKETS"
    using counts is_count_of_int by (simp add: RATE_PRICED_USAGE_BUCKETS_def get)
  have "as_string (map_option JStr v) = v" for v by (cases v) auto
  then show ?thesis
    unfolding ps parse_entry_def object_props.simps option.case if_not_P[OF texts(1)] if_not_P[OF texts(2)] range
    using all counts is_count_of_int by (simp add: get(1,2,4-9))
qed

lemma parse_entries_json:
  "list_all entry_ok es \<Longrightarrow> distinct (map rate_priced_usage_key es) \<Longrightarrow> set keys \<inter> set (map rate_priced_usage_key es) = {} \<Longrightarrow>
     parse_entries keys (map entry_json es) = Some es"
  by (induction es arbitrary: keys) (auto simp: parse_entry_json)

text \<open>A model whose bounded text does not end in a space, which the bound may cut to.\<close>

definition clean_model :: "usage_event \<Rightarrow> bool" where
  "clean_model p \<longleftrightarrow> (case bounded_text (ue_model p) 128 of None \<Rightarrow> True | Some m \<Rightarrow> js_trim m = m)"

lemma record_entry_ok: "rate_priced_usage_record p = Some r \<Longrightarrow> clean_model p \<Longrightarrow> entry_ok r"
proof -
  assume r: "rate_priced_usage_record p = Some r" and c: "clean_model p"
  have "rp_model r = bounded_text (ue_model p) 128"
    "rp_tier r = (case ue_service_tier p of None \<Rightarrow> None | Some (JStr t) \<Rightarrow> Some (take 64 t) | _ \<Rightarrow> Some INVALID_SERVICE_TIER)"
    "rp_request r = map_option (\<lambda>q. (q, q)) (nonneg_number (ue_request_input p))"
    using r by (auto simp: rate_priced_usage_record_def Let_def split: if_splits)
  moreover have "bounded_text (Some (JStr m)) 128 = Some m" if "bounded_text (ue_model p) 128 = Some m" for m
    using that c by (auto simp: clean_model_def bounded_text_def Let_def split: option.splits json.splits if_splits)
  moreover have "0 \<le> q" if "nonneg_number (ue_request_input p) = Some q" for q
    using that by (auto simp: nonneg_number_def split: option.splits json.splits if_splits)
  ultimately show ?thesis using record_counts[OF r]
    by (auto simp: entry_ok_def INVALID_SERVICE_TIER_def split: option.splits json.splits)
qed

lemma merge_entry_ok: "entry_ok e \<Longrightarrow> entry_ok r \<Longrightarrow> entry_ok (merge_total e r)"
proof -
  assume e: "entry_ok e" and r: "entry_ok r"
  have "0 \<le> f (merge_total e r) \<and> f (merge_total e r) \<le> MAX_TOKENS" if f: "(n, f) \<in> set RATE_PRICED_USAGE_BUCKETS" for n f
    unfolding merge_bucket[OF f] using e r f by (fastforce simp: entry_ok_def counts_ok_def MAX_TOKENS_def)
  then have "counts_ok (merge_total e r)" unfolding counts_ok_def by blast
  then show ?thesis using e r by (auto simp: entry_ok_def merge_total_def split: option.splits)
qed

lemma accrue_entry_ok:
  "accrue_rate_priced_usage ts p = Some ts' \<Longrightarrow> list_all entry_ok ts \<Longrightarrow> clean_model p \<Longrightarrow> list_all entry_ok ts'"
proof (cases "rate_priced_usage_record p")
  case (Some r)
  assume a: "accrue_rate_priced_usage ts p = Some ts'" "list_all entry_ok ts" "clean_model p"
  have r: "entry_ok r" using Some a(3) by (rule record_entry_ok)
  have "list_all entry_ok (merge_first (rate_priced_usage_key r) r ts)"
    using a(2) by (induction ts) (auto simp: merge_entry_ok r)
  with a r Some show ?thesis by (auto simp: accrue_rate_priced_usage_def Let_def split: if_splits)
qed (auto simp: accrue_rate_priced_usage_def)

lemma accrue_all_entry_ok:
  "accrue_all ts ps = Some ts' \<Longrightarrow> list_all entry_ok ts \<Longrightarrow> list_all clean_model ps \<Longrightarrow> list_all entry_ok ts'"
  by (induction ps arbitrary: ts) (auto split: option.splits dest: accrue_entry_ok)

section \<open>Properties\<close>

text \<open>
  Accrual is exact, so two sides that accrue the same usage hold the same entries and a missing
  record is a difference of buckets. Over any sequence of session events the entries are one per
  pricing key, in the order the keys first occur, each bucket the sum over that key's records up to
  the limit; accrual gives up exactly when there are more than 32 keys.
\<close>

theorem accrued_totals_are_exact:
  "case accrue_all [] ps of
     None \<Rightarrow> length (js_dedup (map rate_priced_usage_key (priced_records ps))) > RATE_PRICED_USAGE_MAX_ENTRIES
   | Some ts \<Rightarrow>
       map rate_priced_usage_key ts = js_dedup (map rate_priced_usage_key (priced_records ps)) \<and>
       length ts \<le> RATE_PRICED_USAGE_MAX_ENTRIES \<and>
       list_all (\<lambda>e. list_all (\<lambda>(n, f). f e = min MAX_TOKENS (sum_list (map f
           (filter (\<lambda>r. rate_priced_usage_key r = rate_priced_usage_key e) (priced_records ps)))))
         RATE_PRICED_USAGE_BUCKETS) ts"
proof -
  have "accrued [] []" by (simp add: accrued_def)
  from accrue_all_accrued[OF this, of ps] show ?thesis
    by (auto simp: accrued_def list_all_iff split: option.splits)
qed

text \<open>
  A peer can always read what was accrued. The entries of any session whose model names do not
  end in a space where the bound cuts them parse back from their wire form to the same entries, so the
  receiver never falls back to the flat totals.
\<close>

theorem accrued_totals_parse_back:
  assumes "accrue_all [] ps = Some ts" and "list_all clean_model ps"
  shows "parse_rate_priced_usage (Some (JArr (map entry_json ts))) = Some ts"
proof -
  have "accrued [] []" by (simp add: accrued_def)
  from accrue_all_accrued[OF this, of ps] assms(1) have "accrued (priced_records ps) ts" "length ts \<le> RATE_PRICED_USAGE_MAX_ENTRIES"
    by auto
  moreover have "list_all entry_ok ts" using accrue_all_entry_ok[OF assms(1) _ assms(2)] by simp
  ultimately show ?thesis
    using parse_entries_json[of ts "[]"] accrued_distinct by (simp add: parse_rate_priced_usage_def)
qed

text \<open>Two requests of one model and tier, whose sizes differ.\<close>

definition demo_usage :: "usage_event list" where
  "demo_usage = map (\<lambda>n. plain_usage\<lparr>ue_input := Some (JNum n), ue_model := Some (JStr '' opus''),
     ue_request_input := Some (JNum n), ue_service_tier := Some (JStr ''standard'')\<rparr>) [5, 7]"

definition demo_total :: rate_priced_total where
  "demo_total = \<lparr>rp_model = Some ''opus'', rp_tier = Some ''standard'', rp_request = Some (5, 7), rp_input = 12,
     rp_net_input = 12, rp_output = 0, rp_cached = 0, rp_cache_creation = 0, rp_reasoning = 0\<rparr>"

lemma demo_accrued: "accrue_all [] demo_usage = Some [demo_total]"
  by code_simp

theorem accrued_totals_parse_back_witness:
  "accrue_all [] demo_usage = Some [demo_total] \<and>
   parse_rate_priced_usage (Some (JArr (map entry_json [demo_total]))) = Some [demo_total]"
proof -
  have "list_all clean_model demo_usage" by code_simp
  from accrued_totals_parse_back[OF demo_accrued this] demo_accrued show ?thesis by blast
qed

text \<open>
  A model of 127 letters, a space and another letter: the bound keeps the space, which the parser's own
  bound would trim, so the receiver refuses the whole list.
\<close>

definition cut_model :: usage_event where
  "cut_model = plain_usage\<lparr>ue_input := Some (JNum 1), ue_model := Some (JStr (replicate 127 CHR ''a'' @ '' b''))\<rparr>"

lemma cut_model_is_refused:
  "map_option (\<lambda>ts. parse_rate_priced_usage (Some (JArr (map entry_json ts)))) (accrue_all [] [cut_model]) = Some None"
  by code_simp


end
