(* ===== verification/Claude_Usage.thy ===== *)
theory Claude_Usage
  imports Usage_Event
begin

text \<open>
  The runner's accounting of Claude usage (\<open>apps/runner/src/drivers/claude-usage-accounting.ts\<close>). A
  result reports cumulative totals, which are turned into differences against a checkpoint; each
  request of a running turn is also published at once as a provisional record, and the window of
  provisional records is closed by the checkpoint that covers them or by republishing them.

  Provider messages are JSON objects. Costs and counters are rationals, so the rounding of double
  subtraction is not modelled. The copies the code makes of its live records are values.
\<close>

section \<open>Reading the provider's totals\<close>

definition count :: "json option \<Rightarrow> rat" where
  "count v = (case v of Some (JNum q) \<Rightarrow> if q \<ge> 0 then q else 0 | _ \<Rightarrow> 0)"

definition cost :: "json option \<Rightarrow> rat option" where
  "cost v = (case v of Some (JNum q) \<Rightarrow> if q \<ge> 0 then Some q else None | _ \<Rightarrow> None)"

definition claude_restores_usage :: "string option \<Rightarrow> bool option" where
  "claude_restores_usage version =
     (case version of None \<Rightarrow> None
      | Some v \<Rightarrow> (case version_triple v of None \<Rightarrow> None
          | Some (major, minor, patch) \<Rightarrow>
              Some (major > 2 \<or> major = 2 \<and> (minor > 1 \<or> minor = 1 \<and> patch \<ge> 277))))"

text \<open>\<open>Object.entries(v ?? {})\<close>. The entries of a text are single letters, which the loop skips.\<close>

definition object_entries :: "json option \<Rightarrow> (string \<times> json) list" where
  "object_entries v =
     (case v of Some (JObj ps) \<Rightarrow> ps
      | Some (JArr xs) \<Rightarrow> zip (map nat_str [0..<length xs]) xs
      | _ \<Rightarrow> [])"

definition read_model :: "jobject \<Rightarrow> model_usage" where
  "read_model u = \<lparr>
     mu_input = count (jget u ''inputTokens''), mu_output = count (jget u ''outputTokens''),
     mu_cache_read = count (jget u ''cacheReadInputTokens''), mu_cache_creation = count (jget u ''cacheCreationInputTokens''),
     mu_cost = (if jget u ''costBasis'' \<noteq> Some (JStr ''unknown'') then cost (jget u ''costUSD'') else None),
     mu_canonical = (case jget u ''canonicalModel'' of Some (JStr s) \<Rightarrow> if s \<noteq> [] then Some s else None | _ \<Rightarrow> None),
     mu_thinking = (case jget u ''thinkingTokens'' of
         Some (JNum q) \<Rightarrow> Some (min (count (jget u ''outputTokens'')) (count (Some (JNum q)))) | _ \<Rightarrow> None)\<rparr>"

text \<open>An entry that is not an object is skipped; an array has none of the named properties.\<close>

fun read_models :: "(string \<times> json) list \<Rightarrow> (string \<times> model_usage) list" where
  "read_models [] = []"
| "read_models ((m, JObj u) # es) = (m, read_model u) # read_models es"
| "read_models ((m, JArr xs) # es) = (m, read_model []) # read_models es"
| "read_models ((m, _) # es) = read_models es"

definition claude_usage_checkpoint :: "string \<Rightarrow> jobject \<Rightarrow> bool \<Rightarrow> usage_checkpoint option" where
  "claude_usage_checkpoint sid result restores =
     (case cost (jget result ''total_cost_usd'') of None \<Rightarrow> None
      | Some amount \<Rightarrow> Some \<lparr>uc_scope = Some (if restores then ConversationScope else ProcessScope), uc_session = sid,
          uc_total = amount, uc_models = read_models (object_entries (jget result ''modelUsage''))\<rparr>)"

section \<open>State\<close>

record request_usage =
  rq_model :: string
  rq_input :: rat
  rq_output :: rat
  rq_cache_read :: rat
  rq_cache_creation :: rat
  rq_thinking :: "rat option"
  rq_service_tier :: "string option"

text \<open>\<open>cu_pending\<close> is the process that has not reported its version: whether it creates a conversation.\<close>

record claude_usage =
  cu_checkpoint :: "usage_checkpoint option"
  cu_restores :: "bool option"
  cu_live :: "usage_event list"
  cu_retained :: "usage_checkpoint option"
  cu_pending :: "bool option"
  cu_unproven :: bool
  cu_unprobed :: bool

definition new_claude_usage ::
    "bool option \<Rightarrow> usage_checkpoint option \<Rightarrow> usage_event list \<Rightarrow> bool \<Rightarrow> claude_usage" where
  "new_claude_usage restores checkpoint live interrupted = \<lparr>
     cu_checkpoint = (case checkpoint of None \<Rightarrow> None
       | Some c \<Rightarrow> if uc_scope c = Some (if restores = Some True then ConversationScope else ProcessScope) then Some c else None),
     cu_restores = restores,
     cu_live = filter (\<lambda>e. ue_live e = Some Provisional) live,
     cu_retained = (case checkpoint of None \<Rightarrow> None
       | Some c \<Rightarrow> if uc_scope c = Some ConversationScope then Some c else None),
     cu_pending = None, cu_unproven = interrupted, cu_unprobed = False\<rparr>"

section \<open>Closing the window\<close>

fun mark_last :: "usage_event list \<Rightarrow> usage_event list" where
  "mark_last [] = []"
| "mark_last [e] = [e\<lparr>ue_live := Some Settled\<rparr>]"
| "mark_last (e # f # es) = e # mark_last (f # es)"

definition settle :: "usage_event list \<Rightarrow> claude_usage \<Rightarrow> claude_usage \<times> usage_event list" where
  "settle events s =
     (if cu_live s = [] then (s, events)
      else (s\<lparr>cu_live := []\<rparr>, if events = [] then [plain_usage\<lparr>ue_live := Some Settled\<rparr>] else mark_last events))"

definition republish :: "usage_event \<Rightarrow> usage_event" where
  "republish e = e\<lparr>ue_live := Some Republished\<rparr>"

definition uncertain :: "claude_usage \<Rightarrow> claude_usage \<times> usage_event list" where
  "uncertain s = settle (map republish (cu_live s) @ [plain_usage\<lparr>ue_incomplete := True\<rparr>]) s"

definition account_live :: "claude_usage \<Rightarrow> claude_usage \<times> usage_event list" where
  "account_live s = settle (map republish (cu_live s)) s"

definition TOKEN_FIELDS :: "(usage_event \<Rightarrow> json option) list" where
  "TOKEN_FIELDS = [ue_input, ue_output, ue_cached, ue_cache_creation]"

definition field_total :: "(usage_event \<Rightarrow> json option) \<Rightarrow> usage_event list \<Rightarrow> rat" where
  "field_total f es = sum_list (map (\<lambda>e. count (f e)) es)"

definition covers :: "usage_event list \<Rightarrow> usage_event list \<Rightarrow> bool" where
  "covers deltas live \<longleftrightarrow> list_all (\<lambda>f. field_total f deltas \<ge> field_total f live) TOKEN_FIELDS"

section \<open>The operations\<close>

definition begin_process :: "bool \<Rightarrow> claude_usage \<Rightarrow> claude_usage" where
  "begin_process new_conversation s = s\<lparr>cu_pending := Some new_conversation\<rparr>"

text \<open>The events to publish and the baseline to record first.\<close>

definition confirm_process ::
    "string \<Rightarrow> string option \<Rightarrow> claude_usage \<Rightarrow> claude_usage \<times> usage_event list \<times> usage_checkpoint option" where
  "confirm_process sid version s =
     (case cu_pending s of None \<Rightarrow> (s, [], None)
      | Some new_conversation \<Rightarrow>
          let known = cu_restores s;
              restores = (case claude_restores_usage version of None \<Rightarrow> known | Some b \<Rightarrow> Some b);
              s = s\<lparr>cu_pending := None, cu_restores := restores\<rparr>
          in if restores = Some False
             then (case account_live (s\<lparr>cu_checkpoint := None, cu_unproven := False, cu_unprobed := False\<rparr>) of
                     (s, es) \<Rightarrow> (s, es, None))
             else if restores = Some True \<and> known = Some True then (s, [], None)
             else if new_conversation
             then (let c = (if restores = Some True
                            then Some \<lparr>uc_scope = Some ConversationScope, uc_session = sid, uc_total = 0, uc_models = []\<rparr>
                            else None)
                   in (s\<lparr>cu_checkpoint := c, cu_unproven := False, cu_unprobed := False\<rparr>, [], c))
             else if restores = Some True \<and> map_option uc_session (cu_retained s) = Some sid
             then (s\<lparr>cu_checkpoint := cu_retained s, cu_unprobed := True\<rparr>, [], None)
             else (s\<lparr>cu_checkpoint := None, cu_unproven := True\<rparr>, [], None))"

definition adopt_baseline :: "usage_checkpoint option \<Rightarrow> claude_usage \<Rightarrow> claude_usage \<times> usage_event list" where
  "adopt_baseline c s =
     (let s = s\<lparr>cu_checkpoint := c\<rparr>;
          s = (if c \<noteq> None \<or> cu_restores s = Some True then s\<lparr>cu_unproven := False, cu_unprobed := False\<rparr> else s)
      in account_live s)"

definition count_rat :: "rat \<Rightarrow> rat" where
  "count_rat q = count (Some (JNum q))"

definition claude_request :: "request_usage \<Rightarrow> claude_usage \<Rightarrow> claude_usage \<times> usage_event option" where
  "claude_request u s =
     (let input = count_rat (rq_input u); output = count_rat (rq_output u);
          cached = count_rat (rq_cache_read u); creation = count_rat (rq_cache_creation u)
      in if input = 0 \<and> output = 0 \<and> cached = 0 \<and> creation = 0 then (s, None)
         else let e = plain_usage\<lparr>
                ue_model := Some (JStr (rq_model u)), ue_input := Some (JNum input), ue_output := Some (JNum output),
                ue_cached := Some (JNum cached), ue_cache_creation := Some (JNum creation),
                ue_reasoning := (case rq_thinking u of None \<Rightarrow> None | Some t \<Rightarrow> Some (JNum (min output (count_rat t)))),
                ue_request_input := Some (JNum (input + cached + creation)),
                ue_service_tier := (case rq_service_tier u of None \<Rightarrow> None | Some t \<Rightarrow> if t \<noteq> [] then Some (JStr t) else None),
                ue_live := Some Provisional\<rparr>
              in (s\<lparr>cu_live := cu_live s @ [e]\<rparr>, Some e))"

text \<open>\<open>Math.max(0, (usage[field] ?? 0) - (before?.[field] ?? 0))\<close>.\<close>

definition delta :: "(model_usage \<Rightarrow> rat) \<Rightarrow> model_usage \<Rightarrow> model_usage option \<Rightarrow> rat" where
  "delta f usage before = max 0 (f usage - (case before of None \<Rightarrow> 0 | Some b \<Rightarrow> f b))"

definition or_zero :: "rat option \<Rightarrow> rat" where
  "or_zero v = (case v of None \<Rightarrow> 0 | Some q \<Rightarrow> q)"

definition model_delta :: "(string \<times> model_usage) list \<Rightarrow> string \<times> model_usage \<Rightarrow> usage_event option" where
  "model_delta previous m =
     (case m of (name, usage) \<Rightarrow>
        let before = map_of previous name;
            input = delta mu_input usage before; output = delta mu_output usage before;
            cached = delta mu_cache_read usage before; creation = delta mu_cache_creation usage before;
            cost_usd = (if mu_cost usage = None \<or> (case before of None \<Rightarrow> False | Some b \<Rightarrow> mu_cost b = None) then None
                        else Some (delta (\<lambda>u. or_zero (mu_cost u)) usage before))
        in if input = 0 \<and> output = 0 \<and> cached = 0 \<and> creation = 0 \<and> or_zero cost_usd = 0 then None
           else Some (plain_usage\<lparr>
             ue_model := Some (JStr (case mu_canonical usage of None \<Rightarrow> name | Some c \<Rightarrow> c)),
             ue_input := Some (JNum input), ue_output := Some (JNum output), ue_cached := Some (JNum cached),
             ue_cache_creation := Some (JNum creation),
             ue_reasoning := (case mu_thinking usage of None \<Rightarrow> None
                | Some _ \<Rightarrow> Some (JNum (min output (delta (\<lambda>u. or_zero (mu_thinking u)) usage before)))),
             ue_cost := map_option JNum cost_usd, ue_estimate := (cost_usd \<noteq> None)\<rparr>))"

definition event_cost :: "usage_event \<Rightarrow> rat" where
  "event_cost e = (case ue_cost e of Some (JNum q) \<Rightarrow> q | _ \<Rightarrow> 0)"

text \<open>The events of a checkpoint: one per model that grew, then the fees no model accounts for.\<close>

definition model_events :: "rat \<Rightarrow> (string \<times> model_usage) list \<Rightarrow> usage_checkpoint \<Rightarrow> usage_event list" where
  "model_events delta_cost previous next =
     (let events = List.map_filter (model_delta previous) (uc_models next);
          model_costs = sum_list (map event_cost events)
      in if delta_cost - model_costs > 1 / 10 ^ 9 \<and> list_all (\<lambda>e. ue_cost e \<noteq> None) events
         then events @ [plain_usage\<lparr>ue_model := Some (JStr ''<provider-fees>''),
                          ue_cost := Some (JNum (delta_cost - model_costs)), ue_estimate := True\<rparr>]
         else events)"

text \<open>The record of a result without a breakdown per model.\<close>

definition flat_event :: "rat option \<Rightarrow> jobject \<Rightarrow> string option \<Rightarrow> usage_event" where
  "flat_event delta_cost result model =
     (let usage = jget result ''usage''
      in plain_usage\<lparr>ue_input := jprop usage ''input_tokens'', ue_output := jprop usage ''output_tokens'',
           ue_cached := jprop usage ''cache_read_input_tokens'',
           ue_cache_creation := (case jprop usage ''cache_creation_input_tokens'' of Some (JNum q) \<Rightarrow> Some (JNum q) | _ \<Rightarrow> None),
           ue_model := (case model of None \<Rightarrow> None | Some m \<Rightarrow> if m \<noteq> [] then Some (JStr m) else None),
           ue_cost := map_option JNum delta_cost, ue_estimate := (delta_cost \<noteq> None)\<rparr>)"

definition zeroed :: "usage_checkpoint \<Rightarrow> bool" where
  "zeroed c \<longleftrightarrow> uc_total c = 0 \<and>
     list_all (\<lambda>(n, u). mu_input u + mu_output u + mu_cache_read u + mu_cache_creation u = 0) (uc_models c)"

text \<open>What a result adds to the previous checkpoint of its session.\<close>

definition result_events :: "usage_checkpoint \<Rightarrow> usage_checkpoint option \<Rightarrow> jobject \<Rightarrow> string option \<Rightarrow> usage_event list" where
  "result_events n previous result model =
     (let delta_cost = max 0 (uc_total n - (case previous of None \<Rightarrow> 0 | Some p \<Rightarrow> uc_total p))
      in if uc_models n \<noteq> []
         then model_events delta_cost (case previous of None \<Rightarrow> [] | Some p \<Rightarrow> uc_models p) n
         else [flat_event (Some delta_cost) result model])"

definition claude_result ::
    "string \<Rightarrow> jobject \<Rightarrow> string option \<Rightarrow> claude_usage \<Rightarrow> claude_usage \<times> usage_event list" where
  "claude_result sid result model s =
     (let next = claude_usage_checkpoint sid result (cu_restores s = Some True);
          previous = (case cu_checkpoint s of None \<Rightarrow> None | Some c \<Rightarrow> if uc_session c = sid then Some c else None)
      in if jget result ''subtype'' = Some (JStr ''error_during_execution'') \<and> (case next of None \<Rightarrow> False | Some n \<Rightarrow> zeroed n)
         then (s, [plain_usage\<lparr>ue_incomplete := True\<rparr>])
         else case next of
           None \<Rightarrow> (s, [flat_event None result model])
         | Some n \<Rightarrow>
             if cu_unproven s
             then uncertain (s\<lparr>cu_unproven := False, cu_unprobed := False, cu_checkpoint := Some n\<rparr>)
             else if (case previous of None \<Rightarrow> False | Some p \<Rightarrow> uc_total n < uc_total p) then (s, [])
             else
               let events = result_events n previous result model;
                   s1 = s\<lparr>cu_checkpoint := Some n, cu_unprobed := False\<rparr>
               in if cu_unprobed s \<and> \<not> covers events (cu_live s) then uncertain s1 else settle events s1)"

section \<open>Runs\<close>

datatype cu_op =
    BeginProcess bool
  | ConfirmProcess string "string option"
  | AdoptBaseline "usage_checkpoint option"
  | CompletedRequest request_usage
  | TurnResult string jobject "string option"

fun cu_step :: "claude_usage \<Rightarrow> cu_op \<Rightarrow> claude_usage \<times> usage_event list" where
  "cu_step s (BeginProcess n) = (begin_process n s, [])"
| "cu_step s (ConfirmProcess sid v) = (case confirm_process sid v s of (s', es, baseline) \<Rightarrow> (s', es))"
| "cu_step s (AdoptBaseline c) = adopt_baseline c s"
| "cu_step s (CompletedRequest u) = (case claude_request u s of (s', e) \<Rightarrow> (s', case e of None \<Rightarrow> [] | Some e \<Rightarrow> [e]))"
| "cu_step s (TurnResult sid r m) = claude_result sid r m s"

section \<open>The window a reader sees\<close>

text \<open>A reader of the journal keeps the provisional records since the last settled one.\<close>

definition observe :: "usage_event list \<Rightarrow> usage_event \<Rightarrow> usage_event list" where
  "observe w e =
     (case ue_live e of Some Provisional \<Rightarrow> w @ [e] | Some Settled \<Rightarrow> [] | _ \<Rightarrow> w)"

definition quiet :: "usage_event list \<Rightarrow> bool" where
  "quiet es \<longleftrightarrow> list_all (\<lambda>e. ue_live e \<noteq> Some Provisional \<and> ue_live e \<noteq> Some Settled) es"

lemma observe_quiet: "quiet es \<Longrightarrow> foldl observe w es = w"
  unfolding quiet_def by (induction es arbitrary: w) (auto simp: observe_def split: option.splits live_usage.splits)

lemma mark_last_snoc: "mark_last (es @ [e]) = es @ [e\<lparr>ue_live := Some Settled\<rparr>]"
proof (induction es)
  case (Cons x es)
  then show ?case by (cases "es @ [e]") auto
qed simp

lemma observe_settle:
  assumes "quiet events" "settle events s = (s', es)"
  shows "foldl observe (cu_live s) es = cu_live s'"
proof (cases "cu_live s = []")
  case True
  then show ?thesis using assms observe_quiet by (auto simp: settle_def)
next
  case False
  show ?thesis
  proof (cases events rule: rev_cases)
    case Nil
    then show ?thesis using assms False by (auto simp: settle_def observe_def plain_usage_def)
  next
    case (snoc fs e)
    then show ?thesis using assms(2) False by (auto simp: settle_def mark_last_snoc observe_def)
  qed
qed

lemma quiet_republish: "quiet (map republish es)"
  by (simp add: quiet_def list_all_iff republish_def)

lemma observe_uncertain: "uncertain s = (s', es) \<Longrightarrow> foldl observe (cu_live s) es = cu_live s'"
  unfolding uncertain_def by (rule observe_settle) (use quiet_republish in \<open>auto simp: quiet_def plain_usage_def\<close>)

lemma observe_account_live: "account_live s = (s', es) \<Longrightarrow> foldl observe (cu_live s) es = cu_live s'"
  unfolding account_live_def by (rule observe_settle[OF quiet_republish])

lemma quiet_model_delta: "model_delta p m = Some e \<Longrightarrow> ue_live e = None"
  by (auto simp: model_delta_def Let_def plain_usage_def split: prod.splits if_splits)

lemma quiet_deltas: "quiet (List.map_filter (model_delta p) ms)"
  by (induction ms) (auto simp: quiet_def map_filter_simps quiet_model_delta split: option.splits)

lemma quiet_model_events: "quiet (model_events d p n)"
  using quiet_deltas by (simp add: model_events_def Let_def quiet_def plain_usage_def)

lemma quiet_flat: "quiet [flat_event c r m]"
  by (simp add: quiet_def flat_event_def plain_usage_def Let_def)

lemma observe_result:
  assumes "claude_result sid r m s = (s', es)"
  shows "foldl observe (cu_live s) es = cu_live s'"
proof -
  define next' where "next' = claude_usage_checkpoint sid r (cu_restores s = Some True)"
  define previous where "previous = (case cu_checkpoint s of None \<Rightarrow> None | Some c \<Rightarrow> if uc_session c = sid then Some c else None)"
  have incomplete: "quiet [plain_usage\<lparr>ue_incomplete := True\<rparr>]" by (simp add: quiet_def plain_usage_def)
  note def = assms[unfolded claude_result_def next'_def[symmetric] previous_def[symmetric] Let_def]
  show ?thesis
  proof (cases "jget r ''subtype'' = Some (JStr ''error_during_execution'') \<and> (case next' of None \<Rightarrow> False | Some n \<Rightarrow> zeroed n)")
    case True
    with def observe_quiet[OF incomplete] show ?thesis by auto
  next
    case no_error: False
    show ?thesis
    proof (cases next')
      case None
      with def no_error observe_quiet[OF quiet_flat] show ?thesis by auto
    next
      case (Some n)
      show ?thesis
      proof (cases "cu_unproven s")
        case True
        with def no_error Some show ?thesis using observe_uncertain[of "s\<lparr>cu_unproven := False, cu_unprobed := False, cu_checkpoint := Some n\<rparr>"] by auto
      next
        case proven: False
        let ?es = "result_events n previous r m"
        let ?s1 = "s\<lparr>cu_checkpoint := Some n, cu_unprobed := False\<rparr>"
        have q: "quiet ?es" using quiet_model_events quiet_flat by (simp add: result_events_def Let_def)
        have live: "cu_live ?s1 = cu_live s" by simp
        show ?thesis
        proof (cases "case previous of None \<Rightarrow> False | Some p \<Rightarrow> uc_total n < uc_total p")
          case True
          with def no_error Some proven show ?thesis by auto
        next
          case False
          note result = def[unfolded if_not_P[OF no_error]]
          have "(if cu_unprobed s \<and> \<not> covers ?es (cu_live s) then uncertain ?s1 else settle ?es ?s1) = (s', es)"
            using result[unfolded Some option.case if_not_P[OF proven] if_not_P[OF False]] .
          then show ?thesis
            using observe_uncertain[of ?s1] observe_settle[OF q, of ?s1] unfolding live by (metis (no_types))
        qed
      qed
    qed
  qed
qed

lemma observe_confirm:
  assumes "confirm_process sid v s = (s', es, b)"
  shows "foldl observe (cu_live s) es = cu_live s'"
proof (cases "cu_pending s")
  case None
  then show ?thesis using assms by (auto simp: confirm_process_def)
next
  case (Some n)
  define restores where "restores = (case claude_restores_usage v of None \<Rightarrow> cu_restores s | Some b \<Rightarrow> Some b)"
  note def = assms[unfolded confirm_process_def Some option.case Let_def restores_def[symmetric]]
  show ?thesis
  proof (cases "restores = Some False")
    case True
    let ?s = "s\<lparr>cu_pending := None, cu_restores := restores\<rparr>\<lparr>cu_checkpoint := None, cu_unproven := False, cu_unprobed := False\<rparr>"
    obtain t fs where t: "account_live ?s = (t, fs)" by fastforce
    with def True have "s' = t" "es = fs" by auto
    with observe_account_live[OF t] show ?thesis by simp
  next
    case False
    with def show ?thesis by (auto split: if_splits)
  qed
qed

lemma observe_step: "cu_step s op = (s', es) \<Longrightarrow> foldl observe (cu_live s) es = cu_live s'"
proof (cases op)
  case (BeginProcess n)
  assume "cu_step s op = (s', es)"
  with BeginProcess show ?thesis by (auto simp: begin_process_def)
next
  case (ConfirmProcess sid v)
  assume "cu_step s op = (s', es)"
  with ConfirmProcess show ?thesis by (auto split: prod.splits dest: observe_confirm)
next
  case (AdoptBaseline c)
  assume a: "cu_step s op = (s', es)"
  obtain t where t: "account_live t = (s', es)" "cu_live t = cu_live s"
    using a AdoptBaseline by (fastforce simp: adopt_baseline_def Let_def split: if_splits)
  from observe_account_live[OF t(1)] t(2) show ?thesis by simp
next
  case (CompletedRequest u)
  assume "cu_step s op = (s', es)"
  with CompletedRequest show ?thesis by (auto simp: claude_request_def observe_def Let_def split: if_splits)
next
  case (TurnResult sid r m)
  assume "cu_step s op = (s', es)"
  with TurnResult show ?thesis by (auto dest: observe_result)
qed

text \<open>
  The journal alone tells which requests are still open. Whatever processes, baselines, requests and
  results the accounting sees, after a restart too, a reader who keeps the provisional records since the
  last settled one holds exactly the window the runner still has to account, in the same order.
\<close>

theorem journal_shows_the_open_window:
  "case run_out cu_step (new_claude_usage restores checkpoint live interrupted) ops of
     (s, out) \<Rightarrow> foldl observe (filter (\<lambda>e. ue_live e = Some Provisional) live) out = cu_live s"
proof -
  have "foldl observe (cu_live s) (snd (run_out cu_step s ops)) = cu_live (fst (run_out cu_step s ops))" for s
  proof (induction ops arbitrary: s)
    case (Cons op ops)
    obtain s' es where step: "cu_step s op = (s', es)" by fastforce
    then show ?case using Cons[of s'] observe_step[OF step] by (simp add: Let_def case_prod_beta)
  qed simp
  from this[of "new_claude_usage restores checkpoint live interrupted"] show ?thesis
    by (simp add: new_claude_usage_def case_prod_beta)
qed


section \<open>Tokens are accounted once\<close>

text \<open>The counters, each with the payload field it is published in.\<close>

definition COUNTERS :: "((model_usage \<Rightarrow> rat) \<times> (usage_event \<Rightarrow> json option)) list" where
  "COUNTERS = [(mu_input, ue_input), (mu_output, ue_output), (mu_cache_read, ue_cached), (mu_cache_creation, ue_cache_creation)]"

definition tokens :: "(model_usage \<Rightarrow> rat) \<Rightarrow> usage_checkpoint \<Rightarrow> rat" where
  "tokens f c = sum_list (map (\<lambda>(m, u). f u) (uc_models c))"

text \<open>A result grows over a checkpoint: no counter falls and no model disappears.\<close>

definition grows :: "usage_checkpoint \<Rightarrow> usage_checkpoint \<Rightarrow> bool" where
  "grows p n \<longleftrightarrow> uc_total p \<le> uc_total n \<and> 0 < uc_total n \<and> uc_models n \<noteq> [] \<and>
     distinct (map fst (uc_models n)) \<and>
     list_all (\<lambda>(m, u). case map_of (uc_models n) m of None \<Rightarrow> False
        | Some w \<Rightarrow> list_all (\<lambda>(f, g). f u \<le> f w) COUNTERS) (uc_models p)"

text \<open>One process of a conversation that restores its totals: requests and growing results of session \<open>sid\<close>.\<close>

fun growing :: "string \<Rightarrow> usage_checkpoint \<Rightarrow> cu_op list \<Rightarrow> bool" where
  "growing sid p [] = True"
| "growing sid p (CompletedRequest u # ops) = growing sid p ops"
| "growing sid p (TurnResult i r m # ops) =
     (i = sid \<and> (case claude_usage_checkpoint sid r True of None \<Rightarrow> False | Some n \<Rightarrow> grows p n \<and> growing sid n ops))"
| "growing sid p (_ # ops) = False"

definition accounted :: "usage_event list \<Rightarrow> usage_event list" where
  "accounted es = filter (\<lambda>e. ue_live e \<noteq> Some Provisional) es"

lemma counter_cases:
  "(f, g) \<in> set COUNTERS \<longleftrightarrow> (f, g) = (mu_input, ue_input) \<or> (f, g) = (mu_output, ue_output) \<or>
     (f, g) = (mu_cache_read, ue_cached) \<or> (f, g) = (mu_cache_creation, ue_cache_creation)"
  by (auto simp: COUNTERS_def)

lemma count_nonneg: "0 \<le> count v"
  by (auto simp: count_def split: option.splits json.splits)

lemma read_model_nonneg: "(f, g) \<in> set COUNTERS \<Longrightarrow> 0 \<le> f (read_model u)"
  by (auto simp: counter_cases read_model_def count_nonneg)

lemma read_models_nonneg: "(f, g) \<in> set COUNTERS \<Longrightarrow> (m, u) \<in> set (read_models es) \<Longrightarrow> 0 \<le> f u"
  by (induction es rule: read_models.induct) (auto intro: read_model_nonneg)

lemma checkpoint_nonneg:
  "claude_usage_checkpoint sid r b = Some n \<Longrightarrow> (f, g) \<in> set COUNTERS \<Longrightarrow> (m, u) \<in> set (uc_models n) \<Longrightarrow> 0 \<le> f u"
  by (auto simp: claude_usage_checkpoint_def intro: read_models_nonneg split: option.splits)

lemma field_total_simps [simp]:
  "field_total f [] = 0" "field_total f (e # es) = count (f e) + field_total f es"
  "field_total f (es @ fs) = field_total f es + field_total f fs"
  by (simp_all add: field_total_def)

lemma model_delta_tokens:
  assumes "(f, g) \<in> set COUNTERS"
  shows "(case model_delta p (m, u) of None \<Rightarrow> 0 | Some e \<Rightarrow> count (g e)) = delta f u (map_of p m)"
proof -
  have "0 \<le> delta f u b" for b by (simp add: delta_def)
  then show ?thesis using assms
    by (auto simp: counter_cases model_delta_def Let_def plain_usage_def count_def)
qed

lemma deltas_tokens:
  assumes "(f, g) \<in> set COUNTERS"
  shows "field_total g (List.map_filter (model_delta p) ms) = sum_list (map (\<lambda>(m, u). delta f u (map_of p m)) ms)"
proof (induction ms)
  case (Cons a ms)
  obtain m u where a: "a = (m, u)" by (cases a)
  show ?case using Cons model_delta_tokens[OF assms, of p m u]
    by (auto simp: a map_filter_simps split: option.splits)
qed (simp add: map_filter_simps)

lemma sum_map_of_subset:
  fixes h :: "'b \<Rightarrow> rat"
  assumes "distinct (map fst p)" "distinct (map fst n)" "fst ` set p \<subseteq> fst ` set n"
  shows "sum_list (map (\<lambda>(m, u). case map_of p m of None \<Rightarrow> 0 | Some b \<Rightarrow> h b) n) = sum_list (map (\<lambda>(m, u). h u) p)"
proof -
  let ?w = "\<lambda>m. case map_of p m of None \<Rightarrow> 0 | Some b \<Rightarrow> h b"
  have "sum_list (map (\<lambda>(m, u). ?w m) n) = sum_list (map ?w (map fst n))"
    by (rule arg_cong[where f = sum_list]) auto
  also have "\<dots> = (\<Sum>m\<in>fst ` set n. ?w m)" using assms(2) by (metis list.set_map sum_list_distinct_conv_sum_set)
  also have "\<dots> = (\<Sum>m\<in>fst ` set p. ?w m)"
    using assms(3) by (intro sum.mono_neutral_right) (auto simp: map_of_eq_None_iff[symmetric])
  also have "\<dots> = sum_list (map ?w (map fst p))" using assms(1) by (metis list.set_map sum_list_distinct_conv_sum_set)
  also have "\<dots> = sum_list (map (\<lambda>(m, u). h u) p)"
    using assms(1) by (intro arg_cong[where f = sum_list]) auto
  finally show ?thesis .
qed

lemma grows_tokens:
  assumes g: "grows p n" and dp: "distinct (map fst (uc_models p))" and c: "(f, g) \<in> set COUNTERS"
    and pos: "\<And>m u. (m, u) \<in> set (uc_models n) \<Longrightarrow> 0 \<le> f u"
  shows "sum_list (map (\<lambda>(m, u). delta f u (map_of (uc_models p) m)) (uc_models n)) = tokens f n - tokens f p"
proof -
  have dn: "distinct (map fst (uc_models n))" using g by (simp add: grows_def)
  have le: "\<exists>w. map_of (uc_models n) m = Some w \<and> f u \<le> f w" if "(m, u) \<in> set (uc_models p)" for m u
    using g that c by (fastforce simp: grows_def list_all_iff split: option.splits)
  have sub: "fst ` set (uc_models p) \<subseteq> fst ` set (uc_models n)"
    using le by (force dest: map_of_SomeD)
  let ?w = "\<lambda>m. case map_of (uc_models p) m of None \<Rightarrow> 0 | Some b \<Rightarrow> f b"
  have "delta f u (map_of (uc_models p) m) = f u - ?w m" if mu: "(m, u) \<in> set (uc_models n)" for m u
  proof (cases "map_of (uc_models p) m")
    case None
    then show ?thesis using pos[OF mu] by (simp add: delta_def)
  next
    case (Some b)
    from le[OF map_of_SomeD[OF Some]] dn mu have "f b \<le> f u" by (auto simp: map_of_eq_Some_iff)
    with Some show ?thesis by (simp add: delta_def)
  qed
  then have eq: "map (\<lambda>(m, u). delta f u (map_of (uc_models p) m)) (uc_models n) = map (\<lambda>(m, u). f u - ?w m) (uc_models n)"
    by auto
  have "sum_list (map (\<lambda>(m, u). delta f u (map_of (uc_models p) m)) (uc_models n)) =
      tokens f n - sum_list (map (\<lambda>(m, u). ?w m) (uc_models n))"
    unfolding eq tokens_def sum_list_subtractf[symmetric] case_prod_beta ..
  with sum_map_of_subset[OF dp dn sub, of f] show ?thesis by (simp add: tokens_def)
qed

lemma mark_last_tokens: "(f, g) \<in> set COUNTERS \<Longrightarrow> field_total g (mark_last es) = field_total g es"
  by (induction es rule: mark_last.induct) (auto simp: counter_cases)

lemma accounted_quiet: "quiet es \<Longrightarrow> accounted es = es"
  by (auto simp: quiet_def accounted_def list_all_iff intro: filter_True)

lemma accounted_mark_last: "quiet es \<Longrightarrow> accounted (mark_last es) = mark_last es"
  by (induction es rule: mark_last.induct) (auto simp: quiet_def accounted_def)

lemma settle_tokens:
  assumes "quiet events" "settle events s = (s', es)" "(f, g) \<in> set COUNTERS"
  shows "field_total g (accounted es) = field_total g events"
  using assms mark_last_tokens[OF assms(3), of events] accounted_quiet[OF assms(1)] accounted_mark_last[OF assms(1)]
  by (auto simp: settle_def accounted_def counter_cases plain_usage_def count_def split: if_splits)

lemma model_events_tokens:
  assumes "(f, g) \<in> set COUNTERS"
  shows "field_total g (model_events d p n) = sum_list (map (\<lambda>(m, u). delta f u (map_of p m)) (uc_models n))"
  using deltas_tokens[OF assms, of p "uc_models n"] assms
  by (auto simp: model_events_def Let_def counter_cases plain_usage_def count_def)

text \<open>A baseline no result before it has to prove.\<close>

definition proved_baseline :: "string \<Rightarrow> usage_checkpoint \<Rightarrow> claude_usage \<Rightarrow> bool" where
  "proved_baseline sid c s \<longleftrightarrow> cu_checkpoint s = Some c \<and> uc_session c = sid \<and> cu_restores s = Some True \<and>
     \<not> cu_unproven s \<and> \<not> cu_unprobed s \<and> distinct (map fst (uc_models c))"

lemma result_tokens:
  assumes s: "proved_baseline sid p s" and n: "claude_usage_checkpoint sid r True = Some n" and g: "grows p n"
    and step: "claude_result sid r m s = (s', es)" and c: "(f, fld) \<in> set COUNTERS"
  shows "proved_baseline sid n s' \<and> field_total fld (accounted es) = tokens f n - tokens f p"
proof -
  have "\<not> zeroed n" using g by (auto simp: grows_def zeroed_def)
  moreover have "\<not> uc_total n < uc_total p" "uc_models n \<noteq> []" using g by (auto simp: grows_def)
  ultimately have set: "settle (result_events n (Some p) r m) (s\<lparr>cu_checkpoint := Some n, cu_unprobed := False\<rparr>) = (s', es)"
    using step s n by (simp add: claude_result_def proved_baseline_def)
  have ev: "result_events n (Some p) r m = model_events (max 0 (uc_total n - uc_total p)) (uc_models p) n"
    using \<open>uc_models n \<noteq> []\<close> by (simp add: result_events_def)
  have "field_total fld (accounted es) = field_total fld (result_events n (Some p) r m)"
    using settle_tokens[OF _ set c] quiet_model_events by (simp add: ev)
  also have "\<dots> = tokens f n - tokens f p"
    unfolding ev model_events_tokens[OF c] using s checkpoint_nonneg[OF n c]
    by (intro grows_tokens[OF g _ c]) (auto simp: proved_baseline_def)
  finally have "field_total fld (accounted es) = tokens f n - tokens f p" .
  moreover have "uc_session n = sid" "distinct (map fst (uc_models n))"
    using n g by (auto simp: claude_usage_checkpoint_def grows_def split: option.splits)
  ultimately show ?thesis using set s by (auto simp: settle_def proved_baseline_def split: if_splits)
qed

lemma accounted_append [simp]: "accounted (xs @ ys) = accounted xs @ accounted ys"
  by (simp add: accounted_def)

lemma growing_tokens:
  assumes "proved_baseline sid p s" "growing sid p ops" "(f, fld) \<in> set COUNTERS"
  shows "\<exists>n. proved_baseline sid n (fst (run_out cu_step s ops)) \<and>
    field_total fld (accounted (snd (run_out cu_step s ops))) = tokens f n - tokens f p"
  using assms(1,2)
proof (induction ops arbitrary: s p)
  case Nil
  then show ?case by (auto simp: accounted_def)
next
  case (Cons op ops)
  obtain s' es where step: "cu_step s op = (s', es)" by fastforce
  show ?case
  proof (cases op)
    case (CompletedRequest u)
    with step have s': "proved_baseline sid p s'" "accounted es = []"
      using Cons.prems(1) by (auto simp: claude_request_def Let_def proved_baseline_def accounted_def split: if_splits)
    with Cons.IH[OF s'(1)] Cons.prems(2) CompletedRequest step show ?thesis by (simp add: Let_def case_prod_beta)
  next
    case (TurnResult i r m)
    with Cons.prems(2) obtain n where n: "i = sid" "claude_usage_checkpoint sid r True = Some n" "grows p n" "growing sid n ops"
      by (auto split: option.splits)
    have res: "claude_result sid r m s = (s', es)" using step TurnResult n(1) by simp
    note t = result_tokens[OF Cons.prems(1) n(2,3) res assms(3)]
    obtain k where "proved_baseline sid k (fst (run_out cu_step s' ops))"
      "field_total fld (accounted (snd (run_out cu_step s' ops))) = tokens f k - tokens f n"
      using Cons.IH[of n s'] t n(4) by blast
    with t step show ?thesis by (auto simp: Let_def case_prod_beta)
  qed (use Cons.prems(2) in auto)
qed



text \<open>A new conversation with one live request and two results of one model.\<close>

definition demo_start :: claude_usage where
  "demo_start = fst (run_out cu_step (new_claude_usage None None [] False) [BeginProcess True, ConfirmProcess ''s'' (Some ''2.1.280 (Claude Code)'')])"

definition demo_baseline :: usage_checkpoint where
  "demo_baseline = \<lparr>uc_scope = Some ConversationScope, uc_session = ''s'', uc_total = 0, uc_models = []\<rparr>"

definition demo_result :: "rat \<Rightarrow> jobject" where
  "demo_result n = [(''total_cost_usd'', JNum n), (''modelUsage'', JObj [(''opus'', JObj [(''inputTokens'', JNum (10 * n))])])]"

definition demo_ops :: "cu_op list" where
  "demo_ops = [CompletedRequest \<lparr>rq_model = ''opus'', rq_input = 4, rq_output = 0, rq_cache_read = 0, rq_cache_creation = 0,
       rq_thinking = None, rq_service_tier = None\<rparr>,
     TurnResult ''s'' (demo_result 1) None, TurnResult ''s'' (demo_result 3) None]"



end
