(* ===== verification/Work_Times.thy ===== *)
theory Work_Times
  imports Work_State
begin

text \<open>
  The time metrics of campaign work items (\<open>apps/control-plane/src/campaign-work-times.ts\<close>): the
  recorded intervals are replayed through the derivation of the primary state (\<open>Work_State\<close>) at each
  instant something changes, and Queue, Waiting and Active Time add up the spans of the timeline.

  Timestamps are integers, in milliseconds. The timelines of a campaign are computed by the shared
  resolution of \<open>Memo_Resolve\<close>; a timeline that is missing or on the path reads as \<open>None\<close>.
\<close>

section \<open>Records\<close>

record item_transition =
  tr_at :: int
  tr_dispatch :: dispatch_state
  tr_commitment :: commitment
  tr_blocked :: bool

record status_transition =
  st_at :: int
  st_status :: "session_status option"
  st_archived :: bool

record attempt_timeline =
  at_ordinal :: int
  at_started :: int
  at_ended :: "int option"
  at_delivered :: "int option"
  at_statuses :: "status_transition list"

record item_timeline =
  it_id :: string
  it_created :: int
  it_transitions :: "item_transition list"
  it_attempts :: "attempt_timeline list"
  it_depends_on :: "string list"
  it_held :: "merge_status option"

record state_segment =
  sg_from :: int
  sg_state :: "primary_state option"

section \<open>The state at an instant\<close>

definition latest_at :: "('a \<Rightarrow> int) \<Rightarrow> 'a list \<Rightarrow> int \<Rightarrow> 'a option" where
  "latest_at when entries t = foldl (\<lambda>found e. if when e \<le> t then Some e else found) None entries"

fun state_scan :: "primary_state option \<Rightarrow> state_segment list \<Rightarrow> int \<Rightarrow> primary_state option" where
  "state_scan found [] t = found"
| "state_scan found (s # ss) t = (if sg_from s > t then found else state_scan (sg_state s) ss t)"

definition state_at :: "state_segment list \<Rightarrow> int \<Rightarrow> primary_state option" where
  "state_at segments t = state_scan None segments t"

definition latest_attempt_at :: "attempt_timeline list \<Rightarrow> int \<Rightarrow> attempt_timeline option" where
  "latest_attempt_at attempts t =
     foldl (\<lambda>found a. if at_started a \<le> t \<and> (case found of None \<Rightarrow> True | Some l \<Rightarrow> at_ordinal a > at_ordinal l)
       then Some a else found) None attempts"

definition item_state_at :: "item_timeline \<Rightarrow> int \<Rightarrow> dependency_state list \<Rightarrow> primary_state option" where
  "item_state_at item t deps =
     (case latest_at tr_at (it_transitions item) t of
        None \<Rightarrow> None
      | Some r \<Rightarrow>
          let latest = latest_attempt_at (it_attempts item) t;
              is_open = (case latest of None \<Rightarrow> False | Some a \<Rightarrow> (case at_ended a of None \<Rightarrow> True | Some e \<Rightarrow> e > t));
              status = (if is_open then latest_at st_at (at_statuses (the latest)) t else None)
          in if is_open \<and> status = None then None
             else
               let delivered = (case latest of None \<Rightarrow> False
                     | Some a \<Rightarrow> (case at_delivered a of None \<Rightarrow> False | Some d \<Rightarrow> d \<le> t));
                   held = (delivered \<and> it_held item \<noteq> None \<and>
                     list_all (\<lambda>a. at_ordinal a \<le> at_ordinal (the latest)) (it_attempts item))
               in Some (ds_state (derive_state \<lparr>
                    wi_id = it_id item, wi_commitment = tr_commitment r, wi_dispatch = tr_dispatch r,
                    wi_blocker = tr_blocked r, wi_depends_on = it_depends_on item,
                    wi_attempt = map_option (\<lambda>a. \<lparr>la_open = is_open, la_delivered = delivered\<rparr>) latest,
                    wi_session = (case status of None \<Rightarrow> None
                      | Some s \<Rightarrow> map_option (\<lambda>v. \<lparr>so_status = v, so_archived = st_archived s, so_held = False, so_pending = 0\<rparr>)
                          (st_status s)),
                    wi_recorded_delivery = False,
                    wi_merge_dependencies = (if held then [the (it_held item)] else []), wi_own_merged = False\<rparr> deps)))"

section \<open>Timelines\<close>

definition attempt_points :: "attempt_timeline \<Rightarrow> int list" where
  "attempt_points a =
     at_started a # (case at_ended a of None \<Rightarrow> [] | Some e \<Rightarrow> [e]) @
     (case at_delivered a of None \<Rightarrow> [] | Some d \<Rightarrow> [d]) @ map st_at (at_statuses a)"

definition change_points :: "item_timeline \<Rightarrow> state_segment list option list \<Rightarrow> int list" where
  "change_points item deps =
     js_dedup (it_created item # map tr_at (it_transitions item) @ concat (map attempt_points (it_attempts item)) @
       concat (map (\<lambda>d. case d of None \<Rightarrow> [] | Some segs \<Rightarrow> map sg_from segs) deps))"

text \<open>What a dependent reads at an instant; a span without history counts as planned.\<close>

definition dependency_at :: "state_segment list option \<Rightarrow> int \<Rightarrow> dependency_state" where
  "dependency_at d t =
     (case d of None \<Rightarrow> Unresolvable | Some segs \<Rightarrow> Known (case state_at segs t of None \<Rightarrow> Planned | Some s \<Rightarrow> s))"

definition push_segment :: "state_segment list \<Rightarrow> int \<Rightarrow> primary_state option \<Rightarrow> state_segment list" where
  "push_segment segs t st =
     (if segs = [] \<or> sg_state (last segs) \<noteq> st then segs @ [\<lparr>sg_from = t, sg_state = st\<rparr>] else segs)"

definition item_segments :: "item_timeline \<Rightarrow> state_segment list option list \<Rightarrow> state_segment list" where
  "item_segments item deps =
     foldl (\<lambda>segs t. push_segment segs t (item_state_at item t (map (\<lambda>d. dependency_at d t) deps))) []
       (js_sort (\<le>) (filter (\<lambda>p. p \<ge> it_created item) (change_points item deps)))"

type_synonym timelines = "(string \<times> state_segment list) list"

fun resolve_timeline ::
    "nat \<Rightarrow> (string \<Rightarrow> item_timeline option) \<Rightarrow> string list \<Rightarrow> timelines \<Rightarrow> string \<Rightarrow>
     (state_segment list option \<times> timelines) option" where
  "resolve_timeline 0 items visiting d i = None"
| "resolve_timeline (Suc n) items visiting d i =
     (case map_of d i of
        Some segs \<Rightarrow> Some (Some segs, d)
      | None \<Rightarrow>
          (case items i of
             None \<Rightarrow> Some (None, d)
           | Some item \<Rightarrow>
               if i \<in> set visiting then Some (None, d)
               else (case resolve_all (resolve_timeline n items (i # visiting)) d (it_depends_on item) of
                       None \<Rightarrow> None
                     | Some (deps, d') \<Rightarrow>
                         (let segs = item_segments item deps in Some (Some segs, AList.update i segs d')))))"

definition campaign_item_timelines :: "item_timeline list \<Rightarrow> timelines option" where
  "campaign_item_timelines items =
     map_option snd (resolve_all (resolve_timeline (Suc (length items)) (index_by it_id items) []) [] (map it_id items))"

section \<open>Durations\<close>

datatype metric_reason = NotCollected | HistoryUnavailable | NotStarted | UnpricedUsage | NotAuthorized

datatype metric = MKnown int | MPartial int metric_reason | MUnavailable metric_reason

record item_durations =
  du_queue :: metric
  du_waiting :: metric
  du_active :: metric

record span_sums =
  ss_queue :: int
  ss_waiting :: int
  ss_active :: int
  ss_gap :: int
  ss_unfinished :: int

definition segment_until :: "state_segment list \<Rightarrow> int \<Rightarrow> int" where
  "segment_until rest as_of = min (case rest of [] \<Rightarrow> as_of | s # ss \<Rightarrow> sg_from s) as_of"

definition add_span :: "state_segment \<Rightarrow> int \<Rightarrow> span_sums \<Rightarrow> span_sums" where
  "add_span seg w a =
     (let a = (case sg_state seg of
            None \<Rightarrow> a\<lparr>ss_gap := ss_gap a + w\<rparr>
          | Some s \<Rightarrow> if s \<notin> set FINISHED then a\<lparr>ss_unfinished := ss_unfinished a + w\<rparr> else a)
      in if sg_state seg = Some Queued then a\<lparr>ss_queue := ss_queue a + w\<rparr>
         else if sg_state seg = Some Waiting \<or> sg_state seg = Some Blocked then a\<lparr>ss_waiting := ss_waiting a + w\<rparr>
         else if sg_state seg = Some Running then a\<lparr>ss_active := ss_active a + w\<rparr> else a)"

fun sum_spans :: "span_sums \<Rightarrow> state_segment list \<Rightarrow> int \<Rightarrow> span_sums" where
  "sum_spans a [] as_of = a"
| "sum_spans a (s # ss) as_of = sum_spans (add_span s (max 0 (segment_until ss as_of - sg_from s)) a) ss as_of"

definition no_spans :: span_sums where
  "no_spans = \<lparr>ss_queue = 0, ss_waiting = 0, ss_active = 0, ss_gap = 0, ss_unfinished = 0\<rparr>"

definition to_metric :: "span_sums \<Rightarrow> int \<Rightarrow> metric" where
  "to_metric a v =
     (if ss_gap a = 0 then MKnown v else if ss_unfinished a > 0 then MPartial v HistoryUnavailable
      else MUnavailable HistoryUnavailable)"

definition campaign_item_durations :: "state_segment list \<Rightarrow> nat \<Rightarrow> int \<Rightarrow> item_durations" where
  "campaign_item_durations segments attempt_count as_of =
     (let a = sum_spans no_spans segments as_of
      in \<lparr>du_queue = to_metric a (ss_queue a), du_waiting = to_metric a (ss_waiting a),
          du_active = (if attempt_count = 0 \<and> ss_gap a = 0 then MUnavailable NotStarted else to_metric a (ss_active a))\<rparr>)"

section \<open>Between two change points nothing changes\<close>

definition undisturbed :: "int \<Rightarrow> int \<Rightarrow> int list \<Rightarrow> bool" where
  "undisturbed p t points \<longleftrightarrow> p \<le> t \<and> (\<forall>x\<in>set points. x \<le> p \<or> t < x)"

lemma undisturbed_le: "undisturbed p t points \<Longrightarrow> x \<in> set points \<Longrightarrow> x \<le> t \<longleftrightarrow> x \<le> p"
  by (auto simp: undisturbed_def)

lemma latest_at_cong:
  assumes "\<And>e. e \<in> set es \<Longrightarrow> when e \<le> t \<longleftrightarrow> when e \<le> p"
  shows "latest_at when es t = latest_at when es p"
  unfolding latest_at_def using assms by (intro foldl_cong) auto

lemma latest_attempt_cong:
  assumes "\<And>a. a \<in> set as \<Longrightarrow> at_started a \<le> t \<longleftrightarrow> at_started a \<le> p"
  shows "latest_attempt_at as t = latest_attempt_at as p"
  unfolding latest_attempt_at_def using assms by (intro foldl_cong) auto

lemma latest_attempt_in: "latest_attempt_at as t = Some a \<Longrightarrow> a \<in> set as"
proof -
  have "foldl (\<lambda>found a. if at_started a \<le> t \<and> (case found of None \<Rightarrow> True | Some l \<Rightarrow> at_ordinal a > at_ordinal l)
       then Some a else found) f as = Some a \<Longrightarrow> a \<in> set as \<or> f = Some a" for f
    by (induction as arbitrary: f) (auto split: if_splits)
  then show "latest_attempt_at as t = Some a \<Longrightarrow> a \<in> set as" by (auto simp: latest_attempt_at_def)
qed

lemma state_scan_cong:
  assumes "\<And>s. s \<in> set ss \<Longrightarrow> sg_from s \<le> t \<longleftrightarrow> sg_from s \<le> p"
  shows "state_scan f ss t = state_scan f ss p"
  using assms by (induction ss arbitrary: f) (auto simp: not_le[symmetric])

lemma change_points_in:
  "it_created item \<in> set (change_points item deps)"
  "r \<in> set (it_transitions item) \<Longrightarrow> tr_at r \<in> set (change_points item deps)"
  "a \<in> set (it_attempts item) \<Longrightarrow> x \<in> set (attempt_points a) \<Longrightarrow> x \<in> set (change_points item deps)"
  "Some segs \<in> set deps \<Longrightarrow> s \<in> set segs \<Longrightarrow> sg_from s \<in> set (change_points item deps)"
  by (force simp: change_points_def)+

lemma dependency_at_cong:
  assumes "undisturbed p t (change_points item deps)" "d \<in> set deps"
  shows "dependency_at d t = dependency_at d p"
proof (cases d)
  case (Some segs)
  then have "state_at segs t = state_at segs p"
    unfolding state_at_def using assms change_points_in(4)
    by (intro state_scan_cong undisturbed_le[OF assms(1)]) auto
  then show ?thesis using Some by (simp add: dependency_at_def)
qed (simp add: dependency_at_def)

lemma item_state_at_cong:
  assumes u: "undisturbed p t (change_points item deps)"
  shows "item_state_at item t ds = item_state_at item p ds"
proof -
  note le = undisturbed_le[OF u]
  have tr: "latest_at tr_at (it_transitions item) t = latest_at tr_at (it_transitions item) p"
    using change_points_in(2) by (intro latest_at_cong le)
  have at: "latest_attempt_at (it_attempts item) t = latest_attempt_at (it_attempts item) p"
    using change_points_in(3) by (intro latest_attempt_cong le) (auto simp: attempt_points_def)
  show ?thesis
  proof (cases "latest_attempt_at (it_attempts item) p")
    case None
    show ?thesis unfolding item_state_at_def tr at None Let_def option.case by simp
  next
    case (Some a)
    have a: "a \<in> set (it_attempts item)" using latest_attempt_in[OF Some] .
    have st: "latest_at st_at (at_statuses a) t = latest_at st_at (at_statuses a) p"
      using change_points_in(3)[OF a] by (intro latest_at_cong le) (auto simp: attempt_points_def)
    have op: "(case at_ended a of None \<Rightarrow> True | Some e \<Rightarrow> e > t) \<longleftrightarrow> (case at_ended a of None \<Rightarrow> True | Some e \<Rightarrow> e > p)"
    proof (cases "at_ended a")
      case (Some e)
      then have "e \<le> t \<longleftrightarrow> e \<le> p" by (intro le change_points_in(3)[OF a]) (simp add: attempt_points_def)
      with Some show ?thesis by auto
    qed simp
    have del: "(case at_delivered a of None \<Rightarrow> False | Some d \<Rightarrow> d \<le> t) \<longleftrightarrow> (case at_delivered a of None \<Rightarrow> False | Some d \<Rightarrow> d \<le> p)"
    proof (cases "at_delivered a")
      case (Some d)
      then have "d \<le> t \<longleftrightarrow> d \<le> p" by (intro le change_points_in(3)[OF a]) (simp add: attempt_points_def)
      with Some show ?thesis by auto
    qed simp
    show ?thesis unfolding item_state_at_def tr at Some Let_def option.case option.sel st op del ..
  qed
qed

section \<open>Building the segments\<close>

definition ascending :: "state_segment list \<Rightarrow> bool" where
  "ascending segs \<longleftrightarrow> sorted_wrt (<) (map sg_from segs)"

lemma state_scan_snoc:
  "ascending (segs @ [s]) \<Longrightarrow> state_scan f (segs @ [s]) t = (if sg_from s \<le> t then sg_state s else state_scan f segs t)"
proof (induction segs arbitrary: f)
  case (Cons a segs)
  then have "sg_from a < sg_from s" "ascending (segs @ [s])" by (auto simp: ascending_def)
  with Cons.IH[of "sg_state a"] show ?case by auto
qed simp

lemma state_scan_last: "ascending segs \<Longrightarrow> segs \<noteq> [] \<Longrightarrow> \<forall>s\<in>set segs. sg_from s \<le> t \<Longrightarrow> state_scan f segs t = sg_state (last segs)"
  by (cases segs rule: rev_cases) (auto simp: state_scan_snoc)

lemma sorted_le_last: "sorted xs \<Longrightarrow> x \<in> set xs \<Longrightarrow> x \<le> last xs"
  by (induction xs) auto

definition build :: "(int \<Rightarrow> primary_state option) \<Rightarrow> int list \<Rightarrow> state_segment list" where
  "build v L = foldl (\<lambda>segs t. push_segment segs t (v t)) [] L"

lemma build_snoc: "build v (L @ [p]) = push_segment (build v L) p (v p)"
  by (simp add: build_def)

lemma build_points: "sg_from ` set (build v L) \<subseteq> set L"
  by (induction L rule: rev_induct) (auto simp: build_snoc push_segment_def, simp add: build_def)

lemma build_ascending: "sorted_wrt (<) L \<Longrightarrow> ascending (build v L)"
proof (induction L rule: rev_induct)
  case Nil
  then show ?case by (simp add: build_def ascending_def)
next
  case (snoc p L)
  then have "\<forall>s\<in>set (build v L). sg_from s < p" using build_points[of v L] by (auto simp: sorted_wrt_append)
  with snoc show ?case by (auto simp: build_snoc push_segment_def ascending_def sorted_wrt_append)
qed

lemma build_hd: "L \<noteq> [] \<Longrightarrow> build v L \<noteq> [] \<and> sg_from (hd (build v L)) = hd L"
proof (induction L rule: rev_induct)
  case (snoc p L)
  show ?case
  proof (cases "L = []")
    case True
    then show ?thesis by (simp add: build_def push_segment_def)
  next
    case False
    with snoc.IH have "build v L \<noteq> []" "sg_from (hd (build v L)) = hd L" by auto
    with False show ?thesis by (simp add: build_snoc push_segment_def)
  qed
qed simp

lemma build_at:
  "sorted_wrt (<) L \<Longrightarrow> state_at (build v L) t = (if filter (\<lambda>p. p \<le> t) L = [] then None else v (last (filter (\<lambda>p. p \<le> t) L)))"
proof (induction L rule: rev_induct)
  case Nil
  then show ?case by (simp add: build_def state_at_def)
next
  case (snoc p L)
  have L: "sorted_wrt (<) L" "\<forall>q\<in>set L. q < p" using snoc.prems by (auto simp: sorted_wrt_append)
  note asc = build_ascending[OF snoc.prems, of v, unfolded build_snoc]
  show ?case
  proof (cases "p \<le> t")
    case False
    have "state_at (push_segment (build v L) p (v p)) t = state_at (build v L) t"
      using False asc state_scan_snoc[of "build v L"] by (auto simp: push_segment_def state_at_def)
    then show ?thesis using snoc.IH[OF L(1)] False by (simp add: build_snoc)
  next
    case True
    have "state_at (push_segment (build v L) p (v p)) t = v p"
    proof (cases "build v L = [] \<or> sg_state (last (build v L)) \<noteq> v p")
      case new: True
      then show ?thesis using True asc state_scan_snoc[of "build v L"] by (auto simp: push_segment_def state_at_def)
    next
      case False
      have "\<forall>s\<in>set (build v L). sg_from s \<le> t" using build_points[of v L] L(2) True by force
      then have "state_at (build v L) t = sg_state (last (build v L))"
        using False build_ascending[OF L(1)] by (simp add: state_at_def state_scan_last)
      with False show ?thesis by (simp add: push_segment_def)
    qed
    then show ?thesis using True by (simp add: build_snoc)
  qed
qed


lemma segments_build:
  "item_segments item deps = build (\<lambda>t. item_state_at item t (map (\<lambda>d. dependency_at d t) deps))
     (js_sort (\<le>) (filter (\<lambda>p. p \<ge> it_created item) (change_points item deps)))"
  by (simp add: item_segments_def build_def)

text \<open>The timeline of an item agrees with the rules at every instant, not only where it was computed.\<close>

lemma item_segments_at:
  assumes t: "it_created item \<le> t"
  shows "state_at (item_segments item deps) t = item_state_at item t (map (\<lambda>d. dependency_at d t) deps)"
proof -
  let ?ps = "change_points item deps" and ?v = "\<lambda>t. item_state_at item t (map (\<lambda>d. dependency_at d t) deps)"
  define L where "L = js_sort (\<le>) (filter (\<lambda>p. p \<ge> it_created item) ?ps)"
  have L: "sorted_wrt (<) L" unfolding L_def by (rule sorted_distinct_strict) (simp add: change_points_def)
  have setL: "set L = {p \<in> set ?ps. p \<ge> it_created item}" by (auto simp: L_def)
  define p where "p = last (filter (\<lambda>p. p \<le> t) L)"
  have ne: "filter (\<lambda>p. p \<le> t) L \<noteq> []" using t setL change_points_in(1)[of item deps] by (force simp: filter_empty_conv)
  then have p: "p \<in> set L" "p \<le> t" using last_in_set[OF ne] by (auto simp: p_def)
  have "x \<le> p" if "x \<in> set L" "x \<le> t" for x
  proof -
    have "sorted (filter (\<lambda>p. p \<le> t) L)" using L by (simp add: strict_sorted_iff sorted_filter sorted_wrt_filter)
    then show ?thesis unfolding p_def by (rule sorted_le_last) (use that in simp)
  qed
  then have "undisturbed p t ?ps" using p setL unfolding undisturbed_def by force
  then have "?v t = ?v p"
    using item_state_at_cong[of p t item deps] dependency_at_cong[of p t item deps] by (simp cong: map_cong)
  moreover have "state_at (item_segments item deps) t = ?v p"
    unfolding segments_build L_def[symmetric] build_at[OF L] using ne by (simp add: p_def)
  ultimately show ?thesis by simp
qed

lemma item_segments_shape:
  "ascending (item_segments item deps) \<and> item_segments item deps \<noteq> [] \<and> sg_from (hd (item_segments item deps)) = it_created item"
proof -
  define L where "L = js_sort (\<le>) (filter (\<lambda>p. p \<ge> it_created item) (change_points item deps))"
  have L: "sorted_wrt (<) L" unfolding L_def by (rule sorted_distinct_strict) (simp add: change_points_def)
  have c: "it_created item \<in> set L" using change_points_in(1)[of item deps] by (simp add: L_def)
  then have ne: "L \<noteq> []" by auto
  have "hd L = it_created item"
  proof -
    have "\<forall>x\<in>set L. it_created item \<le> x" by (simp add: L_def)
    moreover from L c have "hd L \<le> it_created item" by (cases L) auto
    ultimately show ?thesis using hd_in_set[OF ne] by fastforce
  qed
  then show ?thesis
    unfolding segments_build L_def[symmetric] using build_ascending[OF L] build_hd[OF ne] by simp
qed

section \<open>Spans are measures\<close>

fun spans :: "(primary_state option \<Rightarrow> bool) \<Rightarrow> state_segment list \<Rightarrow> int \<Rightarrow> int" where
  "spans P [] as_of = 0"
| "spans P (s # ss) as_of = (if P (sg_state s) then max 0 (segment_until ss as_of - sg_from s) else 0) + spans P ss as_of"

lemma sum_spans_spans:
  "ss_queue (sum_spans a ss as_of) = ss_queue a + spans (\<lambda>s. s = Some Queued) ss as_of"
  "ss_waiting (sum_spans a ss as_of) = ss_waiting a + spans (\<lambda>s. s = Some Waiting \<or> s = Some Blocked) ss as_of"
  "ss_active (sum_spans a ss as_of) = ss_active a + spans (\<lambda>s. s = Some Running) ss as_of"
  "ss_gap (sum_spans a ss as_of) = ss_gap a + spans (\<lambda>s. s = None) ss as_of"
  "ss_unfinished (sum_spans a ss as_of) = ss_unfinished a + spans (\<lambda>s. \<exists>x. s = Some x \<and> x \<notin> set FINISHED) ss as_of"
  by (induction ss arbitrary: a; auto simp: add_span_def Let_def FINISHED_def split: option.splits)+

lemma spans_card:
  assumes "ascending (s # ss)"
  shows "spans P (s # ss) as_of = int (card {t. sg_from s \<le> t \<and> t < as_of \<and> P (state_at (s # ss) t)})"
  using assms
proof (induction ss arbitrary: s)
  case Nil
  have "{t. sg_from s \<le> t \<and> t < as_of \<and> P (state_at [s] t)} = (if P (sg_state s) then {sg_from s..<as_of} else {})"
    by (auto simp: state_at_def)
  then show ?case by (simp add: segment_until_def)
next
  case (Cons r ss)
  have lt: "sg_from s < sg_from r" and asc: "ascending (r # ss)" using Cons.prems by (auto simp: ascending_def)
  let ?A = "if P (sg_state s) then {sg_from s..<min (sg_from r) as_of} else {}"
  let ?B = "{t. sg_from r \<le> t \<and> t < as_of \<and> P (state_at (r # ss) t)}"
  have "{t. sg_from s \<le> t \<and> t < as_of \<and> P (state_at (s # r # ss) t)} = ?A \<union> ?B"
  proof (rule set_eqI)
    fix t
    show "t \<in> {t. sg_from s \<le> t \<and> t < as_of \<and> P (state_at (s # r # ss) t)} \<longleftrightarrow> t \<in> ?A \<union> ?B"
    proof (cases "sg_from r \<le> t")
      case True
      with lt have "state_at (s # r # ss) t = state_at (r # ss) t" by (simp add: state_at_def)
      with True lt show ?thesis by simp
    next
      case False
      then have "sg_from s \<le> t \<Longrightarrow> state_at (s # r # ss) t = sg_state s" by (simp add: state_at_def)
      with False show ?thesis by auto
    qed
  qed
  moreover have "finite ?B" by (rule finite_subset[of _ "{sg_from r..<as_of}"]) auto
  moreover have "?A \<inter> ?B = {}" by auto
  ultimately have "card {t. sg_from s \<le> t \<and> t < as_of \<and> P (state_at (s # r # ss) t)} = card ?A + card ?B"
    by (simp add: card_Un_disjoint)
  then show ?case using Cons.IH[OF asc] lt by (auto simp: segment_until_def)
qed


section \<open>The timelines of a campaign\<close>

interpretation wt: memo_resolver resolve_timeline it_depends_on item_segments Some None
  by unfold_locales (simp_all add: Let_def split: option.splits)

text \<open>The state the rules give an item at an instant, when its dependencies read as their timelines say.\<close>

definition state_by_rules :: "item_timeline \<Rightarrow> timelines \<Rightarrow> int \<Rightarrow> primary_state option" where
  "state_by_rules item d t = item_state_at item t (map (\<lambda>x. dependency_at (map_of d x) t) (it_depends_on item))"

text \<open>The time an item has spent, up to an instant, in states of a kind.\<close>

definition time_in :: "item_timeline \<Rightarrow> timelines \<Rightarrow> int \<Rightarrow> (primary_state option \<Rightarrow> bool) \<Rightarrow> int" where
  "time_in item d as_of P = int (card {t. it_created item \<le> t \<and> t < as_of \<and> P (state_by_rules item d t)})"

lemma reads_timeline: "value_in Some None d x = map_of d x"
  by (simp add: value_in_def split: option.splits)

lemma timeline_equation:
  assumes "acyclic (depends_rel it_depends_on (index_by it_id items))" "distinct (map it_id items)"
    and "campaign_item_timelines items = Some d" "item \<in> set items"
  shows "map_of d (it_id item) = Some (item_segments item (map (map_of d) (it_depends_on item)))"
proof -
  from assms(3) obtain ss where
    "resolve_all (resolve_timeline (Suc (length items)) (index_by it_id items) []) [] (map it_id items) = Some (ss, d)"
    by (auto simp: campaign_item_timelines_def)
  from wt.resolve_run_equation(2)[OF assms(1) this index_by_distinct[OF assms(2,4)]] show ?thesis
    by (simp add: reads_timeline cong: map_cong)
qed

lemma spans_time_in:
  assumes "segs = item_segments item (map (map_of d) (it_depends_on item))"
  shows "spans P segs as_of = time_in item d as_of P"
proof -
  let ?deps = "map (map_of d) (it_depends_on item)"
  obtain s ss where s: "segs = s # ss" "sg_from s = it_created item" "ascending (s # ss)"
    using item_segments_shape[of item ?deps] unfolding assms[symmetric] by (cases segs) auto
  have "state_at (s # ss) t = state_by_rules item d t" if "it_created item \<le> t" for t
    using item_segments_at[OF that, of ?deps] assms s(1) by (simp add: state_by_rules_def comp_def)
  then have "{t. sg_from s \<le> t \<and> t < as_of \<and> P (state_at (s # ss) t)} =
      {t. it_created item \<le> t \<and> t < as_of \<and> P (state_by_rules item d t)}"
    using s(2) by auto
  then show ?thesis unfolding s(1) spans_card[OF s(3)] time_in_def by simp
qed

lemma campaign_item_timelines_total: "\<exists>d. campaign_item_timelines items = Some d"
  using wt.resolve_run_total[of items it_id] by (auto simp: campaign_item_timelines_def)

definition measured :: "int \<Rightarrow> int \<Rightarrow> int \<Rightarrow> metric" where
  "measured gap live v =
     (if gap = 0 then MKnown v else if live > 0 then MPartial v HistoryUnavailable
      else MUnavailable HistoryUnavailable)"

definition measured_durations :: "item_timeline \<Rightarrow> timelines \<Rightarrow> nat \<Rightarrow> int \<Rightarrow> item_durations" where
  "measured_durations item d attempt_count as_of =
     (let gap = time_in item d as_of (\<lambda>s. s = None);
          live = time_in item d as_of (\<lambda>s. \<exists>x. s = Some x \<and> x \<notin> set FINISHED)
      in \<lparr>du_queue = measured gap live (time_in item d as_of (\<lambda>s. s = Some Queued)),
          du_waiting = measured gap live (time_in item d as_of (\<lambda>s. s = Some Waiting \<or> s = Some Blocked)),
          du_active = (if attempt_count = 0 \<and> gap = 0 then MUnavailable NotStarted
            else measured gap live (time_in item d as_of (\<lambda>s. s = Some Running)))\<rparr>)"

lemma durations_measured:
  assumes "segs = item_segments item (map (map_of d) (it_depends_on item))"
  shows "campaign_item_durations segs n as_of = measured_durations item d n as_of"
  using spans_time_in[OF assms, of _ as_of]
  by (simp add: campaign_item_durations_def measured_durations_def to_metric_def measured_def
      sum_spans_spans no_spans_def Let_def)

text \<open>C20: the timelines of a campaign are always computed, and when the dependencies have no cycle the
  timeline of every item agrees with the derivation rules at every instant of its life, not only at the
  instants where the code evaluates them; the queue, waiting and active durations are then exactly the
  time spent in those states, known, partial or unavailable by how much of that life has no record.\<close>

theorem times_are_measured:
  assumes "acyclic (depends_rel it_depends_on (index_by it_id items))" "distinct (map it_id items)"
  shows "\<exists>d. campaign_item_timelines items = Some d \<and> (\<forall>item\<in>set items. \<exists>segs.
    map_of d (it_id item) = Some segs \<and> (\<forall>t\<ge>it_created item. state_at segs t = state_by_rules item d t) \<and>
    (\<forall>n as_of. campaign_item_durations segs n as_of = measured_durations item d n as_of))"
proof -
  obtain d where d: "campaign_item_timelines items = Some d" using campaign_item_timelines_total by blast
  have "\<exists>segs. map_of d (it_id item) = Some segs \<and> (\<forall>t\<ge>it_created item. state_at segs t = state_by_rules item d t) \<and>
    (\<forall>n as_of. campaign_item_durations segs n as_of = measured_durations item d n as_of)" if "item \<in> set items" for item
    using timeline_equation[OF assms d that] item_segments_at[of item _ "map (map_of d) (it_depends_on item)"]
      durations_measured[OF refl, of item d]
    by (simp add: state_by_rules_def comp_def)
  with d show ?thesis by blast
qed

definition sample_campaign :: "item_timeline list" where
  "sample_campaign =
     [\<lparr>it_id = ''review'', it_created = 0,
        it_transitions = [\<lparr>tr_at = 20, tr_dispatch = DispatchQueued, tr_commitment = Committed, tr_blocked = True\<rparr>,
                          \<lparr>tr_at = 60, tr_dispatch = DispatchQueued, tr_commitment = Committed, tr_blocked = False\<rparr>],
        it_attempts = [], it_depends_on = [''build''], it_held = None\<rparr>,
      \<lparr>it_id = ''build'', it_created = 0,
        it_transitions = [\<lparr>tr_at = 0, tr_dispatch = DispatchQueued, tr_commitment = Committed, tr_blocked = False\<rparr>],
        it_attempts = [\<lparr>at_ordinal = 1, at_started = 10, at_ended = Some 50, at_delivered = Some 50,
          at_statuses = [\<lparr>st_at = 10, st_status = Some SRunning, st_archived = False\<rparr>]\<rparr>],
        it_depends_on = [], it_held = None\<rparr>]"

lemma sample_timelines:
  "campaign_item_timelines sample_campaign = Some
     [(''build'', [\<lparr>sg_from = 0, sg_state = Some Queued\<rparr>, \<lparr>sg_from = 10, sg_state = Some Running\<rparr>,
                   \<lparr>sg_from = 50, sg_state = Some Delivered\<rparr>]),
      (''review'', [\<lparr>sg_from = 0, sg_state = None\<rparr>, \<lparr>sg_from = 20, sg_state = Some Blocked\<rparr>,
                   \<lparr>sg_from = 60, sg_state = Some Queued\<rparr>])]"
  by code_simp

lemma sample_durations:
  "campaign_item_durations [\<lparr>sg_from = 0, sg_state = None\<rparr>, \<lparr>sg_from = 20, sg_state = Some Blocked\<rparr>,
      \<lparr>sg_from = 60, sg_state = Some Queued\<rparr>] 0 90 =
    \<lparr>du_queue = MPartial 30 HistoryUnavailable, du_waiting = MPartial 40 HistoryUnavailable,
     du_active = MPartial 0 HistoryUnavailable\<rparr>"
  by code_simp

lemma sample_acyclic: "acyclic (depends_rel it_depends_on (index_by it_id sample_campaign))"
proof -
  have "depends_rel it_depends_on (index_by it_id sample_campaign) \<subseteq> {(''review'', ''build'')}"
    by (auto simp: depends_rel_def index_by_def sample_campaign_def split: if_splits)
  moreover have "acyclic {(''review'', ''build'')}" by (auto simp: acyclic_def dest: tranclD tranclD2)
  ultimately show ?thesis by (rule acyclic_subset[rotated])
qed

theorem times_are_measured_witness:
  "\<exists>d item. campaign_item_timelines sample_campaign = Some d \<and> item \<in> set sample_campaign \<and>
    measured_durations item d 0 90 = \<lparr>du_queue = MPartial 30 HistoryUnavailable,
      du_waiting = MPartial 40 HistoryUnavailable, du_active = MPartial 0 HistoryUnavailable\<rparr>"
proof -
  have "distinct (map it_id sample_campaign)" by (simp add: sample_campaign_def)
  note times = times_are_measured[OF sample_acyclic this]
  moreover have "hd sample_campaign \<in> set sample_campaign" "it_id (hd sample_campaign) = ''review''"
    by (simp_all add: sample_campaign_def)
  ultimately show ?thesis unfolding sample_timelines using sample_durations by fastforce
qed

end
