(* ===== verification/Canonical_Json.thy ===== *)
theory Canonical_Json
  imports Json "HOL-Library.List_Lexorder"
begin

text \<open>
  The canonical text of a JSON value (\<open>canonicalJson\<close> of \<open>apps/runner/src/durable-command-store.ts\<close> and
  its copy \<open>canonicalAutomationCommandJson\<close> of \<open>apps/control-plane/src/automation-command-outbox.ts\<close>): both
  ends of a durable command digest it to decide whether a retry names the same payload.

  How \<open>JSON.stringify\<close> prints a number is an argument; \<open>numeral_text\<close> is what it documents. Object
  keys sort by code unit, which on 8-bit strings is the lexicographic order.
\<close>

section \<open>Model\<close>

text \<open>\<open>JSON.stringify\<close> of a string.\<close>

definition hex_digit :: "nat \<Rightarrow> char" where
  "hex_digit n = ''0123456789abcdef'' ! n"

definition escape_char :: "char \<Rightarrow> string" where
  "escape_char c =
     (let n = of_char c :: nat; bs = CHR 0x5C in
      if n = 34 then [bs, CHR 0x22]
      else if n = 92 then [bs, bs]
      else if n = 8 then [bs, CHR ''b'']
      else if n = 9 then [bs, CHR ''t'']
      else if n = 10 then [bs, CHR ''n'']
      else if n = 12 then [bs, CHR ''f'']
      else if n = 13 then [bs, CHR ''r'']
      else if n < 32 then [bs, CHR ''u'', CHR ''0'', CHR ''0'', hex_digit (n div 16), hex_digit (n mod 16)]
      else [c])"

definition json_quote :: "string \<Rightarrow> string" where
  "json_quote s = CHR 0x22 # concat (map escape_char s) @ [CHR 0x22]"

definition json_primitive :: "(rat \<Rightarrow> string) \<Rightarrow> json \<Rightarrow> string" where
  "json_primitive num v =
     (case v of JBool b \<Rightarrow> if b then ''true'' else ''false'' | JNum q \<Rightarrow> num q | JStr s \<Rightarrow> json_quote s | _ \<Rightarrow> ''null'')"

fun canonical_json :: "(rat \<Rightarrow> string) \<Rightarrow> json \<Rightarrow> string" where
  "canonical_json num (JArr xs) = ''['' @ join_str '','' (map (canonical_json num) xs) @ '']''"
| "canonical_json num (JObj ps) =
     ''{'' @ join_str '',''
       (map (\<lambda>k. json_quote k @ '':'' @ the (map_of (map (\<lambda>(k, v). (k, canonical_json num v)) ps) k))
         (js_sort (\<le>) (map fst ps))) @ ''}''"
| "canonical_json num v = json_primitive num v"

text \<open>An object has each key once.\<close>

fun wf_json :: "json \<Rightarrow> bool" where
  "wf_json (JArr xs) = list_all wf_json xs"
| "wf_json (JObj ps) \<longleftrightarrow> distinct (map fst ps) \<and> list_all (\<lambda>p. wf_json (snd p)) ps"
| "wf_json _ = True"

text \<open>Equal but for the order of the properties.\<close>

fun same_json :: "json \<Rightarrow> json \<Rightarrow> bool" where
  "same_json (JArr xs) w = (case w of JArr ys \<Rightarrow> list_all2 same_json xs ys | _ \<Rightarrow> False)"
| "same_json (JObj ps) w =
     (case w of
        JObj qs \<Rightarrow> set (map fst ps) = set (map fst qs) \<and>
          list_all (\<lambda>(k, v). case map_of qs k of None \<Rightarrow> False | Some u \<Rightarrow> same_json v u) ps
      | _ \<Rightarrow> False)"
| "same_json v w \<longleftrightarrow> v = w"

definition numeral_text :: "(rat \<Rightarrow> string) \<Rightarrow> bool" where
  "numeral_text num \<longleftrightarrow> inj num \<and>
     (\<forall>q. num q \<noteq> [] \<and> set (num q) \<subseteq> {c. is_digit c \<or> c \<in> set ''-+.e''} \<and> (is_digit (hd (num q)) \<or> hd (num q) = CHR ''-''))"

section \<open>Strings read back\<close>

lemma hex_digit_inj: "a < 16 \<Longrightarrow> b < 16 \<Longrightarrow> hex_digit a = hex_digit b \<longleftrightarrow> a = b"
  unfolding hex_digit_def by (subst nth_eq_iff_index_eq) auto

definition short_escape :: "nat \<Rightarrow> char option" where
  "short_escape n = map_of [(34, CHR 0x22), (92, CHR 0x5C), (8, CHR ''b''), (9, CHR ''t''), (10, CHR ''n''), (12, CHR ''f''), (13, CHR ''r'')] n"

lemma escape_char_alt:
  "escape_char c = (case short_escape (of_char c) of
     Some e \<Rightarrow> [CHR 0x5C, e]
   | None \<Rightarrow> if of_char c < (32 :: nat)
       then [CHR 0x5C, CHR ''u'', CHR ''0'', CHR ''0'', hex_digit (of_char c div 16), hex_digit (of_char c mod 16)] else [c])"
  by (simp add: escape_char_def short_escape_def Let_def)

lemma short_escape_u: "short_escape n \<noteq> Some CHR ''u''"
  by (simp add: short_escape_def)

lemma short_escape_inj: "short_escape m = Some e \<Longrightarrow> short_escape n = Some e \<Longrightarrow> m = n"
  unfolding short_escape_def by (auto split: if_splits)

lemma plain_char: "short_escape (of_char c) = None \<Longrightarrow> c \<noteq> CHR 0x5C \<and> c \<noteq> CHR 0x22"
  by (auto simp: short_escape_def)

lemma escape_prefix_free:
  assumes "escape_char c @ r = escape_char d @ r'"
  shows "c = d \<and> r = r'"
proof -
  let ?m = "of_char c :: nat" and ?n = "of_char d :: nat"
  have "?m = ?n \<and> r = r'"
  proof (cases "short_escape ?m")
    case Some1: (Some e)
    show ?thesis
    proof (cases "short_escape ?n")
      case (Some f)
      with Some1 assms have "e = f" "r = r'" by (auto simp: escape_char_alt)
      with Some Some1 short_escape_inj show ?thesis by blast
    next
      case None
      then show ?thesis using assms Some1 plain_char[OF None] short_escape_u[of ?m]
        by (auto simp: escape_char_alt split: if_splits)
    qed
  next
    case None1: None
    note c = plain_char[OF None1]
    show ?thesis
    proof (cases "short_escape ?n")
      case (Some f)
      then show ?thesis using assms None1 c short_escape_u[of ?n] by (auto simp: escape_char_alt split: if_splits)
    next
      case None
      note d = plain_char[OF None]
      have "?m = ?n" if "hex_digit (?m div 16) = hex_digit (?n div 16)" "hex_digit (?m mod 16) = hex_digit (?n mod 16)" "?m < 32" "?n < 32"
      proof -
        have "?m div 16 = ?n div 16" "?m mod 16 = ?n mod 16" using that by (simp_all add: hex_digit_inj)
        then show ?thesis by (metis div_mult_mod_eq)
      qed
      then show ?thesis using assms None None1 c d by (auto simp: escape_char_alt split: if_splits)
    qed
  qed
  then show ?thesis by simp
qed

lemma escape_no_quote: "escape_char c @ r \<noteq> CHR 0x22 # r'"
  using plain_char[of c] by (auto simp: escape_char_alt split: option.splits)

lemma quote_body: "concat (map escape_char s) @ CHR 0x22 # r = concat (map escape_char t) @ CHR 0x22 # r' \<Longrightarrow> s = t \<and> r = r'"
proof (induction s arbitrary: t)
  case Nil
  show ?case
  proof (cases t)
    case Nil
    with \<open>concat (map escape_char []) @ CHR 0x22 # r = _\<close> show ?thesis by simp
  next
    case (Cons d u)
    with Nil have "escape_char d @ (concat (map escape_char u) @ CHR 0x22 # r') = CHR 0x22 # r" by simp
    then show ?thesis using escape_no_quote by blast
  qed
next
  case (Cons c s)
  show ?case
  proof (cases t)
    case Nil
    then show ?thesis using Cons.prems escape_no_quote[of c] by auto
  next
    case (Cons d u)
    with Cons.prems have "escape_char c @ (concat (map escape_char s) @ CHR 0x22 # r) = escape_char d @ (concat (map escape_char u) @ CHR 0x22 # r')"
      by simp
    from escape_prefix_free[OF this] Cons.IH[of u] Cons show ?thesis by simp
  qed
qed

lemma json_quote_unique: "json_quote s @ r = json_quote t @ r' \<longleftrightarrow> s = t \<and> r = r'"
  using quote_body[of s r t r'] by (auto simp: json_quote_def)

section \<open>Values read back\<close>

text \<open>What may follow a value inside another one.\<close>

definition follow :: "string \<Rightarrow> bool" where
  "follow r \<longleftrightarrow> r = [] \<or> hd r \<in> {CHR '','', CHR '']'', CHR ''}''}"

definition starts_value :: "string \<Rightarrow> bool" where
  "starts_value s \<longleftrightarrow> s \<noteq> [] \<and> hd s \<notin> {CHR '','', CHR '']'', CHR ''}''}"

lemma join_str_Cons: "join_str sep (x # xs) = x @ concat (map (\<lambda>y. sep @ y) xs)"
  by (induction xs arbitrary: x) auto

lemma follow_tail: "c \<in> {CHR '']'', CHR ''}''} \<Longrightarrow> follow (concat (map (\<lambda>y. '','' @ y) xs) @ c # r)"
  by (cases xs) (auto simp: follow_def)

text \<open>A separated list is read back when each of its items is.\<close>

lemma tail_unique:
  assumes items: "\<And>x y r r'. x \<in> set xs \<Longrightarrow> y \<in> set ys \<Longrightarrow> follow r \<Longrightarrow> follow r' \<Longrightarrow> f x @ r = g y @ r' \<Longrightarrow> R x y \<and> r = r'"
    and c: "c \<in> {CHR '']'', CHR ''}''}"
    and eq: "concat (map (\<lambda>x. '','' @ f x) xs) @ c # r = concat (map (\<lambda>y. '','' @ g y) ys) @ c # r'"
  shows "list_all2 R xs ys \<and> r = r'"
  using items eq
proof (induction xs arbitrary: ys)
  case Nil
  then show ?case using c by (cases ys) auto
next
  case (Cons x xs)
  show ?case
  proof (cases ys)
    case Nil
    then show ?thesis using Cons.prems(2) c by auto
  next
    case ys: (Cons y zs)
    let ?t = "concat (map (\<lambda>x. '','' @ f x) xs) @ c # r" and ?u = "concat (map (\<lambda>y. '','' @ g y) zs) @ c # r'"
    have "follow ?t" "follow ?u" using follow_tail[OF c, of "map f xs" r] follow_tail[OF c, of "map g zs" r'] by (simp_all add: comp_def)
    moreover have "f x @ ?t = g y @ ?u" using Cons.prems(2) ys by simp
    ultimately have "R x y \<and> ?t = ?u" using Cons.prems(1)[of x y] ys by simp
    moreover from this have "list_all2 R xs zs \<and> r = r'" by (intro Cons.IH Cons.prems(1)) (use ys in auto)
    ultimately show ?thesis using ys by simp
  qed
qed

lemma join_unique:
  assumes items: "\<And>x y r r'. x \<in> set xs \<Longrightarrow> y \<in> set ys \<Longrightarrow> follow r \<Longrightarrow> follow r' \<Longrightarrow> f x @ r = g y @ r' \<Longrightarrow> R x y \<and> r = r'"
    and starts: "\<And>x. x \<in> set xs \<Longrightarrow> starts_value (f x)" "\<And>y. y \<in> set ys \<Longrightarrow> starts_value (g y)"
    and c: "c \<in> {CHR '']'', CHR ''}''}"
    and eq: "join_str '','' (map f xs) @ c # r = join_str '','' (map g ys) @ c # r'"
  shows "list_all2 R xs ys \<and> r = r'"
proof (cases xs; cases ys)
  fix y zs assume "xs = []" "ys = y # zs"
  then show ?thesis using eq starts(2)[of y] c by (cases "g y") (auto simp: join_str_Cons starts_value_def)
next
  fix x zs assume "xs = x # zs" "ys = []"
  then show ?thesis using eq starts(1)[of x] c by (cases "f x") (auto simp: join_str_Cons starts_value_def)
next
  fix x xs' y ys' assume xy: "xs = x # xs'" "ys = y # ys'"
  let ?t = "concat (map (\<lambda>x. '','' @ f x) xs') @ c # r" and ?u = "concat (map (\<lambda>y. '','' @ g y) ys') @ c # r'"
  have "follow ?t" "follow ?u" using follow_tail[OF c, of "map f xs'" r] follow_tail[OF c, of "map g ys'" r'] by (simp_all add: comp_def)
  moreover have "f x @ ?t = g y @ ?u" using eq xy by (simp add: join_str_Cons comp_def)
  ultimately have 1: "R x y \<and> ?t = ?u" using items[of x y] xy by simp
  then have "list_all2 R xs' ys' \<and> r = r'" by (intro tail_unique[OF items c]) (use xy in auto)
  with 1 xy show ?thesis by simp
qed (use eq in simp)

lemma numeral_unique:
  assumes "numeral_text num" "follow r" "follow r'" "num q @ r = num p @ r'"
  shows "q = p \<and> r = r'"
proof -
  let ?P = "\<lambda>c. is_digit c \<or> c \<in> set ''-+.e''"
  have all: "takeWhile ?P (num q @ r) = num q" if "follow r" for q r
  proof -
    have "\<forall>c\<in>set (num q). ?P c" using assms(1) by (auto simp: numeral_text_def)
    moreover have "takeWhile ?P r = []" using that by (cases r) (auto simp: follow_def is_digit_def less_eq_char_def)
    ultimately show ?thesis by (simp add: takeWhile_append2)
  qed
  have "num q = num p" using all[OF assms(2), of q] all[OF assms(3), of p] assms(4) by simp
  then show ?thesis using assms(1,4) by (simp add: numeral_text_def inj_eq)
qed

text \<open>The first character of a value says which kind it is.\<close>

fun json_kind :: "json \<Rightarrow> nat" where
  "json_kind JNull = 0"
| "json_kind (JBool b) = (if b then 1 else 2)"
| "json_kind (JNum q) = 3"
| "json_kind (JStr s) = 4"
| "json_kind (JArr xs) = 5"
| "json_kind (JObj ps) = 6"

definition kind_of_char :: "char \<Rightarrow> nat" where
  "kind_of_char c = (if c = CHR ''n'' then 0 else if c = CHR ''t'' then 1 else if c = CHR ''f'' then 2
     else if c = CHR 0x22 then 4 else if c = CHR ''['' then 5 else if c = CHR ''{'' then 6 else 3)"

lemma canonical_start:
  assumes "numeral_text num"
  shows "canonical_json num j \<noteq> [] \<and> kind_of_char (hd (canonical_json num j)) = json_kind j \<and> starts_value (canonical_json num j)"
proof (cases j)
  case (JNum q)
  have ne: "num q \<noteq> []" and c: "is_digit (hd (num q)) \<or> hd (num q) = CHR ''-''" using assms by (auto simp: numeral_text_def)
  have "list_all (\<lambda>d. \<not> is_digit d \<and> d \<noteq> CHR ''-'') (CHR 0x22 # ''ntf[{,]}'')" by code_simp
  then have "hd (num q) \<notin> set (CHR 0x22 # ''ntf[{,]}'')" using c unfolding list_all_iff by blast
  then have "kind_of_char (hd (num q)) = 3" "starts_value (num q)" using ne by (simp_all add: kind_of_char_def starts_value_def)
  with ne JNum show ?thesis by (simp add: json_primitive_def)
qed (auto simp: json_primitive_def kind_of_char_def starts_value_def json_quote_def)

lemma same_kind:
  assumes "numeral_text num" "canonical_json num j @ r = canonical_json num k @ r'"
  shows "json_kind j = json_kind k"
proof -
  have "hd (canonical_json num j) = hd (canonical_json num k)"
    using canonical_start[OF assms(1), of j] canonical_start[OF assms(1), of k] assms(2) by (metis hd_append2)
  then show ?thesis using canonical_start[OF assms(1), of j] canonical_start[OF assms(1), of k] by simp
qed

definition member_text :: "(rat \<Rightarrow> string) \<Rightarrow> jobject \<Rightarrow> string \<Rightarrow> string" where
  "member_text num ps k = json_quote k @ '':'' @ canonical_json num (the (map_of ps k))"

lemma canonical_object:
  "canonical_json num (JObj ps) = ''{'' @ join_str '','' (map (member_text num ps) (js_sort (\<le>) (map fst ps))) @ ''}''"
proof -
  have "the (map_of (map (\<lambda>(k, v). (k, canonical_json num v)) ps) k) = canonical_json num (the (map_of ps k))" if "k \<in> fst ` set ps" for k
  proof -
    have "map_of ps k \<noteq> None" using that by (simp add: map_of_eq_None_iff)
    then obtain v where "map_of ps k = Some v" by blast
    then show ?thesis by (simp add: map_of_map)
  qed
  then have "map (\<lambda>k. json_quote k @ '':'' @ the (map_of (map (\<lambda>(k, v). (k, canonical_json num v)) ps) k)) (js_sort (\<le>) (map fst ps))
      = map (member_text num ps) (js_sort (\<le>) (map fst ps))"
    by (intro map_cong) (auto simp: member_text_def)
  then show ?thesis by (simp only: canonical_json.simps)
qed

lemma same_object: "same_json (JObj ps) (JObj qs) \<longleftrightarrow> set (map fst ps) = set (map fst qs) \<and>
    (\<forall>a v. (a, v) \<in> set ps \<longrightarrow> (\<exists>u. map_of qs a = Some u \<and> same_json v u))"
proof -
  have "(case map_of qs a of None \<Rightarrow> False | Some u \<Rightarrow> same_json v u) \<longleftrightarrow> (\<exists>u. map_of qs a = Some u \<and> same_json v u)" for a v
    by (cases "map_of qs a") auto
  then show ?thesis by (simp add: list_all_iff) blast
qed

lemma canonical_unique:
  assumes num: "numeral_text num"
  shows "wf_json j \<Longrightarrow> wf_json k \<Longrightarrow> follow r \<Longrightarrow> follow r' \<Longrightarrow> canonical_json num j @ r = canonical_json num k @ r' \<Longrightarrow>
    same_json j k \<and> r = r'"
proof (induction j arbitrary: k r r')
  case JNull
  with same_kind[OF num JNull(5)] show ?case by (cases k) (auto simp: json_primitive_def split: if_splits)
next
  case (JBool b)
  with same_kind[OF num JBool(5)] show ?case by (cases k) (auto simp: json_primitive_def split: if_splits)
next
  case (JNum q)
  then obtain p where k: "k = JNum p" using same_kind[OF num JNum(5)] by (cases k) (auto split: if_splits)
  with JNum(5) numeral_unique[OF num JNum(3,4), of q p] show ?case by (simp add: json_primitive_def)
next
  case (JStr s)
  then obtain t where k: "k = JStr t" using same_kind[OF num JStr(5)] by (cases k) (auto split: if_splits)
  with JStr(5) show ?case by (simp add: json_primitive_def json_quote_unique)
next
  case (JArr xs)
  then obtain ys where k: "k = JArr ys" using same_kind[OF num JArr(6)] by (cases k) (auto split: if_splits)
  have wf: "x \<in> set xs \<Longrightarrow> wf_json x" "y \<in> set ys \<Longrightarrow> wf_json y" for x y using JArr.prems(1,2) k by (auto simp: list_all_iff)
  have "list_all2 same_json xs ys \<and> r = r'"
  proof (rule join_unique[where f = "canonical_json num" and g = "canonical_json num"])
    show "join_str '','' (map (canonical_json num) xs) @ CHR '']'' # r = join_str '','' (map (canonical_json num) ys) @ CHR '']'' # r'"
      using JArr.prems(5) k by simp
    show "same_json x y \<and> s = s'" if "x \<in> set xs" "y \<in> set ys" "follow s" "follow s'" "canonical_json num x @ s = canonical_json num y @ s'" for x y s s'
      using JArr.IH[OF that(1) wf(1)[OF that(1)] wf(2)[OF that(2)] that(3,4,5)] .
  qed (simp_all add: canonical_start[OF num])
  then show ?case using k by simp
next
  case (JObj ps)
  then obtain qs where k: "k = JObj qs" using same_kind[OF num JObj(6)] by (cases k) (auto split: if_splits)
  let ?R = "\<lambda>a b. a = b \<and> same_json (the (map_of ps a)) (the (map_of qs b))"
  have dist: "distinct (map fst ps)" "distinct (map fst qs)" using JObj.prems(1,2) k by auto
  have get: "the (map_of ps a) \<in> snd ` set ps" if "a \<in> fst ` set ps" for ps a
    using that by (metis imageI map_of_SomeD map_of_eq_None_iff option.exhaust_sel snd_conv)
  have wf: "wf_json v" if "v \<in> snd ` set ps \<or> v \<in> snd ` set qs" for v
    using that JObj.prems(1,2) k by (auto simp: list_all_iff)
  have "list_all2 ?R (js_sort (\<le>) (map fst ps)) (js_sort (\<le>) (map fst qs)) \<and> r = r'"
  proof (rule join_unique[where f = "member_text num ps" and g = "member_text num qs" and c = "CHR ''}''"])
    show "join_str '','' (map (member_text num ps) (js_sort (\<le>) (map fst ps))) @ CHR ''}'' # r =
        join_str '','' (map (member_text num qs) (js_sort (\<le>) (map fst qs))) @ CHR ''}'' # r'"
      using JObj.prems(5) unfolding k canonical_object by simp
    fix a b s s' assume ab: "a \<in> set (js_sort (\<le>) (map fst ps))" "b \<in> set (js_sort (\<le>) (map fst qs))" "follow s" "follow s'"
      and eq: "member_text num ps a @ s = member_text num qs b @ s'"
    from eq have same: "a = b" "canonical_json num (the (map_of ps a)) @ s = canonical_json num (the (map_of qs b)) @ s'"
      by (auto simp: member_text_def json_quote_unique)
    obtain p where p: "p \<in> set ps" "the (map_of ps a) = snd p" using get[of a ps] ab(1) by auto
    have "same_json (the (map_of ps a)) (the (map_of qs b)) \<and> s = s'"
    proof -
      have q: "the (map_of qs a) \<in> snd ` set qs" using get[of a qs] ab(2) same(1) by simp
      have "same_json (snd p) (the (map_of qs a)) \<and> s = s'"
      proof (rule JObj.IH[OF p(1)])
        show "snd p \<in> Basic_BNFs.snds p" by (simp add: snds.simps) 
        show "wf_json (snd p)" "wf_json (the (map_of qs a))" using wf p(1) q by auto
        show "canonical_json num (snd p) @ s = canonical_json num (the (map_of qs a)) @ s'" using same p(2) by simp
      qed (rule ab)+
      then show ?thesis using p(2) same(1) by simp
    qed
    with same show "?R a b \<and> s = s'" by simp
  qed (simp_all add: member_text_def starts_value_def json_quote_def)
  then have keys: "js_sort (\<le>) (map fst ps) = js_sort (\<le>) (map fst qs)" and r: "r = r'"
    and vals: "list_all2 ?R (js_sort (\<le>) (map fst ps)) (js_sort (\<le>) (map fst qs))"
    by (auto simp: list_all2_conv_all_nth list_eq_iff_nth_eq)
  have "set (map fst ps) = set (map fst qs)" using keys by (metis set_js_sort)
  moreover have "\<exists>u. map_of qs a = Some u \<and> same_json v u" if "(a, v) \<in> set ps" for a v
  proof -
    have a: "a \<in> set (js_sort (\<le>) (map fst ps))" using that by force
    then have "same_json (the (map_of ps a)) (the (map_of qs a))" using vals unfolding keys list_all2_same by blast
    moreover have "map_of ps a = Some v" using that dist by simp
    moreover obtain u where "map_of qs a = Some u" using a keys by (metis list.set_map map_of_eq_None_iff option.exhaust set_js_sort)
    ultimately show ?thesis by simp
  qed
  ultimately show ?case unfolding k same_object using r by blast
qed

lemma same_canonical:
  assumes "wf_json j" "wf_json k" "same_json j k"
  shows "canonical_json num j = canonical_json num k"
  using assms
proof (induction j arbitrary: k)
  case (JArr xs)
  then obtain ys where k: "k = JArr ys" and all: "list_all2 same_json xs ys" by (cases k) auto
  have "map (canonical_json num) xs = map (canonical_json num) ys"
  proof (rule nth_equalityI)
    fix i assume "i < length (map (canonical_json num) xs)"
    then have i: "i < length xs" "i < length ys" using list_all2_lengthD[OF all] by simp_all
    then have "canonical_json num (xs ! i) = canonical_json num (ys ! i)"
      using JArr.IH[of "xs ! i" "ys ! i"] JArr.prems(1,2) k list_all2_nthD[OF all i(1)] by (auto simp: list_all_iff)
    with i show "map (canonical_json num) xs ! i = map (canonical_json num) ys ! i" by simp
  qed (simp add: list_all2_lengthD[OF all])
  then show ?case using k by simp
next
  case (JObj ps)
  from JObj.prems(3) obtain qs where k: "k = JObj qs" by (cases k) auto
  then have keys: "set (map fst ps) = set (map fst qs)"
    and vals: "\<And>a v. (a, v) \<in> set ps \<Longrightarrow> \<exists>u. map_of qs a = Some u \<and> same_json v u"
    using JObj.prems(3) unfolding k same_object by blast+
  have dist: "distinct (map fst ps)" "distinct (map fst qs)" using JObj.prems(1,2) k by auto
  then have "mset (map fst ps) = mset (map fst qs)" using keys by (simp only: set_eq_iff_mset_eq_distinct)
  then have sorted: "js_sort (\<le>) (map fst ps) = js_sort (\<le>) (map fst qs)" by (rule num_order.js_sort_perm)
  have "member_text num ps a = member_text num qs a" if "a \<in> set (js_sort (\<le>) (map fst qs))" for a
  proof -
    have "a \<in> fst ` set ps" using that keys by simp
    then obtain v where v: "(a, v) \<in> set ps" by auto
    then obtain u where u: "map_of qs a = Some u" "same_json v u" using vals by blast
    have "canonical_json num v = canonical_json num u"
    proof (rule JObj.IH[OF v, of v])
      show "wf_json v" "wf_json u" using JObj.prems(1,2) k v map_of_SomeD[OF u(1)] by (auto simp: list_all_iff)
    qed (simp_all add: snds.simps u(2))
    moreover have "map_of ps a = Some v" using v dist by simp
    ultimately show ?thesis using u(1) by (simp add: member_text_def)
  qed
  then show ?case unfolding k canonical_object sorted by (metis (no_types, lifting) map_cong)
qed auto

text \<open>C33: the canonical text identifies a JSON value: two values have the same text exactly when they are
  equal up to the order of the properties of their objects, whatever the nesting.\<close>

theorem canonical_text_identifies:
  assumes "numeral_text num" "wf_json j" "wf_json k"
  shows "canonical_json num j = canonical_json num k \<longleftrightarrow> same_json j k"
  using canonical_unique[OF assms, of "[]" "[]"] same_canonical[OF assms(2,3), of num] by (auto simp: follow_def)

text \<open>A way to print rationals that has the documented properties.\<close>

definition unary_text :: "rat \<Rightarrow> string" where
  "unary_text q = (case quotient_of q of (a, b) \<Rightarrow>
     (if a < 0 then ''-'' else []) @ replicate (Suc (nat \<bar>a\<bar>)) (CHR ''1'') @ ''.'' @ replicate (nat b) (CHR ''1''))"

lemma replicate_dot: "replicate m (CHR ''1'') @ CHR ''.'' # r = replicate n (CHR ''1'') @ CHR ''.'' # r' \<longleftrightarrow> m = n \<and> r = r'"
proof
  assume eq: "replicate m (CHR ''1'') @ CHR ''.'' # r = replicate n (CHR ''1'') @ CHR ''.'' # r'"
  have len: "length (takeWhile (\<lambda>c. c = CHR ''1'') (replicate k (CHR ''1'') @ CHR ''.'' # s)) = k" for k s
    by (induction k) auto
  have "m = n" using len[of m r] len[of n r'] eq by simp
  with eq show "m = n \<and> r = r'" by simp
qed simp

lemma numeral_unary_text: "numeral_text unary_text"
proof -
  have "p = q" if "unary_text p = unary_text q" for p q
  proof -
    obtain a b c d where ab: "quotient_of p = (a, b)" "quotient_of q = (c, d)" by (metis surj_pair)
    have pos: "b > 0" "d > 0" using ab quotient_of_denom_pos by blast+
    have "a < 0 \<longleftrightarrow> c < 0" using that ab by (auto simp: unary_text_def split: if_splits)
    then have "nat \<bar>a\<bar> = nat \<bar>c\<bar> \<and> replicate (nat b) (CHR ''1'') = replicate (nat d) (CHR ''1'')"
      using that ab replicate_dot[of "nat \<bar>a\<bar>"] by (auto simp: unary_text_def split: if_splits)
    with pos \<open>a < 0 \<longleftrightarrow> c < 0\<close> have "a = c" "b = d" by auto
    with ab show ?thesis by (metis quotient_of_div)
  qed
  moreover have "set (unary_text q) \<subseteq> {c. is_digit c \<or> c \<in> set ''-+.e''} \<and> unary_text q \<noteq> [] \<and>
      (is_digit (hd (unary_text q)) \<or> hd (unary_text q) = CHR ''-'')" for q
  proof -
    have one: "is_digit (CHR ''1'')" by code_simp
    have "set (unary_text q) \<subseteq> {CHR ''-'', CHR ''1'', CHR ''.''}"
      by (cases "quotient_of q") (auto simp: unary_text_def set_replicate_conv_if)
    moreover have "unary_text q \<noteq> [] \<and> hd (unary_text q) \<in> {CHR ''-'', CHR ''1''}"
      by (cases "quotient_of q") (simp add: unary_text_def)
    ultimately show ?thesis using one by auto
  qed
  ultimately show ?thesis by (auto simp: numeral_text_def inj_def)
qed

theorem canonical_text_identifies_witness:
  "canonical_json unary_text (JObj [(''b'', JNum 1), (''a'', JArr [JNull, JStr ''x''])]) =
     canonical_json unary_text (JObj [(''a'', JArr [JNull, JStr ''x'']), (''b'', JNum 1)]) \<and>
   canonical_json unary_text (JArr [JStr ''1'']) \<noteq> canonical_json unary_text (JArr [JNum 1])"
  using canonical_text_identifies[OF numeral_unary_text, of "JObj [(''b'', JNum 1), (''a'', JArr [JNull, JStr ''x''])]"
      "JObj [(''a'', JArr [JNull, JStr ''x'']), (''b'', JNum 1)]"]
    canonical_text_identifies[OF numeral_unary_text, of "JArr [JStr ''1'']" "JArr [JNum 1]"] by auto

end
