(* ===== verification/Prompt_Attachments.thy ===== *)
theory Prompt_Attachments
  imports Json
begin

text \<open>
  The validation of what may be attached to a prompt (\<open>validatePromptImageInputs\<close> and the functions it
  calls, \<open>packages/protocol/src/index.ts\<close>), shared by browser, control plane and runner: inline images,
  references to stored images, and references into the session's workspace.

  The attachments are parsed JSON. How a number prints (\<open>String\<close>) and \<open>Number\<close> of a value that is not a
  number are arguments: the code coerces the identifiers of a reference without checking their type.
  Error texts are constructors with the attachment's index.
\<close>

section \<open>Model\<close>

definition MAX_PROMPT_IMAGES :: int where "MAX_PROMPT_IMAGES = 6"
definition MAX_PROMPT_IMAGE_BYTES :: int where "MAX_PROMPT_IMAGE_BYTES = 8 * 1024 * 1024"
definition MAX_PROMPT_IMAGE_TOTAL_BASE64_BYTES :: int where "MAX_PROMPT_IMAGE_TOTAL_BASE64_BYTES = 28 * 1024 * 1024"
definition MAX_WORKSPACE_REFERENCES :: int where "MAX_WORKSPACE_REFERENCES = 20"

definition WORKSPACE_REFERENCE_MIME_TYPE :: string where
  "WORKSPACE_REFERENCE_MIME_TYPE = ''application/vnd.wollipog.workspace-reference+json''"

definition PROMPT_IMAGE_MIME_TYPES :: "string list" where
  "PROMPT_IMAGE_MIME_TYPES = [''image/png'', ''image/jpeg'', ''image/jpg'', ''image/gif'', ''image/webp'']"

datatype attachment_error =
    NotAnArray
  | ImageMalformed nat
  | UnsupportedReferenceFields nat
  | UnsupportedMimeType nat
  | InvalidArtifactId nat
  | InvalidByteLength nat
  | InvalidDigest nat
  | InvalidBase64 nat
  | ImageTooLarge nat
  | TooManyImages
  | TooManyReferences
  | PayloadTooLarge
  | WorkspaceUnsupportedFields nat
  | WorkspaceInvalid nat

record prompt_image =
  pi_mime :: string
  pi_data :: string

text \<open>\<open>/^[a-f0-9]{64}$/\<close>.\<close>

definition is_hex64 :: "string \<Rightarrow> bool" where
  "is_hex64 s \<longleftrightarrow> length s = 64 \<and> list_all (\<lambda>c. is_digit c \<or> (CHR ''a'' \<le> c \<and> c \<le> CHR ''f'')) s"

definition is_workspace_reference :: "json \<Rightarrow> bool" where
  "is_workspace_reference v \<longleftrightarrow> jprop (Some v) ''mimeType'' = Some (JStr WORKSPACE_REFERENCE_MIME_TYPE)"

definition workspace_path_ok :: "json option \<Rightarrow> bool" where
  "workspace_path_ok v =
     (case as_string v of
        None \<Rightarrow> False
      | Some path \<Rightarrow> path \<noteq> [] \<and> length path \<le> 4096 \<and> \<not> starts_with path ''/'' \<and> CHR 0x5C \<notin> set path \<and>
          list_all (\<lambda>part. part \<noteq> [] \<and> part \<noteq> ''.'' \<and> part \<noteq> ''..'') (split_on (CHR ''/'') path))"

definition hex_field :: "json option \<Rightarrow> bool" where
  "hex_field v = (case as_string v of None \<Rightarrow> False | Some s \<Rightarrow> is_hex64 s)"

definition line_range_ok :: "jobject \<Rightarrow> bool" where
  "line_range_ok r =
     (case (as_safe_integer (jget r ''startLine''), as_safe_integer (jget r ''endLine'')) of
        (Some a, Some b) \<Rightarrow> a \<ge> 1 \<and> b \<ge> a \<and> b \<le> 1000000
      | _ \<Rightarrow> False)"

definition workspace_fields_ok :: "jobject \<Rightarrow> bool" where
  "workspace_fields_ok r =
     (let kind = jget r ''kind'';
          line_kind = (kind = Some (JStr ''lines'') \<or> kind = Some (JStr ''diff''));
          diff_kind = (kind = Some (JStr ''diff''))
      in jget r ''referenceVersion'' = Some (JNum 1) \<and>
         (case as_string (jget r ''artifactId'') of None \<Rightarrow> False | Some a \<Rightarrow> starts_with a ''workspace:'' \<and> length a \<le> 128) \<and>
         jget r ''sizeBytes'' = Some (JNum 0) \<and> workspace_path_ok (jget r ''path'') \<and>
         kind \<in> {Some (JStr ''file''), Some (JStr ''directory''), Some (JStr ''lines''), Some (JStr ''diff'')} \<and>
         hex_field (jget r ''rootFingerprint'') \<and> hex_field (jget r ''targetFingerprint'') \<and>
         jget r ''sha256'' = jget r ''targetFingerprint'' \<and>
         (if line_kind then line_range_ok r else jget r ''startLine'' = None \<and> jget r ''endLine'' = None) \<and>
         (if diff_kind
          then jget r ''side'' \<in> {Some (JStr ''left''), Some (JStr ''right'')} \<and> hex_field (jget r ''diffHash'') \<and>
            jget r ''diffScope'' \<in> {Some (JStr ''uncommitted''), Some (JStr ''all_branch''), Some (JStr ''last_turn'')}
          else jget r ''side'' = None \<and> jget r ''diffHash'' = None \<and> jget r ''diffScope'' = None))"

definition validate_workspace_reference :: "nat \<Rightarrow> jobject \<Rightarrow> attachment_error option" where
  "validate_workspace_reference i r =
     (if extra_keys r [''artifactId'', ''mimeType'', ''sizeBytes'', ''sha256'', ''referenceVersion'', ''kind'', ''path'',
           ''rootFingerprint'', ''targetFingerprint'', ''startLine'', ''endLine'', ''side'', ''diffHash'', ''diffScope'']
      then Some (WorkspaceUnsupportedFields i)
      else if workspace_fields_ok r then None else Some (WorkspaceInvalid i))"

text \<open>Inline images.\<close>

definition base64_char :: "char \<Rightarrow> bool" where
  "base64_char c \<longleftrightarrow> is_alnum c \<or> c \<in> set ''+/=''"

definition valid_base64 :: "string \<Rightarrow> bool" where
  "valid_base64 s \<longleftrightarrow> s \<noteq> [] \<and> length s mod 4 = 0 \<and> list_all base64_char s \<and>
     dropWhile (\<lambda>c. c \<noteq> CHR ''='') s \<in> {[], ''='', ''==''}"

definition padding_bytes :: "string \<Rightarrow> int" where
  "padding_bytes s = (if starts_with (rev s) ''=='' then 2 else if starts_with (rev s) ''='' then 1 else 0)"

definition decoded_bytes :: "string \<Rightarrow> int" where
  "decoded_bytes s = int (length s) div 4 * 3 - padding_bytes s"

fun check_images :: "string list \<Rightarrow> nat \<Rightarrow> int \<Rightarrow> prompt_image list \<Rightarrow> attachment_error + int" where
  "check_images allowed i total_bytes [] = Inr total_bytes"
| "check_images allowed i total_bytes (im # ims) =
     (if pi_mime im \<notin> set allowed then Inl (UnsupportedMimeType i)
      else if \<not> valid_base64 (pi_data im) then Inl (InvalidBase64 i)
      else if decoded_bytes (pi_data im) > MAX_PROMPT_IMAGE_BYTES then Inl (ImageTooLarge i)
      else check_images allowed (Suc i) (total_bytes + int (length (pi_data im))) ims)"

definition validate_prompt_images :: "string list \<Rightarrow> prompt_image list \<Rightarrow> attachment_error option" where
  "validate_prompt_images allowed ims =
     (if int (length ims) > MAX_PROMPT_IMAGES then Some TooManyImages
      else (case check_images allowed 1 0 ims of
              Inl e \<Rightarrow> Some e
            | Inr total_bytes \<Rightarrow> if total_bytes > MAX_PROMPT_IMAGE_TOTAL_BASE64_BYTES then Some PayloadTooLarge else None))"

text \<open>
  References to stored images. The code trusts their types: the identifier and the digest are tested
  through \<open>.length\<close> and a regular expression, which read any value as a string.
\<close>

definition length_over :: "(json \<Rightarrow> rat option) \<Rightarrow> json \<Rightarrow> rat \<Rightarrow> bool" where
  "length_over to_num v n =
     (case v of
        JStr s \<Rightarrow> of_nat (length s) > n
      | JArr xs \<Rightarrow> of_nat (length xs) > n
      | JObj ps \<Rightarrow> (case map_of ps ''length'' of None \<Rightarrow> False | Some l \<Rightarrow> (case to_num l of None \<Rightarrow> False | Some q \<Rightarrow> q > n))
      | _ \<Rightarrow> False)"

definition has_control :: "string \<Rightarrow> bool" where
  "has_control s \<longleftrightarrow> list_ex (\<lambda>c. (of_char c :: nat) < 32 \<or> (of_char c :: nat) = 127) s"

definition valid_size :: "json option \<Rightarrow> int option" where
  "valid_size v = (case as_safe_integer v of None \<Rightarrow> None | Some n \<Rightarrow> if n > 0 \<and> n \<le> MAX_PROMPT_IMAGE_BYTES then Some n else None)"

record attachment_sums =
  as_inline :: "prompt_image list"
  as_images :: int
  as_references :: int
  as_referenced_bytes :: int

definition no_attachments :: attachment_sums where
  "no_attachments = \<lparr>as_inline = [], as_images = 0, as_references = 0, as_referenced_bytes = 0\<rparr>"

definition check_reference ::
    "(rat \<Rightarrow> string) \<Rightarrow> (json \<Rightarrow> rat option) \<Rightarrow> string list \<Rightarrow> nat \<Rightarrow> attachment_sums \<Rightarrow> jobject \<Rightarrow> attachment_error + attachment_sums" where
  "check_reference num to_num allowed i a r =
     (if extra_keys r [''artifactId'', ''mimeType'', ''sizeBytes'', ''sha256''] then Inl (UnsupportedReferenceFields i)
      else if \<not> (case as_string (jget r ''mimeType'') of None \<Rightarrow> False | Some m \<Rightarrow> m \<in> set allowed) then Inl (UnsupportedMimeType i)
      else if falsy (jget r ''artifactId'') \<or> length_over to_num (the (jget r ''artifactId'')) 256 \<or>
          has_control (js_string_opt num (jget r ''artifactId'')) then Inl (InvalidArtifactId i)
      else (case valid_size (jget r ''sizeBytes'') of
              None \<Rightarrow> Inl (InvalidByteLength i)
            | Some n \<Rightarrow>
                if \<not> is_hex64 (js_string_opt num (jget r ''sha256'')) then Inl (InvalidDigest i)
                else Inr (a\<lparr>as_referenced_bytes := as_referenced_bytes a + (n + 2) div 3 * 4\<rparr>)))"

definition check_attachment ::
    "(rat \<Rightarrow> string) \<Rightarrow> (json \<Rightarrow> rat option) \<Rightarrow> string list \<Rightarrow> nat \<Rightarrow> attachment_sums \<Rightarrow> json \<Rightarrow> attachment_error + attachment_sums" where
  "check_attachment num to_num allowed i a v =
     (case as_object (Some v) of
        None \<Rightarrow> Inl (ImageMalformed i)
      | Some r \<Rightarrow>
          if is_workspace_reference v
          then (case validate_workspace_reference i r of
                  Some e \<Rightarrow> Inl e
                | None \<Rightarrow> Inr (a\<lparr>as_references := as_references a + 1\<rparr>))
          else (let a = a\<lparr>as_images := as_images a + 1\<rparr>
                in if ''artifactId'' \<notin> set (jkeys r)
                   then (case (as_string (jget r ''mimeType''), as_string (jget r ''data'')) of
                           (Some m, Some d) \<Rightarrow>
                             if extra_keys r [''mimeType'', ''data''] then Inl (ImageMalformed i)
                             else Inr (a\<lparr>as_inline := as_inline a @ [\<lparr>pi_mime = m, pi_data = d\<rparr>]\<rparr>)
                         | _ \<Rightarrow> Inl (ImageMalformed i))
                   else check_reference num to_num allowed i a r))"

fun check_attachments ::
    "(rat \<Rightarrow> string) \<Rightarrow> (json \<Rightarrow> rat option) \<Rightarrow> string list \<Rightarrow> nat \<Rightarrow> attachment_sums \<Rightarrow> json list \<Rightarrow> attachment_error + attachment_sums" where
  "check_attachments num to_num allowed i a [] = Inr a"
| "check_attachments num to_num allowed i a (v # vs) =
     (case check_attachment num to_num allowed i a v of
        Inl e \<Rightarrow> Inl e
      | Inr a' \<Rightarrow> check_attachments num to_num allowed (Suc i) a' vs)"

definition validate_prompt_image_inputs ::
    "(rat \<Rightarrow> string) \<Rightarrow> (json \<Rightarrow> rat option) \<Rightarrow> string list \<Rightarrow> json \<Rightarrow> attachment_error option" where
  "validate_prompt_image_inputs num to_num allowed images =
     (case as_array (Some images) of
        None \<Rightarrow> Some NotAnArray
      | Some vs \<Rightarrow>
          (case check_attachments num to_num allowed 1 no_attachments vs of
             Inl e \<Rightarrow> Some e
           | Inr a \<Rightarrow>
               if as_images a > MAX_PROMPT_IMAGES then Some TooManyImages
               else if as_references a > MAX_WORKSPACE_REFERENCES then Some TooManyReferences
               else (case validate_prompt_images allowed (as_inline a) of
                       Some e \<Rightarrow> Some e
                     | None \<Rightarrow>
                         if as_referenced_bytes a + sum_list (map (\<lambda>im. int (length (pi_data im))) (as_inline a))
                              > MAX_PROMPT_IMAGE_TOTAL_BASE64_BYTES
                         then Some PayloadTooLarge else None)))"

section \<open>What is accepted\<close>

text \<open>A base64 decoder: four characters are three bytes, a last group of two or three is one or two.\<close>

definition sextet :: "char \<Rightarrow> nat" where
  "sextet c = (let n = of_char c in
     if is_upper c then n - 65 else if is_lower c then n - 71 else if is_digit c then n + 4 else if c = CHR ''+'' then 62 else 63)"

fun decode_sextets :: "nat list \<Rightarrow> nat list" where
  "decode_sextets (a # b # c # d # r) =
     (a * 4 + b div 16) # (b mod 16 * 16 + c div 4) # (c mod 4 * 64 + d) # decode_sextets r"
| "decode_sextets [a, b, c] = [a * 4 + b div 16, b mod 16 * 16 + c div 4]"
| "decode_sextets [a, b] = [a * 4 + b div 16]"
| "decode_sextets _ = []"

definition decode64 :: "string \<Rightarrow> nat list" where
  "decode64 s = decode_sextets (map sextet (takeWhile (\<lambda>c. c \<noteq> CHR ''='') s))"

lemma length_decode_sextets: "length (decode_sextets xs) = length xs * 3 div 4"
  by (induction xs rule: decode_sextets.induct) auto

lemma decoded_bytes_exact:
  assumes "valid_base64 s"
  shows "decoded_bytes s = int (length (decode64 s))"
proof -
  let ?t = "takeWhile (\<lambda>c. c \<noteq> CHR ''='') s" and ?d = "dropWhile (\<lambda>c. c \<noteq> CHR ''='') s"
  have s: "s = ?t @ ?d" by simp
  have eq: "CHR ''='' \<notin> set ?t" by (auto dest: set_takeWhileD)
  have len: "length s mod 4 = 0" "s \<noteq> []" and d: "?d \<in> {[], ''='', ''==''}" using assms by (auto simp: valid_base64_def)
  obtain m where m: "length s = 4 * m" using len(1) by auto
  have last: "starts_with (rev ?t) (CHR ''='' # r) = False" for r
    using eq by (auto simp: starts_with_prefix dest!: set_mono_prefix)
  have dec: "length (decode64 s) = length ?t * 3 div 4" by (simp add: decode64_def length_decode_sextets)
  consider "?d = []" | "?d = ''=''" | "?d = ''==''" using d by blast
  then show ?thesis
  proof cases
    case 1
    with s have t: "?t = s" by simp
    have "padding_bytes s = 0" using last unfolding t by (simp add: padding_bytes_def)
    with dec m show ?thesis unfolding t decoded_bytes_def by simp
  next
    case 2
    then have r: "rev s = CHR ''='' # rev ?t" using arg_cong[OF s, of rev] by simp
    have t: "length s = Suc (length ?t)" using arg_cong[OF r, of length] by simp
    moreover obtain k where "m = Suc k" using t m by (cases m) auto
    ultimately have "length ?t = 4 * k + 3" "length s = 4 * Suc k" using m by simp_all
    moreover have "padding_bytes s = 1" unfolding padding_bytes_def r using last by simp
    ultimately show ?thesis unfolding decoded_bytes_def dec by simp
  next
    case 3
    then have r: "rev s = CHR ''='' # CHR ''='' # rev ?t" using arg_cong[OF s, of rev] by simp
    have t: "length s = Suc (Suc (length ?t))" using arg_cong[OF r, of length] by simp
    moreover obtain k where "m = Suc k" using t m by (cases m) auto
    ultimately have "length ?t = 4 * k + 2" "length s = 4 * Suc k" using m by simp_all
    moreover have "padding_bytes s = 2" unfolding padding_bytes_def r by simp
    ultimately show ?thesis unfolding decoded_bytes_def dec by simp
  qed
qed

text \<open>What one attachment has to satisfy, and the size it has in a request.\<close>

definition inline_image :: "jobject \<Rightarrow> prompt_image option" where
  "inline_image r =
     (case (as_string (jget r ''mimeType''), as_string (jget r ''data'')) of
        (Some m, Some d) \<Rightarrow> if extra_keys r [''mimeType'', ''data''] then None else Some \<lparr>pi_mime = m, pi_data = d\<rparr>
      | _ \<Rightarrow> None)"

definition admissible_image :: "string list \<Rightarrow> prompt_image \<Rightarrow> bool" where
  "admissible_image allowed im \<longleftrightarrow> pi_mime im \<in> set allowed \<and> valid_base64 (pi_data im) \<and>
     int (length (decode64 (pi_data im))) \<le> MAX_PROMPT_IMAGE_BYTES"

definition admissible_reference :: "(rat \<Rightarrow> string) \<Rightarrow> (json \<Rightarrow> rat option) \<Rightarrow> string list \<Rightarrow> jobject \<Rightarrow> bool" where
  "admissible_reference num to_num allowed r \<longleftrightarrow>
     \<not> extra_keys r [''artifactId'', ''mimeType'', ''sizeBytes'', ''sha256''] \<and>
     (\<exists>m\<in>set allowed. jget r ''mimeType'' = Some (JStr m)) \<and>
     \<not> falsy (jget r ''artifactId'') \<and> \<not> length_over to_num (the (jget r ''artifactId'')) 256 \<and>
     \<not> has_control (js_string_opt num (jget r ''artifactId'')) \<and>
     valid_size (jget r ''sizeBytes'') \<noteq> None \<and> is_hex64 (js_string_opt num (jget r ''sha256''))"

definition admissible :: "(rat \<Rightarrow> string) \<Rightarrow> (json \<Rightarrow> rat option) \<Rightarrow> string list \<Rightarrow> json \<Rightarrow> bool" where
  "admissible num to_num allowed v =
     (case v of
        JObj r \<Rightarrow>
          if is_workspace_reference v then validate_workspace_reference 0 r = None
          else if ''artifactId'' \<in> set (jkeys r) then admissible_reference num to_num allowed r
          else (case inline_image r of None \<Rightarrow> False | Some im \<Rightarrow> admissible_image allowed im)
      | _ \<Rightarrow> False)"

definition wire_bytes :: "json \<Rightarrow> int" where
  "wire_bytes v =
     (case v of
        JObj r \<Rightarrow>
          if is_workspace_reference v then 0
          else if ''artifactId'' \<in> set (jkeys r) then (the (valid_size (jget r ''sizeBytes'')) + 2) div 3 * 4
          else int (length (pi_data (the (inline_image r))))
      | _ \<Rightarrow> 0)"

section \<open>The validator accepts exactly that\<close>

definition inline_of :: "json \<Rightarrow> prompt_image list" where
  "inline_of v =
     (case v of
        JObj r \<Rightarrow> if is_workspace_reference v \<or> ''artifactId'' \<in> set (jkeys r) then [] else [the (inline_image r)]
      | _ \<Rightarrow> [])"

text \<open>What the first pass asks of an attachment: the inline images are only looked at afterwards.\<close>

definition shape_ok :: "(rat \<Rightarrow> string) \<Rightarrow> (json \<Rightarrow> rat option) \<Rightarrow> string list \<Rightarrow> json \<Rightarrow> bool" where
  "shape_ok num to_num allowed v =
     (case v of
        JObj r \<Rightarrow>
          if is_workspace_reference v then validate_workspace_reference 0 r = None
          else if ''artifactId'' \<in> set (jkeys r) then admissible_reference num to_num allowed r
          else inline_image r \<noteq> None
      | _ \<Rightarrow> False)"

definition add_attachment :: "attachment_sums \<Rightarrow> json \<Rightarrow> attachment_sums" where
  "add_attachment a v =
     (if is_workspace_reference v then a\<lparr>as_references := as_references a + 1\<rparr>
      else a\<lparr>as_images := as_images a + 1, as_inline := as_inline a @ inline_of v,
        as_referenced_bytes := as_referenced_bytes a + (if inline_of v = [] then wire_bytes v else 0)\<rparr>)"

lemma validate_workspace_index: "validate_workspace_reference i r = None \<longleftrightarrow> validate_workspace_reference 0 r = None"
  by (simp add: validate_workspace_reference_def)

lemma check_reference_Inr:
  "check_reference num to_num allowed i a r = Inr a' \<longleftrightarrow> admissible_reference num to_num allowed r \<and>
     a' = a\<lparr>as_referenced_bytes := as_referenced_bytes a + (the (valid_size (jget r ''sizeBytes'')) + 2) div 3 * 4\<rparr>"
proof -
  have m: "(case as_string (jget r ''mimeType'') of None \<Rightarrow> False | Some m \<Rightarrow> m \<in> set allowed) \<longleftrightarrow> (\<exists>m\<in>set allowed. jget r ''mimeType'' = Some (JStr m))"
    by (cases "jget r ''mimeType''" rule: as_string.cases) auto
  show ?thesis unfolding check_reference_def admissible_reference_def m by (auto split: option.splits)
qed

lemma check_attachment_Inr:
  "check_attachment num to_num allowed i a v = Inr a' \<longleftrightarrow> shape_ok num to_num allowed v \<and> a' = add_attachment a v"
proof (cases v)
  case (JObj r)
  show ?thesis
  proof (cases "is_workspace_reference v")
    case True
    then show ?thesis using JObj validate_workspace_index[of i r]
      by (auto simp: check_attachment_def shape_ok_def add_attachment_def split: option.splits)
  next
    case False
    then show ?thesis using JObj
      by (auto simp: check_attachment_def shape_ok_def add_attachment_def check_reference_Inr inline_of_def wire_bytes_def
          inline_image_def Let_def split: option.splits)
  qed
qed (simp_all add: check_attachment_def shape_ok_def)

lemma check_attachments_Inr:
  "check_attachments num to_num allowed i a vs = Inr a' \<longleftrightarrow> list_all (shape_ok num to_num allowed) vs \<and> a' = foldl add_attachment a vs"
proof (induction vs arbitrary: i a)
  case Nil
  then show ?case by auto
next
  case (Cons v vs)
  show ?case
  proof (cases "check_attachment num to_num allowed i a v")
    case (Inl e)
    then have "\<not> shape_ok num to_num allowed v" using check_attachment_Inr[of num to_num allowed i a v] by force
    with Inl show ?thesis by simp
  next
    case (Inr b)
    with check_attachment_Inr[of num to_num allowed i a v b] Cons show ?thesis by simp
  qed
qed

lemma add_attachments:
  "as_images (foldl add_attachment a vs) = as_images a + int (length (filter (\<lambda>v. \<not> is_workspace_reference v) vs))"
  "as_references (foldl add_attachment a vs) = as_references a + int (length (filter is_workspace_reference vs))"
  "as_inline (foldl add_attachment a vs) = as_inline a @ concat (map inline_of (filter (\<lambda>v. \<not> is_workspace_reference v) vs))"
  "as_referenced_bytes (foldl add_attachment a vs) =
     as_referenced_bytes a + sum_list (map (\<lambda>v. if inline_of v = [] then wire_bytes v else 0) (filter (\<lambda>v. \<not> is_workspace_reference v) vs))"
  by (induction vs arbitrary: a) (auto simp: add_attachment_def)

lemma check_images_Inr:
  "check_images allowed i n ims = Inr m \<longleftrightarrow>
     list_all (admissible_image allowed) ims \<and> m = n + sum_list (map (\<lambda>im. int (length (pi_data im))) ims)"
  by (induction ims arbitrary: i n) (auto simp: admissible_image_def decoded_bytes_exact)

lemma inline_of_workspace: "is_workspace_reference v \<Longrightarrow> inline_of v = []"
  by (cases v) (simp_all add: inline_of_def is_workspace_reference_def)

lemma wire_bytes_split:
  "(if inline_of v = [] then wire_bytes v else 0) + sum_list (map (\<lambda>im. int (length (pi_data im))) (inline_of v)) = wire_bytes v"
  by (auto simp: inline_of_def wire_bytes_def split: json.splits)

lemma wire_bytes_nonneg: "shape_ok num to_num allowed v \<Longrightarrow> 0 \<le> wire_bytes v"
proof (cases v)
  case (JObj r)
  assume ok: "shape_ok num to_num allowed v"
  have "valid_size x = Some n \<Longrightarrow> 0 \<le> (n + 2) div 3" for x n
    by (auto simp: valid_size_def pos_imp_zdiv_nonneg_iff split: option.splits if_splits)
  with ok JObj show ?thesis by (auto simp: shape_ok_def wire_bytes_def admissible_reference_def)
qed (simp_all add: wire_bytes_def)

lemma total_wire_bytes:
  "sum_list (map (\<lambda>v. if inline_of v = [] then wire_bytes v else 0) (filter (\<lambda>v. \<not> is_workspace_reference v) vs)) +
   sum_list (map (\<lambda>im. int (length (pi_data im))) (concat (map inline_of (filter (\<lambda>v. \<not> is_workspace_reference v) vs)))) =
   sum_list (map wire_bytes vs)"
proof (induction vs)
  case (Cons v vs)
  have "wire_bytes v = 0" if "is_workspace_reference v"
    using that by (cases v) (simp_all add: wire_bytes_def)
  with Cons wire_bytes_split[of v] show ?case by (simp add: algebra_simps)
qed simp

lemma admissible_shape:
  "admissible num to_num allowed v \<longleftrightarrow> shape_ok num to_num allowed v \<and> list_all (admissible_image allowed) (inline_of v)"
  by (cases v) (auto simp: admissible_def shape_ok_def inline_of_def split: option.splits)

lemma all_admissible:
  "list_all (admissible num to_num allowed) vs \<longleftrightarrow> list_all (shape_ok num to_num allowed) vs \<and>
     list_all (admissible_image allowed) (concat (map inline_of (filter (\<lambda>v. \<not> is_workspace_reference v) vs)))"
proof (induction vs)
  case (Cons v vs)
  then show ?case using inline_of_workspace[of v] by (auto simp: admissible_shape)
qed simp

lemma inline_count:
  "length (concat (map inline_of vs)) \<le> length vs"
proof (induction vs)
  case (Cons v vs)
  have "length (inline_of v) \<le> 1" by (cases v) (simp_all add: inline_of_def)
  with Cons show ?case by simp
qed simp

text \<open>a list of attachments is accepted exactly when each attachment is admissible on its own, an
  inline image by what its base64 text decodes to, at most six are images and twenty are workspace
  references, and together they take at most 28 MiB of a request: neither the order nor the two passes of
  the code matter, and no other check decides.\<close>

theorem attachments_accepted_exactly:
  "validate_prompt_image_inputs num to_num allowed images = None \<longleftrightarrow>
    (\<exists>vs. images = JArr vs \<and> list_all (admissible num to_num allowed) vs \<and>
      int (length (filter (\<lambda>v. \<not> is_workspace_reference v) vs)) \<le> MAX_PROMPT_IMAGES \<and>
      int (length (filter is_workspace_reference vs)) \<le> MAX_WORKSPACE_REFERENCES \<and>
      sum_list (map wire_bytes vs) \<le> MAX_PROMPT_IMAGE_TOTAL_BASE64_BYTES)"
proof (cases "as_array (Some images)")
  case None
  then show ?thesis by (cases images) (simp_all add: validate_prompt_image_inputs_def)
next
  case (Some vs)
  then have images: "images = JArr vs" by (cases images) auto
  let ?rest = "filter (\<lambda>v. \<not> is_workspace_reference v) vs"
  let ?ims = "concat (map inline_of ?rest)" and ?a = "foldl add_attachment no_attachments vs"
  let ?len = "sum_list (map (\<lambda>im. int (length (pi_data im))) ?ims)"
  have a: "as_images ?a = int (length ?rest)" "as_references ?a = int (length (filter is_workspace_reference vs))" "as_inline ?a = ?ims"
    "as_referenced_bytes ?a + ?len = sum_list (map wire_bytes vs)"
    using total_wire_bytes[of vs] by (simp_all add: add_attachments no_attachments_def)
  have images_ok: "validate_prompt_images allowed ?ims = None \<longleftrightarrow> list_all (admissible_image allowed) ?ims"
    if "list_all (shape_ok num to_num allowed) vs" "int (length ?rest) \<le> MAX_PROMPT_IMAGES" "sum_list (map wire_bytes vs) \<le> MAX_PROMPT_IMAGE_TOTAL_BASE64_BYTES"
  proof -
    have "int (length ?ims) \<le> MAX_PROMPT_IMAGES" using inline_count[of ?rest] that(2) by linarith
    moreover have "0 \<le> as_referenced_bytes ?a"
    proof -
      have "0 \<le> sum_list (map (\<lambda>v. if inline_of v = [] then wire_bytes v else 0) ?rest)"
        using that(1) wire_bytes_nonneg by (intro sum_list_nonneg) (auto simp: list_all_iff)
      then show ?thesis by (simp add: add_attachments no_attachments_def)
    qed
    then have "?len \<le> MAX_PROMPT_IMAGE_TOTAL_BASE64_BYTES" using a(4) that(3) by linarith
    moreover have "validate_prompt_images allowed ims = None \<longleftrightarrow> list_all (admissible_image allowed) ims"
      if "int (length ims) \<le> MAX_PROMPT_IMAGES" "sum_list (map (\<lambda>im. int (length (pi_data im))) ims) \<le> MAX_PROMPT_IMAGE_TOTAL_BASE64_BYTES" for ims
    proof (cases "check_images allowed 1 0 ims")
      case (Inl e)
      then have "\<not> list_all (admissible_image allowed) ims" using check_images_Inr[of allowed 1 0 ims] by force
      with Inl show ?thesis by (simp add: validate_prompt_images_def)
    next
      case (Inr b)
      with check_images_Inr[of allowed 1 0 ims b] that show ?thesis by (simp add: validate_prompt_images_def)
    qed
    ultimately show ?thesis by blast
  qed
  show ?thesis
  proof (cases "check_attachments num to_num allowed 1 no_attachments vs")
    case (Inl e)
    then have "\<not> list_all (shape_ok num to_num allowed) vs"
      using check_attachments_Inr[of num to_num allowed 1 no_attachments vs] by force
    with Inl images show ?thesis by (simp add: validate_prompt_image_inputs_def all_admissible)
  next
    case (Inr b)
    then have shape: "list_all (shape_ok num to_num allowed) vs" and b: "b = ?a"
      using check_attachments_Inr[of num to_num allowed 1 no_attachments vs b] by simp_all
    show ?thesis
      using Inr shape images_ok[OF shape] unfolding b images
      by (auto simp: validate_prompt_image_inputs_def all_admissible a split: option.splits)
  qed
qed

text \<open>The digest of a reference is tested as text, so a list that prints as one is accepted.\<close>

lemma reference_digest_may_be_an_array:
  "validate_prompt_image_inputs num to_num [''image/png'']
     (JArr [JObj [(''artifactId'', JStr ''a''), (''mimeType'', JStr ''image/png''), (''sizeBytes'', JNum 1),
       (''sha256'', JArr [JStr (replicate 64 (CHR ''0''))])]]) = None"
proof -
  have "is_hex64 (replicate 64 (CHR ''0''))" by (simp add: is_hex64_def is_digit_def list_all_iff)
  then show ?thesis
    by (simp add: validate_prompt_image_inputs_def check_attachment_def is_workspace_reference_def jkeys_def check_reference_def
        extra_keys_def length_over_def WORKSPACE_REFERENCE_MIME_TYPE_def has_control_def js_string_opt_def valid_size_def
        safe_integer_def MAX_PROMPT_IMAGES_def MAX_WORKSPACE_REFERENCES_def MAX_PROMPT_IMAGE_BYTES_def
        MAX_PROMPT_IMAGE_TOTAL_BASE64_BYTES_def max_safe_integer_def no_attachments_def validate_prompt_images_def Let_def)
qed

end
