(* ===== verification/Durable_Commands.thy ===== *)
theory Durable_Commands
  imports Canonical_Json Prompt_Attachments
begin

text \<open>
  The runner's journal of durable commands (\<open>apps/runner/src/durable-command-store.ts\<close>): starting a
  session, prompting it, answering a recovered question. The control plane retries a command until it is
  acknowledged; the journal makes every retry, by this process or by its successor after a crash, answer
  from what is on disk.

  The state is what several runner processes share, the files of the journal with the leases and locks
  beside them, and the handles each live process holds. A critical section under a command's lock is one
  step; what the file system does in it is an argument: a write succeeds, fails before it is visible, or
  is published and then throws. Files are keyed by the command id itself, their SHA-256 names being
  taken as distinct; digests, \<open>String\<close> and \<open>Number\<close> are arguments. Each operation reads the clock once.
\<close>

section \<open>Records\<close>

datatype command_state = CAccepted | CQueued | CStarted | CCompleted | CFailed | CUncertain

datatype command_code =
    CommandIdConflict
  | CommandExpired
  | InvalidCommand
  | SessionNotFound
  | QueueFull
  | CommandCancelled
  | ProviderAuthenticationRequired
  | WorktreeRecoveryRequired
  | ReceiptStoreFull

datatype command_kind = StartSession | PromptSession | AnswerRecoveredQuestion

record command_record =
  cr_command :: string
  cr_execution :: string
  cr_kind :: command_kind
  cr_session :: string
  cr_hmac :: string
  cr_state :: command_state
  cr_revision :: int
  cr_owner :: string
  cr_created :: int
  cr_updated :: int
  cr_expires :: rat
  cr_error :: "string option"
  cr_code :: "command_code option"
  cr_user_seq :: "int option"
  cr_steering :: bool

record command_receipt =
  rc_command :: string
  rc_session :: string
  rc_state :: command_state
  rc_revision :: int
  rc_duplicate :: bool
  rc_error :: "string option"
  rc_code :: "command_code option"
  rc_user_seq :: "int option"

definition MAX_ERROR :: nat where "MAX_ERROR = 512"
definition COMMAND_LOCK_STALE_MS :: int where "COMMAND_LOCK_STALE_MS = 30000"

definition is_terminal :: "command_state \<Rightarrow> bool" where
  "is_terminal s \<longleftrightarrow> s = CCompleted \<or> s = CFailed \<or> s = CUncertain"

definition transition_allowed :: "command_state \<Rightarrow> command_state \<Rightarrow> bool" where
  "transition_allowed from to =
     (if from = to then True
      else if is_terminal from then False
      else if to = CFailed \<or> to = CUncertain then True
      else if from = CAccepted then to = CQueued \<or> to = CStarted \<or> to = CCompleted
      else if from = CQueued then to = CStarted \<or> to = CCompleted
      else from = CStarted \<and> to = CCompleted)"

definition receipt_of :: "command_record \<Rightarrow> bool \<Rightarrow> command_receipt" where
  "receipt_of r duplicate =
     \<lparr>rc_command = cr_command r, rc_session = cr_session r,
      rc_state = (if cr_state r = CStarted \<and> cr_steering r then CQueued else cr_state r),
      rc_revision = cr_revision r, rc_duplicate = duplicate, rc_error = cr_error r, rc_code = cr_code r,
      rc_user_seq = cr_user_seq r\<rparr>"

text \<open>\<open>COMMAND_ID\<close>.\<close>

definition command_id_ok :: "string \<Rightarrow> bool" where
  "command_id_ok s = ident_like is_alnum (\<lambda>c. is_alnum c \<or> c \<in> set '':._-'') 127 s"

definition valid_record :: "command_record \<Rightarrow> bool" where
  "valid_record r \<longleftrightarrow> command_id_ok (cr_command r) \<and> command_id_ok (cr_execution r) \<and> is_hex64 (cr_hmac r) \<and> cr_revision r > 0"

section \<open>The messages\<close>

record command_env =
  ce_sha :: "string \<Rightarrow> string"
  ce_hmac :: "string \<Rightarrow> string"
  ce_num :: "rat \<Rightarrow> string"
  ce_to_num :: "json \<Rightarrow> rat option"
  ce_max_receipts :: nat
  ce_owner_stale :: int

definition durable_command_payload_digest :: "command_env \<Rightarrow> json \<Rightarrow> string" where
  "durable_command_payload_digest env command = ce_sha env (canonical_json (ce_num env) command)"

definition is_string :: "json option \<Rightarrow> bool" where
  "is_string v \<longleftrightarrow> as_string v \<noteq> None"

definition nonempty_string :: "json option \<Rightarrow> bool" where
  "nonempty_string v \<longleftrightarrow> is_string v \<and> v \<noteq> Some (JStr [])"

definition optional :: "(json option \<Rightarrow> bool) \<Rightarrow> json option \<Rightarrow> bool" where
  "optional ok v \<longleftrightarrow> v = None \<or> ok v"

definition is_object :: "json option \<Rightarrow> bool" where
  "is_object v \<longleftrightarrow> as_object v \<noteq> None"

definition images_ok :: "command_env \<Rightarrow> json option \<Rightarrow> bool" where
  "images_ok env v \<longleftrightarrow> as_array v \<noteq> None \<and>
     validate_prompt_image_inputs (ce_num env) (ce_to_num env) PROMPT_IMAGE_MIME_TYPES (the v) = None"

definition continuation_ok :: "json option \<Rightarrow> json option \<Rightarrow> bool" where
  "continuation_ok session v =
     (case as_object v of
        None \<Rightarrow> False
      | Some c \<Rightarrow>
          \<not> extra_keys c [''campaignSessionId'', ''continuationId'', ''eventFromSeq'', ''eventThroughSeq''] \<and>
          jget c ''campaignSessionId'' = session \<and>
          (case as_string (jget c ''continuationId'') of None \<Rightarrow> False | Some s \<Rightarrow> length s > 0 \<and> length s \<le> 128) \<and>
          (case (as_safe_integer (jget c ''eventFromSeq''), as_safe_integer (jget c ''eventThroughSeq'')) of
             (Some a, Some b) \<Rightarrow> a > 0 \<and> b \<ge> a
           | _ \<Rightarrow> False))"

definition answer_ok :: "json \<Rightarrow> bool" where
  "answer_ok v =
     (case v of
        JStr s \<Rightarrow> length s \<le> 4000
      | JArr xs \<Rightarrow> length xs \<le> 100 \<and> list_all (\<lambda>x. case x of JStr s \<Rightarrow> length s \<le> 4000 | _ \<Rightarrow> False) xs
      | _ \<Rightarrow> False)"

definition is_question_answer_map :: "json option \<Rightarrow> bool" where
  "is_question_answer_map v =
     (case as_object v of
        None \<Rightarrow> False
      | Some ps \<Rightarrow> length ps \<le> 100 \<and> list_all (\<lambda>(k, a). k \<noteq> [] \<and> length k \<le> 4096 \<and> answer_ok a) ps)"

definition prompt_ok :: "command_env \<Rightarrow> jobject \<Rightarrow> bool" where
  "prompt_ok env c \<longleftrightarrow>
     nonempty_string (jget c ''sessionId'') \<and> is_string (jget c ''text'') \<and>
     optional (images_ok env) (jget c ''images'') \<and> optional is_string (jget c ''slashCommand'') \<and>
     optional is_object (jget c ''config'') \<and> jget c ''reviewContinuation'' \<in> {None, Some (JBool True)} \<and>
     optional (continuation_ok (jget c ''sessionId'')) (jget c ''campaignContinuation'')"

definition answer_command_ok :: "jobject \<Rightarrow> bool" where
  "answer_command_ok c \<longleftrightarrow>
     nonempty_string (jget c ''sessionId'') \<and> nonempty_string (jget c ''requestId'') \<and> nonempty_string (jget c ''recoveryId'') \<and>
     optional (\<lambda>v. nonempty_string v \<and> length (the (as_string v)) \<le> 256) (jget c ''resolvedByParentSessionId'') \<and>
     is_question_answer_map (jget c ''answers'')"

definition start_ok :: "command_env \<Rightarrow> jobject \<Rightarrow> bool" where
  "start_ok env c =
     (case as_object (jget c ''spec'') of
        None \<Rightarrow> False
      | Some spec \<Rightarrow>
          nonempty_string (jget spec ''sessionId'') \<and>
          (jget spec ''workspaceId'' = Some JNull \<or> is_string (jget spec ''workspaceId'')) \<and>
          is_string (jget spec ''workspacePath'') \<and> is_string (jget spec ''agentId'') \<and> is_string (jget spec ''command'') \<and>
          (case as_array (jget spec ''args'') of None \<Rightarrow> False | Some xs \<Rightarrow> list_all (\<lambda>x. is_string (Some x)) xs) \<and>
          (case as_object (jget spec ''env'') of None \<Rightarrow> False | Some e \<Rightarrow> list_all (\<lambda>(k, x). is_string (Some x)) e) \<and>
          as_bool (jget spec ''useWorktree'') \<noteq> None \<and>
          optional is_string (jget spec ''title'') \<and> optional is_string (jget spec ''initialPrompt'') \<and>
          optional is_string (jget c ''initialPrompt'') \<and> optional (images_ok env) (jget c ''initialImages'') \<and>
          optional is_object (jget spec ''config'') \<and> optional is_object (jget spec ''context'') \<and>
          optional is_object (jget spec ''acpSessionContext''))"

definition is_durable_session_command_message :: "command_env \<Rightarrow> json \<Rightarrow> bool" where
  "is_durable_session_command_message env v =
     (case as_object (Some v) of
        None \<Rightarrow> False
      | Some m \<Rightarrow>
          jget m ''type'' = Some (JStr ''durable_session_command'') \<and> nonempty_string (jget m ''requestId'') \<and>
          is_string (jget m ''commandId'') \<and> is_string (jget m ''executionId'') \<and> is_string (jget m ''payloadDigest'') \<and>
          (case jget m ''expiresAt'' of Some (JNum q) \<Rightarrow> True | _ \<Rightarrow> False) \<and>
          (case as_object (jget m ''command'') of
             None \<Rightarrow> False
           | Some c \<Rightarrow>
               if jget c ''type'' = Some (JStr ''prompt_session'') then prompt_ok env c
               else if jget c ''type'' = Some (JStr ''answer_recovered_question'') then answer_command_ok c
               else jget c ''type'' = Some (JStr ''start_session'') \<and> start_ok env c))"

text \<open>The fields of an envelope that passed the test above.\<close>

record command_message =
  cm_command_id :: string
  cm_execution :: string
  cm_digest :: string
  cm_expires :: rat
  cm_command :: json

definition string_field :: "json \<Rightarrow> string \<Rightarrow> string" where
  "string_field v k = the (as_string (jprop (Some v) k))"

definition envelope :: "json \<Rightarrow> command_message" where
  "envelope v = \<lparr>cm_command_id = string_field v ''commandId'', cm_execution = string_field v ''executionId'',
     cm_digest = string_field v ''payloadDigest'',
     cm_expires = (case jprop (Some v) ''expiresAt'' of Some (JNum q) \<Rightarrow> q | _ \<Rightarrow> 0),
     cm_command = the (jprop (Some v) ''command'')\<rparr>"

definition command_kind_of :: "json \<Rightarrow> command_kind option" where
  "command_kind_of c =
     (let t = jprop (Some c) ''type''
      in if t = Some (JStr ''start_session'') then Some StartSession
         else if t = Some (JStr ''prompt_session'') then Some PromptSession
         else if t = Some (JStr ''answer_recovered_question'') then Some AnswerRecoveredQuestion else None)"

definition command_session_id :: "json \<Rightarrow> string" where
  "command_session_id c =
     (if jprop (Some c) ''type'' = Some (JStr ''start_session'')
      then string_field (the (jprop (Some c) ''spec'')) ''sessionId'' else string_field c ''sessionId'')"

definition safe_command_session_id :: "json option \<Rightarrow> string" where
  "safe_command_session_id c =
     (let t = jprop c ''type'';
          spec_session = as_string (jprop (jprop c ''spec'') ''sessionId'');
          session = as_string (jprop c ''sessionId'')
      in if t = Some (JStr ''start_session'') \<and> spec_session \<noteq> None then the spec_session
         else if (t = Some (JStr ''prompt_session'') \<or> t = Some (JStr ''answer_recovered_question'')) \<and> session \<noteq> None
         then the session else [])"

definition validate_message :: "command_env \<Rightarrow> int \<Rightarrow> json \<Rightarrow> (command_code \<times> string) option" where
  "validate_message env now v =
     (let m = envelope v in first_error
       [(\<not> is_durable_session_command_message env v, (InvalidCommand, ''durable command envelope is malformed'')),
        (\<not> command_id_ok (cm_command_id m) \<or> \<not> command_id_ok (cm_execution m), (InvalidCommand, ''durable command identity is invalid'')),
        (cm_expires m \<le> of_int now, (CommandExpired, ''durable command has expired'')),
        (\<not> is_hex64 (cm_digest m), (InvalidCommand, ''durable command payload digest is invalid'')),
        (command_kind_of (cm_command m) = None, (InvalidCommand, ''durable command kind is unsupported''))])"

definition failed_receipt :: "json \<Rightarrow> command_code \<Rightarrow> string \<Rightarrow> command_receipt" where
  "failed_receipt v code error =
     \<lparr>rc_command = (case as_string (jprop (Some v) ''commandId'') of Some s \<Rightarrow> s | None \<Rightarrow> ''invalid''),
      rc_session = safe_command_session_id (jprop (Some v) ''command''), rc_state = CFailed, rc_revision = 0,
      rc_duplicate = False, rc_error = Some (take MAX_ERROR error), rc_code = Some code, rc_user_seq = None\<rparr>"

section \<open>The shared files and the processes\<close>

datatype record_file = Garbled | Stored command_record

text \<open>A lock file; its token is unreadable when the process that created it died before writing it.\<close>

record lock_file =
  lf_owner :: "string option"
  lf_mtime :: int

text \<open>The handles a process has made, by number, and the ones still active.\<close>

record command_process =
  cp_handles :: "command_record list"
  cp_active :: "(string \<times> nat) list"

record command_journal =
  cj_files :: "(string \<times> record_file) list"
  cj_leases :: "(string \<times> int) list"
  cj_locks :: "(string \<times> lock_file) list"
  cj_processes :: "(string \<times> command_process) list"

definition empty_journal :: command_journal where
  "empty_journal = \<lparr>cj_files = [], cj_leases = [], cj_locks = [], cj_processes = []\<rparr>"

datatype write_outcome = Written | FailedBefore | PublishedThenFailed

datatype lock_outcome = LockWritten | LockOpenFailed | LockTokenFailed

definition read_command :: "command_journal \<Rightarrow> string \<Rightarrow> command_record option" where
  "read_command j cid = (case map_of (cj_files j) cid of Some (Stored r) \<Rightarrow> if valid_record r then Some r else None | _ \<Rightarrow> None)"

definition owner_is_live :: "command_env \<Rightarrow> command_journal \<Rightarrow> string \<Rightarrow> int \<Rightarrow> bool" where
  "owner_is_live env j owner now = (case map_of (cj_leases j) owner of None \<Rightarrow> False | Some t \<Rightarrow> now - t < ce_owner_stale env)"

definition heartbeat_owner :: "int \<Rightarrow> string \<Rightarrow> write_outcome \<Rightarrow> command_journal \<Rightarrow> command_journal \<times> bool" where
  "heartbeat_owner now p w j =
     (if w = FailedBefore then (j, False) else (j\<lparr>cj_leases := AList.update p now (cj_leases j)\<rparr>, w = Written))"

text \<open>Removing the expired records, until \<open>k\<close> of them when a removal throws.\<close>

definition expired_file :: "int \<Rightarrow> record_file \<Rightarrow> bool" where
  "expired_file now f = (case f of Garbled \<Rightarrow> False | Stored r \<Rightarrow> valid_record r \<and> cr_expires r < of_int now)"

fun remove_expired :: "int \<Rightarrow> nat option \<Rightarrow> (string \<times> record_file) list \<Rightarrow> (string \<times> record_file) list \<times> bool" where
  "remove_expired now k [] = ([], True)"
| "remove_expired now k ((c, f) # fs) =
     (if expired_file now f
      then (case k of
              Some 0 \<Rightarrow> ((c, f) # fs, False)
            | Some (Suc n) \<Rightarrow> remove_expired now (Some n) fs
            | None \<Rightarrow> remove_expired now None fs)
      else (let (fs', done_all) = remove_expired now k fs in ((c, f) # fs', done_all)))"

definition prune_commands :: "int \<Rightarrow> nat option \<Rightarrow> command_journal \<Rightarrow> command_journal \<times> bool" where
  "prune_commands now k j = (let (fs, done_all) = remove_expired now k (cj_files j) in (j\<lparr>cj_files := fs\<rparr>, done_all))"

text \<open>\<open>withCommandLock\<close>: \<open>None\<close> when another process holds the lock.\<close>

definition lock_is_free :: "command_env \<Rightarrow> int \<Rightarrow> command_journal \<Rightarrow> string \<Rightarrow> bool" where
  "lock_is_free env now j cid =
     (case map_of (cj_locks j) cid of
        None \<Rightarrow> True
      | Some l \<Rightarrow> now - lf_mtime l > COMMAND_LOCK_STALE_MS \<and>
          (case lf_owner l of None \<Rightarrow> False | Some owner \<Rightarrow> \<not> owner_is_live env j owner now))"

datatype 'a locked = LockBusy | LockThrew | LockRan 'a

definition with_command_lock ::
    "command_env \<Rightarrow> int \<Rightarrow> string \<Rightarrow> string \<Rightarrow> lock_outcome \<Rightarrow>
     (command_journal \<Rightarrow> command_journal \<times> 'a) \<Rightarrow> command_journal \<Rightarrow> command_journal \<times> 'a locked" where
  "with_command_lock env now p cid l run j =
     (if \<not> lock_is_free env now j cid then (j, LockBusy)
      else (case l of
              LockOpenFailed \<Rightarrow> (j, if map_of (cj_locks j) cid = None then LockThrew else LockBusy)
            | LockTokenFailed \<Rightarrow> (j\<lparr>cj_locks := AList.update cid \<lparr>lf_owner = None, lf_mtime = now\<rparr> (cj_locks j)\<rparr>, LockThrew)
            | LockWritten \<Rightarrow>
                (let (j', a) = run (j\<lparr>cj_locks := AList.delete cid (cj_locks j)\<rparr>) in (j', LockRan a))))"

section \<open>Transitions\<close>

record command_patch =
  pa_error :: "string option"
  pa_code :: "command_code option"
  pa_seq :: "int option"
  pa_steering :: "bool option"

definition no_patch :: command_patch where
  "no_patch = \<lparr>pa_error = None, pa_code = None, pa_seq = None, pa_steering = None\<rparr>"

datatype command_error =
    ReceiptBusy
  | ChangedConcurrently
  | OwnedElsewhere
  | InvalidTransition command_state command_state
  | WriteFailed
  | LockFailed
  | NotSteerable
  | NoSteeringAttempt

definition next_record :: "string \<Rightarrow> int \<Rightarrow> command_state \<Rightarrow> command_patch \<Rightarrow> command_record \<Rightarrow> command_record" where
  "next_record p now st pa r =
     r\<lparr>cr_state := st, cr_revision := cr_revision r + 1, cr_owner := p, cr_updated := now,
       cr_error := (case pa_error pa of None \<Rightarrow> None | Some e \<Rightarrow> if e = [] then None else Some (take MAX_ERROR e)),
       cr_code := pa_code pa,
       cr_user_seq := (case pa_seq pa of None \<Rightarrow> cr_user_seq r | Some n \<Rightarrow> Some n),
       cr_steering := (case pa_steering pa of None \<Rightarrow> cr_steering r | Some b \<Rightarrow> b)\<rparr>"

definition write_atomic :: "write_outcome \<Rightarrow> string \<Rightarrow> command_record \<Rightarrow> command_journal \<Rightarrow> command_journal" where
  "write_atomic w cid r j =
     (if w = FailedBefore then j else j\<lparr>cj_files := AList.update cid (Stored r) (cj_files j)\<rparr>)"

definition reset_allowed :: "bool \<Rightarrow> command_state \<Rightarrow> command_patch \<Rightarrow> command_record \<Rightarrow> bool" where
  "reset_allowed take_ownership st pa r \<longleftrightarrow>
     (take_ownership \<and> cr_state r = CQueued \<and> st = CAccepted) \<or>
     (\<not> take_ownership \<and> cr_kind r = AnswerRecoveredQuestion \<and> cr_state r = CStarted \<and> st = CQueued \<and>
        cr_steering r \<and> pa_steering pa = Some False \<and> cr_user_seq r = None)"

definition transition_locked ::
    "string \<Rightarrow> int \<Rightarrow> command_record \<Rightarrow> command_state \<Rightarrow> command_patch \<Rightarrow> bool \<Rightarrow> write_outcome \<Rightarrow> command_journal \<Rightarrow>
     command_journal \<times> (command_error + command_record)" where
  "transition_locked p now prior st pa take_ownership w j =
     (case read_command j (cr_command prior) of
        None \<Rightarrow> (j, Inl ChangedConcurrently)
      | Some current \<Rightarrow>
          if cr_revision current \<noteq> cr_revision prior then (j, Inl ChangedConcurrently)
          else if \<not> take_ownership \<and> cr_owner current \<noteq> p then (j, Inl OwnedElsewhere)
          else if \<not> reset_allowed take_ownership st pa current \<and> \<not> transition_allowed (cr_state current) st
          then (j, Inl (InvalidTransition (cr_state current) st))
          else (let r = next_record p now st pa current
                in (write_atomic w (cr_command r) r j, if w = Written then Inr r else Inl WriteFailed)))"

definition transition ::
    "command_env \<Rightarrow> string \<Rightarrow> int \<Rightarrow> lock_outcome \<Rightarrow> command_record \<Rightarrow> command_state \<Rightarrow> command_patch \<Rightarrow> write_outcome \<Rightarrow>
     command_journal \<Rightarrow> command_journal \<times> (command_error + command_record)" where
  "transition env p now l prior st pa w j =
     (case with_command_lock env now p (cr_command prior) l (transition_locked p now prior st pa False w) j of
        (j', LockBusy) \<Rightarrow> (j', Inl ReceiptBusy)
      | (j', LockThrew) \<Rightarrow> (j', Inl LockFailed)
      | (j', LockRan res) \<Rightarrow> (j', res))"

definition same_identity :: "command_record \<Rightarrow> command_record \<Rightarrow> bool" where
  "same_identity a b \<longleftrightarrow> cr_owner a = cr_owner b \<and> cr_command a = cr_command b \<and> cr_execution a = cr_execution b \<and>
     cr_kind a = cr_kind b \<and> cr_session a = cr_session b \<and> cr_hmac a = cr_hmac b"

definition unsubmitted_body ::
    "string \<Rightarrow> int \<Rightarrow> command_record \<Rightarrow> write_outcome \<Rightarrow> command_journal \<Rightarrow> command_journal \<times> command_record option" where
  "unsubmitted_body p now prior w j =
     (case read_command j (cr_command prior) of
        None \<Rightarrow> (j, None)
      | Some current \<Rightarrow>
          if cr_kind prior \<noteq> AnswerRecoveredQuestion \<or> cr_state prior \<noteq> CQueued \<or> cr_user_seq prior \<noteq> None \<or>
             cr_owner current \<noteq> p \<or> \<not> same_identity current prior \<or> cr_user_seq current \<noteq> None
          then (j, None)
          else if (cr_revision current = cr_revision prior \<and> cr_state current = CQueued \<and> \<not> cr_steering current) \<or>
             (cr_revision current = cr_revision prior + 1 \<and> cr_state current = CStarted \<and> cr_steering current)
          then (case transition_locked p now current CQueued (no_patch\<lparr>pa_steering := Some False\<rparr>) False w j of
                  (j', Inl e) \<Rightarrow> (j', None)
                | (j', Inr r) \<Rightarrow> (j', Some r))
          else (j, None))"

definition recover_unsubmitted_steering ::
    "command_env \<Rightarrow> string \<Rightarrow> int \<Rightarrow> lock_outcome \<Rightarrow> command_record \<Rightarrow> write_outcome \<Rightarrow> command_journal \<Rightarrow>
     command_journal \<times> command_record option" where
  "recover_unsubmitted_steering env p now l prior w j =
     (case with_command_lock env now p (cr_command prior) l (unsubmitted_body p now prior w) j of
        (j', LockRan res) \<Rightarrow> (j', res)
      | (j', _) \<Rightarrow> (j', None))"

section \<open>Handles\<close>

definition the_process :: "command_journal \<Rightarrow> string \<Rightarrow> command_process" where
  "the_process j p = (case map_of (cj_processes j) p of None \<Rightarrow> \<lparr>cp_handles = [], cp_active = []\<rparr> | Some q \<Rightarrow> q)"

definition set_process :: "string \<Rightarrow> command_process \<Rightarrow> command_journal \<Rightarrow> command_journal" where
  "set_process p q j = j\<lparr>cj_processes := AList.update p q (cj_processes j)\<rparr>"

definition activate_handle :: "string \<Rightarrow> string \<Rightarrow> nat \<Rightarrow> command_journal \<Rightarrow> command_journal" where
  "activate_handle p cid h j =
     (let q = the_process j p in set_process p (q\<lparr>cp_active := AList.update cid h (cp_active q)\<rparr>) j)"

definition release_handle :: "string \<Rightarrow> string \<Rightarrow> nat \<Rightarrow> command_journal \<Rightarrow> command_journal" where
  "release_handle p cid h j =
     (let q = the_process j p
      in if map_of (cp_active q) cid = Some h then set_process p (q\<lparr>cp_active := AList.delete cid (cp_active q)\<rparr>) j else j)"

text \<open>\<open>new DurableCommandHandle(this, record)\<close>.\<close>

definition new_handle :: "string \<Rightarrow> command_record \<Rightarrow> command_journal \<Rightarrow> command_journal \<times> nat" where
  "new_handle p r j =
     (let q = the_process j p; h = length (cp_handles q)
      in (activate_handle p (cr_command r) h (set_process p (q\<lparr>cp_handles := cp_handles q @ [r]\<rparr>) j), h))"

definition set_handle :: "string \<Rightarrow> nat \<Rightarrow> command_record \<Rightarrow> command_journal \<Rightarrow> command_journal" where
  "set_handle p h r j = (let q = the_process j p in set_process p (q\<lparr>cp_handles := (cp_handles q)[h := r]\<rparr>) j)"

datatype handle_answer = HReceipt command_receipt | HPrepared bool | HThrew command_error

definition handle_nonterminal ::
    "string \<Rightarrow> nat \<Rightarrow> command_record \<Rightarrow> command_journal \<times> (command_error + command_record) \<Rightarrow> command_journal \<times> handle_answer" where
  "handle_nonterminal p h r res =
     (case res of
        (j, Inr r') \<Rightarrow> (set_handle p h r' j, HReceipt (receipt_of r' False))
      | (j, Inl e) \<Rightarrow> (release_handle p (cr_command r) h j, HThrew e))"

definition handle_terminal ::
    "string \<Rightarrow> nat \<Rightarrow> command_record \<Rightarrow> command_journal \<times> (command_error + command_record) \<Rightarrow> command_journal \<times> handle_answer" where
  "handle_terminal p h r res =
     (case res of
        (j, Inr r') \<Rightarrow> (release_handle p (cr_command r') h (set_handle p h r' j), HReceipt (receipt_of r' False))
      | (j, Inl e) \<Rightarrow> (release_handle p (cr_command r) h j, HThrew e))"

datatype handle_op =
    OpQueued "string option" "command_code option"
  | OpBeginSteering
  | OpSteeringRejected
  | OpStarted "int option"
  | OpCompleted
  | OpFailed string "command_code option"
  | OpUncertain string

text \<open>What the file system does in an operation, and in the recovery of one that failed.\<close>

record op_io =
  oi_lock :: lock_outcome
  oi_write :: write_outcome
  oi_recover_lock :: lock_outcome
  oi_recover_write :: write_outcome

definition begin_steering ::
    "command_env \<Rightarrow> string \<Rightarrow> nat \<Rightarrow> int \<Rightarrow> op_io \<Rightarrow> command_record \<Rightarrow> command_journal \<Rightarrow> command_journal \<times> handle_answer" where
  "begin_steering env p h now io r j =
     (if cr_kind r \<noteq> AnswerRecoveredQuestion \<or> cr_state r \<noteq> CQueued then (j, HThrew NotSteerable)
      else (case handle_nonterminal p h r (transition env p now (oi_lock io) r CStarted (no_patch\<lparr>pa_steering := Some True\<rparr>) (oi_write io) j) of
              (j', HThrew e) \<Rightarrow>
                (case recover_unsubmitted_steering env p now (oi_recover_lock io) r (oi_recover_write io) j' of
                   (j'', None) \<Rightarrow> (j'', HThrew e)
                 | (j'', Some r') \<Rightarrow> (activate_handle p (cr_command r') h (set_handle p h r' j''), HPrepared False))
            | (j', _) \<Rightarrow> (j', HPrepared True)))"

definition handle_op ::
    "command_env \<Rightarrow> string \<Rightarrow> nat \<Rightarrow> int \<Rightarrow> op_io \<Rightarrow> handle_op \<Rightarrow> command_journal \<Rightarrow> command_journal \<times> handle_answer" where
  "handle_op env p h now io a j =
     (let r = cp_handles (the_process j p) ! h;
          move = (\<lambda>st pa. transition env p now (oi_lock io) r st pa (oi_write io) j)
      in case a of
           OpQueued e c \<Rightarrow> handle_nonterminal p h r (move CQueued (no_patch\<lparr>pa_error := e, pa_code := c\<rparr>))
         | OpBeginSteering \<Rightarrow> begin_steering env p h now io r j
         | OpSteeringRejected \<Rightarrow>
             if \<not> cr_steering r then (j, HThrew NoSteeringAttempt)
             else handle_nonterminal p h r (move CQueued (no_patch\<lparr>pa_steering := Some False\<rparr>))
         | OpStarted n \<Rightarrow> handle_nonterminal p h r (move CStarted (no_patch\<lparr>pa_seq := n, pa_steering := Some False\<rparr>))
         | OpCompleted \<Rightarrow> handle_terminal p h r (move CCompleted no_patch)
         | OpFailed e c \<Rightarrow> handle_terminal p h r (move CFailed (no_patch\<lparr>pa_error := Some e, pa_code := c\<rparr>))
         | OpUncertain e \<Rightarrow> handle_terminal p h r (move CUncertain (no_patch\<lparr>pa_error := Some e\<rparr>)))"

section \<open>Claims\<close>

datatype claim_answer =
    ClaimNew command_receipt nat
  | ClaimReclaimed command_receipt nat
  | ClaimDuplicate command_receipt
  | ClaimConflict command_receipt
  | ClaimBusy
  | ClaimThrew

record claim_io =
  ci_lease :: write_outcome
  ci_lock :: lock_outcome
  ci_write :: write_outcome
  ci_prune :: "nat option"

definition fresh_record :: "command_env \<Rightarrow> string \<Rightarrow> int \<Rightarrow> command_message \<Rightarrow> command_record" where
  "fresh_record env p now m =
     \<lparr>cr_command = cm_command_id m, cr_execution = cm_execution m, cr_kind = the (command_kind_of (cm_command m)),
      cr_session = command_session_id (cm_command m), cr_hmac = ce_hmac env (canonical_json (ce_num env) (cm_command m)),
      cr_state = CAccepted, cr_revision = 1, cr_owner = p, cr_created = now, cr_updated = now, cr_expires = cm_expires m,
      cr_error = None, cr_code = None, cr_user_seq = None, cr_steering = False\<rparr>"

definition claim_new ::
    "command_env \<Rightarrow> string \<Rightarrow> int \<Rightarrow> json \<Rightarrow> claim_io \<Rightarrow> command_record \<Rightarrow> command_journal \<Rightarrow> command_journal \<times> claim_answer" where
  "claim_new env p now v io r j =
     (let (j1, pruned) = (if length (cj_files j) \<ge> ce_max_receipts env then prune_commands now (ci_prune io) j else (j, True))
      in if \<not> pruned then (j1, ClaimThrew)
         else if length (cj_files j1) \<ge> ce_max_receipts env
         then (j1, ClaimConflict (failed_receipt v ReceiptStoreFull ''durable command receipt store is full''))
         else (let j2 = write_atomic (ci_write io) (cr_command r) r j1
               in if ci_write io \<noteq> Written then (j2, ClaimThrew)
                  else (let (j3, h) = new_handle p r j2 in (j3, ClaimNew (receipt_of r False) h))))"

text \<open>The end of both takeovers: started work becomes uncertain, other work is handed out again.\<close>

definition take_over ::
    "string \<Rightarrow> int \<Rightarrow> write_outcome \<Rightarrow> string \<Rightarrow> command_record \<Rightarrow> command_journal \<Rightarrow> command_journal \<times> claim_answer" where
  "take_over p now w error existing j =
     (if cr_state existing = CStarted
      then (case transition_locked p now existing CUncertain (no_patch\<lparr>pa_error := Some error\<rparr>) True w j of
              (j', Inl e) \<Rightarrow> (j', ClaimThrew)
            | (j', Inr r) \<Rightarrow> (j', ClaimDuplicate (receipt_of r True)))
      else (case transition_locked p now existing CAccepted no_patch True w j of
              (j', Inl e) \<Rightarrow> (j', ClaimThrew)
            | (j', Inr r) \<Rightarrow> (let (j'', h) = new_handle p r j' in (j'', ClaimReclaimed (receipt_of r True) h))))"

definition claim_existing ::
    "command_env \<Rightarrow> string \<Rightarrow> int \<Rightarrow> claim_io \<Rightarrow> command_record \<Rightarrow> command_record \<Rightarrow> command_journal \<Rightarrow> command_journal \<times> claim_answer" where
  "claim_existing env p now io r existing j =
     (if cr_hmac existing \<noteq> cr_hmac r \<or> cr_execution existing \<noteq> cr_execution r \<or> cr_kind existing \<noteq> cr_kind r \<or>
         cr_session existing \<noteq> cr_session r
      then (j, ClaimConflict ((receipt_of existing True)\<lparr>rc_state := CFailed,
              rc_error := Some ''command id is already bound to a different payload'', rc_code := Some CommandIdConflict\<rparr>))
      else if is_terminal (cr_state existing) then (j, ClaimDuplicate (receipt_of existing True))
      else if cr_owner existing = p then
        (if map_of (cp_active (the_process j p)) (cr_command existing) \<noteq> None then (j, ClaimDuplicate (receipt_of existing True))
         else take_over p now (ci_write io)
           ''runner lost the local command handle after provider submission began; command was not replayed'' existing j)
      else if owner_is_live env j (cr_owner existing) now then (j, ClaimDuplicate (receipt_of existing True))
      else take_over p now (ci_write io) ''runner restarted after provider submission began; command was not replayed'' existing j)"

definition claim_body ::
    "command_env \<Rightarrow> string \<Rightarrow> int \<Rightarrow> json \<Rightarrow> claim_io \<Rightarrow> command_journal \<Rightarrow> command_journal \<times> claim_answer" where
  "claim_body env p now v io j =
     (let r = fresh_record env p now (envelope v)
      in case read_command j (cr_command r) of
           Some existing \<Rightarrow> claim_existing env p now io r existing j
         | None \<Rightarrow>
             if map_of (cj_files j) (cr_command r) \<noteq> None
             then (j, ClaimConflict (failed_receipt v InvalidCommand
               ''durable command receipt is malformed; refusing to overwrite its identity''))
             else claim_new env p now v io r j)"

definition claim_command ::
    "command_env \<Rightarrow> string \<Rightarrow> int \<Rightarrow> json \<Rightarrow> claim_io \<Rightarrow> command_journal \<Rightarrow> command_journal \<times> claim_answer" where
  "claim_command env p now v io j =
     (case validate_message env now v of
        Some (code, error) \<Rightarrow> (j, ClaimConflict (failed_receipt v code error))
      | None \<Rightarrow>
          if durable_command_payload_digest env (cm_command (envelope v)) \<noteq> cm_digest (envelope v)
          then (j, ClaimConflict (failed_receipt v InvalidCommand ''durable command payload digest does not match''))
          else (case heartbeat_owner now p (ci_lease io) j of
                  (j1, False) \<Rightarrow> (j1, ClaimThrew)
                | (j1, True) \<Rightarrow>
                    (case with_command_lock env now p (cm_command_id (envelope v)) (ci_lock io) (claim_body env p now v io) j1 of
                       (j2, LockBusy) \<Rightarrow> (j2, ClaimBusy)
                     | (j2, LockThrew) \<Rightarrow> (j2, ClaimThrew)
                     | (j2, LockRan ans) \<Rightarrow> (j2, ans))))"

text \<open>What a reconnecting runner publishes.\<close>

definition unexpired :: "int \<Rightarrow> command_record \<Rightarrow> bool" where
  "unexpired now r \<longleftrightarrow> cr_expires r \<ge> of_int now"

definition recent_records :: "int \<Rightarrow> command_journal \<Rightarrow> command_record list" where
  "recent_records now j =
     concat (map (\<lambda>(c, f). case f of Garbled \<Rightarrow> [] | Stored r \<Rightarrow> if valid_record r \<and> unexpired now r then [r] else []) (cj_files j))"

definition recent_updates :: "(string \<Rightarrow> string \<Rightarrow> bool) \<Rightarrow> int \<Rightarrow> command_journal \<Rightarrow> command_receipt list" where
  "recent_updates locale_le now j =
     js_sort (\<lambda>a b. locale_le (rc_command a) (rc_command b)) (map (\<lambda>r. receipt_of r True) (recent_records now j))"

definition recent_update_ids :: "(string \<Rightarrow> string \<Rightarrow> bool) \<Rightarrow> int \<Rightarrow> command_journal \<Rightarrow> string list" where
  "recent_update_ids locale_le now j = js_sort locale_le (map cr_command (recent_records now j))"

definition recent_update :: "command_journal \<Rightarrow> string \<Rightarrow> int \<Rightarrow> command_receipt option" where
  "recent_update j cid now =
     (case read_command j cid of None \<Rightarrow> None | Some r \<Rightarrow> if unexpired now r then Some (receipt_of r True) else None)"

section \<open>The processes of a machine\<close>

datatype command_event =
    StartProcess string int write_outcome
  | Heartbeat string int write_outcome
  | Claim string int json claim_io
  | HandleOp string nat int op_io handle_op
  | Prune int "nat option"
  | Crash string "(string \<times> lock_file) option"
  | Garble string

text \<open>
  What the rest of the runner may do, or says it has seen: hand a claimed command to its session, submit it
  to the provider, and learn that the provider refused a steered answer for certain.
\<close>

datatype command_output = Answered string claim_answer | Submit string | Refused string | OpAnswered handle_answer

definition submits :: "handle_op \<Rightarrow> command_record \<Rightarrow> handle_answer \<Rightarrow> bool" where
  "submits a r ans =
     (case a of
        OpBeginSteering \<Rightarrow> ans = HPrepared True
      | OpStarted n \<Rightarrow> (case ans of HReceipt _ \<Rightarrow> cr_state r \<noteq> CStarted | _ \<Rightarrow> False)
      | _ \<Rightarrow> False)"

definition running :: "command_journal \<Rightarrow> string \<Rightarrow> bool" where
  "running j p \<longleftrightarrow> map_of (cj_processes j) p \<noteq> None"

fun command_step :: "command_env \<Rightarrow> command_journal \<Rightarrow> command_event \<Rightarrow> command_journal \<times> command_output list" where
  "command_step env j (StartProcess p now w) =
     (if running j p then (j, [])
      else (case heartbeat_owner now p w j of
              (j', started) \<Rightarrow> (if started then set_process p \<lparr>cp_handles = [], cp_active = []\<rparr> j' else j', [])))"
| "command_step env j (Heartbeat p now w) = (if running j p then (fst (heartbeat_owner now p w j), []) else (j, []))"
| "command_step env j (Claim p now v io) =
     (if running j p
      then (let (j', ans) = claim_command env p now v io j in (j', [Answered (cm_command_id (envelope v)) ans]))
      else (j, []))"
| "command_step env j (HandleOp p h now io a) =
     (if running j p \<and> h < length (cp_handles (the_process j p))
      then (let r = cp_handles (the_process j p) ! h; (j', ans) = handle_op env p h now io a j
            in (j', (if a = OpSteeringRejected \<and> cr_steering r then [Refused (cr_command r)] else []) @
                  (if submits a r ans then [Submit (cr_command r)] else []) @ [OpAnswered ans]))
      else (j, []))"
| "command_step env j (Prune now k) = (fst (prune_commands now k j), [])"
| "command_step env j (Crash p held) =
     (j\<lparr>cj_processes := AList.delete p (cj_processes j),
        cj_locks := (case held of None \<Rightarrow> cj_locks j | Some (cid, l) \<Rightarrow> AList.update cid l (cj_locks j))\<rparr>, [])"
| "command_step env j (Garble cid) =
     (j\<lparr>cj_files := (if map_of (cj_files j) cid = None then cj_files j else AList.update cid Garbled (cj_files j))\<rparr>, [])"

end
