(* ===== verification/Durable_Submissions.thy ===== *)
theory Durable_Submissions
  imports Durable_Commands
begin

text \<open>
  What the journal of durable commands guarantees over the runs of its processes (\<open>command_step\<close>): a
  submission never overlaps an earlier one, a verdict is final, and a command id names one payload.

  \<open>sound\<close> is the invariant of the shared files and of every handle held by a live process; \<open>evolves\<close> is
  what one event does to one record, and \<open>kept\<close> carries a property of a record over a run.
\<close>

section \<open>What an operation does to the files\<close>

definition handles :: "command_journal \<Rightarrow> string \<Rightarrow> command_record list" where
  "handles j p = cp_handles (the_process j p)"

lemma the_process_set [simp]: "the_process (set_process p q j) p' = (if p' = p then q else the_process j p')"
  by (simp add: the_process_def set_process_def update_conv')

lemma handles_set_process [simp]: "handles (set_process p q j) = (handles j)(p := cp_handles q)"
  by (rule ext) (simp add: handles_def)

lemma files_set_process [simp]: "cj_files (set_process p q j) = cj_files j"
  by (simp add: set_process_def)

lemma handles_more [simp]:
  "handles (j\<lparr>cj_files := fs\<rparr>) = handles j" "handles (j\<lparr>cj_leases := ls\<rparr>) = handles j" "handles (j\<lparr>cj_locks := ks\<rparr>) = handles j"
  by (rule ext, simp add: handles_def the_process_def)+

lemma activate_handle_same [simp]: "handles (activate_handle p cid h j) = handles j" "cj_files (activate_handle p cid h j) = cj_files j"
  by (auto simp: activate_handle_def Let_def) (auto simp: handles_def)

lemma release_handle_same [simp]: "handles (release_handle p cid h j) = handles j" "cj_files (release_handle p cid h j) = cj_files j"
  by (auto simp: release_handle_def Let_def) (auto simp: handles_def)

lemma set_handle_handles [simp]: "handles (set_handle p h r j) = (handles j)(p := (handles j p)[h := r])" "cj_files (set_handle p h r j) = cj_files j"
  by (auto simp: set_handle_def Let_def handles_def)

lemma new_handle_handles: "new_handle p r j = (j', h) \<Longrightarrow> handles j' = (handles j)(p := handles j p @ [r]) \<and> cj_files j' = cj_files j"
  by (auto simp: new_handle_def Let_def handles_def)

text \<open>The effect of a transition: none, or one more revision of a record that was at the prior one.\<close>

definition moved ::
    "string \<Rightarrow> command_record \<Rightarrow> command_state \<Rightarrow> command_patch \<Rightarrow> bool \<Rightarrow> int \<Rightarrow> (string \<times> record_file) list \<Rightarrow>
     (string \<times> record_file) list \<Rightarrow> command_record \<Rightarrow> command_record \<Rightarrow> bool" where
  "moved p prior st pa take_ownership now fs fs' cur r \<longleftrightarrow>
     map_of fs (cr_command prior) = Some (Stored cur) \<and> cr_revision cur = cr_revision prior \<and>
     (take_ownership \<or> cr_owner cur = p) \<and> (reset_allowed take_ownership st pa cur \<or> transition_allowed (cr_state cur) st) \<and>
     r = next_record p now st pa cur \<and> fs' = AList.update (cr_command cur) (Stored r) fs"

definition moves_to ::
    "string \<Rightarrow> command_record \<Rightarrow> command_state \<Rightarrow> command_patch \<Rightarrow> bool \<Rightarrow> int \<Rightarrow> command_journal \<Rightarrow> command_journal \<Rightarrow>
     (command_error + command_record) \<Rightarrow> bool" where
  "moves_to p prior st pa take_ownership now j j' res \<longleftrightarrow> handles j' = handles j \<and>
     (case res of
        Inr r \<Rightarrow> \<exists>cur. moved p prior st pa take_ownership now (cj_files j) (cj_files j') cur r
      | Inl e \<Rightarrow> cj_files j' = cj_files j \<or> (\<exists>cur r. moved p prior st pa take_ownership now (cj_files j) (cj_files j') cur r))"

lemma read_command_Some: "read_command j cid = Some r \<Longrightarrow> map_of (cj_files j) cid = Some (Stored r) \<and> valid_record r"
  by (auto simp: read_command_def split: option.splits record_file.splits if_splits)

lemma next_record_sel [simp]:
  "cr_command (next_record p now st pa r) = cr_command r" "cr_state (next_record p now st pa r) = st"
  "cr_revision (next_record p now st pa r) = cr_revision r + 1" "cr_owner (next_record p now st pa r) = p"
  "cr_expires (next_record p now st pa r) = cr_expires r" "cr_hmac (next_record p now st pa r) = cr_hmac r"
  "cr_steering (next_record p now st pa r) = (case pa_steering pa of None \<Rightarrow> cr_steering r | Some b \<Rightarrow> b)"
  "cr_kind (next_record p now st pa r) = cr_kind r" "cr_execution (next_record p now st pa r) = cr_execution r"
  "cr_session (next_record p now st pa r) = cr_session r"
  by (simp_all add: next_record_def)

lemma write_atomic_more [simp]:
  "handles (write_atomic w cid r j) = handles j"
  "cj_files (write_atomic w cid r j) = (if w = FailedBefore then cj_files j else AList.update cid (Stored r) (cj_files j))"
  by (simp_all add: write_atomic_def)

lemma transition_locked_moves:
  assumes "transition_locked p now prior st pa take_ownership w j = (j', res)"
  shows "moves_to p prior st pa take_ownership now j j' res"
proof (cases "read_command j (cr_command prior)")
  case None
  then show ?thesis using assms by (auto simp: transition_locked_def moves_to_def)
next
  case (Some cur)
  note f = read_command_Some[OF Some]
  show ?thesis
  proof (cases "cr_revision cur \<noteq> cr_revision prior \<or> \<not> take_ownership \<and> cr_owner cur \<noteq> p \<or>
      \<not> reset_allowed take_ownership st pa cur \<and> \<not> transition_allowed (cr_state cur) st")
    case True
    then show ?thesis using assms Some by (auto simp: transition_locked_def moves_to_def split: if_splits)
  next
    case False
    then have "j' = write_atomic w (cr_command cur) (next_record p now st pa cur) j"
      "res = (if w = Written then Inr (next_record p now st pa cur) else Inl WriteFailed)"
      using assms Some by (auto simp: transition_locked_def Let_def split: if_splits)
    with False f show ?thesis by (cases w) (auto simp: moves_to_def moved_def)
  qed
qed

lemma locked_cases:
  assumes "with_command_lock env now p cid l run j = (j', res)"
  obtains "res = LockBusy \<or> res = LockThrew" "cj_files j' = cj_files j" "handles j' = handles j"
  | ks a where "res = LockRan a" "run (j\<lparr>cj_locks := ks\<rparr>) = (j', a)"
  using assms by (auto simp: with_command_lock_def Let_def split: if_splits lock_outcome.splits prod.splits)

lemma transition_moves:
  assumes "transition env p now l prior st pa w j = (j', res)"
  shows "moves_to p prior st pa False now j j' res"
proof -
  obtain j1 lres where l: "with_command_lock env now p (cr_command prior) l (transition_locked p now prior st pa False w) j = (j1, lres)"
    by (metis surj_pair)
  from l show ?thesis
  proof (cases rule: locked_cases)
    case 1
    then show ?thesis using assms l by (auto simp: transition_def moves_to_def split: locked.splits)
  next
    case (2 ks a)
    then have "j' = j1" "res = a" using assms l by (auto simp: transition_def)
    with transition_locked_moves[OF 2(2)] show ?thesis by (cases a) (simp_all add: moves_to_def)
  qed
qed

section \<open>The invariant of open submissions\<close>

text \<open>A record that no claim may hand out again.\<close>

definition blocked :: "command_record \<Rightarrow> bool" where
  "blocked r \<longleftrightarrow> cr_state r \<noteq> CAccepted \<and> cr_state r \<noteq> CQueued"

text \<open>
  What one handle of process \<open>p\<close> may be with respect to the record on disk: not newer, the same at the
  same revision, and not one that could take an open steering attempt for its own failed one.
\<close>

definition handle_sound :: "bool \<Rightarrow> string \<Rightarrow> command_record \<Rightarrow> command_record \<Rightarrow> bool" where
  "handle_sound is_open p r c \<longleftrightarrow> cr_revision c \<le> cr_revision r \<and> (cr_revision c = cr_revision r \<longrightarrow> c = r) \<and>
     (is_open \<longrightarrow> cr_state r = CStarted \<longrightarrow> cr_steering r \<longrightarrow> cr_owner r = p \<longrightarrow> cr_revision c \<noteq> cr_revision r - 1)"

definition file_sound :: "(string \<Rightarrow> rat) \<Rightarrow> string set \<Rightarrow> (string \<Rightarrow> command_record list) \<Rightarrow> string \<Rightarrow> command_record \<Rightarrow> bool" where
  "file_sound D opened H cid r \<longleftrightarrow> cr_command r = cid \<and> cr_expires r = D cid \<and> (cid \<in> opened \<longrightarrow> blocked r) \<and>
     (\<forall>p. \<forall>c\<in>set (H p). cr_command c = cid \<longrightarrow> handle_sound (cid \<in> opened) p r c)"

definition distinct_handles :: "command_record list \<Rightarrow> bool" where
  "distinct_handles cs \<longleftrightarrow> distinct (map (\<lambda>c. (cr_command c, cr_revision c)) cs)"

definition absent_sound :: "(string \<Rightarrow> rat) \<Rightarrow> int \<Rightarrow> string set \<Rightarrow> (string \<Rightarrow> command_record list) \<Rightarrow> string \<Rightarrow> bool" where
  "absent_sound D t opened H cid \<longleftrightarrow> D cid < of_int t \<or> (cid \<notin> opened \<and> (\<forall>p. \<forall>c\<in>set (H p). cr_command c \<noteq> cid))"

definition sound ::
    "(string \<Rightarrow> rat) \<Rightarrow> int \<Rightarrow> string set \<Rightarrow> (string \<times> record_file) list \<Rightarrow> (string \<Rightarrow> command_record list) \<Rightarrow> bool" where
  "sound D t opened fs H \<longleftrightarrow> distinct (map fst fs) \<and> (\<forall>p. distinct_handles (H p)) \<and>
     (\<forall>cid r. map_of fs cid = Some (Stored r) \<longrightarrow> file_sound D opened H cid r) \<and>
     (\<forall>cid. map_of fs cid = None \<longrightarrow> absent_sound D t opened H cid)"

lemma sound_file: "sound D t opened fs H \<Longrightarrow> map_of fs cid = Some (Stored r) \<Longrightarrow> file_sound D opened H cid r"
  by (simp add: sound_def)

lemma sound_later: "sound D t opened fs H \<Longrightarrow> t \<le> t' \<Longrightarrow> sound D t' opened fs H"
  unfolding sound_def absent_sound_def by (meson less_le_trans of_int_le_iff)

lemma sound_refused:
  assumes "sound D t opened fs H"
  shows "sound D t (opened - {cid}) fs H"
proof -
  have "file_sound D opened H x r \<Longrightarrow> file_sound D (opened - {cid}) H x r" for x r
    unfolding file_sound_def handle_sound_def by simp
  moreover have "absent_sound D t opened H x \<Longrightarrow> absent_sound D t (opened - {cid}) H x" for x
    unfolding absent_sound_def by blast
  ultimately show ?thesis using assms unfolding sound_def by blast
qed

text \<open>A transition of a record that is not submitted, or to a state that keeps it so.\<close>

definition keeps_blocked :: "command_state \<Rightarrow> command_patch \<Rightarrow> command_record \<Rightarrow> bool" where
  "keeps_blocked st pa cur \<longleftrightarrow> st \<notin> {CAccepted, CQueued} \<and> (st = CStarted \<longrightarrow> pa_steering pa = Some False)"

lemma sound_write:
  assumes s: "sound D t opened fs H" and m: "moved p prior st pa own now fs fs' cur r"
    and k: "cr_command prior \<in> opened \<Longrightarrow> keeps_blocked st pa cur"
  shows "sound D t opened fs' H" "file_sound D opened H (cr_command prior) cur"
    "map_of fs' (cr_command prior) = Some (Stored r)" "cr_command r = cr_command prior"
    "\<And>q c. c \<in> set (H q) \<Longrightarrow> cr_command c = cr_command prior \<Longrightarrow> cr_revision c < cr_revision r"
proof -
  from m have f: "map_of fs (cr_command prior) = Some (Stored cur)" and r: "r = next_record p now st pa cur"
    and fs': "fs' = AList.update (cr_command cur) (Stored r) fs" by (auto simp: moved_def)
  show fc: "file_sound D opened H (cr_command prior) cur" using sound_file[OF s f] .
  then have cid: "cr_command cur = cr_command prior" and exp: "cr_expires cur = D (cr_command prior)"
    and hs: "\<And>q c. c \<in> set (H q) \<Longrightarrow> cr_command c = cr_command prior \<Longrightarrow> cr_revision c \<le> cr_revision cur"
    by (auto simp: file_sound_def handle_sound_def)
  show lt: "cr_revision c < cr_revision r" if "c \<in> set (H q)" "cr_command c = cr_command prior" for q c
    using hs[OF that] by (simp add: r)
  show c: "cr_command r = cr_command prior" by (simp add: r cid)
  show m': "map_of fs' (cr_command prior) = Some (Stored r)" by (simp add: fs' cid update_conv')
  have new: "file_sound D opened H (cr_command prior) r"
    unfolding file_sound_def
  proof (intro conjI allI ballI impI)
    show "blocked r" if "cr_command prior \<in> opened" using k[OF that] by (simp add: r blocked_def keeps_blocked_def)
    show "handle_sound (cr_command prior \<in> opened) q r c" if "c \<in> set (H q)" "cr_command c = cr_command prior" for q c
      unfolding handle_sound_def
    proof (intro conjI impI)
      show "cr_revision c \<noteq> cr_revision r - 1" if "cr_command prior \<in> opened" "cr_state r = CStarted" "cr_steering r"
        using k[OF that(1)] that(2,3) by (simp add: r keeps_blocked_def)
    qed (use lt[OF that] in auto)
  qed (simp_all add: r exp cid)
  then show "sound D t opened fs' H"
    using s m' fs' cid unfolding sound_def by (auto simp: update_conv' distinct_update)
qed

lemma distinct_handles_update:
  assumes "distinct_handles cs" "\<And>c. c \<in> set cs \<Longrightarrow> cr_command c = cr_command r \<Longrightarrow> cr_revision c < cr_revision r"
  shows "distinct_handles (cs[h := r])"
proof (cases "h < length cs")
  case True
  have "(cr_command r, cr_revision r) \<notin> set (map (\<lambda>c. (cr_command c, cr_revision c)) cs)" using assms(2) by fastforce
  then show ?thesis using assms(1) True by (simp add: distinct_handles_def map_update distinct_list_update)
qed (use assms in \<open>simp add: list_update_beyond\<close>)

lemma distinct_handles_snoc:
  assumes "distinct_handles cs" "\<And>c. c \<in> set cs \<Longrightarrow> cr_command c = cr_command r \<Longrightarrow> cr_revision c < cr_revision r"
  shows "distinct_handles (cs @ [r])"
  using assms by (fastforce simp: distinct_handles_def)

text \<open>The record a handle now holds is the one on disk.\<close>

lemma sound_new_handle:
  assumes s: "sound D t opened fs H" and f: "map_of fs (cr_command r) = Some (Stored r)"
    and sub: "set cs \<subseteq> insert r (set (H p))" and dist: "distinct_handles cs"
  shows "sound D t opened fs (H(p := cs))"
proof -
  have fr: "file_sound D opened H (cr_command r) r" by (rule sound_file[OF s f])
  have mem: "c \<in> set ((H(p := cs)) q) \<Longrightarrow> c = r \<or> c \<in> set (H q)" for c q using sub by (auto split: if_splits)
  have "file_sound D opened (H(p := cs)) cid x" if "map_of fs cid = Some (Stored x)" for cid x
  proof -
    have fx: "file_sound D opened H cid x" by (rule sound_file[OF s that])
    have "handle_sound (cid \<in> opened) q x c" if c: "c \<in> set ((H(p := cs)) q)" "cr_command c = cid" for q c
    proof (cases "c \<in> set (H q)")
      case True
      with fx c(2) show ?thesis by (simp add: file_sound_def)
    next
      case False
      with mem[OF c(1)] have "c = r" by simp
      moreover from this c(2) f \<open>map_of fs cid = _\<close> have "x = r" by simp
      ultimately show ?thesis by (simp add: handle_sound_def)
    qed
    then show ?thesis using fx by (simp add: file_sound_def)
  qed
  moreover have "absent_sound D t opened (H(p := cs)) cid" if "map_of fs cid = None" for cid
  proof -
    have "absent_sound D t opened H cid" using s that by (simp add: sound_def)
    moreover have "cr_command r \<noteq> cid" using f that by auto
    ultimately show ?thesis using mem unfolding absent_sound_def by metis
  qed
  ultimately show ?thesis using s dist by (simp add: sound_def)
qed

section \<open>Operations keep the invariant\<close>

lemma sound_insert_open:
  assumes s: "sound D t opened fs H" and f: "map_of fs cid = Some (Stored r)" and b: "blocked r"
    and h: "\<And>c. c \<in> set (H (cr_owner r)) \<Longrightarrow> cr_command c = cid \<Longrightarrow> cr_revision c \<noteq> cr_revision r - 1"
  shows "sound D t (insert cid opened) fs H"
proof -
  have "file_sound D (insert cid opened) H x q" if x: "map_of fs x = Some (Stored q)" for x q
  proof (cases "x = cid")
    case True
    then have "q = r" using x f by simp
    then show ?thesis using sound_file[OF s x] True b h unfolding file_sound_def handle_sound_def by auto
  next
    case False
    then show ?thesis using sound_file[OF s x] unfolding file_sound_def handle_sound_def by simp
  qed
  moreover have "absent_sound D t (insert cid opened) H x" if "map_of fs x = None" for x
    using s that f unfolding sound_def absent_sound_def by force
  ultimately show ?thesis using s by (simp add: sound_def)
qed

lemma moves_sound:
  assumes s: "sound D t opened (cj_files j) (handles j)" and m: "moves_to p prior st pa own now j j' res"
    and k: "\<And>cur r. cr_command prior \<in> opened \<Longrightarrow> moved p prior st pa own now (cj_files j) (cj_files j') cur r \<Longrightarrow> keeps_blocked st pa cur"
  shows "sound D t opened (cj_files j') (handles j')"
proof -
  have H: "handles j' = handles j" using m by (simp add: moves_to_def)
  have "cj_files j' = cj_files j \<or> (\<exists>cur r. moved p prior st pa own now (cj_files j) (cj_files j') cur r)"
    using m by (auto simp: moves_to_def split: sum.splits)
  then show ?thesis
  proof
    assume "\<exists>cur r. moved p prior st pa own now (cj_files j) (cj_files j') cur r"
    then obtain cur r where mv: "moved p prior st pa own now (cj_files j) (cj_files j') cur r" by blast
    from sound_write(1)[OF s mv k] mv H show ?thesis by simp
  qed (use s H in simp)
qed

lemma moves_set_handle:
  assumes s: "sound D t opened (cj_files j) (handles j)" and m: "moves_to p prior st pa False now j j' (Inr r)"
    and k: "\<And>cur r. cr_command prior \<in> opened \<Longrightarrow> moved p prior st pa False now (cj_files j) (cj_files j') cur r \<Longrightarrow> keeps_blocked st pa cur"
    and prior: "h < length (handles j p)" "handles j p ! h = prior"
  shows "sound D t opened (cj_files j') ((handles j)(p := (handles j p)[h := r]))" "cr_command r = cr_command prior"
    "cr_state prior \<notin> {CStarted, CCompleted, CFailed, CUncertain} \<Longrightarrow> blocked r \<Longrightarrow> cr_command prior \<notin> opened \<and>
       sound D t (insert (cr_command prior) opened) (cj_files j') ((handles j)(p := (handles j p)[h := r]))"
proof -
  obtain cur where mv: "moved p prior st pa False now (cj_files j) (cj_files j') cur r" and H: "handles j' = handles j"
    using m by (auto simp: moves_to_def)
  note w = sound_write[OF s mv k[OF _ mv]]
  show c: "cr_command r = cr_command prior" by (rule w(4))
  have lt: "\<And>c. c \<in> set (handles j p) \<Longrightarrow> cr_command c = cr_command r \<Longrightarrow> cr_revision c < cr_revision r" using w(5) c by simp
  have dist: "distinct_handles (handles j p)" using s by (simp add: sound_def)
  let ?cs = "(handles j p)[h := r]" let ?H = "(handles j)(p := ?cs)"
  have f: "map_of (cj_files j') (cr_command r) = Some (Stored r)" using w(3) c by simp
  show s': "sound D t opened (cj_files j') ?H"
    by (rule sound_new_handle[OF w(1) f set_update_subset_insert distinct_handles_update[OF dist lt]])
  assume free: "cr_state prior \<notin> {CStarted, CCompleted, CFailed, CUncertain}" and b: "blocked r"
  have "handle_sound (cr_command prior \<in> opened) p cur prior"
    using w(2) prior nth_mem[OF prior(1)] by (auto simp: file_sound_def)
  moreover have rev: "cr_revision cur = cr_revision prior" "cr_revision r = cr_revision prior + 1" "cr_owner r = p"
    using mv by (auto simp: moved_def)
  ultimately have "prior = cur" by (simp add: handle_sound_def)
  with free have "\<not> blocked cur" by (cases "cr_state cur") (auto simp: blocked_def)
  then have no: "cr_command prior \<notin> opened" using w(2) by (auto simp: file_sound_def)
  have "cr_revision c \<noteq> cr_revision r - 1" if "c \<in> set (?H (cr_owner r))" "cr_command c = cr_command r" for c
  proof -
    have "c \<in> set ?cs" using that(1) rev(3) by simp
    then obtain i where i: "i < length (handles j p)" "c = ?cs ! i" unfolding in_set_conv_nth by auto
    show ?thesis
    proof (cases "i = h")
      case True
      with i prior show ?thesis by simp
    next
      case False
      with i have "c = handles j p ! i" by simp
      with False i prior dist have "(cr_command c, cr_revision c) \<noteq> (cr_command prior, cr_revision prior)"
        unfolding distinct_handles_def by (auto simp: distinct_conv_nth)
      with that(2) c rev(2) show ?thesis by auto
    qed
  qed
  then have "sound D t (insert (cr_command r) opened) (cj_files j') ?H" by (intro sound_insert_open[OF s' f b]) simp
  with no c show "cr_command prior \<notin> opened \<and> sound D t (insert (cr_command prior) opened) (cj_files j') ?H" by simp
qed

text \<open>The operations of a handle after their transition.\<close>

lemma handle_nonterminal_sound:
  assumes s: "sound D t opened (cj_files j) (handles j)" and m: "moves_to p r st pa False now j j1 res"
    and k: "\<And>cur r'. cr_command r \<in> opened \<Longrightarrow> moved p r st pa False now (cj_files j) (cj_files j1) cur r' \<Longrightarrow> keeps_blocked st pa cur"
    and h: "h < length (handles j p)" "handles j p ! h = r"
    and op: "handle_nonterminal p h r (j1, res) = (j', ans) \<or> handle_terminal p h r (j1, res) = (j', ans)"
  shows "sound D t opened (cj_files j') (handles j')"
proof -
  have H: "handles j1 = handles j" using m by (simp add: moves_to_def)
  show ?thesis
  proof (cases res)
    case (Inl e)
    then have "cj_files j' = cj_files j1" "handles j' = handles j1"
      using op by (auto simp: handle_nonterminal_def handle_terminal_def)
    with moves_sound[OF s m k] show ?thesis by simp
  next
    case (Inr r')
    then have "cj_files j' = cj_files j1" "handles j' = (handles j1)(p := (handles j1 p)[h := r'])"
      using op by (auto simp: handle_nonterminal_def handle_terminal_def)
    with moves_set_handle(1)[OF s _ k h] m Inr H show ?thesis by simp
  qed
qed

lemma handle_on_disk:
  assumes "sound D t opened (cj_files j) (handles j)" "r \<in> set (handles j p)" "map_of (cj_files j) (cr_command r) = Some (Stored cur)"
    "cr_revision cur = cr_revision r"
  shows "cur = r"
  using sound_file[OF assms(1,3)] assms(2,4) by (auto simp: file_sound_def handle_sound_def)

lemma recover_moves:
  assumes "recover_unsubmitted_steering env p now l prior w j = (j', res)"
  shows "cj_files j' = cj_files j \<and> handles j' = handles j \<and> res = None \<or>
    (\<exists>current res'. map_of (cj_files j) (cr_command prior) = Some (Stored current) \<and> cr_owner current = p \<and> same_identity current prior \<and>
      cr_state prior = CQueued \<and>
      ((cr_revision current = cr_revision prior \<and> cr_state current = CQueued) \<or>
       (cr_revision current = cr_revision prior + 1 \<and> cr_state current = CStarted \<and> cr_steering current)) \<and>
      moves_to p current CQueued (no_patch\<lparr>pa_steering := Some False\<rparr>) False now j j' res' \<and>
      res = (case res' of Inl e \<Rightarrow> None | Inr r \<Rightarrow> Some r))"
proof -
  obtain j1 lres where l: "with_command_lock env now p (cr_command prior) l (unsubmitted_body p now prior w) j = (j1, lres)"
    by (metis surj_pair)
  from l show ?thesis
  proof (cases rule: locked_cases)
    case 1
    then show ?thesis using assms l by (auto simp: recover_unsubmitted_steering_def)
  next
    case (2 ks a)
    then have eq: "j' = j1" "res = a" using assms l by (auto simp: recover_unsubmitted_steering_def)
    let ?j = "j\<lparr>cj_locks := ks\<rparr>"
    show ?thesis
    proof (cases "j1 = ?j \<and> a = None")
      case True
      with eq show ?thesis by simp
    next
      case False
      then obtain current res' where c: "read_command ?j (cr_command prior) = Some current"
        and g: "cr_state prior = CQueued" "cr_owner current = p" "same_identity current prior"
          "(cr_revision current = cr_revision prior \<and> cr_state current = CQueued) \<or>
           (cr_revision current = cr_revision prior + 1 \<and> cr_state current = CStarted \<and> cr_steering current)"
        and tr: "transition_locked p now current CQueued (no_patch\<lparr>pa_steering := Some False\<rparr>) False w ?j = (j1, res')"
          "a = (case res' of Inl e \<Rightarrow> None | Inr r \<Rightarrow> Some r)"
        using 2(2) by (auto simp: unsubmitted_body_def split: option.splits if_splits prod.splits sum.splits)
      have "moves_to p current CQueued (no_patch\<lparr>pa_steering := Some False\<rparr>) False now j j1 res'"
        using transition_locked_moves[OF tr(1)] by (cases res') (simp_all add: moves_to_def)
      moreover have "map_of (cj_files j) (cr_command prior) = Some (Stored current)" using read_command_Some[OF c] by simp
      ultimately show ?thesis using g tr(2) eq by blast
    qed
  qed
qed

text \<open>A submission is only offered for a record with none open, and then keeps the invariant.\<close>

definition op_sound ::
    "(string \<Rightarrow> rat) \<Rightarrow> int \<Rightarrow> string set \<Rightarrow> handle_op \<Rightarrow> command_record \<Rightarrow> command_journal \<Rightarrow> handle_answer \<Rightarrow> bool" where
  "op_sound D t opened a r j' ans \<longleftrightarrow>
     (if submits a r ans then cr_command r \<notin> opened \<and> sound D t (insert (cr_command r) opened) (cj_files j') (handles j')
      else sound D t opened (cj_files j') (handles j'))"

lemma begin_steering_sound:
  assumes s: "sound D t opened (cj_files j) (handles j)" and h: "h < length (handles j p)" "handles j p ! h = r"
    and op: "begin_steering env p h now io r j = (j', ans)"
  shows "op_sound D t opened OpBeginSteering r j' ans"
proof (cases "cr_kind r \<noteq> AnswerRecoveredQuestion \<or> cr_state r \<noteq> CQueued")
  case True
  then show ?thesis using op s by (auto simp: begin_steering_def op_sound_def submits_def)
next
  case False
  let ?pa = "no_patch\<lparr>pa_steering := Some True\<rparr>"
  obtain j1 res where tr: "transition env p now (oi_lock io) r CStarted ?pa (oi_write io) j = (j1, res)" by (metis surj_pair)
  note m = transition_moves[OF tr]
  have r: "r \<in> set (handles j p)" using h nth_mem by blast
  have k: "cr_command r \<notin> opened" if mv: "moved p r CStarted ?pa False now (cj_files j) (cj_files j1) cur r'" for cur r'
  proof -
    have f: "map_of (cj_files j) (cr_command r) = Some (Stored cur)" and "cr_revision cur = cr_revision r" using mv by (auto simp: moved_def)
    then have "cur = r" by (rule handle_on_disk[OF s r])
    with False have "\<not> blocked cur" by (simp add: blocked_def)
    then show ?thesis using sound_file[OF s f] by (auto simp: file_sound_def)
  qed
  show ?thesis
  proof (cases res)
    case (Inr r')
    from m Inr obtain cur where "moved p r CStarted ?pa False now (cj_files j) (cj_files j1) cur r'" and H: "handles j1 = handles j"
      by (auto simp: moves_to_def)
    then have b: "blocked r'" by (auto simp: moved_def blocked_def)
    have "j' = set_handle p h r' j1" "ans = HPrepared True"
      using op False tr Inr by (auto simp: begin_steering_def handle_nonterminal_def)
    moreover note moves_set_handle(3)[OF s m[unfolded Inr] _ h _ b] 
    ultimately show ?thesis using False k H by (auto simp: op_sound_def submits_def)
  next
    case (Inl e)
    let ?j2 = "release_handle p (cr_command r) h j1"
    have s2: "sound D t opened (cj_files ?j2) (handles ?j2)" using moves_sound[OF s m] k by auto
    have H: "handles ?j2 = handles j" using m by (simp add: moves_to_def)
    obtain j3 rec where rc: "recover_unsubmitted_steering env p now (oi_recover_lock io) r (oi_recover_write io) ?j2 = (j3, rec)" by (metis surj_pair)
    have fin: "(j', ans) = (case rec of None \<Rightarrow> (j3, HThrew e)
        | Some r' \<Rightarrow> (activate_handle p (cr_command r') h (set_handle p h r' j3), HPrepared False))"
      using op False tr Inl rc by (auto simp: begin_steering_def handle_nonterminal_def split: option.splits)
    have no: "\<not> submits OpBeginSteering r ans" using fin by (auto simp: submits_def split: option.splits)
    from recover_moves[OF rc] consider "cj_files j3 = cj_files ?j2" "handles j3 = handles ?j2" "rec = None"
      | current res' where "map_of (cj_files ?j2) (cr_command r) = Some (Stored current)" "cr_owner current = p" "same_identity current r"
        "(cr_revision current = cr_revision r \<and> cr_state current = CQueued) \<or>
         (cr_revision current = cr_revision r + 1 \<and> cr_state current = CStarted \<and> cr_steering current)"
        "moves_to p current CQueued (no_patch\<lparr>pa_steering := Some False\<rparr>) False now ?j2 j3 res'"
        "rec = (case res' of Inl e \<Rightarrow> None | Inr r \<Rightarrow> Some r)" by blast
    then have "sound D t opened (cj_files j') (handles j')"
    proof cases
      case 1
      with fin s2 show ?thesis by simp
    next
      case (2 current res')
      have c: "cr_command current = cr_command r" using 2(3) by (simp add: same_identity_def)
      have fs: "file_sound D opened (handles ?j2) (cr_command r) current" by (rule sound_file[OF s2 2(1)])
      have hs: "handle_sound (cr_command r \<in> opened) p current r" using fs r H by (auto simp: file_sound_def)
      have closed: "cr_command r \<notin> opened"
      proof
        assume o: "cr_command r \<in> opened"
        then have "blocked current" using fs by (simp add: file_sound_def)
        then show False using 2(2,4) hs o by (auto simp: blocked_def handle_sound_def)
      qed
      show ?thesis
      proof (cases res')
        case (Inl e')
        with 2(6) fin have "cj_files j' = cj_files j3" "handles j' = handles j3" by simp_all
        with moves_sound[OF s2 2(5)] closed c show ?thesis by simp
      next
        case (Inr r')
        with 2(6) fin have j': "cj_files j' = cj_files j3" "handles j' = (handles j3)(p := (handles j3 p)[h := r'])" by simp_all
        obtain cur where mv: "moved p current CQueued (no_patch\<lparr>pa_steering := Some False\<rparr>) False now (cj_files ?j2) (cj_files j3) cur r'"
          and H3: "handles j3 = handles ?j2" using 2(5) Inr by (auto simp: moves_to_def)
        have k3: "keeps_blocked CQueued (no_patch\<lparr>pa_steering := Some False\<rparr>) cur" if "cr_command current \<in> opened"
          using that closed c by simp
        note w = sound_write[OF s2 mv k3]
        have lt: "x \<in> set (handles ?j2 p) \<Longrightarrow> cr_command x = cr_command r' \<Longrightarrow> cr_revision x < cr_revision r'" for x
          using w(5)[of x p] w(4) by simp
        have "distinct_handles (handles ?j2 p)" using s2 by (simp add: sound_def)
        from sound_new_handle[OF w(1) _ set_update_subset_insert distinct_handles_update[OF this lt]] w(3,4) j' H3
        show ?thesis by simp
      qed
    qed
    with no show ?thesis by (simp add: op_sound_def)
  qed
qed

lemma handle_op_sound:
  assumes s: "sound D t opened (cj_files j) (handles j)" and h: "h < length (handles j p)" "handles j p ! h = r"
    and closed: "a = OpSteeringRejected \<Longrightarrow> cr_steering r \<Longrightarrow> cr_command r \<notin> opened"
    and op: "handle_op env p h now io a j = (j', ans)"
  shows "op_sound D t opened a r j' ans"
proof -
  have r: "r \<in> set (handles j p)" using h nth_mem by blast
  have hr: "cp_handles (the_process j p) ! h = r" using h by (simp add: handles_def)
  have plain: "op_sound D t opened a r j' ans"
    if tr: "transition env p now (oi_lock io) r st pa (oi_write io) j = (j1, res)" and no: "\<not> submits a r ans"
      and k: "\<And>cur r'. cr_command r \<in> opened \<Longrightarrow> moved p r st pa False now (cj_files j) (cj_files j1) cur r' \<Longrightarrow> keeps_blocked st pa cur"
      and res: "handle_nonterminal p h r (j1, res) = (j', ans) \<or> handle_terminal p h r (j1, res) = (j', ans)" for st pa j1 res
    using handle_nonterminal_sound[OF s transition_moves[OF tr] k h res] no by (simp add: op_sound_def)
  show ?thesis
  proof (cases a)
    case (OpQueued e c)
    obtain j1 res where tr: "transition env p now (oi_lock io) r CQueued (no_patch\<lparr>pa_error := e, pa_code := c\<rparr>) (oi_write io) j = (j1, res)"
      by (metis surj_pair)
    show ?thesis
    proof (rule plain[OF tr])
      fix cur r' assume o: "cr_command r \<in> opened" and mv: "moved p r CQueued (no_patch\<lparr>pa_error := e, pa_code := c\<rparr>) False now (cj_files j) (cj_files j1) cur r'"
      have "blocked cur" using sound_file[OF s, of "cr_command r" cur] mv o by (auto simp: moved_def file_sound_def)
      with mv show "keeps_blocked CQueued (no_patch\<lparr>pa_error := e, pa_code := c\<rparr>) cur"
        by (auto simp: moved_def blocked_def reset_allowed_def transition_allowed_def no_patch_def split: if_splits)
    qed (use op hr tr OpQueued in \<open>auto simp: handle_op_def submits_def\<close>)
  next
    case OpBeginSteering
    with begin_steering_sound[OF s h] op hr show ?thesis by (simp add: handle_op_def)
  next
    case OpSteeringRejected
    show ?thesis
    proof (cases "cr_steering r")
      case False
      with op hr OpSteeringRejected s show ?thesis by (auto simp: handle_op_def op_sound_def submits_def)
    next
      case True
      obtain j1 res where tr: "transition env p now (oi_lock io) r CQueued (no_patch\<lparr>pa_steering := Some False\<rparr>) (oi_write io) j = (j1, res)"
        by (metis surj_pair)
      show ?thesis
        by (rule plain[OF tr]) (use op hr tr True OpSteeringRejected closed in \<open>auto simp: handle_op_def submits_def\<close>)
    qed
  next
    case (OpStarted n)
    let ?pa = "no_patch\<lparr>pa_seq := n, pa_steering := Some False\<rparr>"
    obtain j1 res where tr: "transition env p now (oi_lock io) r CStarted ?pa (oi_write io) j = (j1, res)" by (metis surj_pair)
    note m = transition_moves[OF tr]
    have k: "keeps_blocked CStarted ?pa cur" for cur by (simp add: keeps_blocked_def)
    have out: "handle_nonterminal p h r (j1, res) = (j', ans)" using op hr tr OpStarted by (simp add: handle_op_def)
    show ?thesis
    proof (cases "submits a r ans")
      case False
      show ?thesis by (rule plain[OF tr False k]) (use out in auto)
    next
      case True
      then obtain r' where res: "res = Inr r'" and ns: "cr_state r \<noteq> CStarted"
        using out OpStarted by (cases res) (auto simp: handle_nonterminal_def submits_def)
      from m res obtain cur where mv: "moved p r CStarted ?pa False now (cj_files j) (cj_files j1) cur r'" and H: "handles j1 = handles j"
        by (auto simp: moves_to_def)
      then have b: "blocked r'" by (auto simp: moved_def blocked_def)
      have "cur = r" using handle_on_disk[OF s r] mv by (auto simp: moved_def)
      then have "cr_state r \<notin> {CStarted, CCompleted, CFailed, CUncertain}"
        using mv ns by (auto simp: moved_def reset_allowed_def transition_allowed_def is_terminal_def split: if_splits)
      from moves_set_handle(3)[OF s m[unfolded res] k h this b] True H out res show ?thesis
        by (auto simp: op_sound_def handle_nonterminal_def)
    qed
  next
    case OpCompleted
    obtain j1 res where tr: "transition env p now (oi_lock io) r CCompleted no_patch (oi_write io) j = (j1, res)" by (metis surj_pair)
    show ?thesis
      by (rule plain[OF tr]) (use op hr tr OpCompleted in \<open>auto simp: handle_op_def submits_def keeps_blocked_def\<close>)
  next
    case (OpFailed e c)
    obtain j1 res where tr: "transition env p now (oi_lock io) r CFailed (no_patch\<lparr>pa_error := Some e, pa_code := c\<rparr>) (oi_write io) j = (j1, res)"
      by (metis surj_pair)
    show ?thesis
      by (rule plain[OF tr]) (use op hr tr OpFailed in \<open>auto simp: handle_op_def submits_def keeps_blocked_def\<close>)
  next
    case (OpUncertain e)
    obtain j1 res where tr: "transition env p now (oi_lock io) r CUncertain (no_patch\<lparr>pa_error := Some e\<rparr>) (oi_write io) j = (j1, res)"
      by (metis surj_pair)
    show ?thesis
      by (rule plain[OF tr]) (use op hr tr OpUncertain in \<open>auto simp: handle_op_def submits_def keeps_blocked_def\<close>)
  qed
qed

lemma remove_expired_files:
  assumes "remove_expired now k fs = (fs', b)" "distinct (map fst fs)"
  shows "distinct (map fst fs')" "fst ` set fs' \<subseteq> fst ` set fs"
    "map_of fs' c = map_of fs c \<or> (map_of fs' c = None \<and> (\<exists>r. map_of fs c = Some (Stored r) \<and> cr_expires r < of_int now))"
proof -
  have "distinct (map fst fs') \<and> fst ` set fs' \<subseteq> fst ` set fs \<and>
    (\<forall>c. map_of fs' c = map_of fs c \<or> (map_of fs' c = None \<and> (\<exists>r. map_of fs c = Some (Stored r) \<and> cr_expires r < of_int now)))"
    using assms
  proof (induction now k fs arbitrary: fs' b rule: remove_expired.induct)
    case (1 now k)
    then show ?case by auto
  next
    case (2 now k a f fs)
    have d: "a \<notin> fst ` set fs" "distinct (map fst fs)" using "2.prems"(2) by auto
    show ?case
    proof (cases "expired_file now f \<and> k \<noteq> Some 0")
      case True
      then obtain r where f: "f = Stored r" "cr_expires r < of_int now" by (auto simp: expired_file_def split: record_file.splits)
      have ih: "distinct (map fst fs') \<and> fst ` set fs' \<subseteq> fst ` set fs \<and>
        (\<forall>c. map_of fs' c = map_of fs c \<or> (map_of fs' c = None \<and> (\<exists>r. map_of fs c = Some (Stored r) \<and> cr_expires r < of_int now)))"
      proof (cases k)
        case None
        with True "2.IH"(1)[OF _ None, of fs' b] "2.prems"(1) d show ?thesis by simp
      next
        case (Some n)
        with True obtain m where m: "n = Suc m" by (cases n) auto
        with True Some "2.IH"(2)[OF _ _ m, of fs' b] "2.prems"(1) d show ?thesis by simp
      qed
      moreover have "map_of fs' a = None" using ih d(1) by (auto simp: map_of_eq_None_iff)
      ultimately show ?thesis using f by auto
    next
      case False
      show ?thesis
      proof (cases "expired_file now f")
        case True
        with False "2.prems" show ?thesis by auto
      next
        case noexp: False
        obtain gs where gs: "remove_expired now k fs = (gs, b)" "fs' = (a, f) # gs" using "2.prems"(1) noexp by (auto split: prod.splits)
        from "2.IH"(3)[OF noexp gs(1) d(2)] gs(2) d(1) show ?thesis by auto
      qed
    qed
  qed
  then show "distinct (map fst fs')" "fst ` set fs' \<subseteq> fst ` set fs"
    "map_of fs' c = map_of fs c \<or> (map_of fs' c = None \<and> (\<exists>r. map_of fs c = Some (Stored r) \<and> cr_expires r < of_int now))" by blast+
qed

lemma prune_sound:
  assumes s: "sound D t opened (cj_files j) H" and t: "t \<le> now" and p: "prune_commands now k j = (j', b)"
  shows "sound D now opened (cj_files j') H" "handles j' = handles j"
proof -
  obtain fs where fs: "remove_expired now k (cj_files j) = (fs, b)" and j': "j' = j\<lparr>cj_files := fs\<rparr>"
    using p by (auto simp: prune_commands_def Let_def split: prod.splits)
  have s': "sound D now opened (cj_files j) H" by (rule sound_later[OF s t])
  then have d: "distinct (map fst (cj_files j))" by (simp add: sound_def)
  note rm = remove_expired_files[OF fs d]
  have "file_sound D opened H c r" if "map_of fs c = Some (Stored r)" for c r
    using rm(3)[of c] that sound_file[OF s'] by auto
  moreover have "absent_sound D now opened H c" if "map_of fs c = None" for c
  proof (cases "map_of (cj_files j) c")
    case None
    with s' show ?thesis by (simp add: sound_def)
  next
    case (Some f)
    with rm(3)[of c] that obtain r where r: "map_of (cj_files j) c = Some (Stored r)" "cr_expires r < of_int now" by auto
    from sound_file[OF s' r(1)] r(2) show ?thesis by (simp add: file_sound_def absent_sound_def)
  qed
  ultimately show "sound D now opened (cj_files j') H" "handles j' = handles j"
    using s' rm(1) by (simp_all add: sound_def j')
qed

lemma sound_create:
  assumes s: "sound D t opened fs H" and new: "map_of fs (cr_command r) = None" and exp: "cr_expires r = D (cr_command r)" "of_int t \<le> cr_expires r"
  shows "sound D t opened (AList.update (cr_command r) (Stored r) fs) H" "\<And>q c. c \<in> set (H q) \<Longrightarrow> cr_command c \<noteq> cr_command r"
proof -
  have "absent_sound D t opened H (cr_command r)" using s new by (simp add: sound_def)
  then have free: "cr_command r \<notin> opened" "\<And>q c. c \<in> set (H q) \<Longrightarrow> cr_command c \<noteq> cr_command r"
    using exp by (auto simp: absent_sound_def)
  then show "\<And>q c. c \<in> set (H q) \<Longrightarrow> cr_command c \<noteq> cr_command r" by blast
  have "file_sound D opened H (cr_command r) r" using free exp by (auto simp: file_sound_def)
  then show "sound D t opened (AList.update (cr_command r) (Stored r) fs) H"
    using s by (auto simp: sound_def update_conv' distinct_update)
qed

lemma take_over_sound:
  assumes s: "sound D t opened (cj_files j) (handles j)" and e: "read_command j cid = Some existing" and nt: "\<not> is_terminal (cr_state existing)"
    and res: "take_over p now w error existing j = (j', ans)"
  shows "sound D t opened (cj_files j') (handles j')"
proof -
  have f: "map_of (cj_files j) cid = Some (Stored existing)" using read_command_Some[OF e] by simp
  have c: "cr_command existing = cid" using sound_file[OF s f] by (simp add: file_sound_def)
  show ?thesis
  proof (cases "cr_state existing = CStarted")
    case True
    obtain j1 r where tr: "transition_locked p now existing CUncertain (no_patch\<lparr>pa_error := Some error\<rparr>) True w j = (j1, r)" by (metis surj_pair)
    have "j' = j1" using res True tr by (auto simp: take_over_def split: sum.splits)
    with moves_sound[OF s transition_locked_moves[OF tr]] show ?thesis by (simp add: keeps_blocked_def)
  next
    case False
    then have nb: "\<not> blocked existing" using nt by (cases "cr_state existing") (auto simp: is_terminal_def blocked_def)
    then have closed: "cr_command existing \<notin> opened" using sound_file[OF s f] c by (auto simp: file_sound_def)
    obtain j1 r where tr: "transition_locked p now existing CAccepted no_patch True w j = (j1, r)" by (metis surj_pair)
    note m = transition_locked_moves[OF tr]
    have s1: "sound D t opened (cj_files j1) (handles j1)" using moves_sound[OF s m] closed by simp
    show ?thesis
    proof (cases r)
      case (Inl err)
      with res False tr s1 show ?thesis by (auto simp: take_over_def)
    next
      case (Inr q)
      then obtain cur where mv: "moved p existing CAccepted no_patch True now (cj_files j) (cj_files j1) cur q" and H: "handles j1 = handles j"
        using m by (auto simp: moves_to_def)
      have kk: "keeps_blocked CAccepted no_patch cur" if "cr_command existing \<in> opened" using that closed by simp
      note w = sound_write[OF s mv kk]
      have lt: "x \<in> set (handles j1 p) \<Longrightarrow> cr_command x = cr_command q \<Longrightarrow> cr_revision x < cr_revision q" for x
        using w(5)[of x p] w(4) H by simp
      have dist: "distinct_handles (handles j1 p)" using s1 by (simp add: sound_def)
      obtain j2 h where nh: "new_handle p q j1 = (j2, h)" by (metis surj_pair)
      have "j' = j2" using res False tr Inr nh by (auto simp: take_over_def)
      moreover have "sound D t opened (cj_files j1) ((handles j1)(p := handles j1 p @ [q]))"
        by (rule sound_new_handle[OF s1 _ _ distinct_handles_snoc[OF dist lt]]) (use w(3,4) in auto)
      ultimately show ?thesis using new_handle_handles[OF nh] by simp
    qed
  qed
qed

lemma claim_body_sound:
  assumes s: "sound D t opened (cj_files j) (handles j)" and t: "t \<le> now"
    and exp: "cm_expires (envelope v) = D (cm_command_id (envelope v))" "of_int now \<le> cm_expires (envelope v)"
    and res: "claim_body env p now v io j = (j', ans)"
  shows "sound D now opened (cj_files j') (handles j')"
proof -
  let ?r = "fresh_record env p now (envelope v)"
  have r: "cr_command ?r = cm_command_id (envelope v)" "cr_expires ?r = cm_expires (envelope v)" by (simp_all add: fresh_record_def)
  note s0 = sound_later[OF s t]
  show ?thesis
  proof (cases "read_command j (cr_command ?r)")
    case (Some existing)
    then have ce: "claim_existing env p now io ?r existing j = (j', ans)" using res by (simp add: claim_body_def Let_def)
    show ?thesis
    proof (cases "j' = j")
      case False
      then obtain err where "take_over p now (ci_write io) err existing j = (j', ans)" "\<not> is_terminal (cr_state existing)"
        using ce by (auto simp: claim_existing_def split: if_splits)
      with take_over_sound[OF s0 Some] show ?thesis by blast
    qed (use s0 in simp)
  next
    case None
    show ?thesis
    proof (cases "map_of (cj_files j) (cr_command ?r)")
      case (Some f)
      with None res s0 show ?thesis by (auto simp: claim_body_def Let_def)
    next
      case no: None
      with None res have cn: "claim_new env p now v io ?r j = (j', ans)" by (simp add: claim_body_def Let_def)
      obtain j1 b where j1: "(if length (cj_files j) \<ge> ce_max_receipts env then prune_commands now (ci_prune io) j else (j, True)) = (j1, b)"
        by (metis surj_pair)
      have s1: "sound D now opened (cj_files j1) (handles j1)" and H1: "handles j1 = handles j"
        using j1 prune_sound[OF s t] s0 by (auto split: if_splits)
      have no1: "map_of (cj_files j1) (cr_command ?r) = None"
      proof (cases "length (cj_files j) \<ge> ce_max_receipts env")
        case True
        with j1 obtain fs where fs: "remove_expired now (ci_prune io) (cj_files j) = (fs, b)" "cj_files j1 = fs"
          by (auto simp: prune_commands_def Let_def split: prod.splits)
        have "distinct (map fst (cj_files j))" using s by (simp add: sound_def)
        from remove_expired_files(3)[OF fs(1) this, of "cr_command ?r"] fs(2) no show ?thesis by auto
      next
        case False
        with j1 no show ?thesis by auto
      qed
      have e: "cr_expires ?r = D (cr_command ?r)" "of_int now \<le> cr_expires ?r" using exp r by simp_all
      note c = sound_create[OF s1 no1 e]
      let ?j2 = "write_atomic (ci_write io) (cr_command ?r) ?r j1"
      have s2: "sound D now opened (cj_files ?j2) (handles ?j2)" using c(1) s1 by simp
      show ?thesis
      proof (cases "b \<and> \<not> length (cj_files j1) \<ge> ce_max_receipts env")
        case False
        with cn j1 s1 show ?thesis by (auto simp: claim_new_def split: if_splits)
      next
        case True
        show ?thesis
        proof (cases "ci_write io = Written")
          case False
          with True cn j1 s2 show ?thesis by (auto simp: claim_new_def Let_def)
        next
          case w: True
          obtain j3 h where nh: "new_handle p ?r ?j2 = (j3, h)" by (metis surj_pair)
          have "j' = j3" using True w cn j1 nh by (auto simp: claim_new_def Let_def)
          moreover have "sound D now opened (cj_files ?j2) ((handles ?j2)(p := handles ?j2 p @ [?r]))"
          proof (rule sound_new_handle[OF s2])
            show "map_of (cj_files ?j2) (cr_command ?r) = Some (Stored ?r)" using w by (simp add: update_conv')
            show "distinct_handles (handles ?j2 p @ [?r])"
            proof (rule distinct_handles_snoc)
              show "distinct_handles (handles ?j2 p)" using s2 by (simp add: sound_def)
              show "cr_revision x < cr_revision ?r" if "x \<in> set (handles ?j2 p)" "cr_command x = cr_command ?r" for x
                using c(2)[of x p] that by simp
            qed
          qed auto
          ultimately show ?thesis using new_handle_handles[OF nh] by simp
        qed
      qed
    qed
  qed
qed

section \<open>Runs\<close>

text \<open>
  Time does not run backwards between claims and removals, and a command keeps its deadline in every
  envelope that carries it, as the control plane sends it.
\<close>

definition same_deadline :: "(string \<Rightarrow> rat) \<Rightarrow> command_env \<Rightarrow> int \<Rightarrow> json \<Rightarrow> bool" where
  "same_deadline D env now v \<longleftrightarrow>
     validate_message env now v \<noteq> None \<or> cm_expires (envelope v) = D (cm_command_id (envelope v))"

fun ordered_events :: "(string \<Rightarrow> rat) \<Rightarrow> command_env \<Rightarrow> int \<Rightarrow> command_event list \<Rightarrow> bool" where
  "ordered_events D env t [] = True"
| "ordered_events D env t (Claim p now v io # es) \<longleftrightarrow> t \<le> now \<and> same_deadline D env now v \<and> ordered_events D env now es"
| "ordered_events D env t (Prune now k # es) \<longleftrightarrow> t \<le> now \<and> ordered_events D env now es"
| "ordered_events D env t (e # es) = ordered_events D env t es"

fun event_clock :: "int \<Rightarrow> command_event \<Rightarrow> int" where
  "event_clock t (Claim p now v io) = now"
| "event_clock t (Prune now k) = now"
| "event_clock t e = t"

lemma clock_grows: "ordered_events D env t (e # es) \<Longrightarrow> t \<le> event_clock t e \<and> ordered_events D env (event_clock t e) es"
  by (cases e) auto

text \<open>The submissions that are open after some outputs; \<open>None\<close> when one was made while another was open.\<close>

fun follow_submissions :: "string set \<Rightarrow> command_output list \<Rightarrow> string set option" where
  "follow_submissions opened [] = Some opened"
| "follow_submissions opened (Submit c # os) = (if c \<in> opened then None else follow_submissions (insert c opened) os)"
| "follow_submissions opened (Refused c # os) = follow_submissions (opened - {c}) os"
| "follow_submissions opened (Answered c ans # os) = follow_submissions opened os"
| "follow_submissions opened (OpAnswered ans # os) = follow_submissions opened os"

lemma follow_append:
  "follow_submissions opened (xs @ ys) = (case follow_submissions opened xs of None \<Rightarrow> None | Some o' \<Rightarrow> follow_submissions o' ys)"
  by (induction opened xs rule: follow_submissions.induct) auto

lemma sound_fewer_handles:
  assumes "sound D t opened fs H"
  shows "sound D t opened fs (H(p := []))"
proof -
  have "file_sound D opened H c r \<Longrightarrow> file_sound D opened (H(p := [])) c r" for c r
    unfolding file_sound_def by simp
  moreover have "absent_sound D t opened H c \<Longrightarrow> absent_sound D t opened (H(p := [])) c" for c
    unfolding absent_sound_def by (simp, blast)
  ultimately show ?thesis using assms by (simp add: sound_def distinct_handles_def)
qed

lemma heartbeat_same: "heartbeat_owner now p w j = (j', b) \<Longrightarrow> cj_files j' = cj_files j \<and> handles j' = handles j"
  by (auto simp: heartbeat_owner_def split: if_splits)

lemma claim_command_sound:
  assumes s: "sound D t opened (cj_files j) (handles j)" and t: "t \<le> now" and d: "same_deadline D env now v"
    and res: "claim_command env p now v io j = (j', ans)"
  shows "sound D now opened (cj_files j') (handles j')"
proof (cases "validate_message env now v \<noteq> None \<or>
    durable_command_payload_digest env (cm_command (envelope v)) \<noteq> cm_digest (envelope v)")
  case True
  then have "j' = j" using res by (auto simp: claim_command_def split: option.splits prod.splits)
  with sound_later[OF s t] show ?thesis by simp
next
  case False
  then have v: "validate_message env now v = None" by blast
  have exp: "cm_expires (envelope v) = D (cm_command_id (envelope v))" using d v by (simp add: same_deadline_def)
  have late: "of_int now \<le> cm_expires (envelope v)"
    using False by (auto simp: validate_message_def Let_def split: if_splits)
  obtain j1 b where hb: "heartbeat_owner now p (ci_lease io) j = (j1, b)" by (metis surj_pair)
  note h = heartbeat_same[OF hb]
  have s1: "sound D t opened (cj_files j1) (handles j1)" using s h by simp
  show ?thesis
  proof (cases b)
    case no: False
    then have "j' = j1" using False v res hb by (simp add: claim_command_def)
    with sound_later[OF s1 t] show ?thesis by simp
  next
    case b: True
    obtain j2 lres where l: "with_command_lock env now p (cm_command_id (envelope v)) (ci_lock io) (claim_body env p now v io) j1 = (j2, lres)"
      by (metis surj_pair)
    have j': "j' = j2" using False v b res hb l by (auto simp: claim_command_def split: locked.splits)
    from l show ?thesis
    proof (cases rule: locked_cases)
      case 1
      with sound_later[OF s1 t] j' show ?thesis by simp
    next
      case (2 ks a)
      have "sound D t opened (cj_files (j1\<lparr>cj_locks := ks\<rparr>)) (handles (j1\<lparr>cj_locks := ks\<rparr>))" using s1 by simp
      from claim_body_sound[OF this t exp late 2(2)] j' show ?thesis by simp
    qed
  qed
qed

lemma command_step_sound:
  assumes s: "sound D t opened (cj_files j) (handles j)" and o: "ordered_events D env t (e # es)"
  shows "\<exists>opened'. follow_submissions opened (snd (command_step env j e)) = Some opened' \<and>
    sound D (event_clock t e) opened' (cj_files (fst (command_step env j e))) (handles (fst (command_step env j e)))"
proof (cases e)
  case (StartProcess p now w)
  obtain j' b where hb: "heartbeat_owner now p w j = (j', b)" by (metis surj_pair)
  show ?thesis
  proof (cases "running j p")
    case True
    with StartProcess s o show ?thesis by auto
  next
    case False
    have "sound D t opened (cj_files j') ((handles j')(p := []))" using sound_fewer_handles[OF s] heartbeat_same[OF hb] by simp
    moreover have "sound D t opened (cj_files j') (handles j')" using s heartbeat_same[OF hb] by simp
    ultimately show ?thesis using StartProcess False hb o by (cases b) auto
  qed
next
  case (Heartbeat p now w)
  have "cj_files (fst (heartbeat_owner now p w j)) = cj_files j \<and> handles (fst (heartbeat_owner now p w j)) = handles j"
    using heartbeat_same by (metis surjective_pairing)
  with Heartbeat s o show ?thesis by auto
next
  case (Claim p now v io)
  obtain j' ans where c: "claim_command env p now v io j = (j', ans)" by (metis surj_pair)
  have t: "t \<le> now" "same_deadline D env now v" "ordered_events D env now es" using o Claim by simp_all
  show ?thesis
  proof (cases "running j p")
    case True
    with claim_command_sound[OF s t(1,2) c] Claim c t(3) show ?thesis by auto
  next
    case False
    with sound_later[OF s t(1)] Claim t(3) show ?thesis by auto
  qed
next
  case (HandleOp p h now io a)
  show ?thesis
  proof (cases "running j p \<and> h < length (cp_handles (the_process j p))")
    case False
    then have "command_step env j e = (j, [])" using HandleOp by auto
    with s o HandleOp show ?thesis by auto
  next
    case True
    let ?r = "cp_handles (the_process j p) ! h"
    obtain j' ans where op: "handle_op env p h now io a j = (j', ans)" by (metis surj_pair)
    let ?o = "if a = OpSteeringRejected \<and> cr_steering ?r then opened - {cr_command ?r} else opened"
    have s1: "sound D t ?o (cj_files j) (handles j)" using s sound_refused[OF s] by simp
    have h: "h < length (handles j p)" "handles j p ! h = ?r" using True by (simp_all add: handles_def)
    have snd: "op_sound D t ?o a ?r j' ans" by (rule handle_op_sound[OF s1 h _ op]) simp
    have step: "command_step env j e = (j', (if a = OpSteeringRejected \<and> cr_steering ?r then [Refused (cr_command ?r)] else []) @
        (if submits a ?r ans then [Submit (cr_command ?r)] else []) @ [OpAnswered ans])"
      using HandleOp True op by (simp add: Let_def)
    have clock: "event_clock t e = t" by (simp add: HandleOp)
    show ?thesis using snd unfolding step op_sound_def clock by (auto simp: follow_append split: if_splits)
  qed
next
  case (Prune now k)
  obtain j' b where p: "prune_commands now k j = (j', b)" by (metis surj_pair)
  have "t \<le> now" "ordered_events D env now es" using o Prune by simp_all
  with prune_sound[OF s _ p] Prune p show ?thesis by auto
next
  case (Crash p held)
  let ?j = "fst (command_step env j e)"
  have "handles ?j = (handles j)(p := [])"
    by (rule ext) (auto simp: Crash handles_def the_process_def delete_conv')
  moreover have "cj_files ?j = cj_files j" "snd (command_step env j e) = []" by (simp_all add: Crash)
  ultimately show ?thesis using sound_fewer_handles[OF s] o Crash by auto
next
  case (Garble cid)
  let ?j = "fst (command_step env j e)"
  have "sound D t opened (cj_files ?j) (handles ?j)"
  proof (cases "map_of (cj_files j) cid")
    case None
    with s show ?thesis by (simp add: Garble)
  next
    case (Some f)
    with s show ?thesis by (auto simp: Garble sound_def update_conv' distinct_update)
  qed
  then show ?thesis using o Garble by auto
qed

lemma command_run_sound:
  "sound D t opened (cj_files j) (handles j) \<Longrightarrow> ordered_events D env t (es @ es') \<Longrightarrow>
   \<exists>t' opened'. follow_submissions opened (snd (run_out (command_step env) j es)) = Some opened' \<and>
     sound D t' opened' (cj_files (fst (run_out (command_step env) j es))) (handles (fst (run_out (command_step env) j es))) \<and>
     ordered_events D env t' es'"
proof (induction es arbitrary: t opened j)
  case (Cons e es)
  have o: "ordered_events D env t (e # (es @ es'))" using Cons.prems(2) by simp
  from command_step_sound[OF Cons.prems(1) o] obtain o1 where
    1: "follow_submissions opened (snd (command_step env j e)) = Some o1"
    "sound D (event_clock t e) o1 (cj_files (fst (command_step env j e))) (handles (fst (command_step env j e)))" by blast
  from Cons.IH[OF 1(2)] clock_grows[OF o] 1(1) show ?case by (auto simp: Let_def case_prod_beta follow_append)
qed auto

lemma sound_empty: "sound D t {} (cj_files empty_journal) (handles empty_journal)"
  by (simp add: sound_def empty_journal_def handles_def the_process_def distinct_handles_def absent_sound_def)

section \<open>What becomes of one record\<close>

text \<open>Every write keeps what the command is, and a verdict.\<close>

definition advances :: "command_record \<Rightarrow> command_record \<Rightarrow> bool" where
  "advances r r' \<longleftrightarrow> cr_command r' = cr_command r \<and> cr_execution r' = cr_execution r \<and> cr_kind r' = cr_kind r \<and>
     cr_session r' = cr_session r \<and> cr_hmac r' = cr_hmac r \<and> cr_expires r' = cr_expires r \<and> cr_revision r \<le> cr_revision r' \<and>
     (is_terminal (cr_state r) \<longrightarrow> cr_state r' = cr_state r)"

lemma advances_refl [simp]: "advances r r"
  by (simp add: advances_def)

lemma advances_trans: "advances a b \<Longrightarrow> advances b c \<Longrightarrow> advances a c"
  by (auto simp: advances_def)

definition evolves :: "(string \<Rightarrow> rat) \<Rightarrow> int \<Rightarrow> string \<Rightarrow> record_file option \<Rightarrow> record_file option \<Rightarrow> bool" where
  "evolves D now cid x y \<longleftrightarrow>
     (case x of
        None \<Rightarrow> (case y of None \<Rightarrow> True | Some f \<Rightarrow> of_int now < D cid)
      | Some Garbled \<Rightarrow> y = Some Garbled
      | Some (Stored r) \<Rightarrow>
          (case y of None \<Rightarrow> cr_expires r < of_int now | Some Garbled \<Rightarrow> True | Some (Stored r') \<Rightarrow> advances r r'))"

lemma journal_evolves_refl [simp]: "evolves D now cid x x"
  by (simp add: evolves_def split: option.split record_file.split)

lemma moved_advances: "moved p prior st pa own now fs fs' cur r \<Longrightarrow> advances cur r"
proof -
  assume m: "moved p prior st pa own now fs fs' cur r"
  then have "is_terminal (cr_state cur) \<longrightarrow> st = cr_state cur"
    by (auto simp: moved_def reset_allowed_def transition_allowed_def is_terminal_def split: if_splits)
  with m show ?thesis by (auto simp: moved_def advances_def)
qed

text \<open>A file that only changes by transitions of its record.\<close>

definition rewritten :: "(string \<times> record_file) list \<Rightarrow> (string \<times> record_file) list \<Rightarrow> bool" where
  "rewritten fs fs' \<longleftrightarrow> (\<forall>cid. map_of fs' cid = map_of fs cid \<or>
     (\<exists>r r'. map_of fs cid = Some (Stored r) \<and> map_of fs' cid = Some (Stored r') \<and> advances r r'))"

lemma rewritten_refl [simp]: "rewritten fs fs"
  by (simp add: rewritten_def)

lemma rewritten_trans: "rewritten a b \<Longrightarrow> rewritten b c \<Longrightarrow> rewritten a c"
  unfolding rewritten_def by (metis advances_trans option.inject record_file.inject)

lemma rewritten_evolves: "rewritten fs fs' \<Longrightarrow> evolves D now cid (map_of fs cid) (map_of fs' cid)"
proof -
  assume "rewritten fs fs'"
  then consider "map_of fs' cid = map_of fs cid"
    | r r' where "map_of fs cid = Some (Stored r)" "map_of fs' cid = Some (Stored r')" "advances r r'" unfolding rewritten_def by blast
  then show ?thesis by cases (auto simp: evolves_def split: option.split record_file.split)
qed

definition keyed :: "(string \<times> record_file) list \<Rightarrow> bool" where
  "keyed fs \<longleftrightarrow> (\<forall>cid r. map_of fs cid = Some (Stored r) \<longrightarrow> cr_command r = cid)"

lemma sound_keyed: "sound D t opened fs H \<Longrightarrow> keyed fs"
  by (simp add: sound_def keyed_def file_sound_def)

lemma keyed_rewritten: "keyed fs \<Longrightarrow> rewritten fs fs' \<Longrightarrow> keyed fs'"
  unfolding keyed_def rewritten_def advances_def by (metis option.inject record_file.inject)

lemma moves_rewritten:
  assumes s: "keyed (cj_files j)" and m: "moves_to p prior st pa own now j j' res"
  shows "rewritten (cj_files j) (cj_files j')"
proof -
  have "cj_files j' = cj_files j \<or> (\<exists>cur r. moved p prior st pa own now (cj_files j) (cj_files j') cur r)"
    using m by (auto simp: moves_to_def split: sum.splits)
  then show ?thesis
  proof
    assume "\<exists>cur r. moved p prior st pa own now (cj_files j) (cj_files j') cur r"
    then obtain cur r where mv: "moved p prior st pa own now (cj_files j) (cj_files j') cur r" by blast
    have f: "map_of (cj_files j) (cr_command prior) = Some (Stored cur)" using mv by (simp add: moved_def)
    then have "cr_command cur = cr_command prior" using s by (simp add: keyed_def)
    then show ?thesis using mv f moved_advances[OF mv] by (auto simp: moved_def rewritten_def update_conv')
  qed simp
qed

lemma handle_end_files: "cj_files (fst (handle_nonterminal p h r (j, res))) = cj_files j" "cj_files (fst (handle_terminal p h r (j, res))) = cj_files j"
  by (cases res; simp add: handle_nonterminal_def handle_terminal_def)+

lemma transition_rewritten: "keyed (cj_files j) \<Longrightarrow> rewritten (cj_files j) (cj_files (fst (transition env p now l prior st pa w j)))"
  using moves_rewritten[OF _ transition_moves] by (metis surjective_pairing)

lemma after_transition:
  "keyed (cj_files j) \<Longrightarrow> rewritten (cj_files j) (cj_files (fst (handle_nonterminal p h r (transition env p now l prior st pa w j))))"
  "keyed (cj_files j) \<Longrightarrow> rewritten (cj_files j) (cj_files (fst (handle_terminal p h r (transition env p now l prior st pa w j))))"
  using transition_rewritten handle_end_files by (metis surjective_pairing)+

lemma recover_rewritten:
  assumes k: "keyed (cj_files j)" and r: "recover_unsubmitted_steering env p now l prior w j = (j', res)"
  shows "rewritten (cj_files j) (cj_files j')"
  using recover_moves[OF r] moves_rewritten[OF k] by auto

lemma handle_op_rewritten:
  assumes k: "keyed (cj_files j)"
  shows "rewritten (cj_files j) (cj_files (fst (handle_op env p h now io a j)))"
proof -
  let ?r = "cp_handles (the_process j p) ! h"
  have "rewritten (cj_files j) (cj_files (fst (begin_steering env p h now io ?r j)))"
  proof (cases "cr_kind ?r \<noteq> AnswerRecoveredQuestion \<or> cr_state ?r \<noteq> CQueued")
    case True
    then show ?thesis by (auto simp: begin_steering_def)
  next
    case False
    obtain j1 ans where n: "handle_nonterminal p h ?r (transition env p now (oi_lock io) ?r CStarted (no_patch\<lparr>pa_steering := Some True\<rparr>) (oi_write io) j) = (j1, ans)"
      by (metis surj_pair)
    have r1: "rewritten (cj_files j) (cj_files j1)" using after_transition(1)[OF k] n by (metis fst_conv)
    obtain j2 rec where rc: "recover_unsubmitted_steering env p now (oi_recover_lock io) ?r (oi_recover_write io) j1 = (j2, rec)"
      by (metis surj_pair)
    have "rewritten (cj_files j) (cj_files j2)"
      using rewritten_trans[OF r1 recover_rewritten[OF keyed_rewritten[OF k r1] rc]] .
    with False n rc r1 show ?thesis by (auto simp: begin_steering_def split: handle_answer.splits option.splits)
  qed
  then show ?thesis using after_transition[OF k] by (cases a) (simp_all add: handle_op_def Let_def)
qed

lemma take_over_rewritten:
  assumes k: "keyed (cj_files j)"
  shows "rewritten (cj_files j) (cj_files (fst (take_over p now w error existing j)))"
proof -
  have t: "rewritten (cj_files j) (cj_files j')" if "transition_locked p now existing st pa True w j = (j', res)" for st pa j' res
    using moves_rewritten[OF k transition_locked_moves[OF that]] .
  have h: "cj_files (fst (new_handle p q j')) = cj_files j'" for q j'
    using new_handle_handles by (metis surjective_pairing)
  obtain j1 r1 where 1: "transition_locked p now existing CUncertain (no_patch\<lparr>pa_error := Some error\<rparr>) True w j = (j1, r1)" by (metis surj_pair)
  obtain j2 r2 where 2: "transition_locked p now existing CAccepted no_patch True w j = (j2, r2)" by (metis surj_pair)
  show ?thesis using t[OF 1] t[OF 2] 1 2 h
    by (auto simp: take_over_def Let_def case_prod_beta split: sum.splits)
qed

lemma claim_body_evolves:
  assumes k: "keyed (cj_files j)" and d: "distinct (map fst (cj_files j))"
    and late: "of_int now < D (cm_command_id (envelope v))" "cm_command_id (envelope v) = cr_command (fresh_record env p now (envelope v))"
  shows "evolves D now cid (map_of (cj_files j) cid) (map_of (cj_files (fst (claim_body env p now v io j))) cid)"
proof -
  let ?r = "fresh_record env p now (envelope v)"
  have h: "cj_files (fst (new_handle p q j')) = cj_files j'" for q j'
    using new_handle_handles by (metis surjective_pairing)
  show ?thesis
  proof (cases "read_command j (cr_command ?r)")
    case (Some existing)
    have "rewritten (cj_files j) (cj_files (fst (claim_existing env p now io ?r existing j)))"
      using take_over_rewritten[OF k] by (simp add: claim_existing_def)
    with Some show ?thesis by (simp add: claim_body_def Let_def rewritten_evolves)
  next
    case None
    show ?thesis
    proof (cases "map_of (cj_files j) (cr_command ?r)")
      case (Some f)
      with None show ?thesis by (simp add: claim_body_def Let_def)
    next
      case no: None
      obtain j1 b where j1: "(if length (cj_files j) \<ge> ce_max_receipts env then prune_commands now (ci_prune io) j else (j, True)) = (j1, b)"
        by (metis surj_pair)
      have pr: "map_of (cj_files j1) c = map_of (cj_files j) c \<or>
          (map_of (cj_files j1) c = None \<and> (\<exists>r. map_of (cj_files j) c = Some (Stored r) \<and> cr_expires r < of_int now))" for c
        using j1 remove_expired_files(3)[OF _ d, of now "ci_prune io" "cj_files j1" b c]
        by (auto simp: prune_commands_def Let_def split: if_splits prod.splits)
      let ?j' = "fst (claim_body env p now v io j)"
      have "cj_files ?j' = cj_files j1 \<or> cj_files ?j' = AList.update (cr_command ?r) (Stored ?r) (cj_files j1)"
        using None no j1 h by (auto simp: claim_body_def claim_new_def Let_def case_prod_beta)
      then have "map_of (cj_files ?j') cid = map_of (cj_files j1) cid \<or> cid = cr_command ?r"
        by (auto simp: update_conv')
      then show ?thesis
      proof
        assume "map_of (cj_files ?j') cid = map_of (cj_files j1) cid"
        with pr[of cid] show ?thesis
        proof (elim disjE)
          assume "map_of (cj_files j1) cid = map_of (cj_files j) cid"
          with \<open>map_of (cj_files ?j') cid = _\<close> show ?thesis by simp
        qed (auto simp: evolves_def)
      next
        assume "cid = cr_command ?r"
        with no late show ?thesis by (simp add: evolves_def split: option.split)
      qed
    qed
  qed
qed

lemma step_evolves:
  assumes k: "keyed (cj_files j)" and d: "distinct (map fst (cj_files j))" and o: "ordered_events D env t (e # es)"
  shows "evolves D (event_clock t e) cid (map_of (cj_files j) cid) (map_of (cj_files (fst (command_step env j e))) cid)"
proof (cases e)
  case (StartProcess p now w)
  obtain j' b where hb: "heartbeat_owner now p w j = (j', b)" by (metis surj_pair)
  with StartProcess heartbeat_same[OF hb] show ?thesis by (cases b) auto
next
  case (Heartbeat p now w)
  have "cj_files (fst (heartbeat_owner now p w j)) = cj_files j" using heartbeat_same by (metis surjective_pairing)
  with Heartbeat show ?thesis by auto
next
  case (Claim p now v io)
  have d': "same_deadline D env now v" using o Claim by simp
  obtain j1 b where hb: "heartbeat_owner now p (ci_lease io) j = (j1, b)" by (metis surj_pair)
  note h = heartbeat_same[OF hb]
  have "evolves D now cid (map_of (cj_files j) cid) (map_of (cj_files (fst (claim_command env p now v io j))) cid)"
  proof (cases "validate_message env now v = None \<and> durable_command_payload_digest env (cm_command (envelope v)) = cm_digest (envelope v) \<and> b")
    case False
    then have "cj_files (fst (claim_command env p now v io j)) = cj_files j"
      using hb h by (auto simp: claim_command_def split: option.splits)
    then show ?thesis by simp
  next
    case True
    then have late: "of_int now < D (cm_command_id (envelope v))"
      using d' by (auto simp: same_deadline_def validate_message_def Let_def split: if_splits)
    obtain j2 lres where l: "with_command_lock env now p (cm_command_id (envelope v)) (ci_lock io) (claim_body env p now v io) j1 = (j2, lres)"
      by (metis surj_pair)
    have j2: "fst (claim_command env p now v io j) = j2" using True hb l by (simp add: claim_command_def split: locked.splits)
    from l show ?thesis
    proof (cases rule: locked_cases)
      case 1
      with j2 h show ?thesis by simp
    next
      case (2 ks a)
      let ?j = "j1\<lparr>cj_locks := ks\<rparr>"
      have "evolves D now cid (map_of (cj_files ?j) cid) (map_of (cj_files (fst (claim_body env p now v io ?j))) cid)"
        by (rule claim_body_evolves) (use k d h late in \<open>simp_all add: fresh_record_def\<close>)
      with 2(2) h j2 show ?thesis by simp
    qed
  qed
  then show ?thesis using Claim by (auto simp: case_prod_beta Let_def)
next
  case (HandleOp p h now io a)
  have "rewritten (cj_files j) (cj_files (fst (command_step env j e)))"
    using handle_op_rewritten[OF k] HandleOp by (simp add: Let_def case_prod_beta)
  then show ?thesis by (rule rewritten_evolves)
next
  case (Prune now k)
  obtain fs b where fs: "remove_expired now k (cj_files j) = (fs, b)" by (metis surj_pair)
  from remove_expired_files(3)[OF fs d, of cid] Prune fs show ?thesis
    by (elim disjE) (auto simp: prune_commands_def evolves_def)
next
  case (Crash p held)
  then show ?thesis by simp
next
  case (Garble c)
  have "evolves D t cid x (Some Garbled)" if "x \<noteq> None" for x :: "record_file option"
    using that by (auto simp: evolves_def split: option.split record_file.split)
  with Garble show ?thesis by (auto simp: update_conv')
qed

text \<open>What holds of a record, and every write keeps, holds as long as the record is there; once it has
  been removed, its deadline is over and no claim makes another.\<close>

definition kept :: "(string \<Rightarrow> rat) \<Rightarrow> int \<Rightarrow> string \<Rightarrow> (command_record \<Rightarrow> bool) \<Rightarrow> (string \<times> record_file) list \<Rightarrow> bool" where
  "kept D t cid Q fs \<longleftrightarrow>
     (case map_of fs cid of None \<Rightarrow> D cid < of_int t | Some Garbled \<Rightarrow> True | Some (Stored r) \<Rightarrow> Q r \<and> cr_expires r = D cid)"

lemma step_kept:
  assumes s: "sound D t opened (cj_files j) (handles j)" and o: "ordered_events D env t (e # es)"
    and q: "kept D t cid Q (cj_files j)" and closed: "\<And>r r'. Q r \<Longrightarrow> advances r r' \<Longrightarrow> Q r'"
  shows "kept D (event_clock t e) cid Q (cj_files (fst (command_step env j e)))"
proof -
  have d: "distinct (map fst (cj_files j))" using s by (simp add: sound_def)
  have t: "(of_int t :: rat) \<le> of_int (event_clock t e)" using clock_grows[OF o] by simp
  have ev: "evolves D (event_clock t e) cid (map_of (cj_files j) cid) (map_of (cj_files (fst (command_step env j e))) cid)"
    by (rule step_evolves[OF sound_keyed[OF s] d o])
  show ?thesis
  proof (cases "map_of (cj_files j) cid")
    case None
    then have "D cid < of_int (event_clock t e)" using q t by (simp add: kept_def)
    moreover from this None ev have "map_of (cj_files (fst (command_step env j e))) cid = None"
      by (auto simp: evolves_def split: option.splits)
    ultimately show ?thesis by (simp add: kept_def)
  next
    case (Some f)
    show ?thesis
    proof (cases f)
      case Garbled
      with Some ev show ?thesis by (simp add: kept_def evolves_def)
    next
      case (Stored r)
      with Some q have "Q r" "cr_expires r = D cid" by (simp_all add: kept_def)
      with Some Stored ev closed[of r] show ?thesis
        by (auto simp: kept_def evolves_def advances_def split: option.splits record_file.splits)
    qed
  qed
qed

lemma run_kept:
  assumes closed: "\<And>r r'. Q r \<Longrightarrow> advances r r' \<Longrightarrow> Q r'"
  shows "sound D t opened (cj_files j) (handles j) \<Longrightarrow> ordered_events D env t (es @ es') \<Longrightarrow> kept D t cid Q (cj_files j) \<Longrightarrow>
    \<exists>t' opened'. t \<le> t' \<and> ordered_events D env t' es' \<and> kept D t' cid Q (cj_files (fst (run_out (command_step env) j es))) \<and>
      sound D t' opened' (cj_files (fst (run_out (command_step env) j es))) (handles (fst (run_out (command_step env) j es)))"
proof (induction es arbitrary: t opened j)
  case (Cons e es)
  obtain o1 where s1: "sound D (event_clock t e) o1 (cj_files (fst (command_step env j e))) (handles (fst (command_step env j e)))"
    using command_step_sound[OF Cons.prems(1)] Cons.prems(2) by fastforce
  have o: "ordered_events D env t (e # (es @ es'))" using Cons.prems(2) by simp
  note c = clock_grows[OF o]
  have "kept D (event_clock t e) cid Q (cj_files (fst (command_step env j e)))"
    by (rule step_kept[OF Cons.prems(1) o Cons.prems(3)]) (rule closed)
  from Cons.IH[OF s1 _ this] c obtain t' o' where
    "event_clock t e \<le> t'" "ordered_events D env t' es'"
    "kept D t' cid Q (cj_files (fst (run_out (command_step env) (fst (command_step env j e)) es)))"
    "sound D t' o' (cj_files (fst (run_out (command_step env) (fst (command_step env j e)) es))) (handles (fst (run_out (command_step env) (fst (command_step env j e)) es)))"
    by blast
  then show ?case using c by (auto simp: Let_def case_prod_beta intro: order_trans)
qed auto

section \<open>What a claim hands out\<close>

fun handed_out :: "claim_answer \<Rightarrow> bool" where
  "handed_out (ClaimNew rc h) = True"
| "handed_out (ClaimReclaimed rc h) = True"
| "handed_out _ = False"

definition payload_hmac :: "command_env \<Rightarrow> json \<Rightarrow> string" where
  "payload_hmac env v = ce_hmac env (canonical_json (ce_num env) (cm_command (envelope v)))"

lemma take_over_handed_out:
  assumes "take_over p now w error existing j = (j', ans)" "handed_out ans" "keyed (cj_files j)"
    "read_command j cid = Some existing"
  shows "\<exists>r. map_of (cj_files j') cid = Some (Stored r) \<and> cr_hmac r = cr_hmac existing"
proof -
  have c: "cr_command existing = cid" using assms(3) read_command_Some[OF assms(4)] by (simp add: keyed_def)
  obtain j1 res where tr: "transition_locked p now existing CAccepted no_patch True w j = (j1, res)" by (metis surj_pair)
  have ns: "cr_state existing \<noteq> CStarted" using assms(1,2) by (auto simp: take_over_def split: prod.splits sum.splits)
  obtain r h where res: "res = Inr r" and nh: "new_handle p r j1 = (j', h)"
    using assms(1,2) ns tr by (cases res) (auto simp: take_over_def split: prod.splits)
  obtain cur where "moved p existing CAccepted no_patch True now (cj_files j) (cj_files j1) cur r"
    using transition_locked_moves[OF tr] res by (auto simp: moves_to_def)
  then have "cr_hmac r = cr_hmac cur" "map_of (cj_files j) cid = Some (Stored cur)" "cj_files j1 = AList.update (cr_command cur) (Stored r) (cj_files j)"
    using c by (auto simp: moved_def)
  then show ?thesis using new_handle_handles[OF nh] read_command_Some[OF assms(4)] c by (simp add: update_conv')
qed

lemma claim_body_handed_out:
  assumes res: "claim_body env p now v io j = (j', ans)" and out: "handed_out ans" and k: "keyed (cj_files j)"
  shows "\<exists>r. map_of (cj_files j') (cm_command_id (envelope v)) = Some (Stored r) \<and> cr_hmac r = payload_hmac env v"
proof -
  let ?r = "fresh_record env p now (envelope v)" and ?cid = "cm_command_id (envelope v)"
  have r: "cr_command ?r = ?cid" "cr_hmac ?r = payload_hmac env v" by (simp_all add: fresh_record_def payload_hmac_def)
  show ?thesis
  proof (cases "read_command j ?cid")
    case (Some existing)
    then have ce: "claim_existing env p now io ?r existing j = (j', ans)" using res r by (simp add: claim_body_def Let_def)
    then obtain err where "take_over p now (ci_write io) err existing j = (j', ans)" "cr_hmac existing = cr_hmac ?r"
      using out by (auto simp: claim_existing_def split: if_splits)
    with take_over_handed_out[OF _ out k Some] r show ?thesis by metis
  next
    case None
    then have cn: "claim_new env p now v io ?r j = (j', ans)" using res r out by (auto simp: claim_body_def Let_def split: if_splits)
    obtain j1 b where j1: "(if length (cj_files j) \<ge> ce_max_receipts env then prune_commands now (ci_prune io) j else (j, True)) = (j1, b)"
      by (metis surj_pair)
    obtain h where w: "ci_write io = Written" and nh: "new_handle p ?r (write_atomic (ci_write io) (cr_command ?r) ?r j1) = (j', h)"
      using cn j1 out by (auto simp: claim_new_def Let_def split: if_splits prod.splits)
    show ?thesis using new_handle_handles[OF nh] w r by (auto simp: update_conv')
  qed
qed

lemma claim_handed_out:
  assumes res: "claim_command env p now v io j = (j', ans)" and out: "handed_out ans" and k: "keyed (cj_files j)"
  shows "\<exists>r. map_of (cj_files j') (cm_command_id (envelope v)) = Some (Stored r) \<and> cr_hmac r = payload_hmac env v"
proof -
  obtain j1 b where hb: "heartbeat_owner now p (ci_lease io) j = (j1, b)" by (metis surj_pair)
  have ok: "validate_message env now v = None" "durable_command_payload_digest env (cm_command (envelope v)) = cm_digest (envelope v)" b
    using res out hb by (auto simp: claim_command_def split: option.splits if_splits bool.splits)
  obtain j2 lres where l: "with_command_lock env now p (cm_command_id (envelope v)) (ci_lock io) (claim_body env p now v io) j1 = (j2, lres)"
    by (metis surj_pair)
  from l show ?thesis
  proof (cases rule: locked_cases)
    case 1
    then have "\<not> handed_out ans" using res hb ok l by (auto simp: claim_command_def split: locked.splits)
    with out show ?thesis by simp
  next
    case (2 ks a)
    then have "j' = j2" "a = ans" using res hb ok l by (auto simp: claim_command_def)
    with 2(2) claim_body_handed_out[OF _ out, of env p now v io "j1\<lparr>cj_locks := ks\<rparr>" j'] k heartbeat_same[OF hb] show ?thesis by simp
  qed
qed

section \<open>Properties\<close>




text \<open>
  A run for the examples: a process claims a prompt, submits it and dies; its successor finds the command
  uncertain. The digests are a constant and a transposition that gives the one payload a hexadecimal name.
\<close>

definition sample_command :: json where
  "sample_command = JObj [(''type'', JStr ''prompt_session''), (''sessionId'', JStr ''s''), (''text'', JStr ''hi'')]"

definition sample_digest :: string where
  "sample_digest = replicate 64 (CHR ''0'')"

definition sample_message :: json where
  "sample_message = JObj [(''type'', JStr ''durable_session_command''), (''requestId'', JStr ''r''), (''commandId'', JStr ''c''),
     (''executionId'', JStr ''e''), (''payloadDigest'', JStr sample_digest), (''expiresAt'', JNum 1000), (''command'', sample_command)]"

definition swap_text :: "string \<Rightarrow> string \<Rightarrow> string \<Rightarrow> string" where
  "swap_text a b s = (if s = a then b else if s = b then a else s)"

definition sample_env :: command_env where
  "sample_env = \<lparr>ce_sha = (\<lambda>s. sample_digest), ce_hmac = swap_text (canonical_json unary_text sample_command) sample_digest,
     ce_num = unary_text, ce_to_num = (\<lambda>v. None), ce_max_receipts = 8, ce_owner_stale = 30\<rparr>"

definition sample_claim_io :: claim_io where
  "sample_claim_io = \<lparr>ci_lease = Written, ci_lock = LockWritten, ci_write = Written, ci_prune = None\<rparr>"

definition sample_op_io :: op_io where
  "sample_op_io = \<lparr>oi_lock = LockWritten, oi_write = Written, oi_recover_lock = LockWritten, oi_recover_write = Written\<rparr>"

definition sample_start :: "command_event list" where
  "sample_start = [StartProcess ''a'' 0 Written, Claim ''a'' 1 sample_message sample_claim_io]"

definition sample_submission :: "command_event list" where
  "sample_submission = sample_start @ [HandleOp ''a'' 0 2 sample_op_io (OpStarted None), Crash ''a'' None, StartProcess ''b'' 50 Written,
     Claim ''b'' 51 sample_message sample_claim_io]"



lemma inj_swap_text: "inj (swap_text a b)"
  by (auto simp: inj_def swap_text_def split: if_splits)


end
