(* ===== verification/Command_Table.thy ===== *)
theory Command_Table
  imports Durable_Commands "HOL-Library.Product_Lexorder"
begin

text \<open>
  The tables of the control plane's durable command outbox and the transactions over them
  (\<open>apps/control-plane/src/db.ts\<close>): staging an execution's plan, activating it, choosing the rows that are
  due, recording an attempt, applying a runner's receipt, replacing a command the provider refused for a
  passing reason, and writing commands off.

  A table is the list of its rows, an SQL statement a list operation: an UPDATE maps the rows it selects,
  ORDER BY with LIMIT sorts and takes. A transaction that throws or rolls back leaves the tables as they
  were. A command's error and the audit trail are kept; the JSON detail of an audit event is reduced to
  the state it reports. \<open>JSON.parse\<close> is a function of the environment.
\<close>

section \<open>Rows\<close>

datatype automation_state = Staged | Pending | Sent | Accepted | Started | Completed | Rejected | Uncertain

datatype execution_status = Dispatching | Running | Succeeded | Failed | CeilingPaused | Skipped | Expired

datatype automation_action = CreateSession | PromptExisting | WorkflowRun

datatype automation_kind = AutomationStart | AutomationPrompt

record command_row =
  aw_command :: string
  aw_execution :: string
  aw_ordinal :: int
  aw_runner :: string
  aw_session :: string
  aw_kind :: automation_kind
  aw_payload :: string
  aw_digest :: string
  aw_expires :: "int option"
  aw_deadline :: "int option"
  aw_dependency :: "string option"
  aw_state :: automation_state
  aw_revision :: int
  aw_attempts :: nat
  aw_next_attempt :: "int option"
  aw_error :: "string option"
  aw_code :: "command_code option"
  aw_superseded :: "string option"
  aw_duplicate :: "bool option"
  aw_user_seq :: "int option"
  aw_created :: int
  aw_updated :: int
  aw_last_sent :: "int option"
  aw_accepted_at :: "int option"
  aw_started_at :: "int option"
  aw_completed_at :: "int option"

record execution_row =
  ax_id :: string
  ax_action :: automation_action
  ax_receipted :: bool
  ax_status :: execution_status
  ax_plan :: "string option"
  ax_runner :: "string option"
  ax_session :: "string option"
  ax_run :: "string option"
  ax_workflow :: "string option"
  ax_error :: "string option"
  ax_paused :: bool
  ax_created :: int
  ax_started :: "int option"
  ax_completed :: "int option"

record attempt_row =
  at_request :: string
  at_command :: string
  at_runner :: string
  at_number :: nat
  at_sent :: int

datatype audit_entry = CommandAudit string automation_state | ExecutionAudit string execution_status

record outbox_db =
  od_commands :: "command_row list"
  od_executions :: "execution_row list"
  od_attempts :: "attempt_row list"
  od_audit :: "audit_entry list"

definition settled :: "automation_state \<Rightarrow> bool" where
  "settled s \<longleftrightarrow> s = Completed \<or> s = Rejected \<or> s = Uncertain"

definition state_rank :: "automation_state \<Rightarrow> nat" where
  "state_rank s = (case s of Staged \<Rightarrow> 0 | Pending \<Rightarrow> 1 | Sent \<Rightarrow> 2 | Accepted \<Rightarrow> 3 | Started \<Rightarrow> 4 | Completed \<Rightarrow> 5 | Rejected \<Rightarrow> 6 | Uncertain \<Rightarrow> 6)"

definition active_execution :: "execution_row \<Rightarrow> bool" where
  "active_execution x \<longleftrightarrow> ax_status x = Dispatching \<or> ax_status x = Running"

section \<open>Statements\<close>

definition find_command :: "outbox_db \<Rightarrow> string \<Rightarrow> command_row option" where
  "find_command d c = find (\<lambda>r. aw_command r = c) (od_commands d)"

definition find_execution :: "outbox_db \<Rightarrow> string \<Rightarrow> execution_row option" where
  "find_execution d x = find (\<lambda>r. ax_id r = x) (od_executions d)"

definition has_attempt :: "outbox_db \<Rightarrow> string \<Rightarrow> string \<Rightarrow> string \<Rightarrow> bool" where
  "has_attempt d request c runner \<longleftrightarrow>
     list_ex (\<lambda>a. at_request a = request \<and> at_command a = c \<and> at_runner a = runner) (od_attempts d)"

definition update_rows :: "(command_row \<Rightarrow> bool) \<Rightarrow> (command_row \<Rightarrow> command_row) \<Rightarrow> outbox_db \<Rightarrow> outbox_db" where
  "update_rows sel f d = d\<lparr>od_commands := map (\<lambda>r. if sel r then f r else r) (od_commands d)\<rparr>"

definition update_executions :: "(execution_row \<Rightarrow> bool) \<Rightarrow> (execution_row \<Rightarrow> execution_row) \<Rightarrow> outbox_db \<Rightarrow> outbox_db" where
  "update_executions sel f d = d\<lparr>od_executions := map (\<lambda>x. if sel x then f x else x) (od_executions d)\<rparr>"

definition audited :: "audit_entry list \<Rightarrow> outbox_db \<Rightarrow> outbox_db" where
  "audited es d = d\<lparr>od_audit := od_audit d @ es\<rparr>"

definition coalesce :: "'a option \<Rightarrow> 'a option \<Rightarrow> 'a option" where
  "coalesce a b = (case a of None \<Rightarrow> b | Some x \<Rightarrow> Some x)"

definition bounded_limit :: "int \<Rightarrow> nat" where
  "bounded_limit n = nat (max 1 (min 100 n))"

definition commands_of :: "outbox_db \<Rightarrow> string \<Rightarrow> command_row list" where
  "commands_of d x = sort_key (\<lambda>r. (aw_ordinal r, aw_command r)) (filter (\<lambda>r. aw_execution r = x) (od_commands d))"

definition execution_active :: "outbox_db \<Rightarrow> string \<Rightarrow> bool" where
  "execution_active d x = (case find_execution d x of None \<Rightarrow> False | Some e \<Rightarrow> active_execution e)"

section \<open>Staging a plan\<close>

record planned_command =
  pc_command :: string
  pc_ordinal :: int
  pc_runner :: string
  pc_session :: string
  pc_kind :: automation_kind
  pc_payload :: string
  pc_digest :: string
  pc_expires :: "int option"
  pc_deadline :: "int option"
  pc_dependency :: "string option"

record delivery_plan =
  dp_execution :: string
  dp_runner :: string
  dp_session :: "string option"
  dp_run :: "string option"
  dp_workflow :: "string option"
  dp_text :: string
  dp_commands :: "planned_command list"

datatype stage_error =
    PlanWithoutCommand
  | PlanUnreadable
  | CommandMalformed
  | PayloadUnreadable
  | DependencyNotEarlier
  | ExecutionMissing
  | ExecutionIs execution_status
  | DifferentPlan
  | DeadlineMissing
  | InsertFailed

definition truthy :: "string option \<Rightarrow> bool" where
  "truthy s \<longleftrightarrow> s \<noteq> None \<and> s \<noteq> Some []"

definition planned_malformed :: "int \<Rightarrow> int list \<Rightarrow> planned_command \<Rightarrow> bool" where
  "planned_malformed now seen c \<longleftrightarrow> pc_command c = [] \<or> pc_runner c = [] \<or> pc_session c = [] \<or> pc_ordinal c < 0 \<or>
     pc_ordinal c \<in> set seen \<or> \<not> is_hex64 (to_lower (pc_digest c)) \<or>
     (case pc_deadline c of None \<Rightarrow> False | Some t \<Rightarrow> \<bar>t\<bar> > max_safe_integer \<or> t \<le> now)"

fun check_planned ::
    "(string \<Rightarrow> json option) \<Rightarrow> int \<Rightarrow> planned_command list \<Rightarrow> int list \<Rightarrow> planned_command list \<Rightarrow> stage_error option" where
  "check_planned parse now plan seen [] = None"
| "check_planned parse now plan seen (c # cs) =
     (if planned_malformed now seen c then Some CommandMalformed
      else if parse (pc_payload c) = None then Some PayloadUnreadable
      else if truthy (pc_dependency c) \<and>
        (case find (\<lambda>p. Some (pc_command p) = pc_dependency c) (List.rev plan) of
           None \<Rightarrow> True | Some p \<Rightarrow> pc_ordinal p \<ge> pc_ordinal c)
      then Some DependencyNotEarlier
      else check_planned parse now plan (seen @ [pc_ordinal c]) cs)"

definition staged_row :: "string \<Rightarrow> int \<Rightarrow> planned_command \<Rightarrow> command_row" where
  "staged_row x now c =
     \<lparr>aw_command = pc_command c, aw_execution = x, aw_ordinal = pc_ordinal c, aw_runner = pc_runner c,
      aw_session = pc_session c, aw_kind = pc_kind c, aw_payload = pc_payload c, aw_digest = pc_digest c,
      aw_expires = pc_expires c, aw_deadline = pc_deadline c, aw_dependency = pc_dependency c, aw_state = Staged,
      aw_revision = 0, aw_attempts = 0, aw_next_attempt = None, aw_error = None, aw_code = None,
      aw_superseded = None, aw_duplicate = None, aw_user_seq = None, aw_created = now, aw_updated = now,
      aw_last_sent = None, aw_accepted_at = None, aw_started_at = None, aw_completed_at = None\<rparr>"

definition same_command :: "command_row \<Rightarrow> planned_command \<Rightarrow> bool" where
  "same_command r c \<longleftrightarrow> aw_command r = pc_command c \<and> aw_ordinal r = pc_ordinal c \<and> aw_runner r = pc_runner c \<and>
     aw_session r = pc_session c \<and> aw_kind r = pc_kind c \<and> aw_payload r = pc_payload c \<and> aw_digest r = pc_digest c \<and>
     aw_expires r = pc_expires c \<and> aw_deadline r = pc_deadline c \<and> aw_dependency r = pc_dependency c"

definition same_plan :: "execution_row \<Rightarrow> delivery_plan \<Rightarrow> command_row list \<Rightarrow> bool" where
  "same_plan x p rows \<longleftrightarrow> ax_receipted x \<and> ax_plan x = Some (dp_text p) \<and> ax_runner x = Some (dp_runner p) \<and>
     ax_session x = dp_session p \<and> ax_run x = dp_run p \<and> ax_workflow x = dp_workflow p \<and>
     list_all2 same_command rows (sort_key pc_ordinal (dp_commands p))"

text \<open>INSERT: the primary key, \<open>UNIQUE (execution_id, ordinal)\<close> and the foreign key of the dependency.\<close>

definition insert_row :: "command_row \<Rightarrow> outbox_db \<Rightarrow> outbox_db option" where
  "insert_row r d =
     (if find_command d (aw_command r) \<noteq> None \<or>
         list_ex (\<lambda>s. aw_execution s = aw_execution r \<and> aw_ordinal s = aw_ordinal r) (od_commands d) \<or>
         (case aw_dependency r of None \<Rightarrow> False | Some c \<Rightarrow> c \<noteq> aw_command r \<and> find_command d c = None)
      then None else Some (d\<lparr>od_commands := od_commands d @ [r]\<rparr>))"

fun insert_planned :: "string \<Rightarrow> int \<Rightarrow> planned_command list \<Rightarrow> outbox_db \<Rightarrow> outbox_db option" where
  "insert_planned x now [] d = Some d"
| "insert_planned x now (c # cs) d =
     (case insert_row (staged_row x now c) d of
        None \<Rightarrow> None
      | Some d' \<Rightarrow> insert_planned x now cs (audited [CommandAudit (pc_command c) Staged] d'))"

definition stage_plan_rows ::
    "int \<Rightarrow> delivery_plan \<Rightarrow> outbox_db \<Rightarrow> outbox_db \<times> (stage_error + command_row list)" where
  "stage_plan_rows now p d =
     (case find_execution d (dp_execution p) of
        None \<Rightarrow> (d, Inl ExecutionMissing)
      | Some x \<Rightarrow>
          if ax_status x \<noteq> Dispatching then (d, Inl (ExecutionIs (ax_status x)))
          else (let rows = commands_of d (dp_execution p)
                in if ax_plan x \<noteq> None \<or> rows \<noteq> []
                   then (d, if same_plan x p rows then Inr rows else Inl DifferentPlan)
                   else if list_ex (\<lambda>c. pc_deadline c = None) (dp_commands p) then (d, Inl DeadlineMissing)
                   else (let d' = update_executions (\<lambda>e. ax_id e = dp_execution p \<and> ax_status e = Dispatching)
                           (\<lambda>e. e\<lparr>ax_receipted := True, ax_plan := Some (dp_text p), ax_runner := Some (dp_runner p),
                              ax_session := dp_session p, ax_run := dp_run p, ax_workflow := dp_workflow p\<rparr>) d
                         in case insert_planned (dp_execution p) now (sort_key pc_ordinal (dp_commands p)) d' of
                              None \<Rightarrow> (d, Inl InsertFailed)
                            | Some d'' \<Rightarrow> (d'', Inr (commands_of d'' (dp_execution p))))))"

definition stage_delivery_plan ::
    "(string \<Rightarrow> json option) \<Rightarrow> int \<Rightarrow> delivery_plan \<Rightarrow> outbox_db \<Rightarrow> outbox_db \<times> (stage_error + command_row list)" where
  "stage_delivery_plan parse now p d =
     (if dp_commands p = [] \<and> (\<not> truthy (dp_run p) \<or> \<not> truthy (dp_workflow p)) then (d, Inl PlanWithoutCommand)
      else if parse (dp_text p) = None then (d, Inl PlanUnreadable)
      else (case check_planned parse now (dp_commands p) [] (dp_commands p) of
              Some e \<Rightarrow> (d, Inl e)
            | None \<Rightarrow> stage_plan_rows now p d))"

definition activated_row :: "int \<Rightarrow> command_row \<Rightarrow> command_row" where
  "activated_row now r = r\<lparr>aw_state := Pending, aw_next_attempt := Some now, aw_updated := now\<rparr>"

text \<open>\<open>None\<close>: it throws.\<close>

definition activate_commands :: "string \<Rightarrow> int \<Rightarrow> outbox_db \<Rightarrow> outbox_db option" where
  "activate_commands x now d =
     (case find_execution d x of
        None \<Rightarrow> None
      | Some e \<Rightarrow>
          if ax_status e \<noteq> Dispatching then None
          else (let sel = (\<lambda>r. aw_execution r = x \<and> aw_state r = Staged);
                    staged = sort_key aw_ordinal (filter sel (od_commands d))
                in Some (audited (map (\<lambda>r. CommandAudit (aw_command r) Pending) staged) (update_rows sel (activated_row now) d))))"

section \<open>Due, active and expired rows\<close>

definition sendable :: "automation_state \<Rightarrow> bool" where
  "sendable s \<longleftrightarrow> s = Pending \<or> s = Sent \<or> s = Accepted \<or> s = Started"

definition for_runner :: "string option \<Rightarrow> command_row \<Rightarrow> bool" where
  "for_runner runner r = (case runner of None \<Rightarrow> True | Some q \<Rightarrow> q = [] \<or> aw_runner r = q)"

definition acknowledged :: "outbox_db \<Rightarrow> string \<Rightarrow> bool" where
  "acknowledged d x = list_ex (\<lambda>s. aw_execution s = x \<and> aw_state s \<in> {Accepted, Started, Completed}) (od_commands d)"

definition blocked_execution :: "outbox_db \<Rightarrow> string \<Rightarrow> bool" where
  "blocked_execution d x =
     list_ex (\<lambda>s. aw_execution s = x \<and> aw_state s \<in> {Rejected, Uncertain} \<and> aw_superseded s = None) (od_commands d)"

definition is_due :: "outbox_db \<Rightarrow> int \<Rightarrow> string option \<Rightarrow> command_row \<Rightarrow> bool" where
  "is_due d now runner r \<longleftrightarrow> execution_active d (aw_execution r) \<and> sendable (aw_state r) \<and>
     (case aw_next_attempt r of None \<Rightarrow> False | Some t \<Rightarrow> t \<le> now) \<and>
     (case aw_expires r of None \<Rightarrow> True | Some t \<Rightarrow> t > now) \<and>
     ((case aw_deadline r of None \<Rightarrow> True | Some t \<Rightarrow> t > now) \<or> acknowledged d (aw_execution r)) \<and>
     for_runner runner r \<and>
     (case aw_dependency r of
        None \<Rightarrow> True
      | Some c \<Rightarrow> list_ex (\<lambda>s. aw_command s = c \<and> aw_state s = Completed) (od_commands d)) \<and>
     \<not> blocked_execution d (aw_execution r)"

definition due_commands :: "outbox_db \<Rightarrow> int \<Rightarrow> string option \<Rightarrow> int \<Rightarrow> command_row list" where
  "due_commands d now runner limit =
     take (bounded_limit limit) (sort_key (\<lambda>r. (the (aw_next_attempt r), aw_execution r, aw_ordinal r))
       (filter (is_due d now runner) (od_commands d)))"

definition active_commands :: "outbox_db \<Rightarrow> string option \<Rightarrow> int \<Rightarrow> command_row list" where
  "active_commands d runner limit =
     take (bounded_limit limit) (sort_key (\<lambda>r. (aw_execution r, aw_ordinal r))
       (filter (\<lambda>r. execution_active d (aw_execution r) \<and> \<not> settled (aw_state r) \<and> for_runner runner r) (od_commands d)))"

section \<open>Attempts and receipts\<close>

definition marked_state :: "automation_state \<Rightarrow> automation_state" where
  "marked_state s = (if s = Pending \<or> s = Sent then Sent else s)"

definition marked_row :: "int \<Rightarrow> int \<Rightarrow> command_row \<Rightarrow> command_row" where
  "marked_row now next r =
     r\<lparr>aw_state := marked_state (aw_state r), aw_attempts := aw_attempts r + 1, aw_last_sent := Some now,
       aw_next_attempt := Some next, aw_error := None, aw_updated := now\<rparr>"

datatype mark_answer = MarkMissing | MarkThrew | MarkRow command_row

definition mark_sent :: "string \<Rightarrow> string \<Rightarrow> int \<Rightarrow> int \<Rightarrow> outbox_db \<Rightarrow> outbox_db \<times> mark_answer" where
  "mark_sent c request now next d =
     (case find_command d c of
        None \<Rightarrow> (d, MarkMissing)
      | Some r \<Rightarrow>
          if find_execution d (aw_execution r) = None then (d, MarkMissing)
          else if \<not> sendable (aw_state r) then (d, MarkRow r)
          else if list_ex (\<lambda>a. at_request a = request) (od_attempts d) then (d, MarkThrew)
          else (let d1 = d\<lparr>od_attempts := od_attempts d @
                      [\<lparr>at_request = request, at_command = c, at_runner = aw_runner r, at_number = aw_attempts r + 1, at_sent = now\<rparr>]\<rparr>;
                    d2 = update_rows (\<lambda>s. aw_command s = c \<and> sendable (aw_state s)) (marked_row now next) d1
                in (audited [CommandAudit c (marked_state (aw_state r))] d2, MarkRow (the (find_command d2 c)))))"

record receipt_input =
  ri_command :: string
  ri_runner :: string
  ri_session :: "string option"
  ri_request :: "string option"
  ri_state :: automation_state
  ri_revision :: int
  ri_error :: "string option"
  ri_code :: "command_code option"
  ri_duplicate :: "bool option"
  ri_user_seq :: "int option"

definition answers_attempt :: "outbox_db \<Rightarrow> string \<Rightarrow> string \<Rightarrow> string option \<Rightarrow> bool" where
  "answers_attempt d c runner request = (case request of None \<Rightarrow> True | Some q \<Rightarrow> has_attempt d q c runner)"

definition receipt_stale :: "receipt_input \<Rightarrow> command_row \<Rightarrow> bool" where
  "receipt_stale i r \<longleftrightarrow> settled (aw_state r) \<or> ri_revision i < aw_revision r \<or>
     (ri_revision i = aw_revision r \<and> ri_state i = aw_state r) \<or>
     (ri_revision i = aw_revision r \<and> \<not> settled (ri_state i)) \<or>
     (\<not> settled (ri_state i) \<and> state_rank (ri_state i) < state_rank (aw_state r))"

definition receipted_row :: "receipt_input \<Rightarrow> int \<Rightarrow> command_row \<Rightarrow> command_row" where
  "receipted_row i now r =
     r\<lparr>aw_state := ri_state i, aw_revision := ri_revision i,
       aw_next_attempt := (if ri_state i \<in> {Accepted, Started} then Some (now + 30000) else None),
       aw_error := ri_error i, aw_code := ri_code i, aw_duplicate := ri_duplicate i,
       aw_user_seq := coalesce (ri_user_seq i) (aw_user_seq r), aw_updated := now,
       aw_accepted_at := (if ri_state i \<in> {Accepted, Started, Completed} then coalesce (aw_accepted_at r) (Some now) else aw_accepted_at r),
       aw_started_at := (if ri_state i \<in> {Started, Completed} then coalesce (aw_started_at r) (Some now) else aw_started_at r),
       aw_payload := (if settled (ri_state i) then ''null'' else aw_payload r),
       aw_completed_at := (if settled (ri_state i) then coalesce (aw_completed_at r) (Some now) else aw_completed_at r)\<rparr>"

text \<open>\<open>None\<close>, or the row after it and whether it advanced.\<close>

definition record_receipt :: "receipt_input \<Rightarrow> int \<Rightarrow> outbox_db \<Rightarrow> outbox_db \<times> (command_row \<times> bool) option" where
  "record_receipt i now d =
     (case find_command d (ri_command i) of
        None \<Rightarrow> (d, None)
      | Some r \<Rightarrow>
          if find_execution d (aw_execution r) = None \<or> aw_runner r \<noteq> ri_runner i \<or>
             (ri_session i \<noteq> None \<and> ri_session i \<noteq> Some (aw_session r)) \<or>
             \<not> answers_attempt d (ri_command i) (ri_runner i) (ri_request i)
          then (d, None)
          else if receipt_stale i r then (d, Some (r, False))
          else (let d' = update_rows (\<lambda>s. aw_command s = ri_command i \<and> aw_revision s \<le> ri_revision i \<and> \<not> settled (aw_state s))
                      (receipted_row i now) d
                in (audited [CommandAudit (ri_command i) (ri_state i)] d', Some (the (find_command d' (ri_command i)), True))))"

text \<open>A receipt the control plane writes for a command of its own accord.\<close>

definition own_receipt :: "command_row \<Rightarrow> automation_state \<Rightarrow> string \<Rightarrow> receipt_input" where
  "own_receipt r st err =
     \<lparr>ri_command = aw_command r, ri_runner = aw_runner r, ri_session = None, ri_request = None, ri_state = st,
      ri_revision = aw_revision r + 1, ri_error = Some err, ri_code = None, ri_duplicate = None, ri_user_seq = None\<rparr>"

definition reject_command :: "string \<Rightarrow> string \<Rightarrow> int \<Rightarrow> outbox_db \<Rightarrow> outbox_db" where
  "reject_command c err now d =
     (case find_command d c of None \<Rightarrow> d | Some r \<Rightarrow> fst (record_receipt (own_receipt r Rejected err) now d))"

text \<open>The loop of both expiries over the rows they selected: the commands it applied a receipt to.\<close>

fun write_off :: "(command_row \<Rightarrow> automation_state \<times> string) \<Rightarrow> int \<Rightarrow> command_row list \<Rightarrow> outbox_db \<Rightarrow> outbox_db \<times> command_row list" where
  "write_off verdict now [] d = (d, [])"
| "write_off verdict now (r # rs) d =
     (let (d1, res) = record_receipt (own_receipt r (fst (verdict r)) (snd (verdict r))) now d;
          (d2, out) = write_off verdict now rs d1
      in (d2, (case res of None \<Rightarrow> out | Some (c, advanced) \<Rightarrow> c # out)))"

definition maybe_accepted :: "automation_state \<Rightarrow> bool" where
  "maybe_accepted s \<longleftrightarrow> s = Sent \<or> s = Accepted \<or> s = Started"

definition expiry_verdict :: "command_row \<Rightarrow> automation_state \<times> string" where
  "expiry_verdict r =
     (if maybe_accepted (aw_state r)
      then (Uncertain, ''durable automation command exceeded its receipt horizon after runner acceptance'')
      else (Rejected, ''durable automation command expired before runner acceptance''))"

definition expire_commands :: "int \<Rightarrow> int \<Rightarrow> outbox_db \<Rightarrow> outbox_db \<times> command_row list" where
  "expire_commands now limit d =
     write_off expiry_verdict now
       (take (bounded_limit limit) (sort_key (\<lambda>r. (the (aw_expires r), aw_execution r, aw_ordinal r))
         (filter (\<lambda>r. \<not> settled (aw_state r) \<and> (case aw_expires r of None \<Rightarrow> False | Some t \<Rightarrow> t \<le> now)) (od_commands d)))) d"

definition undelivered_verdict :: "command_row \<Rightarrow> automation_state \<times> string" where
  "undelivered_verdict r =
     (let err = ''durable automation command '' @ CHR 0x27 # aw_command r @ CHR 0x27 # '' was not delivered to runner '' @
            CHR 0x27 # aw_runner r @ CHR 0x27 # '' within its delivery bound''
      in if aw_state r = Sent then (Uncertain, err @ ''; the runner may already have accepted it, so it was not replayed'')
         else (Rejected, err))"

definition expire_undelivered :: "string \<Rightarrow> int \<Rightarrow> outbox_db \<Rightarrow> outbox_db \<times> command_row list" where
  "expire_undelivered x now d =
     write_off undelivered_verdict now
       (filter (\<lambda>r. aw_state r \<in> {Staged, Pending, Sent}) (commands_of d x)) d"

section \<open>Replacing and terminalizing\<close>

text \<open>\<open>replace(/_r\d+$/u, "")\<close>.\<close>

definition drop_retry_suffix :: "string \<Rightarrow> string" where
  "drop_retry_suffix s =
     (let digits = takeWhile is_digit (List.rev s); before = drop (length digits) (List.rev s)
      in if digits \<noteq> [] \<and> take 2 before = ''r_'' then List.rev (drop 2 before) else s)"

record retry_input =
  rt_command :: string
  rt_runner :: string
  rt_session :: "string option"
  rt_request :: "string option"
  rt_revision :: int
  rt_error :: string
  rt_code :: "command_code option"
  rt_next_attempt :: int

definition retryable :: "retry_input \<Rightarrow> outbox_db \<Rightarrow> command_row \<Rightarrow> bool" where
  "retryable i d r \<longleftrightarrow> execution_active d (aw_execution r) \<and> aw_runner r = rt_runner i \<and>
     (rt_session i = None \<or> rt_session i = Some (aw_session r)) \<and> aw_kind r = AutomationStart \<and> aw_payload r \<noteq> ''null'' \<and>
     \<not> settled (aw_state r) \<and> rt_revision i \<ge> aw_revision r \<and> answers_attempt d (rt_command i) (rt_runner i) (rt_request i)"

definition superseded_count :: "outbox_db \<Rightarrow> string \<Rightarrow> nat" where
  "superseded_count d x = length (filter (\<lambda>r. aw_superseded r \<noteq> None) (commands_of d x))"

definition replaced_row :: "retry_input \<Rightarrow> string \<Rightarrow> int \<Rightarrow> command_row \<Rightarrow> command_row" where
  "replaced_row i replacement now r =
     r\<lparr>aw_state := Rejected, aw_revision := rt_revision i, aw_next_attempt := None, aw_error := Some (rt_error i),
       aw_code := rt_code i, aw_superseded := Some replacement, aw_payload := ''null'', aw_updated := now,
       aw_completed_at := coalesce (aw_completed_at r) (Some now)\<rparr>"

definition replacement_row :: "retry_input \<Rightarrow> string \<Rightarrow> int \<Rightarrow> int \<Rightarrow> command_row \<Rightarrow> command_row" where
  "replacement_row i replacement ordinal now r =
     \<lparr>aw_command = replacement, aw_execution = aw_execution r, aw_ordinal = ordinal, aw_runner = aw_runner r,
      aw_session = aw_session r, aw_kind = aw_kind r, aw_payload = aw_payload r, aw_digest = aw_digest r,
      aw_expires = aw_expires r, aw_deadline = map_option (\<lambda>t. now + (t - aw_created r)) (aw_deadline r),
      aw_dependency = aw_dependency r, aw_state = Pending, aw_revision = 0, aw_attempts = 0,
      aw_next_attempt = Some (rt_next_attempt i), aw_error = None, aw_code = None, aw_superseded = None,
      aw_duplicate = None, aw_user_seq = None, aw_created = now, aw_updated = now, aw_last_sent = None,
      aw_accepted_at = None, aw_started_at = None, aw_completed_at = None\<rparr>"

definition replacement_id :: "command_row \<Rightarrow> nat \<Rightarrow> string" where
  "replacement_id r attempt = drop_retry_suffix (aw_command r) @ ''_r'' @ nat_str attempt"

datatype retry_answer = RetryRefused | RetryThrew | Retried command_row command_row

definition retry_command :: "retry_input \<Rightarrow> int \<Rightarrow> outbox_db \<Rightarrow> outbox_db \<times> retry_answer" where
  "retry_command i now d =
     (case find_command d (rt_command i) of
        None \<Rightarrow> (d, RetryRefused)
      | Some r \<Rightarrow>
          if \<not> retryable i d r then (d, RetryRefused)
          else (let siblings = commands_of d (aw_execution r); superseded = superseded_count d (aw_execution r)
                in if length siblings \<noteq> superseded + 1 then (d, RetryRefused)
                   else (let replacement = replacement_id r (superseded + 1);
                             ordinal = Max (aw_ordinal ` set siblings) + 1;
                             d1 = update_rows (\<lambda>s. aw_command s = rt_command i) (replaced_row i replacement now) d
                         in case insert_row (replacement_row i replacement ordinal now r) d1 of
                              None \<Rightarrow> (d, RetryThrew)
                            | Some d2 \<Rightarrow>
                                (audited [CommandAudit (rt_command i) Rejected, CommandAudit replacement Pending] d2,
                                 Retried (the (find_command d2 (rt_command i))) (the (find_command d2 replacement))))))"

definition terminal_verdict :: "automation_state \<Rightarrow> automation_state" where
  "terminal_verdict s = (if maybe_accepted s then Uncertain else Rejected)"

definition terminalized_row :: "string \<Rightarrow> int \<Rightarrow> command_row \<Rightarrow> command_row" where
  "terminalized_row err now r =
     r\<lparr>aw_state := terminal_verdict (aw_state r), aw_revision := aw_revision r + 1, aw_next_attempt := None,
       aw_error := Some (if maybe_accepted (aw_state r) then err @ ''; runner cancellation was requested after acceptance'' else err),
       aw_payload := ''null'', aw_updated := now, aw_completed_at := coalesce (aw_completed_at r) (Some now)\<rparr>"

definition terminalize_commands :: "string \<Rightarrow> string \<Rightarrow> string \<Rightarrow> int \<Rightarrow> outbox_db \<Rightarrow> outbox_db" where
  "terminalize_commands x except err now d =
     (if find_execution d x = None then d
      else (let sel = (\<lambda>r. aw_execution r = x \<and> aw_command r \<noteq> except \<and> \<not> settled (aw_state r))
            in audited (map (\<lambda>r. CommandAudit (aw_command r) (terminal_verdict (aw_state r))) (filter sel (commands_of d x)))
                 (update_rows sel (terminalized_row err now) d)))"

text \<open>The startup scrub of starts that embed environment values; it writes no audit entry.\<close>

definition has_environment :: "(string \<Rightarrow> json option) \<Rightarrow> string \<Rightarrow> bool" where
  "has_environment parse payload =
     (let c = parse payload
      in jprop c ''type'' = Some (JStr ''start_session'') \<and>
         (case jprop (jprop c ''spec'') ''env'' of Some (JObj ps) \<Rightarrow> ps \<noteq> [] | Some (JArr xs) \<Rightarrow> xs \<noteq> [] | _ \<Rightarrow> False))"

definition scrub_state :: "automation_state \<Rightarrow> automation_state" where
  "scrub_state s =
     (if s = Accepted \<or> s = Started then Uncertain else if s = Staged \<or> s = Pending \<or> s = Sent then Rejected else s)"

definition scrubbed_row :: "int \<Rightarrow> command_row \<Rightarrow> command_row" where
  "scrubbed_row now r =
     (let st = scrub_state (aw_state r)
      in r\<lparr>aw_state := st, aw_revision := aw_revision r + 1, aw_payload := ''null'',
           aw_error := coalesce (aw_error r) (Some ''legacy command rejected because it contained agent environment values''),
           aw_code := coalesce (aw_code r) (Some InvalidCommand), aw_updated := now,
           aw_completed_at := (if st \<in> {Rejected, Uncertain} then coalesce (aw_completed_at r) (Some now) else aw_completed_at r)\<rparr>)"

definition scrub_secrets :: "(string \<Rightarrow> json option) \<Rightarrow> int \<Rightarrow> outbox_db \<Rightarrow> outbox_db" where
  "scrub_secrets parse now d =
     update_rows (\<lambda>r. aw_payload r \<noteq> ''null'' \<and> has_environment parse (aw_payload r)) (scrubbed_row now) d"

section \<open>Executions\<close>

record settlement =
  se_status :: execution_status
  se_error :: "string option"

definition settle_allowed :: "execution_status \<Rightarrow> execution_row \<Rightarrow> bool" where
  "settle_allowed st x = (if st = Running then ax_status x = Dispatching else active_execution x)"

text \<open>A pause is stored as a failure with its evidence.\<close>

definition settled_execution :: "settlement \<Rightarrow> int \<Rightarrow> execution_row \<Rightarrow> execution_row" where
  "settled_execution s now x =
     x\<lparr>ax_status := (if se_status s = CeilingPaused then Failed else se_status s), ax_error := se_error s,
       ax_paused := (se_status s = CeilingPaused),
       ax_started := coalesce (ax_started x) (if se_status s = Running then Some now else None),
       ax_completed := (if se_status s = Running then None else Some now)\<rparr>"

definition settle_execution :: "string \<Rightarrow> settlement \<Rightarrow> int \<Rightarrow> outbox_db \<Rightarrow> outbox_db \<times> bool" where
  "settle_execution x s now d =
     (case find_execution d x of
        None \<Rightarrow> (d, False)
      | Some e \<Rightarrow>
          if \<not> settle_allowed (se_status s) e then (d, False)
          else (audited [ExecutionAudit x (se_status s)] (update_executions (\<lambda>y. ax_id y = x) (settled_execution s now) d), True))"

definition active_executions :: "outbox_db \<Rightarrow> execution_row list" where
  "active_executions d = sort_key (\<lambda>x. (ax_created x, ax_id x)) (filter active_execution (od_executions d))"

definition fail_interrupted :: "int \<Rightarrow> outbox_db \<Rightarrow> outbox_db" where
  "fail_interrupted now d =
     foldl (\<lambda>d x. fst (settle_execution (ax_id x)
         \<lparr>se_status = Failed, se_error = Some ''control plane restarted with automation delivery uncertain; the action was not replayed''\<rparr> now d)) d
       (filter (\<lambda>x. ax_status x = Dispatching \<and> \<not> ax_receipted x) (od_executions d))"

end
