(* ===== verification/Provider_Error.thy ===== *)
theory Provider_Error
  imports Json
begin

text \<open>
  Which provider failures are worth another attempt (\<open>apps/control-plane/src/provider-error.ts\<close>): the
  regular expressions over the provider's own words, as the phrases they stand for. They ignore case; a
  word boundary lies between a word character and something else.
\<close>

definition is_word :: "char \<Rightarrow> bool" where
  "is_word c \<longleftrightarrow> is_alnum c \<or> c = CHR ''_''"

text \<open>The expression \<open>\b\<close> phrase \<open>\b\<close>, each boundary optional, found in a text with \<open>before\<close> to its left.\<close>

record phrase =
  ph_left :: bool
  ph_text :: string
  ph_right :: bool

definition word_at_end :: "string \<Rightarrow> bool" where
  "word_at_end s \<longleftrightarrow> s \<noteq> [] \<and> is_word (last s)"

definition word_at_start :: "string \<Rightarrow> bool" where
  "word_at_start s \<longleftrightarrow> s \<noteq> [] \<and> is_word (hd s)"

definition phrase_here :: "string \<Rightarrow> phrase \<Rightarrow> string \<Rightarrow> bool" where
  "phrase_here before p s \<longleftrightarrow> take (length (ph_text p)) s = ph_text p \<and>
     (ph_left p \<longrightarrow> word_at_end before \<noteq> word_at_start (ph_text p)) \<and>
     (ph_right p \<longrightarrow> word_at_end (ph_text p) \<noteq> word_at_start (drop (length (ph_text p)) s))"

fun phrase_in :: "string \<Rightarrow> phrase \<Rightarrow> string \<Rightarrow> bool" where
  "phrase_in before p [] = phrase_here before p []"
| "phrase_in before p (c # s) = (phrase_here before p (c # s) \<or> phrase_in (before @ [c]) p s)"

definition plain :: "string \<Rightarrow> phrase" where
  "plain s = \<lparr>ph_left = False, ph_text = s, ph_right = False\<rparr>"

definition from_word :: "string \<Rightarrow> phrase" where
  "from_word s = \<lparr>ph_left = True, ph_text = s, ph_right = False\<rparr>"

definition whole_words :: "string \<Rightarrow> phrase" where
  "whole_words s = \<lparr>ph_left = True, ph_text = s, ph_right = True\<rparr>"

definition TRANSIENT_CONDITIONS :: "phrase list" where
  "TRANSIENT_CONDITIONS =
     [plain ''another claude code process is refreshing it'', plain ''exited mid-refresh''] @
     [plain (a @ '' '' @ b @ '' is '' @ c @ ''in progress'').
        a \<leftarrow> [''token'', ''credential'', ''credentials''], b \<leftarrow> [''refresh'', ''renewal''], c \<leftarrow> [''already '', []]] @
     [from_word (a @ '' '' @ b @ '' contention''). a \<leftarrow> [''credential'', ''credentials''], b \<leftarrow> [''refresh'', ''renewal'']]"

definition RETRY_ADVICE :: "phrase list" where
  "RETRY_ADVICE =
     [plain ''this is usually transient'', plain ''failed to refresh the oauth token'', plain ''failed to refresh oauth token''] @
     [from_word (''retry in a '' @ a). a \<leftarrow> [''minute'', ''moment'', ''few seconds'', ''few minutes'']] @
     [from_word (a @ b @ '' '' @ c). a \<leftarrow> [''please '', []], b \<leftarrow> [''retry'', ''try again''], c \<leftarrow> [''in'', ''after'', ''later'', ''shortly'']] @
     [whole_words ''temporarily unavailable'', whole_words ''overloaded_error'', whole_words ''rate_limit_error'']"

definition TERMINAL_CONDITIONS :: "phrase list" where
  "TERMINAL_CONDITIONS =
     [whole_words (a @ b @ ''in '' @ c). a \<leftarrow> [''sign'', ''log''], b \<leftarrow> ['' '', []], c \<leftarrow> [''again'', ''required'']] @
     [whole_words (''authentication '' @ a @ ''required''). a \<leftarrow> [''is '', []]] @
     [whole_words (''invalid '' @ a). a \<leftarrow> [''api key'', ''credentials'', ''command'']] @
     [whole_words ''credit balance is too low'', whole_words ''permission denied'']"

definition any_phrase :: "phrase list \<Rightarrow> string \<Rightarrow> bool" where
  "any_phrase ps s = list_ex (\<lambda>p. phrase_in [] p (to_lower s)) ps"

definition is_transient_provider_error :: "string option \<Rightarrow> bool" where
  "is_transient_provider_error e =
     (case e of
        None \<Rightarrow> False
      | Some s \<Rightarrow>
          (let detail = js_trim s
           in if detail = [] then False
              else if any_phrase TRANSIENT_CONDITIONS detail then True
              else if any_phrase TERMINAL_CONDITIONS detail then False
              else any_phrase RETRY_ADVICE detail))"

text \<open>An occurrence of a phrase, without the scan.\<close>

definition occurs_at :: "phrase \<Rightarrow> string \<Rightarrow> string \<Rightarrow> string \<Rightarrow> bool" where
  "occurs_at p u s v \<longleftrightarrow> s = u @ ph_text p @ v \<and>
     (\<not> ph_left p \<or> word_at_end u \<noteq> word_at_start (ph_text p)) \<and> (\<not> ph_right p \<or> word_at_end (ph_text p) \<noteq> word_at_start v)"

lemma phrase_here_occurs: "phrase_here u p s \<longleftrightarrow> (\<exists>v. s = ph_text p @ v \<and> occurs_at p u (u @ s) v)"
proof (cases "take (length (ph_text p)) s = ph_text p")
  case True
  define v where "v = drop (length (ph_text p)) s"
  have s: "s = ph_text p @ v" using append_take_drop_id[of "length (ph_text p)" s] True by (simp add: v_def)
  show ?thesis unfolding s by (auto simp: phrase_here_def occurs_at_def)
next
  case False
  then show ?thesis by (auto simp: phrase_here_def)
qed

lemma phrase_in_occurs: "phrase_in u p s \<longleftrightarrow> (\<exists>u' v. length u \<le> length u' \<and> occurs_at p u' (u @ s) v)"
proof (induction u p s rule: phrase_in.induct)
  case (1 u p)
  have *: "length u \<le> length u' \<and> occurs_at p u' (u @ []) v \<longleftrightarrow> u' = u \<and> occurs_at p u u v" for u' v
    by (auto simp: occurs_at_def)
  have "(\<exists>v. [] = ph_text p @ v \<and> occurs_at p u (u @ []) v) \<longleftrightarrow> (\<exists>v. occurs_at p u u v)" by (auto simp: occurs_at_def)
  then show ?case unfolding phrase_in.simps phrase_here_occurs * by simp
next
  case (2 u p c s)
  have *: "(\<exists>v. c # s = ph_text p @ v \<and> occurs_at p u (u @ c # s) v) \<longleftrightarrow> (\<exists>v. occurs_at p u (u @ c # s) v)"
    by (auto simp: occurs_at_def)
  have **: "length u \<le> length u' \<and> occurs_at p u' (u @ c # s) v \<longleftrightarrow>
      (u' = u \<and> occurs_at p u (u @ c # s) v) \<or> (length (u @ [c]) \<le> length u' \<and> occurs_at p u' (u @ c # s) v)" for u' v
  proof -
    have "u' = u" if "length u = length u'" "occurs_at p u' (u @ c # s) v" using that by (auto simp: occurs_at_def append_eq_append_conv)
    then show ?thesis by (auto simp: le_eq_less_or_eq Suc_le_eq)
  qed
  show ?case unfolding phrase_in.simps phrase_here_occurs * 2 ** by (simp add: ex_disj_distrib)
qed

end
