(* ===== verification/Command_Outbox.thy ===== *)
theory Command_Outbox
  imports Command_Table Provider_Error Canonical_Json
begin

text \<open>
  The control plane's durable command outbox (\<open>AutomationCommandOutbox\<close> of
  \<open>apps/control-plane/src/automation-command-outbox.ts\<close>) over the tables of \<open>Command_Table\<close>, and the part
  of \<open>apps/control-plane/src/automations.ts\<close> it calls back or that sweeps its tables: reconciling an
  execution with its commands, writing off undeliverable ones, taking receipts in.

  What the outbox reads elsewhere is the environment: which runners are connected and their protocol, the
  sessions' drivers and statuses, governance trips, the open attempts of a workflow, and whether a send
  succeeds. The messages, notifications and status changes it causes are outputs, in order. A request id is
  an argument of the pass that uses it.
\<close>

section \<open>The environment\<close>

record outbox_env =
  oe_parse :: "string \<Rightarrow> json option"
  oe_sha :: "string \<Rightarrow> string"
  oe_num :: "rat \<Rightarrow> string"
  oe_online :: "string \<Rightarrow> bool"
  oe_supports :: "string \<Rightarrow> bool"
  oe_delivers :: "string \<Rightarrow> bool"
  oe_driver :: "string \<Rightarrow> string option"
  oe_session_status :: "string \<Rightarrow> string option"
  oe_trip :: "outbox_db \<Rightarrow> execution_row \<Rightarrow> string option \<Rightarrow> int \<Rightarrow> (string \<times> string) option"
  oe_workflow_open :: "string \<Rightarrow> bool"
  oe_open_attempts :: "string \<Rightarrow> (string \<times> string) list"
  oe_notifies :: "execution_row \<Rightarrow> bool"

datatype outbox_output =
    SendCommand string string string string "int option" bool
  | CancelCommandSession string string
  | LaunchStopped string
  | WorkflowFinished string string
  | Notified string execution_status
  | OutboxWarning

definition MAX_BATCH :: int where "MAX_BATCH = 100"
definition MAX_RETRY_MS :: int where "MAX_RETRY_MS = 30000"
definition MAX_PROVIDER_RETRIES :: nat where "MAX_PROVIDER_RETRIES = 3"
definition PROVIDER_RETRY_BASE_MS :: int where "PROVIDER_RETRY_BASE_MS = 60000"

definition provider_retry_delay :: "nat \<Rightarrow> int" where
  "provider_retry_delay attempt = PROVIDER_RETRY_BASE_MS * 2 ^ (attempt - 1)"

definition retry_delay :: "nat \<Rightarrow> int" where
  "retry_delay attempt = min MAX_RETRY_MS (250 * 2 ^ min 7 (attempt - 1))"

definition automation_command_digest :: "outbox_env \<Rightarrow> json \<Rightarrow> string" where
  "automation_command_digest env c = oe_sha env (canonical_json (oe_num env) c)"

section \<open>Reconciling an execution\<close>

definition settle_and_notify ::
    "outbox_env \<Rightarrow> execution_row \<Rightarrow> settlement \<Rightarrow> execution_status \<Rightarrow> int \<Rightarrow> outbox_db \<Rightarrow> outbox_db \<times> outbox_output list" where
  "settle_and_notify env x s note now d =
     (let (d', changed) = settle_execution (ax_id x) s now d
      in (d', if changed \<and> oe_notifies env x then [Notified (ax_id x) note] else []))"

definition failed_workflow_siblings ::
    "outbox_env \<Rightarrow> execution_row \<Rightarrow> command_row list \<Rightarrow> string \<Rightarrow> (string \<times> string) list" where
  "failed_workflow_siblings env x commands source =
     (let own = foldl (\<lambda>m r. AList.update (aw_session r) (aw_runner r) m) []
            (filter (\<lambda>r. aw_session r \<noteq> source \<and> \<not> settled (aw_state r)) commands)
      in case ax_workflow x of
           None \<Rightarrow> own
         | Some w \<Rightarrow> if w = [] \<or> \<not> oe_workflow_open env w then own
             else foldl (\<lambda>m (s, runner). AList.update s runner m) own
               (filter (\<lambda>(s, runner). s \<noteq> [] \<and> s \<noteq> source) (oe_open_attempts env w)))"

definition fail_workflow_execution ::
    "outbox_env \<Rightarrow> execution_row \<Rightarrow> command_row list \<Rightarrow> string \<Rightarrow> string option \<Rightarrow> string \<Rightarrow> int \<Rightarrow> outbox_db \<Rightarrow>
     outbox_db \<times> outbox_output list" where
  "fail_workflow_execution env x commands source source_command err now d =
     (terminalize_commands (ax_id x) (case source_command of None \<Rightarrow> [] | Some c \<Rightarrow> c) err now d,
      (case ax_workflow x of None \<Rightarrow> [] | Some w \<Rightarrow> if w \<noteq> [] \<and> oe_workflow_open env w then [WorkflowFinished w err] else []) @
      map (\<lambda>(s, runner). CancelCommandSession runner s) (failed_workflow_siblings env x commands source))"

text \<open>\<open>pauseForGovernance\<close>: the source it finds, or \<open>None\<close>.\<close>

definition pause_for_governance ::
    "outbox_env \<Rightarrow> execution_row \<Rightarrow> string option \<Rightarrow> int \<Rightarrow> outbox_db \<Rightarrow> (outbox_db \<times> outbox_output list) option" where
  "pause_for_governance env x only now d =
     (case oe_trip env d x only now of
        None \<Rightarrow> None
      | Some (source, err) \<Rightarrow>
          (let commands = commands_of d (ax_id x);
               (d1, o1) = (if ax_action x = WorkflowRun
                 then fail_workflow_execution env x commands source
                   (map_option aw_command (find (\<lambda>r. aw_session r = source \<and> aw_superseded r = None) commands)) err now d
                 else (d, []));
               (d2, o2) = settle_and_notify env x \<lparr>se_status = CeilingPaused, se_error = None\<rparr> Failed now d1
           in Some (d2, o1 @ o2)))"

definition state_name :: "automation_state \<Rightarrow> string" where
  "state_name s = (case s of Staged \<Rightarrow> ''staged'' | Pending \<Rightarrow> ''pending'' | Sent \<Rightarrow> ''sent'' | Accepted \<Rightarrow> ''accepted''
     | Started \<Rightarrow> ''started'' | Completed \<Rightarrow> ''completed'' | Rejected \<Rightarrow> ''rejected'' | Uncertain \<Rightarrow> ''uncertain'')"

definition verdict_text :: "string \<Rightarrow> command_row \<Rightarrow> string" where
  "verdict_text what r =
     (if truthy (aw_error r) then the (aw_error r)
      else what @ CHR 0x27 # aw_command r @ CHR 0x27 # '' became '' @ state_name (aw_state r))"

definition reconcile_failed ::
    "outbox_env \<Rightarrow> execution_row \<Rightarrow> command_row list \<Rightarrow> command_row \<Rightarrow> int \<Rightarrow> outbox_db \<Rightarrow> outbox_db \<times> outbox_output list" where
  "reconcile_failed env x commands failed now d =
     (let (d1, o1) = (if ax_action x = WorkflowRun
            then fail_workflow_execution env x commands (aw_session failed) (Some (aw_command failed))
              (verdict_text ''workflow sibling '' failed) now d
            else (d, if ax_action x = CreateSession \<and> truthy (ax_session x) \<and> aw_state failed = Rejected
                     then [LaunchStopped (the (ax_session x))] else []));
          (d2, o2) = settle_and_notify env x
            \<lparr>se_status = Failed, se_error = Some (verdict_text ''runner command '' failed)\<rparr> Failed now d1
      in (d2, o1 @ o2))"

definition reconcile_running ::
    "outbox_env \<Rightarrow> execution_row \<Rightarrow> command_row list \<Rightarrow> int \<Rightarrow> outbox_db \<Rightarrow> outbox_db \<times> outbox_output list" where
  "reconcile_running env x commands now d =
     (if ax_status x = Dispatching \<and> list_ex (\<lambda>r. aw_state r = Started \<or> aw_state r = Completed) commands
      then settle_and_notify env x \<lparr>se_status = Running, se_error = None\<rparr> Running now d else (d, []))"

definition reconcile_prompt ::
    "outbox_env \<Rightarrow> execution_row \<Rightarrow> command_row list \<Rightarrow> int \<Rightarrow> outbox_db \<Rightarrow> outbox_db \<times> outbox_output list" where
  "reconcile_prompt env x commands now d =
     (if ax_action x \<noteq> PromptExisting \<or> \<not> list_all (\<lambda>r. aw_state r = Completed) commands then (d, [])
      else (case (if truthy (ax_session x) then oe_session_status env (the (ax_session x)) else None) of
              None \<Rightarrow> settle_and_notify env x \<lparr>se_status = Failed, se_error = Some ''target session no longer exists''\<rparr> Failed now d
            | Some st \<Rightarrow>
                if st = ''failed'' \<or> st = ''stopped''
                then settle_and_notify env x \<lparr>se_status = Failed, se_error = Some (''target session '' @ st)\<rparr> Failed now d
                else if st = ''idle'' \<or> st = ''completed''
                then settle_and_notify env x \<lparr>se_status = Succeeded, se_error = None\<rparr> Succeeded now d
                else (d, [])))"

definition reconcile_execution :: "outbox_env \<Rightarrow> string \<Rightarrow> int \<Rightarrow> outbox_db \<Rightarrow> outbox_db \<times> outbox_output list" where
  "reconcile_execution env xid now d =
     (case find_execution d xid of
        None \<Rightarrow> (d, [])
      | Some x \<Rightarrow>
          if \<not> active_execution x then (d, [])
          else (case pause_for_governance env x None now d of
                  Some res \<Rightarrow> res
                | None \<Rightarrow>
                    (let commands = commands_of d xid
                     in if \<not> ax_receipted x \<or> commands = [] then (d, [])
                        else (case find (\<lambda>r. (aw_state r = Rejected \<or> aw_state r = Uncertain) \<and> aw_superseded r = None) commands of
                                Some failed \<Rightarrow> reconcile_failed env x commands failed now d
                              | None \<Rightarrow>
                                  (let (d1, o1) = reconcile_running env x commands now d;
                                       (d2, o2) = reconcile_prompt env x commands now d1
                                   in (d2, o1 @ o2))))))"

section \<open>A pass over the due commands\<close>

definition capability_verdict :: "command_row \<Rightarrow> automation_state \<times> string" where
  "capability_verdict r =
     (if maybe_accepted (aw_state r)
      then (Uncertain, ''runner lost durable-command capability after accepting this command'')
      else (Rejected, ''runner no longer supports durable automation commands''))"

definition fail_for_capability_loss :: "outbox_env \<Rightarrow> command_row \<Rightarrow> int \<Rightarrow> outbox_db \<Rightarrow> outbox_db \<times> outbox_output list" where
  "fail_for_capability_loss env r now d =
     (let i = (own_receipt r (fst (capability_verdict r)) (snd (capability_verdict r)))\<lparr>ri_session := Some (aw_session r)\<rparr>
      in case record_receipt i now d of
           (d1, Some (c, True)) \<Rightarrow> reconcile_execution env (aw_execution c) now d1
         | (d1, _) \<Rightarrow> (d1, []))"

fun fail_batch :: "outbox_env \<Rightarrow> int \<Rightarrow> command_row list \<Rightarrow> outbox_db \<Rightarrow> outbox_db \<times> outbox_output list" where
  "fail_batch env now [] d = (d, [])"
| "fail_batch env now (r # rs) d =
     (let (d1, o1) = fail_for_capability_loss env r now d; (d2, o2) = fail_batch env now rs d1 in (d2, o1 @ o2))"

text \<open>The loop that drains a runner without the capability, for at most \<open>n\<close> batches.\<close>

fun drain_runner :: "nat \<Rightarrow> outbox_env \<Rightarrow> string \<Rightarrow> int \<Rightarrow> outbox_db \<Rightarrow> outbox_db \<times> outbox_output list" where
  "drain_runner 0 env runner now d = (d, [])"
| "drain_runner (Suc n) env runner now d =
     (case active_commands d (Some runner) MAX_BATCH of
        [] \<Rightarrow> (d, [])
      | batch \<Rightarrow> (let (d1, o1) = fail_batch env now batch d; (d2, o2) = drain_runner n env runner now d1 in (d2, o1 @ o2)))"

text \<open>Whether the command runs on the retired driver; \<open>None\<close> when reading it throws.\<close>

definition runs_retired_exec :: "outbox_env \<Rightarrow> json \<Rightarrow> bool option" where
  "runs_retired_exec env c =
     (if jprop (Some c) ''type'' = Some (JStr ''start_session'')
      then (case jprop (Some c) ''spec'' of
              None \<Rightarrow> None
            | Some JNull \<Rightarrow> None
            | Some spec \<Rightarrow> Some (jprop (Some spec) ''driver'' = Some (JStr ''codex'')))
      else (case as_string (jprop (Some c) ''sessionId'') of
              None \<Rightarrow> None
            | Some s \<Rightarrow> Some (oe_driver env s = Some ''codex'')))"

definition RETIRED_REASON :: string where
  "RETIRED_REASON = ''Codex Non-Interactive is no longer supported. Start a new session with Codex App Server to continue.''"

definition reject_and_reconcile ::
    "outbox_env \<Rightarrow> command_row \<Rightarrow> string \<Rightarrow> int \<Rightarrow> outbox_db \<Rightarrow> outbox_db \<times> outbox_output list" where
  "reject_and_reconcile env r err now d = reconcile_execution env (aw_execution r) now (reject_command (aw_command r) err now d)"

text \<open>What the checks before a send find.\<close>

datatype send_check = SendLater | CapabilityLost | RejectWith string | SendThrows | SendNow

definition check_send :: "outbox_env \<Rightarrow> command_row \<Rightarrow> send_check" where
  "check_send env r =
     (if \<not> oe_online env (aw_runner r) then SendLater
      else if \<not> oe_supports env (aw_runner r) then CapabilityLost
      else (case oe_parse env (aw_payload r) of
              None \<Rightarrow> RejectWith ''stored automation command payload is malformed''
            | Some c \<Rightarrow>
                if automation_command_digest env c \<noteq> aw_digest r then RejectWith ''stored automation command digest does not match''
                else (case runs_retired_exec env c of
                        None \<Rightarrow> SendThrows
                      | Some retired \<Rightarrow> if retired then RejectWith RETIRED_REASON else SendNow)))"

text \<open>One row: the tables, the outputs, and whether it threw.\<close>

definition flush_row ::
    "outbox_env \<Rightarrow> (string \<Rightarrow> string) \<Rightarrow> int \<Rightarrow> command_row \<Rightarrow> outbox_db \<Rightarrow> outbox_db \<times> outbox_output list \<times> bool" where
  "flush_row env uuid now r d =
     (case check_send env r of
        SendLater \<Rightarrow> (d, [], False)
      | CapabilityLost \<Rightarrow> (let (d1, o1) = fail_for_capability_loss env r now d in (d1, o1, False))
      | RejectWith err \<Rightarrow> (let (d1, o1) = reject_and_reconcile env r err now d in (d1, o1, False))
      | SendThrows \<Rightarrow> (d, [], True)
      | SendNow \<Rightarrow>
          (let attempt = aw_attempts r + 1
           in case mark_sent (aw_command r) (uuid (aw_command r)) now (now + retry_delay attempt) d of
                (d1, MarkMissing) \<Rightarrow> (d1, [], False)
              | (d1, MarkThrew) \<Rightarrow> (d1, [], True)
              | (d1, MarkRow s) \<Rightarrow>
                  (d1, [SendCommand (aw_runner r) (uuid (aw_command r)) (aw_command r) (aw_payload r) (aw_expires r)
                     (oe_delivers env (aw_runner r))], False)))"

fun flush_rows ::
    "outbox_env \<Rightarrow> (string \<Rightarrow> string) \<Rightarrow> int \<Rightarrow> command_row list \<Rightarrow> outbox_db \<Rightarrow> outbox_db \<times> outbox_output list \<times> bool" where
  "flush_rows env uuid now [] d = (d, [], False)"
| "flush_rows env uuid now (r # rs) d =
     (let (d1, o1, threw) = flush_row env uuid now r d
      in if threw then (d1, o1, True)
         else (let (d2, o2, threw2) = flush_rows env uuid now rs d1 in (d2, o1 @ o2, threw2)))"

fun reconcile_all :: "outbox_env \<Rightarrow> int \<Rightarrow> command_row list \<Rightarrow> outbox_db \<Rightarrow> outbox_db \<times> outbox_output list" where
  "reconcile_all env now [] d = (d, [])"
| "reconcile_all env now (r # rs) d =
     (let (d1, o1) = reconcile_execution env (aw_execution r) now d; (d2, o2) = reconcile_all env now rs d1 in (d2, o1 @ o2))"

definition drains :: "outbox_env \<Rightarrow> string option \<Rightarrow> bool" where
  "drains env runner = (case runner of None \<Rightarrow> False | Some q \<Rightarrow> q \<noteq> [] \<and> oe_online env q \<and> \<not> oe_supports env q)"

definition outbox_flush ::
    "outbox_env \<Rightarrow> (string \<Rightarrow> string) \<Rightarrow> int \<Rightarrow> string option \<Rightarrow> outbox_db \<Rightarrow> outbox_db \<times> outbox_output list \<times> bool" where
  "outbox_flush env uuid now runner d =
     (let (d1, o1) = (if drains env runner then drain_runner (Suc (length (od_commands d))) env (the runner) now d else (d, []));
          (d2, expired) = expire_commands now MAX_BATCH d1;
          (d3, o3) = reconcile_all env now expired d2;
          (d4, o4, threw) = flush_rows env uuid now (due_commands d3 now runner MAX_BATCH) d3
      in (d4, o1 @ o3 @ o4, threw))"

definition sent_count :: "outbox_output list \<Rightarrow> nat" where
  "sent_count os = length (filter (\<lambda>out. case out of SendCommand _ _ _ _ _ ok \<Rightarrow> ok | _ \<Rightarrow> False) os)"

text \<open>\<open>recover\<close> catches what the pass throws.\<close>

definition outbox_recover :: "outbox_env \<Rightarrow> (string \<Rightarrow> string) \<Rightarrow> int \<Rightarrow> outbox_db \<Rightarrow> outbox_db \<times> outbox_output list \<times> nat" where
  "outbox_recover env uuid now d =
     (let (d', os, threw) = outbox_flush env uuid now None d
      in if threw then (d', os @ [OutboxWarning], 0) else (d', os, sent_count os))"

section \<open>Receipts from a runner\<close>

definition receipt_code :: "json option \<Rightarrow> command_code option" where
  "receipt_code v =
     (case as_string v of
        None \<Rightarrow> None
      | Some s \<Rightarrow> map_of
          [(''COMMAND_ID_CONFLICT'', CommandIdConflict), (''COMMAND_EXPIRED'', CommandExpired), (''INVALID_COMMAND'', InvalidCommand),
           (''SESSION_NOT_FOUND'', SessionNotFound), (''QUEUE_FULL'', QueueFull), (''COMMAND_CANCELLED'', CommandCancelled),
           (''PROVIDER_AUTHENTICATION_REQUIRED'', ProviderAuthenticationRequired),
           (''WORKTREE_RECOVERY_REQUIRED'', WorktreeRecoveryRequired), (''RECEIPT_STORE_FULL'', ReceiptStoreFull)] s)"

text \<open>\<open>RECEIPT_STATES\<close> and \<open>storedState\<close>.\<close>

definition receipt_state :: "json option \<Rightarrow> automation_state option" where
  "receipt_state v =
     (case as_string v of
        None \<Rightarrow> None
      | Some s \<Rightarrow> map_of
          [(''accepted'', Accepted), (''queued'', Accepted), (''started'', Started), (''completed'', Completed),
           (''failed'', Rejected), (''uncertain'', Uncertain)] s)"

definition is_result :: "json \<Rightarrow> bool" where
  "is_result m \<longleftrightarrow> jprop (Some m) ''type'' = Some (JStr ''durable_session_command_result'')"

definition is_update :: "json \<Rightarrow> bool" where
  "is_update m \<longleftrightarrow> jprop (Some m) ''type'' = Some (JStr ''durable_session_command_update'')"

definition natural_number :: "json option \<Rightarrow> bool" where
  "natural_number v = (case as_integer v of None \<Rightarrow> False | Some n \<Rightarrow> n \<ge> 0)"

definition valid_receipt :: "json \<Rightarrow> bool" where
  "valid_receipt m \<longleftrightarrow> (is_result m \<or> is_update m) \<and>
     nonempty_string (jprop (Some m) ''commandId'') \<and> nonempty_string (jprop (Some m) ''sessionId'') \<and>
     receipt_state (jprop (Some m) ''state'') \<noteq> None \<and> natural_number (jprop (Some m) ''revision'') \<and>
     optional is_string (jprop (Some m) ''error'') \<and>
     optional (\<lambda>v. receipt_code v \<noteq> None) (jprop (Some m) ''code'') \<and>
     (if is_result m then nonempty_string (jprop (Some m) ''requestId'') \<and> as_bool (jprop (Some m) ''duplicate'') \<noteq> None
      else optional natural_number (jprop (Some m) ''userEventSeq''))"

definition truthy_text :: "json option \<Rightarrow> string option" where
  "truthy_text v = (case as_string v of None \<Rightarrow> None | Some s \<Rightarrow> if s = [] then None else Some s)"

definition receipt_input_of :: "string \<Rightarrow> json \<Rightarrow> receipt_input" where
  "receipt_input_of runner m =
     \<lparr>ri_command = string_field m ''commandId'', ri_runner = runner, ri_session = Some (string_field m ''sessionId''),
      ri_request = (if is_result m then as_string (jprop (Some m) ''requestId'') else None),
      ri_state = the (receipt_state (jprop (Some m) ''state'')), ri_revision = the (as_integer (jprop (Some m) ''revision'')),
      ri_error = truthy_text (jprop (Some m) ''error''), ri_code = receipt_code (jprop (Some m) ''code''),
      ri_duplicate = (if is_result m then as_bool (jprop (Some m) ''duplicate'') else None),
      ri_user_seq = (if is_update m then as_integer (jprop (Some m) ''userEventSeq'') else None)\<rparr>"

text \<open>\<open>retryProviderFailure\<close>: \<open>None\<close> when the receipt is to be recorded as the rejection it is.\<close>

definition retry_provider_failure ::
    "outbox_env \<Rightarrow> receipt_input \<Rightarrow> int \<Rightarrow> outbox_db \<Rightarrow> (outbox_db \<times> outbox_output list) option \<times> outbox_output list" where
  "retry_provider_failure env i now d =
     (if \<not> is_transient_provider_error (ri_error i) then (None, [])
      else (case find_command d (ri_command i) of
              None \<Rightarrow> (None, [])
            | Some r \<Rightarrow>
                (let attempt = superseded_count d (aw_execution r) + 1
                 in if aw_kind r \<noteq> AutomationStart \<or> attempt > MAX_PROVIDER_RETRIES then (None, [])
                    else (case retry_command
                        \<lparr>rt_command = ri_command i, rt_runner = ri_runner i, rt_session = ri_session i, rt_request = ri_request i,
                         rt_revision = ri_revision i, rt_error = the (ri_error i), rt_code = ri_code i,
                         rt_next_attempt = now + provider_retry_delay attempt\<rparr> now d of
                      (d1, RetryRefused) \<Rightarrow> (None, [])
                    | (d1, RetryThrew) \<Rightarrow> (None, [OutboxWarning])
                    | (d1, Retried old new) \<Rightarrow>
                        (let (d2, o2) = reconcile_execution env (aw_execution old) now d1
                         in (Some (d2, OutboxWarning # o2), []))))))"

datatype receipt_answer = ReceiptThrew | ReceiptTaken bool

definition outbox_receipt ::
    "outbox_env \<Rightarrow> (string \<Rightarrow> string) \<Rightarrow> string \<Rightarrow> json \<Rightarrow> int \<Rightarrow> outbox_db \<Rightarrow> outbox_db \<times> outbox_output list \<times> receipt_answer" where
  "outbox_receipt env uuid runner m now d =
     (if \<not> valid_receipt m then (d, [OutboxWarning], ReceiptTaken False)
      else (let i = receipt_input_of runner m;
                retry = (if ri_state i = Rejected then retry_provider_failure env i now d else (None, []))
            in case retry of
                 (Some (d1, o1), _) \<Rightarrow> (d1, o1, ReceiptTaken True)
               | (None, warned) \<Rightarrow>
                   (case record_receipt i now d of
                      (d1, None) \<Rightarrow> (d1, warned, ReceiptTaken False)
                    | (d1, Some (c, False)) \<Rightarrow> (d1, warned, ReceiptTaken True)
                    | (d1, Some (c, True)) \<Rightarrow>
                        (let (d2, o2) = reconcile_execution env (aw_execution c) now d1;
                             (d3, o3, threw) = outbox_flush env uuid now (Some runner) d2
                         in (d3, warned @ o2 @ o3, if threw then ReceiptThrew else ReceiptTaken True)))))"

text \<open>\<open>onDurableCommandReceipt\<close>: a trip that is already durable is recovered first.\<close>

definition recover_pause :: "outbox_env \<Rightarrow> string \<Rightarrow> json \<Rightarrow> int \<Rightarrow> outbox_db \<Rightarrow> outbox_db \<times> outbox_output list" where
  "recover_pause env runner m now d =
     (case as_string (jprop (Some m) ''commandId'') of
        None \<Rightarrow> (d, [])
      | Some c \<Rightarrow>
          (case find_command d c of
             None \<Rightarrow> (d, [])
           | Some r \<Rightarrow>
               if aw_runner r = runner \<and> (jprop (Some m) ''sessionId'' = None \<or> jprop (Some m) ''sessionId'' = Some (JStr (aw_session r)))
               then (case find_execution d (aw_execution r) of
                       None \<Rightarrow> (d, [])
                     | Some x \<Rightarrow>
                         if \<not> active_execution x then (d, [])
                         else (case pause_for_governance env x (Some (aw_session r)) now d of None \<Rightarrow> (d, []) | Some res \<Rightarrow> res))
               else (d, [])))"

definition on_command_receipt ::
    "outbox_env \<Rightarrow> (string \<Rightarrow> string) \<Rightarrow> string \<Rightarrow> json \<Rightarrow> int \<Rightarrow> outbox_db \<Rightarrow> outbox_db \<times> outbox_output list \<times> receipt_answer" where
  "on_command_receipt env uuid runner m now d =
     (let (d1, o1) = recover_pause env runner m now d; (d2, o2, ans) = outbox_receipt env uuid runner m now d1
      in (d2, o1 @ o2, ans))"

section \<open>Undeliverable executions\<close>

definition undeliverable :: "command_row list \<Rightarrow> int \<Rightarrow> bool" where
  "undeliverable commands now =
     (let active = filter (\<lambda>r. aw_state r \<in> {Staged, Pending, Sent}) commands
      in \<not> list_ex (\<lambda>r. aw_state r \<in> {Accepted, Started, Completed}) commands \<and> active \<noteq> [] \<and>
         list_all (\<lambda>r. case aw_deadline r of None \<Rightarrow> False | Some t \<Rightarrow> t \<le> now) active)"

definition retry_in_flight :: "outbox_db \<Rightarrow> string \<Rightarrow> bool" where
  "retry_in_flight d x =
     (list_ex (\<lambda>r. aw_superseded r \<noteq> None) (commands_of d x) \<and> list_ex (\<lambda>r. \<not> settled (aw_state r)) (commands_of d x))"

definition expire_execution :: "outbox_env \<Rightarrow> int \<Rightarrow> execution_row \<Rightarrow> outbox_db \<Rightarrow> outbox_db \<times> outbox_output list" where
  "expire_execution env now x d =
     (if \<not> ax_receipted x \<or> commands_of d (ax_id x) = [] \<or> \<not> undeliverable (commands_of d (ax_id x)) now then (d, [])
      else reconcile_execution env (ax_id x) now (fst (expire_undelivered (ax_id x) now d)))"

fun expire_executions :: "outbox_env \<Rightarrow> int \<Rightarrow> execution_row list \<Rightarrow> outbox_db \<Rightarrow> outbox_db \<times> outbox_output list" where
  "expire_executions env now [] d = (d, [])"
| "expire_executions env now (x # xs) d =
     (let (d1, o1) = expire_execution env now x d; (d2, o2) = expire_executions env now xs d1 in (d2, o1 @ o2))"

definition expire_undeliverable_executions :: "outbox_env \<Rightarrow> int \<Rightarrow> outbox_db \<Rightarrow> outbox_db \<times> outbox_output list" where
  "expire_undeliverable_executions env now d = expire_executions env now (active_executions d) d"

section \<open>The events of a control plane\<close>

text \<open>An execution is inserted by the scheduler that fires it, which is not part of this model.\<close>

datatype outbox_event =
    NewExecution execution_row
  | Stage int delivery_plan
  | Activate string int
  | FlushAll "string \<Rightarrow> string" int
  | FlushRunner "string \<Rightarrow> string" int string
  | TakeReceipt "string \<Rightarrow> string" string json int
  | ExpireUndeliverable int
  | Reconcile string int
  | Scrub int
  | Restart int

fun outbox_step :: "outbox_env \<Rightarrow> outbox_db \<Rightarrow> outbox_event \<Rightarrow> outbox_db \<times> outbox_output list" where
  "outbox_step env d (NewExecution x) =
     ((if find_execution d (ax_id x) = None then d\<lparr>od_executions := od_executions d @ [x]\<rparr> else d), [])"
| "outbox_step env d (Stage now p) = (fst (stage_delivery_plan (oe_parse env) now p d), [])"
| "outbox_step env d (Activate x now) = ((case activate_commands x now d of None \<Rightarrow> d | Some d' \<Rightarrow> d'), [])"
| "outbox_step env d (FlushAll uuid now) = (let (d', os, threw) = outbox_flush env uuid now None d in (d', os))"
| "outbox_step env d (FlushRunner uuid now runner) = (let (d', os, threw) = outbox_flush env uuid now (Some runner) d in (d', os))"
| "outbox_step env d (TakeReceipt uuid runner m now) = (let (d', os, ans) = on_command_receipt env uuid runner m now d in (d', os))"
| "outbox_step env d (ExpireUndeliverable now) = expire_undeliverable_executions env now d"
| "outbox_step env d (Reconcile x now) = reconcile_execution env x now d"
| "outbox_step env d (Scrub now) = (scrub_secrets (oe_parse env) now d, [])"
| "outbox_step env d (Restart now) = (fail_interrupted now d, [])"

end
