(* ===== verification/Outbox_Transactions.thy ===== *)
theory Outbox_Transactions
  imports Command_Outbox
begin

text \<open>
  The transactions of the durable command outbox as steps of its rows. Every operation of
  \<open>Command_Outbox\<close> is a sequence of two kinds of transactions: one changes rows in place, each by a step of
  the control plane's own (\<open>own_step\<close>) or by a step its event allows from outside (\<open>event_power\<close>); the
  other appends a fresh row. What the properties say of a run is shown for one transaction.
\<close>

section \<open>Steps of a row\<close>

inductive own_step :: "command_row \<Rightarrow> command_row \<Rightarrow> bool" where
  same: "own_step r r"
| activated: "aw_state r = Staged \<Longrightarrow> own_step r (activated_row now r)"
| marked: "sendable (aw_state r) \<Longrightarrow> own_step r (marked_row now next r)"
| verdict: "\<not> settled (aw_state r) \<Longrightarrow> ri_state i = terminal_verdict (aw_state r) \<Longrightarrow> ri_revision i = aw_revision r + 1 \<Longrightarrow>
    own_step r (receipted_row i now r)"
| terminalized: "\<not> settled (aw_state r) \<Longrightarrow> own_step r (terminalized_row err now r)"

text \<open>What an event adds: the rejections of a pass, the receipts and replacements of a runner, the scrub.\<close>

definition reject_step :: "command_row \<Rightarrow> command_row \<Rightarrow> bool" where
  "reject_step r r' \<longleftrightarrow> (\<exists>i now. \<not> settled (aw_state r) \<and> ri_state i = Rejected \<and> ri_revision i = aw_revision r + 1 \<and>
     r' = receipted_row i now r)"

definition runner_step :: "receipt_input \<Rightarrow> outbox_db \<Rightarrow> command_row \<Rightarrow> command_row \<Rightarrow> bool" where
  "runner_step i d r r' \<longleftrightarrow> aw_command r = ri_command i \<and> aw_runner r = ri_runner i \<and> \<not> settled (aw_state r) \<and>
     aw_revision r \<le> ri_revision i \<and>
     ((\<exists>now. \<not> receipt_stale i r \<and> r' = receipted_row i now r) \<or>
      (\<exists>ri c now. ri_state i = Rejected \<and> rt_revision ri = ri_revision i \<and> superseded_count d (aw_execution r) < MAX_PROVIDER_RETRIES \<and>
         r' = replaced_row ri c now r))"

definition scrub_step :: "command_row \<Rightarrow> command_row \<Rightarrow> bool" where
  "scrub_step r r' \<longleftrightarrow> (\<exists>now. r' = scrubbed_row now r)"

type_synonym row_power = "outbox_db \<Rightarrow> command_row \<Rightarrow> command_row \<Rightarrow> bool"

definition no_power :: row_power where "no_power d r r' \<longleftrightarrow> False"
definition flush_power :: row_power where "flush_power d r r' \<longleftrightarrow> reject_step r r'"
definition receipt_power :: "string \<Rightarrow> json \<Rightarrow> row_power" where
  "receipt_power runner m d r r' \<longleftrightarrow> reject_step r r' \<or> (valid_receipt m \<and> runner_step (receipt_input_of runner m) d r r')"
definition scrub_power :: row_power where "scrub_power d r r' \<longleftrightarrow> scrub_step r r'"

fun event_power :: "outbox_event \<Rightarrow> row_power" where
  "event_power (FlushAll uuid now) = flush_power"
| "event_power (FlushRunner uuid now runner) = flush_power"
| "event_power (TakeReceipt uuid runner m now) = receipt_power runner m"
| "event_power (Scrub now) = scrub_power"
| "event_power _ = no_power"

lemma own_step_command [simp]: "own_step r r' \<Longrightarrow> aw_command r' = aw_command r"
  by (induction rule: own_step.induct) (simp_all add: activated_row_def marked_row_def receipted_row_def terminalized_row_def)

section \<open>Transactions\<close>

definition command_ids :: "outbox_db \<Rightarrow> string list" where
  "command_ids d = map aw_command (od_commands d)"

fun last_audit :: "string \<Rightarrow> audit_entry list \<Rightarrow> automation_state option" where
  "last_audit c [] = None"
| "last_audit c (CommandAudit c' s # es) =
     (case last_audit c es of Some t \<Rightarrow> Some t | None \<Rightarrow> if c' = c then Some s else None)"
| "last_audit c (ExecutionAudit x s # es) = last_audit c es"

lemma last_audit_append [simp]:
  "last_audit c (xs @ ys) = (case last_audit c ys of Some t \<Rightarrow> Some t | None \<Rightarrow> last_audit c xs)"
  by (induction c xs rule: last_audit.induct) (auto split: option.splits)

definition reports :: "audit_entry list \<Rightarrow> command_row \<Rightarrow> command_row \<Rightarrow> bool" where
  "reports es r r' \<longleftrightarrow> (case last_audit (aw_command r) es of None \<Rightarrow> aw_state r' = aw_state r | Some s \<Rightarrow> aw_state r' = s)"

definition fresh_row :: "command_row \<Rightarrow> bool" where
  "fresh_row r \<longleftrightarrow> aw_state r \<in> {Staged, Pending} \<and> aw_attempts r = 0 \<and> aw_revision r = 0 \<and> aw_superseded r = None"

definition row_change :: "row_power \<Rightarrow> outbox_db \<Rightarrow> audit_entry list \<Rightarrow> command_row \<Rightarrow> command_row \<Rightarrow> bool" where
  "row_change P d es r r' \<longleftrightarrow> aw_command r' = aw_command r \<and> (own_step r r' \<or> P d r r') \<and> (P = scrub_power \<or> reports es r r')"

inductive transaction :: "row_power \<Rightarrow> outbox_db \<Rightarrow> outbox_db \<Rightarrow> bool" for P where
  change: "list_all2 (row_change P d es) (od_commands d) (od_commands d') \<Longrightarrow> od_audit d' = od_audit d @ es \<Longrightarrow>
    (\<exists>as. od_attempts d' = od_attempts d @ as) \<Longrightarrow> transaction P d d'"
| insert: "fresh_row r \<Longrightarrow> aw_command r \<notin> set (command_ids d) \<Longrightarrow> od_commands d' = od_commands d @ [r] \<Longrightarrow>
    od_audit d' = od_audit d @ [CommandAudit (aw_command r) (aw_state r)] \<Longrightarrow> od_attempts d' = od_attempts d \<Longrightarrow> transaction P d d'"

abbreviation transactions :: "row_power \<Rightarrow> outbox_db \<Rightarrow> outbox_db \<Rightarrow> bool" where
  "transactions P \<equiv> (transaction P)\<^sup>*\<^sup>*"

lemma transaction_ids:
  assumes "transaction P d d'" "distinct (command_ids d)"
  shows "distinct (command_ids d') \<and> set (command_ids d) \<subseteq> set (command_ids d')"
  using assms
proof (cases rule: transaction.cases)
  case (change es)
  then have "list_all2 (\<lambda>r r'. aw_command r' = aw_command r) (od_commands d) (od_commands d')"
    by (auto simp: row_change_def elim!: list_all2_mono)
  then have "map aw_command (od_commands d') = map aw_command (od_commands d)" by (induction rule: list_all2_induct) simp_all
  with assms show ?thesis by (simp add: command_ids_def)
next
  case (insert r)
  with assms show ?thesis by (auto simp: command_ids_def)
qed

lemma transactions_ids: "transactions P d d' \<Longrightarrow> distinct (command_ids d) \<Longrightarrow> distinct (command_ids d')"
  by (induction rule: rtranclp_induct) (auto dest: transaction_ids)

lemma unique_row: "distinct (command_ids d) \<Longrightarrow> r \<in> set (od_commands d) \<Longrightarrow> s \<in> set (od_commands d) \<Longrightarrow> aw_command r = aw_command s \<Longrightarrow> r = s"
  by (simp add: command_ids_def distinct_map inj_on_def)

lemma find_command_Some: "find_command d c = Some r \<Longrightarrow> r \<in> set (od_commands d) \<and> aw_command r = c"
  by (auto simp: find_command_def find_Some_iff)

lemma find_command_None: "find_command d c = None \<longleftrightarrow> c \<notin> set (command_ids d)"
  by (auto simp: find_command_def find_None_iff command_ids_def)

lemma find_command_eq: "distinct (command_ids d) \<Longrightarrow> r \<in> set (od_commands d) \<Longrightarrow> find_command d (aw_command r) = Some r"
  by (cases "find_command d (aw_command r)")
    (auto simp: find_command_None command_ids_def[of d] dest!: find_command_Some intro: unique_row[of d])

lemma set_commands_of: "set (commands_of d x) = {r \<in> set (od_commands d). aw_execution r = x}"
  by (auto simp: commands_of_def)

lemma update_transaction:
  assumes "\<And>r. r \<in> set (od_commands d) \<Longrightarrow> sel r \<Longrightarrow> aw_command (f r) = aw_command r \<and> (own_step r (f r) \<or> P d r (f r)) \<and>
      last_audit (aw_command r) es = Some (aw_state (f r))"
    and "\<And>r. r \<in> set (od_commands d) \<Longrightarrow> \<not> sel r \<Longrightarrow> last_audit (aw_command r) es = None"
    and "od_commands d' = map (\<lambda>r. if sel r then f r else r) (od_commands d)" "od_audit d' = od_audit d @ es"
      "od_attempts d' = od_attempts d @ as" "od_executions d' = od_executions d"
  shows "transaction P d d'"
proof (rule transaction.change)
  have "row_change P d es r (if sel r then f r else r)" if "r \<in> set (od_commands d)" for r
    using assms(1,2)[OF that] by (auto simp: row_change_def reports_def same)
  then show "list_all2 (row_change P d es) (od_commands d) (od_commands d')"
    unfolding assms(3) by (simp add: list_all2_map2 list_all2_same)
qed (use assms in auto)

lemma one_row_transaction:
  assumes "distinct (command_ids d)" "r \<in> set (od_commands d)" "sel r"
    and "own_step r (f r) \<or> P d r (f r)" "aw_command (f r) = aw_command r" "aw_state (f r) = st"
    and "od_commands d' = map (\<lambda>s. if aw_command s = aw_command r \<and> sel s then f s else s) (od_commands d)"
      "od_audit d' = od_audit d @ [CommandAudit (aw_command r) st]" "od_attempts d' = od_attempts d @ as"
      "od_executions d' = od_executions d"
  shows "transaction P d d'"
proof (rule update_transaction)
  fix s
  assume s: "s \<in> set (od_commands d)"
  have eq: "s = r" if "aw_command s = aw_command r" using unique_row[OF assms(1) s assms(2) that] .
  show "aw_command (f s) = aw_command s \<and> (own_step s (f s) \<or> P d s (f s)) \<and>
      last_audit (aw_command s) [CommandAudit (aw_command r) st] = Some (aw_state (f s))" if sel: "aw_command s = aw_command r \<and> sel s"
    unfolding eq[OF conjunct1[OF sel]] using assms(4-6) by (intro conjI) simp_all
  show "last_audit (aw_command s) [CommandAudit (aw_command r) st] = None" if out: "\<not> (aw_command s = aw_command r \<and> sel s)"
  proof -
    have "aw_command r \<noteq> aw_command s" using out eq assms(3) by metis
    then show ?thesis by simp
  qed
qed (use assms in simp_all)

lemma last_audit_states:
  "last_audit c (map (\<lambda>r. CommandAudit (aw_command r) (g r)) rs) =
     map_option g (find (\<lambda>r. aw_command r = c) (List.rev rs))"
  by (induction rs) (auto simp: find_append split: option.splits)

lemma same_transaction: "transaction P d d"
  by (rule transaction.change[of _ _ "[]"]) (auto simp: row_change_def reports_def same list_all2_same)

lemma executions_transaction:
  assumes "od_commands d' = od_commands d" "od_audit d' = od_audit d @ map (\<lambda>(x, s). ExecutionAudit x s) es"
    "od_attempts d' = od_attempts d"
  shows "transaction P d d'"
proof (rule transaction.change)
  have "last_audit c (map (\<lambda>(x, s). ExecutionAudit x s) es) = None" for c by (induction es) auto
  then show "list_all2 (row_change P d (map (\<lambda>(x, s). ExecutionAudit x s) es)) (od_commands d) (od_commands d')"
    unfolding assms(1) by (simp add: row_change_def reports_def same list_all2_same)
qed (use assms in auto)

section \<open>The operations of the tables\<close>

lemma commands_audited [simp]: "od_commands (audited es d) = od_commands d" "od_attempts (audited es d) = od_attempts d"
  "od_executions (audited es d) = od_executions d" "od_audit (audited es d) = od_audit d @ es"
  by (simp_all add: audited_def)

lemma update_rows_sel [simp]: "od_commands (update_rows sel f d) = map (\<lambda>r. if sel r then f r else r) (od_commands d)"
  "od_attempts (update_rows sel f d) = od_attempts d" "od_executions (update_rows sel f d) = od_executions d"
  "od_audit (update_rows sel f d) = od_audit d"
  by (simp_all add: update_rows_def)

lemma update_executions_sel [simp]: "od_commands (update_executions sel f d) = od_commands d"
  "od_attempts (update_executions sel f d) = od_attempts d" "od_audit (update_executions sel f d) = od_audit d"
  by (simp_all add: update_executions_def)

lemma settle_transaction: "transaction P d (fst (settle_execution x s now d))"
proof (cases "find_execution d x")
  case None
  then show ?thesis by (simp add: settle_execution_def same_transaction)
next
  case (Some e)
  show ?thesis
  proof (cases "settle_allowed (se_status s) e")
    case True
    show ?thesis
      by (rule executions_transaction[of _ _ "[(x, se_status s)]"])
        (use Some True in \<open>auto simp: settle_execution_def update_executions_def settled_execution_def o_def\<close>)
  qed (simp add: settle_execution_def Some same_transaction)
qed

lemma insert_transaction:
  assumes "insert_row r d = Some d'" "fresh_row r"
  shows "transaction P d (audited [CommandAudit (aw_command r) (aw_state r)] d')"
  by (rule transaction.insert) (use assms in \<open>auto simp: insert_row_def find_command_None split: if_splits\<close>)

lemma insert_planned_transactions:
  "insert_planned x now cs d = Some d' \<Longrightarrow> transactions P d d'"
proof (induction x now cs d rule: insert_planned.induct)
  case (2 x now c cs d)
  obtain d1 where i: "insert_row (staged_row x now c) d = Some d1" using "2.prems" by (auto split: option.splits)
  have "transaction P d (audited [CommandAudit (pc_command c) Staged] d1)"
    using insert_transaction[OF i] by (simp add: staged_row_def fresh_row_def)
  moreover have "transactions P (audited [CommandAudit (pc_command c) Staged] d1) d'"
    using "2.IH"[OF i] "2.prems" i by simp
  ultimately show ?case by (rule converse_rtranclp_into_rtranclp)
qed simp

lemma stage_transactions: "transactions P d (fst (stage_delivery_plan parse now p d))"
proof -
  have "transactions P d (fst (stage_plan_rows now p d))"
  proof (cases "find_execution d (dp_execution p)")
    case (Some x)
    define d' where "d' = update_executions (\<lambda>e. ax_id e = dp_execution p \<and> ax_status e = Dispatching)
      (\<lambda>e. e\<lparr>ax_receipted := True, ax_plan := Some (dp_text p), ax_runner := Some (dp_runner p),
         ax_session := dp_session p, ax_run := dp_run p, ax_workflow := dp_workflow p\<rparr>) d"
    have t: "transaction P d d'"
      by (rule executions_transaction[of _ _ "[]"]) (simp_all add: d'_def)
    show ?thesis
    proof (cases "insert_planned (dp_execution p) now (sort_key pc_ordinal (dp_commands p)) d'")
      case None
      then show ?thesis using Some by (simp add: stage_plan_rows_def Let_def d'_def)
    next
      case Ins: (Some d2)
      have "transactions P d d2" using t insert_planned_transactions[OF Ins] by (rule converse_rtranclp_into_rtranclp)
      then show ?thesis using Some Ins by (simp add: stage_plan_rows_def Let_def d'_def)
    qed
  qed (simp add: stage_plan_rows_def)
  then show ?thesis by (simp add: stage_delivery_plan_def split: option.split)
qed

lemma activate_transactions:
  assumes "activate_commands x now d = Some d'" "distinct (command_ids d)"
  shows "transaction P d d'"
proof -
  let ?sel = "\<lambda>r. aw_execution r = x \<and> aw_state r = Staged"
  let ?es = "map (\<lambda>r. CommandAudit (aw_command r) Pending) (sort_key aw_ordinal (filter ?sel (od_commands d)))"
  have d': "d' = audited ?es (update_rows ?sel (activated_row now) d)"
    using assms(1) by (auto simp: activate_commands_def Let_def split: option.splits if_splits)
  have la: "last_audit c ?es = (if \<exists>r\<in>set (od_commands d). ?sel r \<and> aw_command r = c then Some Pending else None)" for c
    by (cases "find (\<lambda>r. aw_command r = c) (List.rev (sort_key aw_ordinal (filter ?sel (od_commands d))))")
      (auto simp: last_audit_states find_None_iff find_Some_iff)
  show ?thesis
  proof (rule update_transaction[of _ ?sel "activated_row now"])
    fix r assume r: "r \<in> set (od_commands d)" "\<not> ?sel r"
    have "\<not> (\<exists>s\<in>set (od_commands d). ?sel s \<and> aw_command s = aw_command r)" using r(2) unique_row[OF assms(2) r(1)] by metis
    then show "last_audit (aw_command r) ?es = None" by (simp add: la)
  qed (auto simp: d' la own_step.activated, simp_all add: activated_row_def)
qed


lemma find_execution_more [simp]: "find_execution (audited es d) = find_execution d" "find_execution (update_rows sel f d) = find_execution d"
  by (rule ext, simp add: find_execution_def)+

lemma mark_sent_transaction:
  assumes "distinct (command_ids d)"
  shows "transaction P d (fst (mark_sent c request now next d))"
proof (cases "find_command d c")
  case None
  then show ?thesis by (simp add: mark_sent_def same_transaction)
next
  case (Some r)
  note r = find_command_Some[OF Some]
  let ?a = "[\<lparr>at_request = request, at_command = c, at_runner = aw_runner r, at_number = aw_attempts r + 1, at_sent = now\<rparr>]"
  let ?d = "audited [CommandAudit c (marked_state (aw_state r))] (update_rows (\<lambda>s. aw_command s = c \<and> sendable (aw_state s)) (marked_row now next)
      (d\<lparr>od_attempts := od_attempts d @ ?a\<rparr>))"
  have "fst (mark_sent c request now next d) = d \<or> sendable (aw_state r) \<and> fst (mark_sent c request now next d) = ?d"
    unfolding mark_sent_def Some option.case Let_def by (simp only: fst_conv split: if_split) simp
  then show ?thesis
  proof (elim disjE conjE)
    assume 4: "sendable (aw_state r)" "fst (mark_sent c request now next d) = ?d"
    have "transaction P d ?d"
    proof (rule one_row_transaction[OF assms, of r "\<lambda>s. sendable (aw_state s)" "marked_row now next"])
      show "own_step r (marked_row now next r) \<or> P d r (marked_row now next r)" using own_step.marked[OF 4(1)] by simp
    qed (use r 4(1) in \<open>simp_all add: marked_row_def\<close>)
    with 4(2) show ?thesis by simp
  qed (simp add: same_transaction)
qed

lemma receipted_row_sel [simp]: "aw_command (receipted_row i now r) = aw_command r" "aw_state (receipted_row i now r) = ri_state i"
  "aw_execution (receipted_row i now r) = aw_execution r" "aw_superseded (receipted_row i now r) = aw_superseded r"
  "aw_attempts (receipted_row i now r) = aw_attempts r" "aw_revision (receipted_row i now r) = ri_revision i"
  "aw_runner (receipted_row i now r) = aw_runner r"
  by (simp_all add: receipted_row_def)

text \<open>The three ways a receipt ends.\<close>

lemma record_receipt_cases:
  assumes "distinct (command_ids d)"
  obtains "record_receipt i now d = (d, None)"
  | r where "find_command d (ri_command i) = Some r" "receipt_stale i r" "record_receipt i now d = (d, Some (r, False))"
  | r d' where "find_command d (ri_command i) = Some r" "\<not> receipt_stale i r" "aw_runner r = ri_runner i"
      "record_receipt i now d = (d', Some (receipted_row i now r, True))" "od_audit d' = od_audit d @ [CommandAudit (ri_command i) (ri_state i)]"
      "od_commands d' = map (\<lambda>s. if aw_command s = ri_command i then receipted_row i now s else s) (od_commands d)"
      "od_attempts d' = od_attempts d" "od_executions d' = od_executions d"
proof (cases "find_command d (ri_command i)")
  case None
  then show ?thesis using that(1) by (simp add: record_receipt_def)
next
  case (Some r)
  note r = find_command_Some[OF Some]
  have "record_receipt i now d = (d, None) \<or> (receipt_stale i r \<and> record_receipt i now d = (d, Some (r, False))) \<or>
     (\<not> receipt_stale i r \<and> aw_runner r = ri_runner i \<and> record_receipt i now d =
       (let d' = update_rows (\<lambda>s. aw_command s = ri_command i \<and> aw_revision s \<le> ri_revision i \<and> \<not> settled (aw_state s)) (receipted_row i now) d
        in (audited [CommandAudit (ri_command i) (ri_state i)] d', Some (the (find_command d' (ri_command i)), True))))"
    unfolding record_receipt_def Some option.case by (simp only: split: if_split) simp
  then consider "record_receipt i now d = (d, None)" | "receipt_stale i r" "record_receipt i now d = (d, Some (r, False))"
    | "\<not> receipt_stale i r" "aw_runner r = ri_runner i" "record_receipt i now d =
       (let d' = update_rows (\<lambda>s. aw_command s = ri_command i \<and> aw_revision s \<le> ri_revision i \<and> \<not> settled (aw_state s)) (receipted_row i now) d
        in (audited [CommandAudit (ri_command i) (ri_state i)] d', Some (the (find_command d' (ri_command i)), True)))"
    by blast
  then show ?thesis
  proof cases
    case 3
    let ?u = "update_rows (\<lambda>s. aw_command s = ri_command i \<and> aw_revision s \<le> ri_revision i \<and> \<not> settled (aw_state s)) (receipted_row i now) d"
    have rev: "aw_revision r \<le> ri_revision i \<and> \<not> settled (aw_state r)" using 3(1) by (auto simp: receipt_stale_def)
    have eq: "od_commands ?u = map (\<lambda>s. if aw_command s = ri_command i then receipted_row i now s else s) (od_commands d)"
    proof -
      have "(aw_command s = ri_command i \<and> aw_revision s \<le> ri_revision i \<and> \<not> settled (aw_state s)) \<longleftrightarrow> aw_command s = ri_command i"
        if "s \<in> set (od_commands d)" for s using rev r unique_row[OF assms that] by metis
      then show ?thesis by (simp cong: map_cong)
    qed
    have ids: "command_ids ?u = command_ids d" by (simp add: command_ids_def)
    have "receipted_row i now r \<in> set (od_commands ?u)" unfolding eq using r by force
    from find_command_eq[OF _ this] ids assms r have "find_command ?u (ri_command i) = Some (receipted_row i now r)" by simp
    then show ?thesis using that(3)[OF Some 3(1,2), of "audited [CommandAudit (ri_command i) (ri_state i)] ?u"] 3(3) eq by (simp add: Let_def)
  qed (use that Some in blast)+
qed

lemma record_receipt_transaction:
  assumes "distinct (command_ids d)"
    and "\<And>r. find_command d (ri_command i) = Some r \<Longrightarrow> \<not> receipt_stale i r \<Longrightarrow> aw_runner r = ri_runner i \<Longrightarrow>
      own_step r (receipted_row i now r) \<or> P d r (receipted_row i now r)"
  shows "transaction P d (fst (record_receipt i now d))"
proof (cases rule: record_receipt_cases[OF assms(1), of i now])
  case (3 r d')
  note r = find_command_Some[OF 3(1)]
  have "transaction P d d'"
    by (rule one_row_transaction[OF assms(1), of r "\<lambda>s. True" "receipted_row i now"]) (use 3 r assms(2)[OF 3(1,2,3)] in simp_all)
  with 3 show ?thesis by simp
qed (simp_all add: same_transaction)

section \<open>Rows read earlier in a pass\<close>

text \<open>
  A pass works on rows it has read; what it does meanwhile to others only settles them. A row it has read is
  then still the row of the table, or that one is settled.
\<close>

definition agrees :: "outbox_db \<Rightarrow> command_row \<Rightarrow> bool" where
  "agrees d r \<longleftrightarrow> (\<forall>s\<in>set (od_commands d). aw_command s = aw_command r \<longrightarrow> s = r \<or> settled (aw_state s))"

definition settling :: "string set \<Rightarrow> outbox_db \<Rightarrow> outbox_db \<Rightarrow> bool" where
  "settling C d d' \<longleftrightarrow> (\<forall>s'\<in>set (od_commands d'). aw_command s' \<in> C \<or>
     (\<exists>s\<in>set (od_commands d). aw_command s = aw_command s' \<and> (s' = s \<or> settled (aw_state s'))))"

lemma settling_refl [simp]: "settling C d d"
  by (auto simp: settling_def)

lemma settling_trans: "settling C d1 d2 \<Longrightarrow> settling C d2 d3 \<Longrightarrow> settling C d1 d3"
  unfolding settling_def by metis

lemma settling_mono: "settling C d d' \<Longrightarrow> C \<subseteq> C' \<Longrightarrow> settling C' d d'"
  unfolding settling_def by blast

lemma agrees_settling: "agrees d r \<Longrightarrow> settling C d d' \<Longrightarrow> aw_command r \<notin> C \<Longrightarrow> agrees d' r"
  unfolding agrees_def settling_def by metis

lemma settling_rows: "od_commands d' = od_commands d \<Longrightarrow> settling C d d'"
  by (auto simp: settling_def)

lemma settling_update:
  assumes "od_commands d' = map (\<lambda>r. if sel r then f r else r) (od_commands d)"
    and "\<And>r. sel r \<Longrightarrow> aw_command (f r) = aw_command r \<and> (aw_command r \<in> C \<or> settled (aw_state (f r)))"
  shows "settling C d d'"
  unfolding settling_def
proof
  fix s' assume "s' \<in> set (od_commands d')"
  then obtain r where r: "r \<in> set (od_commands d)" "s' = (if sel r then f r else r)" using assms(1) by auto
  show "aw_command s' \<in> C \<or> (\<exists>s\<in>set (od_commands d). aw_command s = aw_command s' \<and> (s' = s \<or> settled (aw_state s')))"
    using r assms(2)[of r] by (cases "sel r") (auto intro!: bexI[of _ r])
qed

lemma agrees_self: "distinct (command_ids d) \<Longrightarrow> r \<in> set (od_commands d) \<Longrightarrow> agrees d r"
  by (auto simp: agrees_def dest: unique_row)

lemma terminal_verdict_settled [simp]: "settled (terminal_verdict s)"
  by (simp add: terminal_verdict_def settled_def)

lemma record_settling:
  assumes "distinct (command_ids d)" "settled (ri_state i)"
  shows "settling C d (fst (record_receipt i now d))"
proof (cases rule: record_receipt_cases[OF assms(1), of i now])
  case (3 r d')
  then show ?thesis using settling_update[of d' "\<lambda>s. aw_command s = ri_command i" "receipted_row i now" d C] assms(2) by simp
qed simp_all

text \<open>A verdict of the control plane on a row it has read.\<close>

lemma own_verdict_transaction:
  assumes d: "distinct (command_ids d)" and a: "agrees d r"
    and i: "ri_command i = aw_command r" "ri_state i = terminal_verdict (aw_state r)" "ri_revision i = aw_revision r + 1"
  shows "transaction P d (fst (record_receipt i now d)) \<and> settling C d (fst (record_receipt i now d))"
proof
  show "settling C d (fst (record_receipt i now d))" using record_settling[OF d] i(2) by simp
  show "transaction P d (fst (record_receipt i now d))"
  proof (rule record_receipt_transaction[OF d])
    fix s
    assume s: "find_command d (ri_command i) = Some s" "\<not> receipt_stale i s"
    then have "s = r" using a find_command_Some[OF s(1)] i(1) by (auto simp: agrees_def receipt_stale_def)
    then show "own_step s (receipted_row i now s) \<or> P d s (receipted_row i now s)"
      using own_step.verdict[of r i now] s(2) i by (auto simp: receipt_stale_def)
  qed
qed

lemma reject_transaction:
  assumes "distinct (command_ids d)" "\<And>r r'. reject_step r r' \<Longrightarrow> P d r r'"
  shows "transaction P d (reject_command c err now d) \<and> settling C d (reject_command c err now d)"
proof (cases "find_command d c")
  case (Some r)
  have "transaction P d (fst (record_receipt (own_receipt r Rejected err) now d))"
  proof (rule record_receipt_transaction[OF assms(1)])
    fix s
    assume s: "find_command d (ri_command (own_receipt r Rejected err)) = Some s" "\<not> receipt_stale (own_receipt r Rejected err) s"
    then have "s = r" using Some find_command_Some[OF Some] by (simp add: own_receipt_def)
    then have "reject_step s (receipted_row (own_receipt r Rejected err) now s)"
      using s(2) unfolding reject_step_def
      by (intro exI[of _ "own_receipt r Rejected err"] exI[of _ now]) (simp add: receipt_stale_def own_receipt_def)
    then show "own_step s (receipted_row (own_receipt r Rejected err) now s) \<or> P d s (receipted_row (own_receipt r Rejected err) now s)"
      using assms(2) by blast
  qed
  moreover have "settling C d (fst (record_receipt (own_receipt r Rejected err) now d))"
    by (rule record_settling[OF assms(1)]) (simp add: own_receipt_def settled_def)
  ultimately show ?thesis using Some by (simp add: reject_command_def)
qed (simp add: reject_command_def same_transaction)

lemma write_off_transactions:
  assumes "distinct (command_ids d)" "distinct (map aw_command rs)" "\<And>r. r \<in> set rs \<Longrightarrow> agrees d r \<and> fst (verdict r) = terminal_verdict (aw_state r)"
  shows "transactions P d (fst (write_off verdict now rs d)) \<and> settling C d (fst (write_off verdict now rs d))"
  using assms
proof (induction verdict now rs d rule: write_off.induct)
  case (2 verdict now r rs d)
  let ?i = "own_receipt r (fst (verdict r)) (snd (verdict r))"
  obtain d1 res where rec: "record_receipt ?i now d = (d1, res)" by (metis surj_pair)
  have "agrees d r" using "2.prems"(3)[of r] by simp
  then have 1: "transaction P d d1" "settling {} d d1" "settling C d d1"
    using own_verdict_transaction[OF "2.prems"(1), of r ?i] "2.prems"(3)[of r] rec by (metis own_receipt_def fst_conv list.set_intros(1) receipt_input.select_convs(1,5,6))+
  have "transactions P d1 (fst (write_off verdict now rs d1)) \<and> settling C d1 (fst (write_off verdict now rs d1))"
  proof (rule "2.IH"[OF rec[symmetric] refl])
    show "distinct (command_ids d1)" using transaction_ids[OF 1(1) "2.prems"(1)] by simp
    show "distinct (map aw_command rs)" using "2.prems"(2) by simp
    show "agrees d1 s \<and> fst (verdict s) = terminal_verdict (aw_state s)" if "s \<in> set rs" for s
      using agrees_settling[OF _ 1(2)] "2.prems"(3)[of s] that by simp
  qed
  then show ?case using 1 rec by (auto simp: Let_def case_prod_beta intro: settling_trans converse_rtranclp_into_rtranclp)
qed simp

lemma distinct_map_filtered: "distinct (map f xs) \<Longrightarrow> distinct (map f (filter P xs))"
  by (induction xs) auto

lemma distinct_ids_sub: "distinct (command_ids d) \<Longrightarrow> distinct (map aw_command (sort_key k (filter sel (od_commands d))))"
proof -
  assume "distinct (command_ids d)"
  then have "distinct (map aw_command (filter sel (od_commands d)))" by (simp add: command_ids_def distinct_map_filtered)
  then have d: "inj_on aw_command (set (filter sel (od_commands d)))" "distinct (filter sel (od_commands d))" by (auto simp: distinct_map)
  then show "distinct (map aw_command (sort_key k (filter sel (od_commands d))))" by (simp add: distinct_map)
qed

lemma distinct_ids_take: "distinct (map aw_command rs) \<Longrightarrow> distinct (map aw_command (take n rs))"
  by (metis distinct_take take_map)

lemma expire_transactions:
  assumes "distinct (command_ids d)"
  shows "transactions P d (fst (expire_commands now limit d)) \<and> settling C d (fst (expire_commands now limit d))"
  unfolding expire_commands_def
proof (rule write_off_transactions[OF assms distinct_ids_take[OF distinct_ids_sub[OF assms]]])
  fix r
  assume "r \<in> set (take (bounded_limit limit) (sort_key (\<lambda>r. (the (aw_expires r), aw_execution r, aw_ordinal r))
    (filter (\<lambda>r. \<not> settled (aw_state r) \<and> (case aw_expires r of None \<Rightarrow> False | Some t \<Rightarrow> t \<le> now)) (od_commands d))))"
  then have "r \<in> set (od_commands d)" by (auto dest!: in_set_takeD)
  then show "agrees d r \<and> fst (expiry_verdict r) = terminal_verdict (aw_state r)"
    using agrees_self[OF assms] by (simp add: expiry_verdict_def terminal_verdict_def)
qed

lemma expire_undelivered_transactions:
  assumes "distinct (command_ids d)"
  shows "transactions P d (fst (expire_undelivered x now d)) \<and> settling C d (fst (expire_undelivered x now d))"
  unfolding expire_undelivered_def
proof (rule write_off_transactions[OF assms])
  have "distinct (map aw_command (commands_of d x))" unfolding commands_of_def by (rule distinct_ids_sub[OF assms])
  then show "distinct (map aw_command (filter (\<lambda>r. aw_state r \<in> {Staged, Pending, Sent}) (commands_of d x)))"
    by (rule distinct_map_filtered)
  fix r
  assume "r \<in> set (filter (\<lambda>r. aw_state r \<in> {Staged, Pending, Sent}) (commands_of d x))"
  then have "r \<in> set (od_commands d)" "aw_state r \<in> {Staged, Pending, Sent}" by (auto simp: set_commands_of)
  then show "agrees d r \<and> fst (undelivered_verdict r) = terminal_verdict (aw_state r)"
    using agrees_self[OF assms] by (auto simp: undelivered_verdict_def terminal_verdict_def maybe_accepted_def Let_def)
qed

lemma terminalize_transaction:
  assumes "distinct (command_ids d)"
  shows "transaction P d (terminalize_commands x except err now d) \<and> settling C d (terminalize_commands x except err now d)"
proof (cases "find_execution d x")
  case (Some e)
  let ?sel = "\<lambda>r. aw_execution r = x \<and> aw_command r \<noteq> except \<and> \<not> settled (aw_state r)"
  let ?rows = "filter ?sel (commands_of d x)"
  let ?es = "map (\<lambda>r. CommandAudit (aw_command r) (terminal_verdict (aw_state r))) ?rows"
  have eq: "terminalize_commands x except err now d = audited ?es (update_rows ?sel (terminalized_row err now) d)"
    using Some by (simp add: terminalize_commands_def Let_def)
  have rows: "set ?rows = {r \<in> set (od_commands d). ?sel r}" by (auto simp: set_commands_of)
  have "transaction P d (audited ?es (update_rows ?sel (terminalized_row err now) d))"
  proof (rule update_transaction[of _ ?sel "terminalized_row err now"])
    fix r assume r: "r \<in> set (od_commands d)"
    show "aw_command (terminalized_row err now r) = aw_command r \<and> (own_step r (terminalized_row err now r) \<or> P d r (terminalized_row err now r)) \<and>
        last_audit (aw_command r) ?es = Some (aw_state (terminalized_row err now r))" if sel: "?sel r"
    proof -
      obtain s where s: "find (\<lambda>s. aw_command s = aw_command r) (List.rev ?rows) = Some s"
        using r sel rows by (cases "find (\<lambda>s. aw_command s = aw_command r) (List.rev ?rows)") (auto simp: find_None_iff)
      then have "s \<in> set ?rows" "aw_command s = aw_command r" using find_SomeD[OF s] by (simp_all only: set_rev)
      moreover have "s \<in> set (od_commands d)" using calculation(1) rows by blast
      ultimately have "s = r" using unique_row[OF assms _ r] by blast
      with s sel show ?thesis by (simp add: last_audit_states terminalized_row_def own_step.terminalized[unfolded terminalized_row_def])
    qed
    show "last_audit (aw_command r) ?es = None" if "\<not> ?sel r"
    proof -
      have "aw_command s \<noteq> aw_command r" if s: "s \<in> set (List.rev ?rows)" for s
      proof
        assume "aw_command s = aw_command r"
        have in_rows: "s \<in> set ?rows" using s by (simp only: set_rev)
        then have "s \<in> set (od_commands d)" unfolding rows by simp
        from unique_row[OF assms this r \<open>aw_command s = aw_command r\<close>] in_rows \<open>\<not> ?sel r\<close> show False unfolding rows by simp
      qed
      then have "find (\<lambda>s. aw_command s = aw_command r) (List.rev ?rows) = None" unfolding find_None_iff by blast
      then show ?thesis by (simp add: last_audit_states)
    qed
  qed simp_all
  moreover have "settling C d (audited ?es (update_rows ?sel (terminalized_row err now) d))"
    by (rule settling_update[of _ ?sel "terminalized_row err now"]) (simp_all add: terminalized_row_def)
  ultimately show ?thesis using eq by simp
qed (simp add: terminalize_commands_def same_transaction)

lemma scrub_transaction: "transaction scrub_power d (scrub_secrets parse now d)"
proof (rule transaction.change[of _ _ "[]"])
  let ?f = "\<lambda>r. if aw_payload r \<noteq> ''null'' \<and> has_environment parse (aw_payload r) then scrubbed_row now r else r"
  have "row_change scrub_power d [] r (?f r)" for r
    by (auto simp: row_change_def scrub_power_def scrub_step_def same scrubbed_row_def Let_def)
  then show "list_all2 (row_change scrub_power d []) (od_commands d) (od_commands (scrub_secrets parse now d))"
    by (simp add: scrub_secrets_def list_all2_map2 list_all2_same)
qed (simp_all add: scrub_secrets_def)

section \<open>Reconciling\<close>

text \<open>Transactions that only settle rows.\<close>

definition quiet :: "row_power \<Rightarrow> outbox_db \<Rightarrow> outbox_db \<Rightarrow> bool" where
  "quiet P d d' \<longleftrightarrow> transactions P d d' \<and> settling {} d d'"

lemma quiet_refl [simp]: "quiet P d d"
  by (simp add: quiet_def)

lemma quiet_trans: "quiet P d1 d2 \<Longrightarrow> quiet P d2 d3 \<Longrightarrow> quiet P d1 d3"
  by (auto simp: quiet_def intro: settling_trans)

lemma quiet_ids: "quiet P d d' \<Longrightarrow> distinct (command_ids d) \<Longrightarrow> distinct (command_ids d')"
  by (auto simp: quiet_def dest: transactions_ids)

lemma quiet_agrees: "quiet P d d' \<Longrightarrow> agrees d r \<Longrightarrow> agrees d' r"
  by (auto simp: quiet_def intro: agrees_settling)

lemma quiet_then:
  assumes "quiet P d1 d2" "distinct (command_ids d1)" "distinct (command_ids d2) \<Longrightarrow> quiet P d2 d3"
  shows "quiet P d1 d3"
  using assms quiet_ids quiet_trans by metis

lemma settle_quiet: "settle_execution x s now d = (d', b) \<Longrightarrow> quiet P d d'"
proof -
  assume s: "settle_execution x s now d = (d', b)"
  then have "od_commands d' = od_commands d" by (auto simp: settle_execution_def split: option.splits if_splits)
  with settle_transaction[of P d x s now] s show ?thesis by (auto simp: quiet_def settling_rows)
qed

lemma settle_and_notify_quiet: "settle_and_notify env x s note now d = (d', os) \<Longrightarrow> quiet P d d'"
  by (auto simp: settle_and_notify_def split: prod.splits intro: settle_quiet)

lemma fail_workflow_quiet:
  "fail_workflow_execution env x commands source c err now d = (d', os) \<Longrightarrow> distinct (command_ids d) \<Longrightarrow> quiet P d d'"
  by (auto simp: fail_workflow_execution_def quiet_def terminalize_transaction intro!: r_into_rtranclp)

lemma pause_quiet:
  assumes "pause_for_governance env x only now d = Some (d', os)" "distinct (command_ids d)"
  shows "quiet P d d'"
proof -
  obtain source err where t: "oe_trip env d x only now = Some (source, err)"
    using assms(1) by (auto simp: pause_for_governance_def split: option.splits)
  obtain d1 o1 where 1: "(if ax_action x = WorkflowRun
      then fail_workflow_execution env x (commands_of d (ax_id x)) source
        (map_option aw_command (find (\<lambda>r. aw_session r = source \<and> aw_superseded r = None) (commands_of d (ax_id x)))) err now d
      else (d, [])) = (d1, o1)" by (metis surj_pair)
  have q: "quiet P d d1" using 1 fail_workflow_quiet[OF _ assms(2)] by (auto split: if_splits)
  obtain o2 where o2: "settle_and_notify env x \<lparr>se_status = CeilingPaused, se_error = None\<rparr> Failed now d1 = (d', o2)"
    using assms(1) t 1 by (auto simp: pause_for_governance_def Let_def split: prod.splits)
  show ?thesis by (rule quiet_trans[OF q settle_and_notify_quiet[OF o2]])
qed

lemma reconcile_failed_quiet:
  assumes "reconcile_failed env x commands failed now d = (d', os)" "distinct (command_ids d)"
  shows "quiet P d d'"
proof -
  obtain d1 o1 where 1: "(if ax_action x = WorkflowRun
      then fail_workflow_execution env x commands (aw_session failed) (Some (aw_command failed)) (verdict_text ''workflow sibling '' failed) now d
      else (d, if ax_action x = CreateSession \<and> truthy (ax_session x) \<and> aw_state failed = Rejected
           then [LaunchStopped (the (ax_session x))] else [])) = (d1, o1)" by (metis surj_pair)
  have q: "quiet P d d1" using 1 fail_workflow_quiet[OF _ assms(2)] by (auto split: if_splits)
  obtain o2 where o2: "settle_and_notify env x \<lparr>se_status = Failed, se_error = Some (verdict_text ''runner command '' failed)\<rparr> Failed now d1 = (d', o2)"
    using assms(1) 1 by (auto simp: reconcile_failed_def Let_def split: prod.splits)
  show ?thesis by (rule quiet_trans[OF q settle_and_notify_quiet[OF o2]])
qed

lemma reconcile_running_quiet: "reconcile_running env x commands now d = (d', os) \<Longrightarrow> quiet P d d'"
  by (auto simp: reconcile_running_def split: if_splits intro: settle_and_notify_quiet)

lemma reconcile_prompt_quiet: "reconcile_prompt env x commands now d = (d', os) \<Longrightarrow> quiet P d d'"
  unfolding reconcile_prompt_def by (auto split: if_splits option.splits intro: settle_and_notify_quiet)

lemma reconcile_quiet:
  assumes "reconcile_execution env xid now d = (d', os)" "distinct (command_ids d)"
  shows "quiet P d d'"
proof (cases "find_execution d xid")
  case (Some x)
  let ?rows = "commands_of d xid"
  have "d' = d \<or> pause_for_governance env x None now d = Some (d', os) \<or>
      (\<exists>failed. reconcile_failed env x ?rows failed now d = (d', os)) \<or>
      (\<exists>d1 o1 o2. reconcile_running env x ?rows now d = (d1, o1) \<and> reconcile_prompt env x ?rows now d1 = (d', o2))"
    using assms(1) unfolding reconcile_execution_def Some option.case Let_def
    by (auto split: if_split_asm option.split_asm prod.split_asm)
  then show ?thesis
    using pause_quiet[OF _ assms(2)] reconcile_failed_quiet[OF _ assms(2)] reconcile_running_quiet reconcile_prompt_quiet
    by (elim disjE exE conjE) (metis quiet_refl quiet_trans)+
qed (use assms in \<open>simp add: reconcile_execution_def\<close>)

lemma reconcile_all_quiet: "reconcile_all env now rs d = (d', os) \<Longrightarrow> distinct (command_ids d) \<Longrightarrow> quiet P d d'"
proof (induction env now rs d arbitrary: os rule: reconcile_all.induct)
  case (2 env now r rs d)
  obtain d1 o1 o2 where 1: "reconcile_execution env (aw_execution r) now d = (d1, o1)" "reconcile_all env now rs d1 = (d', o2)"
    using "2.prems"(1) by (auto simp: Let_def split: prod.splits)
  have q: "quiet P d d1" by (rule reconcile_quiet[OF 1(1) "2.prems"(2)])
  show ?case by (rule quiet_then[OF q "2.prems"(2)]) (rule "2.IH"[OF 1(1)[symmetric] refl 1(2)])
qed simp

section \<open>Passes\<close>

lemma capability_quiet:
  assumes "fail_for_capability_loss env r now d = (d', os)" "distinct (command_ids d)" "agrees d r"
  shows "quiet P d d'"
proof -
  let ?i = "(own_receipt r (fst (capability_verdict r)) (snd (capability_verdict r)))\<lparr>ri_session := Some (aw_session r)\<rparr>"
  obtain d1 res where rec: "record_receipt ?i now d = (d1, res)" by (metis surj_pair)
  have "ri_command ?i = aw_command r" "ri_state ?i = terminal_verdict (aw_state r)" "ri_revision ?i = aw_revision r + 1"
    by (simp_all add: own_receipt_def capability_verdict_def terminal_verdict_def)
  from own_verdict_transaction[OF assms(2,3) this, of P now "{}"] rec have "transaction P d d1" "settling {} d d1" by simp_all
  then have q: "quiet P d d1" by (simp add: quiet_def r_into_rtranclp)
  show ?thesis
  proof (cases "\<exists>c. res = Some (c, True)")
    case True
    then obtain c where "res = Some (c, True)" by blast
    then have "reconcile_execution env (aw_execution c) now d1 = (d', os)"
      using assms(1) rec by (simp add: fail_for_capability_loss_def Let_def)
    from quiet_then[OF q assms(2) reconcile_quiet[OF this]] show ?thesis .
  next
    case False
    then have "d' = d1" using assms(1) rec by (auto simp: fail_for_capability_loss_def Let_def split: option.splits prod.splits bool.splits)
    with q show ?thesis by simp
  qed
qed

lemma fail_batch_quiet:
  "fail_batch env now rs d = (d', os) \<Longrightarrow> distinct (command_ids d) \<Longrightarrow> (\<And>r. r \<in> set rs \<Longrightarrow> agrees d r) \<Longrightarrow> quiet P d d'"
proof (induction env now rs d arbitrary: os rule: fail_batch.induct)
  case (2 env now r rs d)
  obtain d1 o1 o2 where 1: "fail_for_capability_loss env r now d = (d1, o1)" "fail_batch env now rs d1 = (d', o2)"
    using "2.prems"(1) by (auto simp: Let_def split: prod.splits)
  have q: "quiet P d d1" by (rule capability_quiet[OF 1(1) "2.prems"(2)]) (simp add: "2.prems"(3))
  have "agrees d1 s" if "s \<in> set rs" for s using quiet_agrees[OF q] "2.prems"(3) that by simp
  with quiet_then[OF q "2.prems"(2)] "2.IH"[OF 1(1)[symmetric] refl 1(2)] show ?case by blast
qed simp

lemma active_commands_sub: "r \<in> set (active_commands d runner limit) \<Longrightarrow> r \<in> set (od_commands d)"
  by (auto simp: active_commands_def dest!: in_set_takeD)

lemma drain_quiet: "drain_runner n env runner now d = (d', os) \<Longrightarrow> distinct (command_ids d) \<Longrightarrow> quiet P d d'"
proof (induction n env runner now d arbitrary: os rule: drain_runner.induct)
  case (2 n env runner now d)
  let ?batch = "active_commands d (Some runner) MAX_BATCH"
  show ?case
  proof (cases ?batch)
    case (Cons r rs)
    obtain d1 o1 o2 where 1: "fail_batch env now ?batch d = (d1, o1)" "drain_runner n env runner now d1 = (d', o2)"
      using "2.prems"(1) Cons by (auto simp: Let_def split: prod.splits)
    have q: "quiet P d d1"
      by (rule fail_batch_quiet[OF 1(1) "2.prems"(2)]) (use agrees_self[OF "2.prems"(2)] active_commands_sub in blast)
    show ?thesis by (rule quiet_then[OF q "2.prems"(2)]) (use "2.IH" Cons 1 in auto)
  qed (use "2.prems" in simp)
qed simp

definition allows_reject :: "row_power \<Rightarrow> bool" where
  "allows_reject P \<longleftrightarrow> (\<forall>d r r'. reject_step r r' \<longrightarrow> P d r r')"

lemma allows_reject [simp]: "allows_reject flush_power" "allows_reject (receipt_power runner m)"
  by (simp_all add: allows_reject_def flush_power_def receipt_power_def)

lemma mark_sent_settling: "settling {c} d (fst (mark_sent c request now next d))"
proof -
  let ?sel = "\<lambda>s. aw_command s = c \<and> sendable (aw_state s)"
  have "od_commands (fst (mark_sent c request now next d)) = od_commands d \<or>
      od_commands (fst (mark_sent c request now next d)) = map (\<lambda>r. if ?sel r then marked_row now next r else r) (od_commands d)"
    by (simp add: mark_sent_def Let_def split: option.split)
  then show ?thesis
  proof
    assume "od_commands (fst (mark_sent c request now next d)) = map (\<lambda>r. if ?sel r then marked_row now next r else r) (od_commands d)"
    then show ?thesis by (rule settling_update[of _ ?sel]) (simp add: marked_row_def)
  qed (rule settling_rows)
qed

lemma flush_row_transactions:
  assumes "flush_row env uuid now r d = (d', os, threw)" "distinct (command_ids d)" "agrees d r" "allows_reject P"
  shows "transactions P d d' \<and> settling {aw_command r} d d'"
proof (cases "check_send env r")
  case CapabilityLost
  then have "fail_for_capability_loss env r now d = (d', os)" using assms(1) by (auto simp: flush_row_def split: prod.splits)
  from capability_quiet[OF this assms(2,3)] show ?thesis by (auto simp: quiet_def intro: settling_mono)
next
  case (RejectWith err)
  then have rc: "reconcile_execution env (aw_execution r) now (reject_command (aw_command r) err now d) = (d', os)"
    using assms(1) by (auto simp: flush_row_def reject_and_reconcile_def split: prod.splits)
  have "transaction P d (reject_command (aw_command r) err now d) \<and> settling {} d (reject_command (aw_command r) err now d)"
    by (rule reject_transaction[OF assms(2)]) (use assms(4) in \<open>simp add: allows_reject_def\<close>)
  then have q: "quiet P d (reject_command (aw_command r) err now d)" by (simp add: quiet_def r_into_rtranclp)
  have "quiet P d d'" by (rule quiet_then[OF q assms(2) reconcile_quiet[OF rc]])
  then show ?thesis by (auto simp: quiet_def intro: settling_mono)
next
  case SendNow
  then have "d' = fst (mark_sent (aw_command r) (uuid (aw_command r)) now (now + retry_delay (aw_attempts r + 1)) d)"
    using assms(1) by (auto simp: flush_row_def Let_def split: prod.splits mark_answer.splits)
  then show ?thesis using mark_sent_transaction[OF assms(2), of P] mark_sent_settling by auto
qed (use assms(1) in \<open>simp_all add: flush_row_def\<close>)

lemma flush_rows_transactions:
  assumes "flush_rows env uuid now rs d = (d', os, threw)" "distinct (command_ids d)" "distinct (map aw_command rs)"
    "\<And>r. r \<in> set rs \<Longrightarrow> agrees d r" "allows_reject P"
  shows "transactions P d d'"
  using assms
proof (induction env uuid now rs d arbitrary: os threw rule: flush_rows.induct)
  case (2 env uuid now r rs d)
  obtain d1 o1 t1 where 1: "flush_row env uuid now r d = (d1, o1, t1)" by (metis surj_pair)
  have t: "transactions P d d1" "settling {aw_command r} d d1"
    using flush_row_transactions[OF 1 "2.prems"(2) _ "2.prems"(5)] "2.prems"(4) by auto
  show ?case
  proof (cases t1)
    case True
    with "2.prems"(1) 1 t show ?thesis by simp
  next
    case False
    obtain o2 t2 where 2: "flush_rows env uuid now rs d1 = (d', o2, t2)"
      using "2.prems"(1) 1 False by (auto split: prod.splits)
    have "transactions P d1 d'"
    proof (rule "2.IH"[OF 1[symmetric] refl refl _ 2 transactions_ids[OF t(1) "2.prems"(2)]])
      show "agrees d1 s" if "s \<in> set rs" for s
      proof (rule agrees_settling[OF _ t(2)])
        show "agrees d s" using that "2.prems"(4) by simp
        show "aw_command s \<notin> {aw_command r}" using that "2.prems"(3) by (metis distinct.simps(2) image_eqI list.set_map list.simps(9) singletonD)
      qed
    qed (use False "2.prems"(3,5) in auto)
    with t(1) show ?thesis by (rule rtranclp_trans)
  qed
qed simp

lemma flush_transactions:
  assumes "outbox_flush env uuid now runner d = (d', os, threw)" "distinct (command_ids d)" "allows_reject P"
  shows "transactions P d d'"
proof -
  obtain d1 o1 where 1: "(if drains env runner then drain_runner (Suc (length (od_commands d))) env (the runner) now d else (d, [])) = (d1, o1)"
    by (metis surj_pair)
  obtain d2 expired where 2: "expire_commands now MAX_BATCH d1 = (d2, expired)" by (metis surj_pair)
  obtain d3 o3 where 3: "reconcile_all env now expired d2 = (d3, o3)" by (metis surj_pair)
  obtain o4 where 4: "flush_rows env uuid now (due_commands d3 now runner MAX_BATCH) d3 = (d', o4, threw)"
    using assms(1) 1 2 3 by (auto simp: outbox_flush_def split: prod.splits)
  have q1: "quiet P d d1" using 1 drain_quiet[OF _ assms(2)] by (auto simp del: drain_runner.simps split: if_splits)
  have i1: "distinct (command_ids d1)" by (rule quiet_ids[OF q1 assms(2)])
  have q2: "quiet P d1 d2" using expire_transactions[OF i1, of P now MAX_BATCH "{}"] 2 by (simp add: quiet_def)
  have i2: "distinct (command_ids d2)" by (rule quiet_ids[OF q2 i1])
  have q3: "quiet P d2 d3" by (rule reconcile_all_quiet[OF 3 i2])
  have i3: "distinct (command_ids d3)" by (rule quiet_ids[OF q3 i2])
  have "transactions P d3 d'"
  proof (rule flush_rows_transactions[OF 4 i3 _ _ assms(3)])
    show "distinct (map aw_command (due_commands d3 now runner MAX_BATCH))"
      unfolding due_commands_def by (rule distinct_ids_take[OF distinct_ids_sub[OF i3]])
    show "agrees d3 r" if "r \<in> set (due_commands d3 now runner MAX_BATCH)" for r
      using that by (auto simp: due_commands_def dest!: in_set_takeD intro: agrees_self[OF i3])
  qed
  with q1 q2 q3 show ?thesis by (auto simp: quiet_def intro: rtranclp_trans)
qed

section \<open>Receipts\<close>

lemma retry_transactions:
  assumes "retry_command ri now d = (d', Retried old new)" "distinct (command_ids d)"
    and "\<And>r c. find_command d (rt_command ri) = Some r \<Longrightarrow> retryable ri d r \<Longrightarrow> P d r (replaced_row ri c now r)"
  shows "transactions P d d'"
proof -
  obtain r where r: "find_command d (rt_command ri) = Some r" "retryable ri d r"
    using assms(1) by (auto simp: retry_command_def Let_def split: option.splits if_splits)
  note rr = find_command_Some[OF r(1)]
  let ?c = "replacement_id r (superseded_count d (aw_execution r) + 1)"
  let ?ord = "Max (aw_ordinal ` set (commands_of d (aw_execution r))) + 1"
  let ?new = "replacement_row ri ?c ?ord now r"
  let ?d1 = "update_rows (\<lambda>s. aw_command s = rt_command ri) (replaced_row ri ?c now) d"
  obtain d2 where i: "insert_row ?new ?d1 = Some d2" and
    d': "d' = audited [CommandAudit (rt_command ri) Rejected, CommandAudit ?c Pending] d2"
    using assms(1) r by (auto simp: retry_command_def Let_def split: if_splits option.splits)
  let ?e1 = "audited [CommandAudit (rt_command ri) Rejected] ?d1"
  have "transaction P d ?e1"
    by (rule one_row_transaction[OF assms(2), of r "\<lambda>s. True" "replaced_row ri ?c now"])
      (use rr assms(3)[OF r] in \<open>simp_all add: replaced_row_def\<close>)
  moreover have "transaction P ?e1 d'"
  proof (rule transaction.insert)
    show "fresh_row ?new" by (simp add: fresh_row_def replacement_row_def)
    show "aw_command ?new \<notin> set (command_ids ?e1)"
      using i by (auto simp: insert_row_def find_command_None command_ids_def split: if_splits)
  qed (use i d' in \<open>auto simp: insert_row_def replacement_row_def split: if_splits\<close>)
  ultimately show ?thesis by (meson converse_rtranclp_into_rtranclp r_into_rtranclp)
qed

lemma retry_failure_transactions:
  assumes "retry_provider_failure env i now d = (Some (d', os), ws)" "distinct (command_ids d)" "ri_state i = Rejected"
    and P: "\<And>d r r'. runner_step i d r r' \<Longrightarrow> P d r r'"
  shows "transactions P d d'"
proof -
  obtain r where r: "find_command d (ri_command i) = Some r" using assms(1) by (auto simp: retry_provider_failure_def split: option.splits if_splits)
  let ?n = "superseded_count d (aw_execution r) + 1"
  let ?ri = "\<lparr>rt_command = ri_command i, rt_runner = ri_runner i, rt_session = ri_session i, rt_request = ri_request i,
    rt_revision = ri_revision i, rt_error = the (ri_error i), rt_code = ri_code i, rt_next_attempt = now + provider_retry_delay ?n\<rparr>"
  obtain d1 old new o2 where 1: "retry_command ?ri now d = (d1, Retried old new)" "reconcile_execution env (aw_execution old) now d1 = (d', o2)"
    and n: "?n \<le> MAX_PROVIDER_RETRIES"
    using assms(1) r by (auto simp: retry_provider_failure_def Let_def split: if_splits prod.splits retry_answer.splits)
  have t: "transactions P d d1"
  proof (rule retry_transactions[OF 1(1) assms(2)])
    fix s c
    assume s: "find_command d (rt_command ?ri) = Some s" "retryable ?ri d s"
    have "runner_step i d s (replaced_row ?ri c now s)"
      using s r n assms(3) find_command_Some[OF r] unfolding runner_step_def
      by (auto simp: retryable_def intro!: exI[of _ ?ri] exI[of _ c] exI[of _ now])
    then show "P d s (replaced_row ?ri c now s)" by (rule P)
  qed
  have "quiet P d1 d'" by (rule reconcile_quiet[OF 1(2) transactions_ids[OF t assms(2)]])
  with t show ?thesis by (auto simp: quiet_def)
qed

lemma outbox_receipt_transactions:
  assumes "outbox_receipt env uuid runner m now d = (d', os, ans)" "distinct (command_ids d)"
  shows "transactions (receipt_power runner m) d d'"
proof (cases "valid_receipt m")
  case False
  then show ?thesis using assms(1) by (simp add: outbox_receipt_def)
next
  case True
  let ?P = "receipt_power runner m" and ?i = "receipt_input_of runner m"
  have P: "?P e r r'" if "runner_step ?i e r r'" for e r r' using that True by (simp add: receipt_power_def)
  define rt where "rt = (if ri_state ?i = Rejected then retry_provider_failure env ?i now d else (None, []))"
  note res = assms(1)[unfolded outbox_receipt_def, simplified True not_True_eq_False if_False Let_def, folded rt_def]
  show ?thesis
  proof (cases "fst rt")
    case (Some dd)
    then obtain o1 ws where rt: "rt = (Some (d', o1), ws)" using res by (cases rt; cases dd) auto
    then have "retry_provider_failure env ?i now d = (Some (d', o1), ws)" "ri_state ?i = Rejected"
      by (auto simp: rt_def split: if_splits)
    from retry_failure_transactions[OF this(1) assms(2) this(2) P] show ?thesis .
  next
    case None
    then obtain ws where rt: "rt = (None, ws)" by (cases rt) auto
    obtain d1 ans1 where rec: "record_receipt ?i now d = (d1, ans1)" by (metis surj_pair)
    have t1: "transaction ?P d d1"
    proof -
      have "transaction ?P d (fst (record_receipt ?i now d))"
      proof (rule record_receipt_transaction[OF assms(2)])
        fix r assume r: "find_command d (ri_command ?i) = Some r" "\<not> receipt_stale ?i r" "aw_runner r = ri_runner ?i"
        then have "runner_step ?i d r (receipted_row ?i now r)"
          using find_command_Some[OF r(1)] unfolding runner_step_def by (auto simp: receipt_stale_def)
        from P[OF this] show "own_step r (receipted_row ?i now r) \<or> ?P d r (receipted_row ?i now r)" by simp
      qed
      with rec show ?thesis by simp
    qed
    show ?thesis
    proof (cases "\<exists>c. ans1 = Some (c, True)")
      case False
      then have "d' = d1" using res rt rec by (auto split: option.splits prod.splits bool.splits)
      with t1 show ?thesis by blast
    next
      case True
      then obtain c where c: "ans1 = Some (c, True)" by blast
      obtain d2 o2 where rc: "reconcile_execution env (aw_execution c) now d1 = (d2, o2)" by (metis surj_pair)
      obtain o3 threw where fl: "outbox_flush env uuid now (Some runner) d2 = (d', o3, threw)"
        using res rt rec c rc by (auto split: prod.splits)
      have i1: "distinct (command_ids d1)" using transaction_ids[OF t1 assms(2)] by simp
      have q: "quiet ?P d1 d2" by (rule reconcile_quiet[OF rc i1])
      have "transactions ?P d2 d'" by (rule flush_transactions[OF fl quiet_ids[OF q i1]]) simp
      with t1 q show ?thesis unfolding quiet_def by (meson converse_rtranclp_into_rtranclp rtranclp_trans)
    qed
  qed
qed

lemma on_receipt_transactions:
  assumes "on_command_receipt env uuid runner m now d = (d', os, ans)" "distinct (command_ids d)"
  shows "transactions (receipt_power runner m) d d'"
proof -
  obtain d1 o1 where 0: "recover_pause env runner m now d = (d1, o1)" by (metis surj_pair)
  then have d1: "d1 = d \<or> (\<exists>x only o1. pause_for_governance env x only now d = Some (d1, o1))"
    by (auto simp: recover_pause_def split: option.split_asm if_split_asm)
  obtain o2 where 1: "outbox_receipt env uuid runner m now d1 = (d', o2, ans)"
    using assms(1) 0 by (auto simp: on_command_receipt_def split: prod.splits)
  have q: "quiet (receipt_power runner m) d d1" using d1 pause_quiet[OF _ assms(2)] quiet_refl by metis
  have "transactions (receipt_power runner m) d1 d'" by (rule outbox_receipt_transactions[OF 1 quiet_ids[OF q assms(2)]])
  with q show ?thesis by (auto simp: quiet_def)
qed

section \<open>Every event\<close>

lemma expire_execution_quiet:
  assumes "expire_execution env now x d = (d', os)" "distinct (command_ids d)"
  shows "quiet P d d'"
proof -
  let ?d1 = "fst (expire_undelivered (ax_id x) now d)"
  have q: "quiet P d ?d1" using expire_undelivered_transactions[OF assms(2), of P "ax_id x" now "{}"] by (simp add: quiet_def)
  have "d' = d \<or> reconcile_execution env (ax_id x) now ?d1 = (d', os)"
    using assms(1) by (auto simp: expire_execution_def split: if_splits)
  with q assms(2) show ?thesis by (metis quiet_refl quiet_then reconcile_quiet)
qed

lemma expire_executions_quiet: "expire_executions env now xs d = (d', os) \<Longrightarrow> distinct (command_ids d) \<Longrightarrow> quiet P d d'"
proof (induction env now xs d arbitrary: os rule: expire_executions.induct)
  case (2 env now x xs d)
  obtain d1 o1 o2 where 1: "expire_execution env now x d = (d1, o1)" "expire_executions env now xs d1 = (d', o2)"
    using "2.prems"(1) by (auto simp: Let_def split: prod.splits)
  have q: "quiet P d d1" by (rule expire_execution_quiet[OF 1(1) "2.prems"(2)])
  show ?case by (rule quiet_then[OF q "2.prems"(2)]) (rule "2.IH"[OF 1(1)[symmetric] refl 1(2)])
qed simp

lemma fail_interrupted_transactions: "transactions P d (fail_interrupted now d)"
proof -
  have "transactions P d (foldl (\<lambda>d x. fst (settle_execution (ax_id x) s now d)) d xs)" for s xs
  proof (induction xs arbitrary: d)
    case (Cons x xs)
    have "transactions P (fst (settle_execution (ax_id x) s now d)) (foldl (\<lambda>d x. fst (settle_execution (ax_id x) s now d)) d (x # xs))"
      using Cons by simp
    with settle_transaction show ?case by (rule converse_rtranclp_into_rtranclp)
  qed simp
  then show ?thesis unfolding fail_interrupted_def .
qed

theorem step_transactions:
  assumes "distinct (command_ids d)"
  shows "transactions (event_power e) d (fst (outbox_step env d e))"
proof (cases e)
  case (Activate x now)
  then show ?thesis using activate_transactions[OF _ assms, of x now _ no_power] by (auto split: option.splits)
next
  case (FlushAll uuid now)
  obtain d' os threw where "outbox_flush env uuid now None d = (d', os, threw)" by (metis surj_pair)
  with flush_transactions[OF this assms allows_reject(1)] FlushAll show ?thesis by simp
next
  case (FlushRunner uuid now runner)
  obtain d' os threw where "outbox_flush env uuid now (Some runner) d = (d', os, threw)" by (metis surj_pair)
  with flush_transactions[OF this assms allows_reject(1)] FlushRunner show ?thesis by simp
next
  case (TakeReceipt uuid runner m now)
  obtain d' os ans where "on_command_receipt env uuid runner m now d = (d', os, ans)" by (metis surj_pair)
  with on_receipt_transactions[OF this assms] TakeReceipt show ?thesis by simp
next
  case (ExpireUndeliverable now)
  obtain d' os where "expire_undeliverable_executions env now d = (d', os)" by (metis surj_pair)
  with expire_executions_quiet[OF this[unfolded expire_undeliverable_executions_def] assms, of no_power] ExpireUndeliverable
  show ?thesis by (simp add: quiet_def)
next
  case (Reconcile x now)
  obtain d' os where "reconcile_execution env x now d = (d', os)" by (metis surj_pair)
  with reconcile_quiet[OF this assms, of no_power] Reconcile show ?thesis by (simp add: quiet_def)
next
  case (NewExecution x)
  have "transaction no_power d (fst (outbox_step env d e))"
    by (rule executions_transaction[of _ _ "[]"]) (use NewExecution in auto)
  with NewExecution show ?thesis by (simp add: r_into_rtranclp)
qed (use stage_transactions[of no_power d] scrub_transaction fail_interrupted_transactions in auto)

end
