(* ===== verification/Outbox_Sample.thy ===== *)
theory Outbox_Sample
  imports Outbox_Transactions
begin

text \<open>Tables, an environment and messages the examples about the durable command outbox run on.\<close>

definition sample_start_payload :: "string \<Rightarrow> json" where
  "sample_start_payload driver = JObj [(''type'', JStr ''start_session''), (''spec'', JObj [(''sessionId'', JStr ''s''), (''driver'', JStr driver)])]"

definition sample_outbox_env :: outbox_env where
  "sample_outbox_env = \<lparr>oe_parse = (\<lambda>p. if p = ''A'' then Some (sample_start_payload ''codex'')
       else if p = ''B'' then Some (sample_start_payload ''claude'') else if p = ''plan'' then Some JNull else None),
     oe_sha = (\<lambda>s. replicate 64 (CHR ''0'')), oe_num = unary_text, oe_online = (\<lambda>r. True), oe_supports = (\<lambda>r. True), oe_delivers = (\<lambda>r. True),
     oe_driver = (\<lambda>s. None), oe_session_status = (\<lambda>s. None), oe_trip = (\<lambda>d x only now. None),
     oe_workflow_open = (\<lambda>w. True), oe_open_attempts = (\<lambda>w. []), oe_notifies = (\<lambda>x. True)\<rparr>"

definition sample_planned :: "string \<Rightarrow> int \<Rightarrow> string \<Rightarrow> string \<Rightarrow> planned_command" where
  "sample_planned c n s payload =
     \<lparr>pc_command = c, pc_ordinal = n, pc_runner = ''r'', pc_session = s, pc_kind = AutomationStart, pc_payload = payload,
      pc_digest = replicate 64 (CHR ''0''), pc_expires = Some 1000, pc_deadline = Some 100, pc_dependency = None\<rparr>"

definition sample_execution :: "automation_action \<Rightarrow> execution_row" where
  "sample_execution action =
     \<lparr>ax_id = ''x'', ax_action = action, ax_receipted = True, ax_status = Dispatching, ax_plan = None, ax_runner = None,
      ax_session = Some ''sa'', ax_run = None, ax_workflow = Some ''w'', ax_error = None, ax_paused = False, ax_created = 0,
      ax_started = None, ax_completed = None\<rparr>"

definition sample_row :: "string \<Rightarrow> int \<Rightarrow> string \<Rightarrow> string \<Rightarrow> command_row" where
  "sample_row c n s payload = activated_row 1 (staged_row ''x'' 0 (sample_planned c n s payload))"

text \<open>Two commands of a workflow that are due, the first on the retired driver; and a started launch.\<close>

definition sample_due :: outbox_db where
  "sample_due = \<lparr>od_commands = [sample_row ''a'' 0 ''sa'' ''A'', sample_row ''b'' 1 ''sb'' ''B''],
     od_executions = [sample_execution WorkflowRun], od_attempts = [], od_audit = []\<rparr>"

definition sample_started :: outbox_db where
  "sample_started = \<lparr>od_commands = [(sample_row ''a'' 0 ''sa'' ''A'')\<lparr>aw_state := Started, aw_revision := 3, aw_attempts := 1\<rparr>],
     od_executions = [sample_execution CreateSession], od_attempts = [], od_audit = []\<rparr>"

text \<open>A run: the plan of an execution is staged, activated and sent.\<close>

definition sample_tables :: outbox_db where
  "sample_tables = \<lparr>od_commands = [], od_executions = [], od_attempts = [], od_audit = []\<rparr>"

definition sample_plan :: delivery_plan where
  "sample_plan = \<lparr>dp_execution = ''x'', dp_runner = ''r'', dp_session = Some ''sa'', dp_run = None, dp_workflow = None, dp_text = ''plan'',
     dp_commands = [sample_planned ''a'' 0 ''sa'' ''B'']\<rparr>"

definition sample_sent_run :: "outbox_event list" where
  "sample_sent_run = [NewExecution (sample_execution CreateSession), Stage 1 sample_plan, Activate ''x'' 2, FlushAll id 3]"

definition sample_receipt :: "string \<Rightarrow> string \<Rightarrow> json" where
  "sample_receipt c st = JObj [(''type'', JStr ''durable_session_command_update''), (''commandId'', JStr c), (''sessionId'', JStr ''sa''),
     (''state'', JStr st), (''revision'', JNum 4)]"

end
