(* ===== verification/Outbox_Passes.thy ===== *)
theory Outbox_Passes
  imports Outbox_Verdicts
begin

text \<open>
  The outbox's passes: the loop that drains a runner without the capability ends, every message a pass
  sends has its attempt on record before it, and what happens when reconciling one command of a pass
  settles another that the pass has already read.
\<close>

section \<open>Draining a runner\<close>

definition unsettled_ids :: "outbox_db \<Rightarrow> string set" where
  "unsettled_ids d = {aw_command r | r. r \<in> set (od_commands d) \<and> \<not> settled (aw_state r)}"

lemma unsettled_bound: "finite (unsettled_ids d)" "card (unsettled_ids d) \<le> length (od_commands d)"
proof -
  have sub: "unsettled_ids d \<subseteq> set (command_ids d)" by (auto simp: unsettled_ids_def command_ids_def)
  then show "finite (unsettled_ids d)" by (rule finite_subset) simp
  have "card (unsettled_ids d) \<le> card (set (command_ids d))" using sub by (rule card_mono[rotated]) simp
  also have "\<dots> \<le> length (od_commands d)" using card_length[of "command_ids d"] by (simp add: command_ids_def)
  finally show "card (unsettled_ids d) \<le> length (od_commands d)" .
qed

lemma settling_unsettled: "settling {} d d' \<Longrightarrow> unsettled_ids d' \<subseteq> unsettled_ids d"
  unfolding unsettled_ids_def settling_def by force

lemma capability_settles:
  assumes f: "fail_for_capability_loss env r now d = (d', os)" and d: "distinct (command_ids d)" and r: "r \<in> set (od_commands d)"
    and x: "find_execution d (aw_execution r) \<noteq> None" and u: "\<not> settled (aw_state r)"
  shows "aw_command r \<notin> unsettled_ids d'"
proof -
  define i where "i = (own_receipt r (fst (capability_verdict r)) (snd (capability_verdict r)))\<lparr>ri_session := Some (aw_session r)\<rparr>"
  have i: "ri_command i = aw_command r" "ri_state i = terminal_verdict (aw_state r)" "ri_revision i = aw_revision r + 1"
    by (simp_all add: i_def own_receipt_def capability_verdict_def terminal_verdict_def)
  have fr: "find_command d (aw_command r) = Some r" by (rule find_command_eq[OF d r])
  have a: "addressed d r i" using x by (simp add: i_def addressed_def own_receipt_def answers_attempt_def)
  have ns: "\<not> receipt_stale i r"
  proof -
    have "ri_state i \<noteq> aw_state r" using i(2) u terminal_verdict_settled by metis
    then show ?thesis using u i by (simp add: receipt_stale_def)
  qed
  obtain d1 ans where rec: "record_receipt i now d = (d1, ans)" by (metis surj_pair)
  obtain r' where r': "find_command d1 (aw_command r) = Some r'" "distinct (command_ids d1)" "r' = receipted_row i now r"
  proof (rule record_addressed[OF d fr a, of now])
    fix r' assume "find_command (fst (record_receipt i now d)) (aw_command r) = Some r'" "distinct (command_ids (fst (record_receipt i now d)))"
      "r' = (if receipt_stale i r then r else receipted_row i now r)"
    then show thesis using that rec ns by simp
  qed
  have st: "settled (aw_state r')" using r'(3) i(2) by simp
  have "aw_command r \<notin> unsettled_ids d1"
  proof
    assume "aw_command r \<in> unsettled_ids d1"
    then have "\<exists>s. aw_command r = aw_command s \<and> s \<in> set (od_commands d1) \<and> \<not> settled (aw_state s)"
      by (simp only: unsettled_ids_def mem_Collect_eq)
    then obtain s where s: "aw_command r = aw_command s" "s \<in> set (od_commands d1)" "\<not> settled (aw_state s)"
      by (elim exE conjE) (rule that)
    have "find_command d1 (aw_command r) = Some s" by (rule keyed_row[OF r'(2) s(2) s(1)[symmetric]])
    with r'(1) st s(3) show False by simp
  qed
  moreover have "quiet no_power d1 d'"
  proof (cases "\<exists>c. ans = Some (c, True)")
    case True
    then obtain c where "ans = Some (c, True)" by blast
    then have "reconcile_execution env (aw_execution c) now d1 = (d', os)"
      using f rec by (simp add: fail_for_capability_loss_def Let_def i_def)
    then show ?thesis by (rule reconcile_quiet[OF _ r'(2)])
  next
    case False
    then have "d' = d1" using f rec unfolding i_def by (auto simp: fail_for_capability_loss_def Let_def split: option.splits prod.splits bool.splits)
    then show ?thesis by simp
  qed
  ultimately show ?thesis using settling_unsettled by (auto simp: quiet_def)
qed

lemma active_commands_active:
  "r \<in> set (active_commands d runner limit) \<Longrightarrow> r \<in> set (od_commands d) \<and> execution_active d (aw_execution r) \<and> \<not> settled (aw_state r)"
  by (auto simp: active_commands_def dest!: in_set_takeD)

lemma drain_ends:
  "distinct (command_ids d) \<Longrightarrow> card (unsettled_ids d) < n \<Longrightarrow> drain_runner n env runner now d = (d', os) \<Longrightarrow>
   active_commands d' (Some runner) MAX_BATCH = []"
proof (induction n arbitrary: d os)
  case (Suc n)
  let ?batch = "active_commands d (Some runner) MAX_BATCH"
  show ?case
  proof (cases ?batch)
    case Nil
    with Suc.prems(3) show ?thesis by simp
  next
    case (Cons r rs)
    obtain d1 o1 where 1: "fail_batch env now ?batch d = (d1, o1)" by (metis surj_pair)
    obtain o2 where 2: "drain_runner n env runner now d1 = (d', o2)" using Suc.prems(3) Cons 1 by (auto split: prod.splits)
    have r: "r \<in> set (od_commands d)" "find_execution d (aw_execution r) \<noteq> None" "\<not> settled (aw_state r)"
      using active_commands_active[of r d "Some runner" MAX_BATCH] Cons by (auto simp: execution_active_def split: option.splits)
    obtain e1 p1 where e: "fail_for_capability_loss env r now d = (e1, p1)" by (metis surj_pair)
    obtain p2 where p: "fail_batch env now rs e1 = (d1, p2)" using 1 Cons e by (auto split: prod.splits)
    have q: "quiet no_power d d1"
      by (rule fail_batch_quiet[OF 1 Suc.prems(1)]) (use agrees_self[OF Suc.prems(1)] active_commands_sub in blast)
    have qe: "quiet no_power d e1" by (rule capability_quiet[OF e Suc.prems(1) agrees_self[OF Suc.prems(1) r(1)]])
    have "quiet no_power e1 d1"
    proof (rule fail_batch_quiet[OF p quiet_ids[OF qe Suc.prems(1)]])
      fix s assume "s \<in> set rs"
      then have "agrees d s" using agrees_self[OF Suc.prems(1)] active_commands_sub[of s d "Some runner" MAX_BATCH] Cons by simp
      with qe show "agrees e1 s" by (rule quiet_agrees)
    qed
    then have sub: "unsettled_ids d1 \<subseteq> unsettled_ids e1" "unsettled_ids e1 \<subseteq> unsettled_ids d"
      using settling_unsettled qe by (auto simp: quiet_def)
    have "aw_command r \<in> unsettled_ids d" using r unfolding unsettled_ids_def by blast
    with sub capability_settles[OF e Suc.prems(1) r] have "unsettled_ids d1 \<subset> unsettled_ids d" by blast
    then have "card (unsettled_ids d1) < card (unsettled_ids d)" by (rule psubset_card_mono[OF unsettled_bound(1)])
    with Suc.prems(2) have "card (unsettled_ids d1) < n" by simp
    from Suc.IH[OF quiet_ids[OF q Suc.prems(1)] this 2] show ?thesis .
  qed
qed simp

text \<open>C35: the loop that drains a runner which lost the capability ends: after at most one batch for each
  command no active command of the runner is left, whatever reconciling their executions does to others.\<close>

theorem draining_a_runner_ends:
  assumes "distinct (command_ids d)"
  shows "active_commands (fst (drain_runner (Suc (length (od_commands d))) env runner now d)) (Some runner) MAX_BATCH = []"
proof -
  obtain d' os where "drain_runner (Suc (length (od_commands d))) env runner now d = (d', os)" by (metis surj_pair)
  from drain_ends[OF assms _ this] unsettled_bound(2)[of d] this show ?thesis by (simp add: less_Suc_eq_le)
qed

section \<open>Sends\<close>

definition is_send :: "outbox_output \<Rightarrow> bool" where
  "is_send out \<longleftrightarrow> (case out of SendCommand _ _ _ _ _ _ \<Rightarrow> True | _ \<Rightarrow> False)"

abbreviation sendless :: "outbox_output list \<Rightarrow> bool" where
  "sendless os \<equiv> list_all (\<lambda>out. \<not> is_send out) os"

lemma settle_and_notify_sendless: "settle_and_notify env x s note now d = (d', os) \<Longrightarrow> sendless os"
  by (auto simp: settle_and_notify_def is_send_def split: prod.splits if_splits)

lemma fail_workflow_sendless: "fail_workflow_execution env x commands source c err now d = (d', os) \<Longrightarrow> sendless os"
  by (auto simp: fail_workflow_execution_def is_send_def list_all_iff split: option.splits if_splits)

lemma pause_sendless: "pause_for_governance env x only now d = Some (d', os) \<Longrightarrow> sendless os"
  by (auto simp: pause_for_governance_def Let_def split: option.splits prod.splits if_splits
      dest!: fail_workflow_sendless settle_and_notify_sendless)

lemma reconcile_failed_sendless: "reconcile_failed env x commands failed now d = (d', os) \<Longrightarrow> sendless os"
  unfolding reconcile_failed_def Let_def
  by (auto split: prod.splits if_splits dest!: fail_workflow_sendless settle_and_notify_sendless) (simp_all add: is_send_def)

lemma reconcile_running_sendless: "reconcile_running env x commands now d = (d', os) \<Longrightarrow> sendless os"
  by (auto simp: reconcile_running_def split: if_splits dest!: settle_and_notify_sendless)

lemma reconcile_prompt_sendless: "reconcile_prompt env x commands now d = (d', os) \<Longrightarrow> sendless os"
  unfolding reconcile_prompt_def by (auto split: if_splits option.splits dest!: settle_and_notify_sendless)

lemma reconcile_sendless: "reconcile_execution env xid now d = (d', os) \<Longrightarrow> sendless os"
  unfolding reconcile_execution_def Let_def
  by (auto split: option.split_asm if_split_asm prod.split_asm
      dest!: pause_sendless reconcile_failed_sendless reconcile_running_sendless reconcile_prompt_sendless)

lemma reconcile_all_sendless: "reconcile_all env now rs d = (d', os) \<Longrightarrow> sendless os"
  by (induction env now rs d arbitrary: os rule: reconcile_all.induct) (auto simp: Let_def split: prod.splits dest: reconcile_sendless)

lemma capability_sendless: "fail_for_capability_loss env r now d = (d', os) \<Longrightarrow> sendless os"
  by (auto simp: fail_for_capability_loss_def Let_def split: prod.splits option.splits bool.splits dest: reconcile_sendless)

lemma fail_batch_sendless: "fail_batch env now rs d = (d', os) \<Longrightarrow> sendless os"
  by (induction env now rs d arbitrary: os rule: fail_batch.induct) (auto simp: Let_def split: prod.splits dest: capability_sendless)

lemma drain_sendless: "drain_runner n env runner now d = (d', os) \<Longrightarrow> sendless os"
proof (induction n env runner now d arbitrary: os rule: drain_runner.induct)
  case (2 n env runner now d)
  show ?case
  proof (cases "active_commands d (Some runner) MAX_BATCH")
    case (Cons r rs)
    obtain d1 o1 o2 where "fail_batch env now (active_commands d (Some runner) MAX_BATCH) d = (d1, o1)" "drain_runner n env runner now d1 = (d', o2)" "os = o1 @ o2"
      using "2.prems" Cons by (auto simp: Let_def split: prod.splits)
    then show ?thesis using "2.IH" Cons fail_batch_sendless by (metis list_all_append)
  qed (use "2.prems" in simp)
qed simp

text \<open>A message whose attempt is on record, or whose command is settled.\<close>

definition send_recorded :: "outbox_db \<Rightarrow> outbox_output \<Rightarrow> bool" where
  "send_recorded d out =
     (case out of
        SendCommand runner request c payload expires delivered \<Rightarrow>
          has_attempt d request c runner \<or> (case find_command d c of None \<Rightarrow> False | Some r \<Rightarrow> settled (aw_state r))
      | _ \<Rightarrow> True)"

lemma transaction_attempts: "transaction P d d' \<Longrightarrow> has_attempt d q c runner \<Longrightarrow> has_attempt d' q c runner"
  by (cases rule: transaction.cases) (auto simp: has_attempt_def)

lemma send_recorded_kept:
  assumes "transactions (event_power e) d d'" "distinct (command_ids d)" "send_recorded d out"
  shows "send_recorded d' out"
proof (cases out)
  case (SendCommand runner request c payload expires delivered)
  show ?thesis
  proof (cases "has_attempt d request c runner")
    case True
    with assms(1) have "has_attempt d' request c runner" by (induction rule: rtranclp_induct) (auto intro: transaction_attempts)
    with SendCommand show ?thesis by (simp add: send_recorded_def)
  next
    case False
    then obtain r where r: "find_command d c = Some r" "settled (aw_state r)"
      using assms(3) SendCommand by (auto simp: send_recorded_def split: option.splits)
    have "verdict_kept r r" by (simp add: verdict_kept_def same_identity_row_def)
    then obtain r' where "find_command d' c = Some r'" "verdict_kept r r'"
      using transactions_row[where R = verdict_kept, OF assms(1,2) r(1)] change_verdict verdict_kept_trans by blast
    with r(2) SendCommand show ?thesis by (simp add: send_recorded_def verdict_kept_def)
  qed
qed (simp_all add: send_recorded_def)

lemma sendless_recorded: "sendless os \<Longrightarrow> list_all (send_recorded d) os"
  by (auto simp: list_all_iff is_send_def send_recorded_def split: outbox_output.splits)

lemma mark_sent_recorded:
  assumes "mark_sent c q now next d = (d', MarkRow s)" "agrees d r" "aw_command r = c" "sendable (aw_state r)"
  shows "has_attempt d' q c (aw_runner r) \<or> (case find_command d' c of None \<Rightarrow> False | Some s \<Rightarrow> settled (aw_state s))"
proof -
  obtain s0 where s0: "find_command d c = Some s0" using assms(1) by (auto simp: mark_sent_def split: option.splits)
  then have "s0 = r \<or> settled (aw_state s0)" using assms(2,3) find_command_Some[OF s0] by (auto simp: agrees_def)
  then show ?thesis
  proof
    assume "s0 = r"
    then have "od_attempts d' = od_attempts d @ [\<lparr>at_request = q, at_command = c, at_runner = aw_runner r, at_number = aw_attempts r + 1, at_sent = now\<rparr>]"
      using assms(1,4) s0 by (auto simp: mark_sent_def Let_def split: if_splits)
    then show ?thesis by (simp add: has_attempt_def)
  next
    assume st: "settled (aw_state s0)"
    then have "\<not> sendable (aw_state s0)" using sendable_not_settled by blast
    then have "d' = d" using assms(1) s0 by (auto simp: mark_sent_def split: if_splits)
    with s0 st show ?thesis by simp
  qed
qed

lemma flush_row_recorded:
  assumes "flush_row env uuid now r d = (d', os, threw)" "agrees d r" "sendable (aw_state r)"
  shows "list_all (send_recorded d') os"
proof (cases "check_send env r")
  case SendNow
  obtain d1 ans where m: "mark_sent (aw_command r) (uuid (aw_command r)) now (now + retry_delay (aw_attempts r + 1)) d = (d1, ans)" by (metis surj_pair)
  show ?thesis
  proof (cases ans)
    case (MarkRow s)
    from mark_sent_recorded[OF m[unfolded MarkRow] assms(2) refl assms(3)] show ?thesis
      using assms(1) SendNow m MarkRow by (auto simp: flush_row_def Let_def send_recorded_def)
  qed (use assms(1) SendNow m in \<open>auto simp: flush_row_def Let_def\<close>)
next
  case CapabilityLost
  then show ?thesis using assms(1) by (auto simp: flush_row_def split: prod.splits intro!: sendless_recorded dest: capability_sendless)
next
  case (RejectWith err)
  then show ?thesis using assms(1)
    by (auto simp: flush_row_def reject_and_reconcile_def split: prod.splits intro!: sendless_recorded dest: reconcile_sendless)
qed (use assms(1) in \<open>simp_all add: flush_row_def\<close>)

lemma flush_rows_recorded:
  assumes "flush_rows env uuid now rs d = (d', os, threw)" "distinct (command_ids d)" "distinct (map aw_command rs)"
    "\<And>r. r \<in> set rs \<Longrightarrow> agrees d r \<and> sendable (aw_state r)"
  shows "list_all (send_recorded d') os"
  using assms
proof (induction env uuid now rs d arbitrary: os threw rule: flush_rows.induct)
  case (2 env uuid now r rs d)
  let ?P = "event_power (FlushAll uuid now)"
  have allows: "allows_reject ?P" by simp
  obtain d1 o1 t1 where 1: "flush_row env uuid now r d = (d1, o1, t1)" by (metis surj_pair)
  have t: "transactions ?P d d1" "settling {aw_command r} d d1"
    using flush_row_transactions[OF 1 "2.prems"(2) _ allows] "2.prems"(4) by auto
  have o1: "list_all (send_recorded d1) o1" by (rule flush_row_recorded[OF 1]) (use "2.prems"(4) in simp_all)
  show ?case
  proof (cases t1)
    case True
    with "2.prems"(1) 1 o1 show ?thesis by simp
  next
    case False
    obtain o2 t2 where 2: "flush_rows env uuid now rs d1 = (d', o2, t2)" "os = o1 @ o2"
      using "2.prems"(1) 1 False by (auto split: prod.splits)
    have i1: "distinct (command_ids d1)" by (rule transactions_ids[OF t(1) "2.prems"(2)])
    have ag: "agrees d1 s \<and> sendable (aw_state s)" if s: "s \<in> set rs" for s
    proof
      have "aw_command s \<noteq> aw_command r" using s "2.prems"(3) by (auto simp: image_iff)
      with agrees_settling[OF _ t(2)] "2.prems"(4)[of s] s show "agrees d1 s" by simp
      show "sendable (aw_state s)" using "2.prems"(4)[of s] s by simp
    qed
    have d1: "distinct (map aw_command rs)" using "2.prems"(3) by simp
    have "list_all (send_recorded d') o2" using "2.IH"[OF 1[symmetric] refl refl _ 2(1) i1 d1 ag] False by blast
    moreover have tt: "transactions ?P d1 d'" by (rule flush_rows_transactions[OF 2(1) i1 d1 _ allows]) (use ag in blast)
    have "list_all (send_recorded d') o1" using o1 send_recorded_kept[OF tt i1] unfolding list_all_iff by blast
    ultimately show ?thesis using 2(2) by simp
  qed
qed simp

text \<open>C14: every message a pass writes to a runner has its attempt on record, under the request id it carries,
  by the time it is written; the exception is a command settled earlier in the same pass.\<close>

theorem sends_are_recorded:
  assumes "distinct (command_ids d)"
  shows "case outbox_flush env uuid now runner d of (d', os, threw) \<Rightarrow> list_all (send_recorded d') os"
proof -
  obtain d1 o1 where 1: "(if drains env runner then drain_runner (Suc (length (od_commands d))) env (the runner) now d else (d, [])) = (d1, o1)"
    by (metis surj_pair)
  obtain d2 expired where 2: "expire_commands now MAX_BATCH d1 = (d2, expired)" by (metis surj_pair)
  obtain d3 o3 where 3: "reconcile_all env now expired d2 = (d3, o3)" by (metis surj_pair)
  obtain d4 o4 threw where 4: "flush_rows env uuid now (due_commands d3 now runner MAX_BATCH) d3 = (d4, o4, threw)" by (metis surj_pair)
  have i1: "distinct (command_ids d1)" using 1 drain_quiet[OF _ assms, of _ env _ now d1 o1 no_power] quiet_ids[OF _ assms]
    by (auto simp del: drain_runner.simps split: if_splits simp: assms)
  have i2: "distinct (command_ids d2)" using expire_transactions[OF i1, of no_power now MAX_BATCH "{}"] 2 transactions_ids[OF _ i1] by auto
  have i3: "distinct (command_ids d3)" by (rule quiet_ids[OF reconcile_all_quiet[OF 3 i2] i2])
  have "list_all (send_recorded d4) o4"
  proof (rule flush_rows_recorded[OF 4 i3])
    show "distinct (map aw_command (due_commands d3 now runner MAX_BATCH))"
      unfolding due_commands_def by (rule distinct_ids_take[OF distinct_ids_sub[OF i3]])
    show "agrees d3 r \<and> sendable (aw_state r)" if "r \<in> set (due_commands d3 now runner MAX_BATCH)" for r
      using that by (auto simp: due_commands_def is_due_def dest!: in_set_takeD intro: agrees_self[OF i3])
  qed
  moreover have "sendless o1" using 1 drain_sendless by (auto simp del: drain_runner.simps split: if_splits)
  moreover have "sendless o3" by (rule reconcile_all_sendless[OF 3])
  ultimately show ?thesis using 1 2 3 4 sendless_recorded by (simp add: outbox_flush_def)
qed

section \<open>What reconciling does to rows already read\<close>

text \<open>
  Two commands of one workflow are due. The first runs on a retired driver and is rejected; reconciling
  fails the workflow, rejects the second as never sent and cancels its session. The pass then sends the
  second all the same, with no attempt on record.
\<close>

lemma rejected_sibling_is_sent:
  "case outbox_flush sample_outbox_env id 10 None sample_due of (d, os, threw) \<Rightarrow>
     map_option aw_state (find_command d ''b'') = Some Rejected \<and> od_attempts d = [] \<and> length os = 4 \<and>
     CancelCommandSession ''r'' ''sb'' = os ! 1 \<and> SendCommand ''r'' ''b'' ''b'' ''B'' (Some 1000) True = last os"
  by code_simp

text \<open>A started command on the retired driver is called rejected, and its session a launch that never was.\<close>

lemma started_command_is_rejected:
  "case outbox_flush sample_outbox_env id 10 None sample_started of (d, os, threw) \<Rightarrow>
     map_option aw_state (find_command d ''a'') = Some Rejected \<and> LaunchStopped ''sa'' \<in> set os"
  by code_simp

lemma scrub_rejects_a_sent_command:
  "aw_state r = Sent \<Longrightarrow> aw_state (scrubbed_row now r) = Rejected \<and> terminal_verdict (aw_state r) = Uncertain"
  by (simp add: scrubbed_row_def Let_def scrub_state_def terminal_verdict_def maybe_accepted_def)

theorem draining_a_runner_ends_witness:
  "active_commands (fst (drain_runner (Suc (length (od_commands sample_due))) sample_outbox_env ''r'' 10 sample_due)) (Some ''r'') MAX_BATCH = [] \<and>
   length (active_commands sample_due (Some ''r'') MAX_BATCH) = 2"
proof -
  have "distinct (command_ids sample_due)" by code_simp
  from draining_a_runner_ends[OF this] show ?thesis by (rule conjI) code_simp
qed

theorem sends_are_recorded_witness:
  "case outbox_flush sample_outbox_env id 10 (Some ''r'') sample_due of (d', os, threw) \<Rightarrow> list_all (send_recorded d') os \<and> list_ex is_send os"
proof -
  have "distinct (command_ids sample_due)" by code_simp
  moreover have "list_ex is_send (fst (snd (outbox_flush sample_outbox_env id 10 (Some ''r'') sample_due)))" by code_simp
  ultimately show ?thesis using sends_are_recorded[of sample_due sample_outbox_env id 10 "Some ''r''"] by auto
qed

end
