(* ===== verification/Command_Delivery.thy ===== *)
theory Command_Delivery
  imports Durable_Submissions Outbox_Verdicts
begin

text \<open>
  A control plane's outbox and one runner's journal together: the messages by which a runner answers a
  durable command (\<open>apps/runner/src/index.ts\<close>, \<open>apps/runner/src/reconnect-republish.ts\<close>) and what they
  make of the control plane's table.

  The state is the control plane's tables, the runner's journal and every message the runner has posted.
  The connection may lose, delay, repeat and reorder them: the control plane takes in any message posted
  so far, any number of times, and from other runners any message at all.
\<close>

section \<open>The runner's messages\<close>

definition state_text :: "command_state \<Rightarrow> string" where
  "state_text s =
     (case s of CAccepted \<Rightarrow> ''accepted'' | CQueued \<Rightarrow> ''queued'' | CStarted \<Rightarrow> ''started'' | CCompleted \<Rightarrow> ''completed''
      | CFailed \<Rightarrow> ''failed'' | CUncertain \<Rightarrow> ''uncertain'')"

definition code_text :: "command_code \<Rightarrow> string" where
  "code_text c =
     (case c of
        CommandIdConflict \<Rightarrow> ''COMMAND_ID_CONFLICT'' | CommandExpired \<Rightarrow> ''COMMAND_EXPIRED'' | InvalidCommand \<Rightarrow> ''INVALID_COMMAND''
      | SessionNotFound \<Rightarrow> ''SESSION_NOT_FOUND'' | QueueFull \<Rightarrow> ''QUEUE_FULL'' | CommandCancelled \<Rightarrow> ''COMMAND_CANCELLED''
      | ProviderAuthenticationRequired \<Rightarrow> ''PROVIDER_AUTHENTICATION_REQUIRED''
      | WorktreeRecoveryRequired \<Rightarrow> ''WORKTREE_RECOVERY_REQUIRED'' | ReceiptStoreFull \<Rightarrow> ''RECEIPT_STORE_FULL'')"

definition error_fields :: "command_receipt \<Rightarrow> jobject" where
  "error_fields r =
     (if truthy (rc_error r) then [(''error'', JStr (the (rc_error r)))] else []) @
     (case rc_code r of None \<Rightarrow> [] | Some c \<Rightarrow> [(''code'', JStr (code_text c))])"

definition durable_update_message :: "command_receipt \<Rightarrow> json" where
  "durable_update_message r =
     JObj ([(''type'', JStr ''durable_session_command_update''), (''commandId'', JStr (rc_command r)), (''sessionId'', JStr (rc_session r)),
        (''state'', JStr (state_text (rc_state r))), (''revision'', JNum (of_int (rc_revision r)))] @ error_fields r @
        (case rc_user_seq r of None \<Rightarrow> [] | Some n \<Rightarrow> [(''userEventSeq'', JNum (of_int n))]))"

definition command_result_message :: "string \<Rightarrow> command_receipt \<Rightarrow> json" where
  "command_result_message request r =
     JObj ([(''type'', JStr ''durable_session_command_result''), (''requestId'', JStr request), (''commandId'', JStr (rc_command r)),
        (''sessionId'', JStr (rc_session r)), (''state'', JStr (state_text (rc_state r))), (''revision'', JNum (of_int (rc_revision r))),
        (''duplicate'', JBool (rc_duplicate r))] @ error_fields r)"

text \<open>The answer to a command: none while another process holds the journal, or when the journal failed.\<close>

definition claim_reply :: "string \<Rightarrow> claim_answer \<Rightarrow> json list" where
  "claim_reply request ans =
     (case ans of
        ClaimNew r h \<Rightarrow> [command_result_message request r]
      | ClaimReclaimed r h \<Rightarrow> [command_result_message request r]
      | ClaimDuplicate r \<Rightarrow> [command_result_message request r]
      | ClaimConflict r \<Rightarrow> [command_result_message request r]
      | ClaimBusy \<Rightarrow> []
      | ClaimThrew \<Rightarrow> [])"

text \<open>\<open>durableLifecycle\<close>: what a change of the handle's record posts.\<close>

definition lifecycle_update :: "command_record \<Rightarrow> handle_answer \<Rightarrow> json list" where
  "lifecycle_update current ans =
     (case ans of
        HReceipt r \<Rightarrow> [durable_update_message r]
      | HPrepared True \<Rightarrow> []
      | HPrepared False \<Rightarrow> [durable_update_message (receipt_of current False)]
      | HThrew e \<Rightarrow> [])"

text \<open>What an event of the runner posts, \<open>j\<close> being the journal after it.\<close>

fun posts :: "command_env \<Rightarrow> command_event \<Rightarrow> command_journal \<Rightarrow> command_output list \<Rightarrow> json list" where
  "posts env (Claim p now v io) j os =
     (if is_durable_session_command_message env v
      then concat (map (\<lambda>out. case out of Answered c ans \<Rightarrow> claim_reply (string_field v ''requestId'') ans | _ \<Rightarrow> []) os) else [])"
| "posts env (HandleOp p h now io a) j os =
     concat (map (\<lambda>out. case out of OpAnswered ans \<Rightarrow> lifecycle_update (cp_handles (the_process j p) ! h) ans | _ \<Rightarrow> []) os)"
| "posts env _ j os = []"

section \<open>The two sides together\<close>

record delivery =
  dl_tables :: outbox_db
  dl_journal :: command_journal
  dl_posted :: "json list"

text \<open>\<open>RepublishOne\<close> is one key of a paced reconnect, \<open>RepublishAll\<close> the reconnect of an older peer.\<close>

datatype delivery_event =
    AtControlPlane outbox_event
  | AtRunner command_event
  | RepublishOne string int
  | RepublishAll "string \<Rightarrow> string \<Rightarrow> bool" int

definition deliverable :: "string \<Rightarrow> json list \<Rightarrow> outbox_event \<Rightarrow> bool" where
  "deliverable runner posted e = (case e of TakeReceipt uuid q m now \<Rightarrow> q = runner \<longrightarrow> m \<in> set posted | _ \<Rightarrow> True)"

definition delivery_step :: "outbox_env \<Rightarrow> command_env \<Rightarrow> string \<Rightarrow> delivery \<Rightarrow> delivery_event \<Rightarrow> delivery" where
  "delivery_step oenv cenv runner s ev =
     (case ev of
        AtControlPlane e \<Rightarrow>
          if deliverable runner (dl_posted s) e then s\<lparr>dl_tables := fst (outbox_step oenv (dl_tables s) e)\<rparr> else s
      | AtRunner e \<Rightarrow>
          (let (j, os) = command_step cenv (dl_journal s) e in s\<lparr>dl_journal := j, dl_posted := dl_posted s @ posts cenv e j os\<rparr>)
      | RepublishOne c now \<Rightarrow>
          (case recent_update (dl_journal s) c now of
             None \<Rightarrow> s
           | Some r \<Rightarrow> s\<lparr>dl_posted := dl_posted s @ [durable_update_message r]\<rparr>)
      | RepublishAll le now \<Rightarrow> s\<lparr>dl_posted := dl_posted s @ map durable_update_message (recent_updates le now (dl_journal s))\<rparr>)"

definition run_delivery :: "outbox_env \<Rightarrow> command_env \<Rightarrow> string \<Rightarrow> delivery \<Rightarrow> delivery_event list \<Rightarrow> delivery" where
  "run_delivery oenv cenv runner s evs = foldl (delivery_step oenv cenv runner) s evs"

definition runner_events :: "delivery_event list \<Rightarrow> command_event list" where
  "runner_events evs = concat (map (\<lambda>ev. case ev of AtRunner e \<Rightarrow> [e] | _ \<Rightarrow> []) evs)"

definition runner_clock :: "int \<Rightarrow> delivery_event list \<Rightarrow> int" where
  "runner_clock t evs = foldl event_clock t (runner_events evs)"

definition new_delivery :: "outbox_db \<Rightarrow> delivery" where
  "new_delivery d = \<lparr>dl_tables = d\<lparr>od_commands := []\<rparr>, dl_journal = empty_journal, dl_posted = []\<rparr>"

section \<open>What a message says\<close>

definition stored_state :: "command_state \<Rightarrow> automation_state" where
  "stored_state s = (case s of CAccepted \<Rightarrow> Accepted | CQueued \<Rightarrow> Accepted | CStarted \<Rightarrow> Started | CCompleted \<Rightarrow> Completed
     | CFailed \<Rightarrow> Rejected | CUncertain \<Rightarrow> Uncertain)"

lemma receipt_state_text: "receipt_state (Some (JStr (state_text s))) = Some (stored_state s)"
  by (cases s) (simp_all add: state_text_def receipt_state_def stored_state_def)

lemma receipt_code_text: "receipt_code (Some (JStr (code_text c))) = Some c"
  by (cases c) (simp_all add: code_text_def receipt_code_def)

text \<open>A message that carries a receipt's command, state and revision.\<close>

definition says :: "json \<Rightarrow> command_receipt \<Rightarrow> bool" where
  "says m r \<longleftrightarrow> jprop (Some m) ''commandId'' = Some (JStr (rc_command r)) \<and>
     jprop (Some m) ''state'' = Some (JStr (state_text (rc_state r))) \<and> jprop (Some m) ''revision'' = Some (JNum (of_int (rc_revision r)))"

lemma says_update: "says (durable_update_message r) r"
  by (simp add: says_def durable_update_message_def)

lemma says_result: "says (command_result_message request r) r"
  by (simp add: says_def command_result_message_def)

lemma says_input:
  assumes "says m r"
  shows "ri_command (receipt_input_of runner m) = rc_command r" "ri_state (receipt_input_of runner m) = stored_state (rc_state r)"
    "ri_revision (receipt_input_of runner m) = rc_revision r"
  using assms by (simp_all add: says_def receipt_input_of_def string_field_def receipt_state_text)

section \<open>Every receipt is drawn from the journal\<close>

text \<open>A receipt of the record on disk, or the failure of a message that never became one.\<close>

definition drawn :: "(string \<times> record_file) list \<Rightarrow> command_receipt \<Rightarrow> bool" where
  "drawn fs rc \<longleftrightarrow> (rc_revision rc = 0 \<and> rc_state rc = CFailed) \<or>
     (\<exists>q. map_of fs (rc_command rc) = Some (Stored q) \<and> rc_revision rc = cr_revision q \<and>
        (rc_state rc = CCompleted \<longrightarrow> cr_state q = CCompleted))"

lemma drawn_failed: "drawn fs (failed_receipt v code error)"
  by (simp add: drawn_def failed_receipt_def)

lemma drawn_receipt: "map_of fs (cr_command q) = Some (Stored q) \<Longrightarrow> drawn fs (receipt_of q b)"
  by (auto simp: drawn_def receipt_of_def)

lemma drawn_conflict:
  "map_of fs (cr_command q) = Some (Stored q) \<Longrightarrow> drawn fs ((receipt_of q b)\<lparr>rc_state := CFailed, rc_error := e, rc_code := c\<rparr>)"
  by (auto simp: drawn_def receipt_of_def)

lemma read_stored: "keyed (cj_files j) \<Longrightarrow> read_command j cid = Some r \<Longrightarrow> map_of (cj_files j) (cr_command r) = Some (Stored r) \<and> cr_command r = cid"
  using read_command_Some by (force simp: keyed_def)

lemma moved_stored: "keyed fs \<Longrightarrow> moved p prior st pa own now fs fs' cur r \<Longrightarrow> map_of fs' (cr_command r) = Some (Stored r)"
  by (auto simp: moved_def update_conv')

lemma moves_stored: "keyed (cj_files j) \<Longrightarrow> moves_to p prior st pa own now j j' (Inr r) \<Longrightarrow> map_of (cj_files j') (cr_command r) = Some (Stored r)"
  by (auto simp: moves_to_def dest: moved_stored)

fun answer_receipt :: "claim_answer \<Rightarrow> command_receipt option" where
  "answer_receipt (ClaimNew r h) = Some r"
| "answer_receipt (ClaimReclaimed r h) = Some r"
| "answer_receipt (ClaimDuplicate r) = Some r"
| "answer_receipt (ClaimConflict r) = Some r"
| "answer_receipt _ = None"

lemma claim_reply_receipt: "m \<in> set (claim_reply request ans) \<Longrightarrow> \<exists>rc. answer_receipt ans = Some rc \<and> m = command_result_message request rc"
  by (cases ans) (simp_all add: claim_reply_def)

lemma take_over_drawn:
  assumes "take_over p now w error existing j = (j', ans)" "keyed (cj_files j)" "answer_receipt ans = Some rc"
  shows "drawn (cj_files j') rc"
proof -
  have t: "map_of (cj_files j1) (cr_command r) = Some (Stored r)" if "transition_locked p now existing st pa True w j = (j1, Inr r)" for st pa j1 r
    using moves_stored[OF assms(2) transition_locked_moves[OF that]] .
  have n: "cj_files j2 = cj_files j1" if "new_handle p r j1 = (j2, h)" for r j1 j2 h using new_handle_handles[OF that] by simp
  show ?thesis using assms(1,3)
    by (auto simp: take_over_def split: if_splits prod.splits sum.splits dest!: t n intro!: drawn_receipt)
qed

lemma claim_existing_drawn:
  assumes "claim_existing env p now io r existing j = (j', ans)" "keyed (cj_files j)" "read_command j cid = Some existing"
    "answer_receipt ans = Some rc"
  shows "drawn (cj_files j') rc"
proof -
  have e: "map_of (cj_files j) (cr_command existing) = Some (Stored existing)" using read_stored[OF assms(2,3)] by (rule conjunct1)
  show ?thesis using assms(1,4) assms(2) drawn_receipt[OF e, of True]
      drawn_conflict[OF e, where b = True and e = "Some ''command id is already bound to a different payload''" and c = "Some CommandIdConflict"]
    by (auto simp: claim_existing_def split: if_splits intro: take_over_drawn)
qed

lemma claim_new_drawn:
  assumes "claim_new env p now v io r j = (j', ans)" "answer_receipt ans = Some rc"
  shows "drawn (cj_files j') rc"
proof -
  have n: "cj_files j2 = cj_files j1" if "new_handle p r j1 = (j2, h)" for j1 j2 h using new_handle_handles[OF that] by simp
  obtain j1 b where j1: "(if length (cj_files j) \<ge> ce_max_receipts env then prune_commands now (ci_prune io) j else (j, True)) = (j1, b)"
    by (metis surj_pair)
  show ?thesis using assms j1
    by (auto simp: claim_new_def Let_def update_conv' split: if_splits prod.splits dest!: n intro!: drawn_failed drawn_receipt)
qed

lemma claim_drawn:
  assumes res: "claim_command env p now v io j = (j', ans)" and k: "keyed (cj_files j)" and rc: "answer_receipt ans = Some rc"
  shows "drawn (cj_files j') rc"
proof -
  obtain j1 b where hb: "heartbeat_owner now p (ci_lease io) j = (j1, b)" by (metis surj_pair)
  obtain j2 lres where l: "with_command_lock env now p (cm_command_id (envelope v)) (ci_lock io) (claim_body env p now v io) j1 = (j2, lres)"
    by (metis surj_pair)
  have body: "drawn (cj_files j3) rc" if "claim_body env p now v io j0 = (j3, ans)" "cj_files j0 = cj_files j" for j0 j3
  proof -
    have k0: "keyed (cj_files j0)" using k that(2) by simp
    show ?thesis using that(1) rc
      by (auto simp: claim_body_def Let_def split: option.splits if_splits intro: drawn_failed claim_new_drawn claim_existing_drawn[OF _ k0])
  qed
  show ?thesis
  proof (cases "validate_message env now v = None \<and> durable_command_payload_digest env (cm_command (envelope v)) = cm_digest (envelope v) \<and> b")
    case False
    then show ?thesis using res rc hb by (auto simp: claim_command_def split: option.splits if_splits intro: drawn_failed)
  next
    case True
    from l show ?thesis
    proof (cases rule: locked_cases)
      case 1
      then show ?thesis using res rc hb l True by (auto simp: claim_command_def)
    next
      case (2 ks a)
      then have "j' = j2" "a = ans" using res hb l True by (auto simp: claim_command_def)
      with body[of "j1\<lparr>cj_locks := ks\<rparr>" j2] 2(2) heartbeat_same[OF hb] show ?thesis by simp
    qed
  qed
qed

lemma transition_stored:
  "keyed (cj_files j) \<Longrightarrow> transition env p now l prior st pa w j = (j', Inr r) \<Longrightarrow> map_of (cj_files j') (cr_command r) = Some (Stored r)"
  using moves_stored[OF _ transition_moves] .

lemma nonterminal_stored:
  assumes "handle_nonterminal p h r (transition env p now l prior st pa w j) = (j', HReceipt rc)" "keyed (cj_files j)"
  shows "\<exists>q. rc = receipt_of q False \<and> map_of (cj_files j') (cr_command q) = Some (Stored q)"
proof -
  obtain j1 res where t: "transition env p now l prior st pa w j = (j1, res)" by (metis surj_pair)
  show ?thesis using assms(1) t transition_stored[OF assms(2)] by (cases res) (auto simp: handle_nonterminal_def)
qed

lemma terminal_stored:
  assumes "handle_terminal p h r (transition env p now l prior st pa w j) = (j', HReceipt rc)" "keyed (cj_files j)"
  shows "\<exists>q. rc = receipt_of q False \<and> map_of (cj_files j') (cr_command q) = Some (Stored q)"
proof -
  obtain j1 res where t: "transition env p now l prior st pa w j = (j1, res)" by (metis surj_pair)
  show ?thesis using assms(1) t transition_stored[OF assms(2)] by (cases res) (auto simp: handle_terminal_def)
qed

lemma handle_answers: "handle_nonterminal p h r res = (j', HPrepared b) \<longleftrightarrow> False" "handle_terminal p h r res = (j', HPrepared b) \<longleftrightarrow> False"
  by (auto simp: handle_nonterminal_def handle_terminal_def split: prod.splits sum.splits)

lemma nonterminal_handles:
  assumes "handle_nonterminal p h r (transition env p now l prior st pa w j) = (j', HThrew e)"
  shows "handles j' = handles j" and "keyed (cj_files j) \<Longrightarrow> keyed (cj_files j')"
proof -
  obtain j1 res where t: "transition env p now l prior st pa w j = (j1, res)" by (metis surj_pair)
  show "handles j' = handles j" using assms t transition_moves[OF t] by (cases res) (auto simp: handle_nonterminal_def moves_to_def)
  show "keyed (cj_files j')" if "keyed (cj_files j)"
    using keyed_rewritten[OF that after_transition(1)[OF that]] assms by (metis fst_conv)
qed

text \<open>\<open>handle.current\<close> after a refused steering is the record it was reset to.\<close>

lemma refused_steering_stored:
  assumes "begin_steering env p h now io r j = (j', HPrepared False)" "keyed (cj_files j)" "h < length (handles j p)"
  shows "map_of (cj_files j') (cr_command (handles j' p ! h)) = Some (Stored (handles j' p ! h))"
proof -
  let ?n = "handle_nonterminal p h r (transition env p now (oi_lock io) r CStarted (no_patch\<lparr>pa_steering := Some True\<rparr>) (oi_write io) j)"
  obtain j1 e where n: "?n = (j1, HThrew e)" using assms(1)
    by (auto simp: begin_steering_def split: if_splits prod.splits handle_answer.splits)
  note h1 = nonterminal_handles(1)[OF n] and k1 = nonterminal_handles(2)[OF n assms(2)]
  obtain j2 q where rc: "recover_unsubmitted_steering env p now (oi_recover_lock io) r (oi_recover_write io) j1 = (j2, Some q)"
    and j': "j' = activate_handle p (cr_command q) h (set_handle p h q j2)"
    using assms(1) n by (auto simp: begin_steering_def split: if_splits prod.splits option.splits)
  obtain cur res' where "moves_to p cur CQueued (no_patch\<lparr>pa_steering := Some False\<rparr>) False now j1 j2 res'"
    "Some q = (case res' of Inl e \<Rightarrow> None | Inr r \<Rightarrow> Some r)" using recover_moves[OF rc] by blast
  then have "moves_to p cur CQueued (no_patch\<lparr>pa_steering := Some False\<rparr>) False now j1 j2 (Inr q)" by (cases res') auto
  then have "map_of (cj_files j2) (cr_command q) = Some (Stored q)" "handles j2 = handles j1"
    using moves_stored[OF k1] by (blast, simp add: moves_to_def)
  then show ?thesis using j' h1 assms(3) by simp
qed

lemma handle_op_drawn:
  assumes res: "handle_op env p h now io a j = (j', ans)" and k: "keyed (cj_files j)" and h: "h < length (handles j p)"
    and m: "m \<in> set (lifecycle_update (cp_handles (the_process j' p) ! h) ans)"
  shows "\<exists>rc. m = durable_update_message rc \<and> drawn (cj_files j') rc"
proof (cases ans)
  case (HReceipt rc)
  have "\<exists>q. rc = receipt_of q False \<and> map_of (cj_files j') (cr_command q) = Some (Stored q)"
  proof (cases a)
    case OpBeginSteering
    then show ?thesis using res HReceipt
      by (auto simp: handle_op_def begin_steering_def Let_def split: if_splits prod.splits handle_answer.splits option.splits)
  qed (use res HReceipt k nonterminal_stored terminal_stored in \<open>auto simp: handle_op_def Let_def split: if_splits\<close>)
  with m HReceipt show ?thesis by (auto simp: lifecycle_update_def intro: drawn_receipt)
next
  case (HPrepared b)
  then have "\<not> b" using m by (auto simp: lifecycle_update_def)
  have "a = OpBeginSteering" using res HPrepared
    by (cases a) (simp_all add: handle_op_def Let_def handle_answers split: if_splits)
  then have "begin_steering env p h now io (cp_handles (the_process j p) ! h) j = (j', HPrepared False)"
    using res HPrepared \<open>\<not> b\<close> by (simp add: handle_op_def Let_def)
  from refused_steering_stored[OF this k h] m HPrepared \<open>\<not> b\<close> show ?thesis
    by (auto simp: lifecycle_update_def handles_def intro: drawn_receipt)
qed (use m in \<open>simp add: lifecycle_update_def\<close>)

text \<open>So is whatever an event of the runner posts, and whatever a reconnect republishes.\<close>

lemma posts_drawn:
  assumes st: "command_step env j e = (j', os)" and k: "keyed (cj_files j)" and m: "m \<in> set (posts env e j' os)"
  shows "\<exists>rc. says m rc \<and> drawn (cj_files j') rc"
proof (cases e)
  case (Claim p now v io)
  then obtain c ans where o: "Answered c ans \<in> set os" "m \<in> set (claim_reply (string_field v ''requestId'') ans)"
    using m by (auto split: if_splits command_output.splits)
  then obtain rc where rc: "answer_receipt ans = Some rc" "m = command_result_message (string_field v ''requestId'') rc"
    using claim_reply_receipt by blast
  have "claim_command env p now v io j = (j', ans)" using st o(1) Claim by (auto split: if_splits prod.splits)
  from claim_drawn[OF this k rc(1)] rc(2) says_result show ?thesis by blast
next
  case (HandleOp p h now io a)
  then obtain ans where o: "OpAnswered ans \<in> set os" "m \<in> set (lifecycle_update (cp_handles (the_process j' p) ! h) ans)"
    using m by (auto split: command_output.splits)
  have "handle_op env p h now io a j = (j', ans)" "h < length (handles j p)"
    using st o(1) HandleOp by (auto simp: Let_def handles_def split: if_splits prod.splits)
  from handle_op_drawn[OF this(1) k this(2) o(2)] says_update show ?thesis by blast
qed (use m in simp_all)

lemma republished_drawn:
  assumes k: "keyed (cj_files j)" and d: "distinct (map fst (cj_files j))"
  shows "recent_update j c now = Some r \<Longrightarrow> drawn (cj_files j) r" "r \<in> set (recent_updates le now j) \<Longrightarrow> drawn (cj_files j) r"
proof -
  show "drawn (cj_files j) r" if "recent_update j c now = Some r"
    using that read_stored[OF k] by (auto simp: recent_update_def split: option.splits if_splits intro: drawn_receipt)
  assume "r \<in> set (recent_updates le now j)"
  then obtain q where q: "q \<in> set (recent_records now j)" "r = receipt_of q True" by (auto simp: recent_updates_def)
  then obtain cid where "(cid, Stored q) \<in> set (cj_files j)"
    by (auto simp: recent_records_def split: record_file.splits if_splits)
  then have "map_of (cj_files j) cid = Some (Stored q)" using d by simp
  with k q(2) show "drawn (cj_files j) r" by (auto simp: keyed_def intro: drawn_receipt)
qed

section \<open>The two sides stay linked\<close>

definition finished :: "(string \<Rightarrow> rat) \<Rightarrow> int \<Rightarrow> (string \<times> record_file) list \<Rightarrow> string \<Rightarrow> bool" where
  "finished D t fs c \<longleftrightarrow> kept D t c (\<lambda>q. cr_state q = CCompleted) fs"

definition reached :: "(string \<Rightarrow> rat) \<Rightarrow> int \<Rightarrow> (string \<times> record_file) list \<Rightarrow> string \<Rightarrow> int \<Rightarrow> bool" where
  "reached D t fs c n \<longleftrightarrow> kept D t c (\<lambda>q. n \<le> cr_revision q) fs"

text \<open>What the journal still shows of a receipt, and of a row of the table.\<close>

definition receipt_backed :: "(string \<Rightarrow> rat) \<Rightarrow> int \<Rightarrow> (string \<times> record_file) list \<Rightarrow> command_receipt \<Rightarrow> bool" where
  "receipt_backed D t fs rc \<longleftrightarrow> (rc_revision rc = 0 \<and> rc_state rc = CFailed) \<or>
     (reached D t fs (rc_command rc) (rc_revision rc) \<and> (rc_state rc = CCompleted \<longrightarrow> finished D t fs (rc_command rc)))"

definition row_backed :: "(string \<Rightarrow> rat) \<Rightarrow> int \<Rightarrow> (string \<times> record_file) list \<Rightarrow> command_row \<Rightarrow> bool" where
  "row_backed D t fs r \<longleftrightarrow> (aw_state r = Completed \<longrightarrow> finished D t fs (aw_command r)) \<and>
     (\<not> settled (aw_state r) \<longrightarrow> aw_revision r = 0 \<or> reached D t fs (aw_command r) (aw_revision r))"

definition linked :: "string \<Rightarrow> (string \<Rightarrow> rat) \<Rightarrow> int \<Rightarrow> delivery \<Rightarrow> bool" where
  "linked runner D t s \<longleftrightarrow>
     (\<exists>opened. sound D t opened (cj_files (dl_journal s)) (handles (dl_journal s))) \<and>
     (\<forall>m\<in>set (dl_posted s). \<exists>rc. says m rc \<and> receipt_backed D t (cj_files (dl_journal s)) rc) \<and>
     rows_ok (\<lambda>r. aw_runner r = runner \<longrightarrow> row_backed D t (cj_files (dl_journal s)) r) (dl_tables s)"

lemma drawn_backed: "drawn fs rc \<Longrightarrow> sound D t opened fs H \<Longrightarrow> receipt_backed D t fs rc"
  by (auto simp: drawn_def receipt_backed_def finished_def reached_def kept_def file_sound_def dest: sound_file)

lemma backed_after:
  assumes s: "sound D t opened (cj_files j) (handles j)" and o: "ordered_events D env t (e # es)"
  shows "finished D t (cj_files j) c \<Longrightarrow> finished D (event_clock t e) (cj_files (fst (command_step env j e))) c"
    "reached D t (cj_files j) c n \<Longrightarrow> reached D (event_clock t e) (cj_files (fst (command_step env j e))) c n"
proof -
  show "finished D (event_clock t e) (cj_files (fst (command_step env j e))) c" if "finished D t (cj_files j) c"
    using step_kept[OF s o that[unfolded finished_def]] by (simp add: finished_def advances_def is_terminal_def)
  show "reached D (event_clock t e) (cj_files (fst (command_step env j e))) c n" if "reached D t (cj_files j) c n"
    using step_kept[OF s o that[unfolded reached_def]] by (simp add: reached_def advances_def)
qed

lemma runner_keeps_linked:
  assumes l: "linked runner D t s" and o: "ordered_events D cenv t (e # es)"
  shows "linked runner D (event_clock t e) (delivery_step oenv cenv runner s (AtRunner e))"
proof -
  obtain j' os where st: "command_step cenv (dl_journal s) e = (j', os)" by (metis surj_pair)
  obtain opened where s: "sound D t opened (cj_files (dl_journal s)) (handles (dl_journal s))" using l by (auto simp: linked_def)
  obtain opened' where s': "sound D (event_clock t e) opened' (cj_files j') (handles j')"
    using command_step_sound[OF s o] st by auto
  note after = backed_after[OF s o, unfolded st fst_conv]
  have rc: "receipt_backed D t (cj_files (dl_journal s)) rc \<Longrightarrow> receipt_backed D (event_clock t e) (cj_files j') rc" for rc
    using after by (auto simp: receipt_backed_def)
  have row: "row_backed D t (cj_files (dl_journal s)) r \<Longrightarrow> row_backed D (event_clock t e) (cj_files j') r" for r
    using after by (auto simp: row_backed_def)
  have "\<exists>rc. says m rc \<and> receipt_backed D (event_clock t e) (cj_files j') rc" if "m \<in> set (posts cenv e j' os)" for m
    using posts_drawn[OF st sound_keyed[OF s] that] drawn_backed[OF _ s'] by blast
  moreover have "\<exists>rc. says m rc \<and> receipt_backed D (event_clock t e) (cj_files j') rc" if "m \<in> set (dl_posted s)" for m
    using l that rc unfolding linked_def by blast
  moreover have "rows_ok (\<lambda>r. aw_runner r = runner \<longrightarrow> row_backed D (event_clock t e) (cj_files j') r) (dl_tables s)"
    using l row by (auto simp: linked_def rows_ok_def list_all_iff)
  ultimately show ?thesis using s' by (auto simp: linked_def delivery_step_def st)
qed

lemma republish_keeps_linked:
  assumes l: "linked runner D t s"
  shows "linked runner D t (delivery_step oenv cenv runner s (RepublishOne c now))"
    "linked runner D t (delivery_step oenv cenv runner s (RepublishAll le now))"
proof -
  obtain opened where s: "sound D t opened (cj_files (dl_journal s)) (handles (dl_journal s))" using l by (auto simp: linked_def)
  have d: "distinct (map fst (cj_files (dl_journal s)))" using s by (simp add: sound_def)
  have "\<exists>rc. says (durable_update_message r) rc \<and> receipt_backed D t (cj_files (dl_journal s)) rc"
    if "drawn (cj_files (dl_journal s)) r" for r
    using says_update drawn_backed[OF that s] by blast
  note backing = this[OF republished_drawn(1)[OF sound_keyed[OF s] d]] this[OF republished_drawn(2)[OF sound_keyed[OF s] d]]
  show "linked runner D t (delivery_step oenv cenv runner s (RepublishOne c now))"
    using l backing(1) by (auto simp: linked_def delivery_step_def split: option.split)
  show "linked runner D t (delivery_step oenv cenv runner s (RepublishAll le now))"
    using l backing(2) by (auto simp: linked_def delivery_step_def)
qed

text \<open>At the control plane only a receipt of this runner can complete its row or raise its revision.\<close>

lemma change_backed:
  assumes ch: "row_change (event_power e) d es a b" and a: "aw_runner a = runner \<longrightarrow> row_backed D t fs a"
    and del: "deliverable runner posted e" and posted: "\<And>m. m \<in> set posted \<Longrightarrow> \<exists>rc. says m rc \<and> receipt_backed D t fs rc"
  shows "aw_runner b = runner \<longrightarrow> row_backed D t fs b"
proof
  assume "aw_runner b = runner"
  moreover have id: "same_identity_row a b" using change_verdict[OF ch] by (simp add: verdict_kept_def)
  ultimately have ra: "aw_runner a = runner" "row_backed D t fs a" and c: "aw_command b = aw_command a"
    using a by (simp_all add: same_identity_row_def)
  from ch consider "own_step a b" | "event_power e d a b" by (auto simp: row_change_def)
  then show "row_backed D t fs b"
  proof cases
    case 1
    then show ?thesis using ra(2)
      by (cases rule: own_step.cases) (auto simp: row_backed_def row_defs terminal_verdict_def settled_def marked_state_def sendable_def)
  next
    case 2
    then show ?thesis
    proof (cases rule: power_cases)
      case 1
      then have "aw_state b = Rejected" by (auto simp: reject_step_def)
      then show ?thesis by (simp add: row_backed_def settled_def)
    next
      case (2 uuid q m now)
      let ?i = "receipt_input_of q m"
      have i: "aw_command a = ri_command ?i" "aw_runner a = q" using 2(3) by (simp_all add: runner_step_def receipt_input_of_def)
      then have "m \<in> set posted" using del 2(1) ra(1) by (simp add: deliverable_def)
      then obtain rc where rc: "says m rc" "receipt_backed D t fs rc" using posted by blast
      note in_rc = says_input[OF rc(1), of q]
      have "(\<exists>now. b = receipted_row ?i now a) \<or> aw_state b = Rejected"
        using 2(3) by (auto simp: runner_step_def replaced_row_def)
      then show ?thesis
      proof
        assume "\<exists>now. b = receipted_row ?i now a"
        then have "aw_state b = stored_state (rc_state rc)" "aw_revision b = rc_revision rc" using in_rc by auto
        then show ?thesis using rc(2) c i(1) in_rc(1)
          by (auto simp: row_backed_def receipt_backed_def stored_state_def settled_def split: command_state.splits)
      qed (simp add: row_backed_def settled_def)
    next
      case (3 now)
      then obtain u where "b = scrubbed_row u a" by (auto simp: scrub_step_def)
      then have st: "aw_state b = scrub_state (aw_state a)" by (simp add: scrubbed_row_def Let_def)
      have "settled (scrub_state s)" "scrub_state s = Completed \<longleftrightarrow> s = Completed" for s
        by (cases s; simp add: scrub_state_def settled_def)+
      with st ra(2) c show ?thesis by (simp add: row_backed_def)
    qed
  qed
qed

lemma control_plane_keeps_linked:
  assumes l: "linked runner D t s"
  shows "linked runner D t (delivery_step oenv cenv runner s (AtControlPlane e))"
proof (cases "deliverable runner (dl_posted s) e")
  case True
  let ?Q = "\<lambda>r. aw_runner r = runner \<longrightarrow> row_backed D t (cj_files (dl_journal s)) r"
  have ok: "rows_ok ?Q (dl_tables s)" using l by (simp add: linked_def)
  then have "distinct (command_ids (dl_tables s))" by (simp add: rows_ok_def)
  then have "rows_ok ?Q (fst (outbox_step oenv (dl_tables s) e))"
  proof (rule transactions_rows_ok[OF step_transactions ok])
    show "?Q b" if "?Q a" "row_change (event_power e) d es a b" for d es a b
      using change_backed[OF that(2,1) True] l by (auto simp: linked_def)
    show "?Q r" if "fresh_row r" for r using that by (auto simp: fresh_row_def row_backed_def)
  qed
  with l True show ?thesis by (simp add: linked_def delivery_step_def)
qed (use l in \<open>simp add: delivery_step_def\<close>)

lemma run_delivery_simps [simp]:
  "run_delivery oenv cenv runner s [] = s"
  "run_delivery oenv cenv runner s (ev # evs) = run_delivery oenv cenv runner (delivery_step oenv cenv runner s ev) evs"
  by (simp_all add: run_delivery_def)

lemma runner_events_Cons [simp]: "runner_events [] = []" "runner_events (AtRunner e # evs) = e # runner_events evs"
  "runner_events (AtControlPlane oe # evs) = runner_events evs" "runner_events (RepublishOne c now # evs) = runner_events evs"
  "runner_events (RepublishAll le now # evs) = runner_events evs"
  by (simp_all add: runner_events_def)

lemma run_linked:
  "linked runner D t s \<Longrightarrow> ordered_events D cenv t (runner_events evs) \<Longrightarrow>
   linked runner D (runner_clock t evs) (run_delivery oenv cenv runner s evs)"
proof (induction evs arbitrary: t s)
  case (Cons ev evs)
  show ?case
  proof (cases ev)
    case (AtRunner e)
    with Cons.prems(2) have o: "ordered_events D cenv t (e # runner_events evs)" by simp
    from Cons.IH[OF runner_keeps_linked[OF Cons.prems(1) o]] clock_grows[OF o] AtRunner show ?thesis by (simp add: runner_clock_def)
  next
    case (AtControlPlane e)
    with Cons.IH[OF control_plane_keeps_linked[OF Cons.prems(1)]] Cons.prems(2) show ?thesis by (simp add: runner_clock_def)
  next
    case (RepublishOne c now)
    with Cons.IH[OF republish_keeps_linked(1)[OF Cons.prems(1)]] Cons.prems(2) show ?thesis by (simp add: runner_clock_def)
  next
    case (RepublishAll le now)
    with Cons.IH[OF republish_keeps_linked(2)[OF Cons.prems(1)]] Cons.prems(2) show ?thesis by (simp add: runner_clock_def)
  qed
qed (simp add: runner_clock_def)

lemma new_linked: "linked runner D t (new_delivery d)"
  using sound_empty[of D t] by (auto simp: linked_def new_delivery_def rows_ok_def command_ids_def)

section \<open>Taking in a verdict\<close>

lemma update_message_valid:
  assumes "rc_command r \<noteq> []" "rc_session r \<noteq> []" "0 \<le> rc_revision r" "case rc_user_seq r of None \<Rightarrow> True | Some n \<Rightarrow> 0 \<le> n"
  shows "valid_receipt (durable_update_message r)"
    "ri_session (receipt_input_of runner (durable_update_message r)) = Some (rc_session r)"
    "ri_request (receipt_input_of runner (durable_update_message r)) = None"
    "ri_runner (receipt_input_of runner (durable_update_message r)) = runner"
proof -
  show "valid_receipt (durable_update_message r)" using assms
    by (auto simp: valid_receipt_def is_result_def is_update_def durable_update_message_def error_fields_def nonempty_string_def
      is_string_def natural_number_def optional_def receipt_state_text receipt_code_text split: option.splits)
qed (simp_all add: receipt_input_of_def is_result_def durable_update_message_def string_field_def)

lemma settled_stays:
  assumes "transactions (receipt_power q m) d d'" "distinct (command_ids d)" "find_command d c = Some r" "settled (aw_state r)"
  shows "\<exists>r'. find_command d' c = Some r' \<and> aw_state r' = aw_state r"
proof -
  have "\<exists>r'. find_command d' c = Some r' \<and> verdict_kept r r'"
  proof (rule transactions_row[OF assms(1-3)])
    show "verdict_kept r b" if "verdict_kept r a" "row_change (receipt_power q m) e es a b" for e es a b
      using verdict_kept_trans[OF that(1)] change_verdict[of "TakeReceipt id q m 0"] that(2) by simp
  qed (simp add: verdict_kept_def same_identity_row_def)
  with assms(4) show ?thesis by (auto simp: verdict_kept_def)
qed

lemma retried_row:
  assumes "retry_command ri now d = (d', Retried old new)" "distinct (command_ids d')"
  shows "\<exists>r. find_command d' (rt_command ri) = Some r \<and> aw_state r = Rejected"
proof -
  obtain r x n d2 where r: "find_command d (rt_command ri) = Some r"
    and i: "insert_row n (update_rows (\<lambda>s. aw_command s = rt_command ri) (replaced_row ri x now) d) = Some d2"
    and d': "od_commands d' = od_commands d2"
    using assms(1) by (auto simp: retry_command_def Let_def split: option.splits if_splits)
  have "od_commands d2 = map (\<lambda>s. if aw_command s = rt_command ri then replaced_row ri x now s else s) (od_commands d) @ [n]"
    using i by (auto simp: insert_row_def split: if_splits)
  then have "replaced_row ri x now r \<in> set (od_commands d')" using d' find_command_Some[OF r] by force
  moreover have "aw_command (replaced_row ri x now r) = rt_command ri" using find_command_Some[OF r] by (simp add: replaced_row_def)
  ultimately have "find_command d' (rt_command ri) = Some (replaced_row ri x now r)" by (rule keyed_row[OF assms(2)])
  then show ?thesis by (simp add: replaced_row_def)
qed

lemma receipt_settles:
  assumes res: "outbox_receipt env uuid q m now d = (d', os, ans)" and d: "distinct (command_ids d)" and v: "valid_receipt m"
    and r: "find_command d c = Some r" "addressed d r (receipt_input_of q m)" "\<not> settled (aw_state r)"
    and i: "settled (ri_state (receipt_input_of q m))" "aw_revision r \<le> ri_revision (receipt_input_of q m)"
  shows "\<exists>r'. find_command d' c = Some r' \<and> aw_state r' = ri_state (receipt_input_of q m)"
proof -
  let ?i = "receipt_input_of q m" and ?P = "receipt_power q m"
  have c: "ri_command ?i = c" using r(2) find_command_Some[OF r(1)] by (simp add: addressed_def)
  define rt where "rt = (if ri_state ?i = Rejected then retry_provider_failure env ?i now d else (None, []))"
  note res' = res[unfolded outbox_receipt_def, simplified v not_True_eq_False if_False Let_def, folded rt_def]
  show ?thesis
  proof (cases "fst rt")
    case (Some dd)
    then obtain o1 ws where rt: "rt = (Some (d', o1), ws)" using res' by (cases rt; cases dd) auto
    then have f: "retry_provider_failure env ?i now d = (Some (d', o1), ws)" "ri_state ?i = Rejected"
      by (auto simp: rt_def split: if_splits)
    let ?n = "superseded_count d (aw_execution r) + 1"
    let ?ri = "\<lparr>rt_command = ri_command ?i, rt_runner = ri_runner ?i, rt_session = ri_session ?i, rt_request = ri_request ?i,
      rt_revision = ri_revision ?i, rt_error = the (ri_error ?i), rt_code = ri_code ?i, rt_next_attempt = now + provider_retry_delay ?n\<rparr>"
    obtain d1 old new o2 where 1: "retry_command ?ri now d = (d1, Retried old new)" "reconcile_execution env (aw_execution old) now d1 = (d', o2)"
      using f(1) r(1) c by (auto simp: retry_provider_failure_def Let_def split: if_splits prod.splits retry_answer.splits)
    have t: "transactions (\<lambda>d r r'. True) d d1" by (rule retry_transactions[OF 1(1) d]) simp
    then have d1: "distinct (command_ids d1)" using transactions_ids d by blast
    obtain r1 where r1: "find_command d1 c = Some r1" "aw_state r1 = Rejected" using retried_row[OF 1(1) d1] c by auto
    have "quiet ?P d1 d'" by (rule reconcile_quiet[OF 1(2) d1])
    then show ?thesis using settled_stays[OF _ d1 r1(1)] r1(2) f(2) by (auto simp: quiet_def settled_def)
  next
    case None
    then obtain ws where rt: "rt = (None, ws)" by (cases rt) auto
    have ns: "\<not> receipt_stale ?i r" using r(3) i by (auto simp: receipt_stale_def)
    let ?d1 = "fst (record_receipt ?i now d)"
    obtain r1 where r1: "find_command ?d1 c = Some r1" "distinct (command_ids ?d1)" "aw_state r1 = ri_state ?i"
      by (rule record_addressed[OF d r(1,2), of now]) (use ns in simp)
    have "record_receipt ?i now d = (?d1, Some (receipted_row ?i now r, True))"
    proof (cases rule: record_receipt_cases[OF d, of ?i now])
      case 1
      then show ?thesis using r c find_command_Some[OF r(1)] by (auto simp: record_receipt_def addressed_def Let_def split: if_splits)
    qed (use r(1) c ns in simp_all)
    then obtain d2 o2 o3 threw where 2: "reconcile_execution env (aw_execution r) now ?d1 = (d2, o2)"
      "outbox_flush env uuid now (Some q) d2 = (d', o3, threw)"
      using res' rt by (auto split: prod.splits)
    have qu: "quiet ?P ?d1 d2" by (rule reconcile_quiet[OF 2(1) r1(2)])
    have "transactions ?P d2 d'" by (rule flush_transactions[OF 2(2) quiet_ids[OF qu r1(2)]]) simp
    with qu have "transactions ?P ?d1 d'" by (auto simp: quiet_def)
    from settled_stays[OF this r1(2,1)] r1(3) i(1) show ?thesis by simp
  qed
qed

lemma execution_ids_settle: "map ax_id (od_executions (fst (settle_execution x st now d))) = map ax_id (od_executions d)"
  by (auto simp: settle_execution_def update_executions_def audited_def settled_execution_def split: option.split)

lemma find_execution_ids: "find_execution d x = None \<longleftrightarrow> x \<notin> set (map ax_id (od_executions d))"
  by (auto simp: find_execution_def find_None_iff)

lemma execution_ids_pause:
  assumes "pause_for_governance env x only now d = Some (d', os)"
  shows "map ax_id (od_executions d') = map ax_id (od_executions d)"
proof -
  have f: "od_executions (fst (fail_workflow_execution env x cs source c err now d)) = od_executions d" for cs source c err
    by (simp add: fail_workflow_execution_def terminalize_commands_def Let_def)
  have "map ax_id (od_executions (fst (settle_and_notify env x st nt now d1))) = map ax_id (od_executions d1)" for st nt d1
    using execution_ids_settle by (simp add: settle_and_notify_def case_prod_beta)
  from assms f this show ?thesis
    by (auto simp: pause_for_governance_def Let_def case_prod_beta split: option.splits if_splits)
qed

text \<open>What a trip that is recovered first may do to the row: nothing, or settle it.\<close>

lemma recover_pause_row:
  assumes p: "recover_pause env q m now d = (d', os)" and d: "distinct (command_ids d)" and r: "find_command d c = Some r"
  shows "distinct (command_ids d')" "find_execution d' x = None \<longleftrightarrow> find_execution d x = None"
    "\<exists>r'. find_command d' c = Some r' \<and> (r' = r \<or> settled (aw_state r'))"
proof -
  have cases: "d' = d \<or> (\<exists>x only os. pause_for_governance env x only now d = Some (d', os))"
    using p by (auto simp: recover_pause_def split: option.split_asm if_split_asm)
  then have q: "quiet (receipt_power q m) d d'" using pause_quiet[OF _ d] quiet_refl by metis
  show i: "distinct (command_ids d')" by (rule quiet_ids[OF q d])
  show "find_execution d' x = None \<longleftrightarrow> find_execution d x = None"
    using cases execution_ids_pause unfolding find_execution_ids by metis
  obtain r' where r': "find_command d' c = Some r'"
    using transactions_row[where R = "\<lambda>_ _. True", OF _ d r] q unfolding quiet_def by blast
  then obtain s where s: "s \<in> set (od_commands d)" "aw_command s = c" "r' = s \<or> settled (aw_state r')"
    using q find_command_Some[OF r'] unfolding quiet_def settling_def by blast
  then have "s = r" using keyed_row[OF d s(1,2)] r by simp
  with r' s(3) show "\<exists>r'. find_command d' c = Some r' \<and> (r' = r \<or> settled (aw_state r'))" by blast
qed

lemma taking_settles:
  assumes d: "distinct (command_ids d)" and v: "valid_receipt m" and r: "find_command d c = Some r"
    and i: "ri_command (receipt_input_of q m) = c" "ri_session (receipt_input_of q m) = Some (aw_session r)" "aw_runner r = q"
      "ri_request (receipt_input_of q m) = None" "settled (ri_state (receipt_input_of q m))" "aw_revision r \<le> ri_revision (receipt_input_of q m)"
    and x: "find_execution d (aw_execution r) \<noteq> None" and u: "\<not> settled (aw_state r)"
  shows "\<exists>r'. find_command (fst (outbox_step env d (TakeReceipt uuid q m now))) c = Some r' \<and> settled (aw_state r') \<and>
    ((\<forall>x. oe_trip env d x (Some (aw_session r)) now = None) \<longrightarrow> aw_state r' = ri_state (receipt_input_of q m))"
proof -
  obtain d1 o1 where p: "recover_pause env q m now d = (d1, o1)" by (metis surj_pair)
  obtain d2 o2 ans where t: "outbox_receipt env uuid q m now d1 = (d2, o2, ans)" by (metis surj_pair)
  have st: "fst (outbox_step env d (TakeReceipt uuid q m now)) = d2" using p t by (simp add: on_command_receipt_def)
  obtain r1 where r1: "find_command d1 c = Some r1" "r1 = r \<or> settled (aw_state r1)" using recover_pause_row(3)[OF p d r] by blast
  note i1 = recover_pause_row(1)[OF p d r]
  have c: "aw_command r = c" using find_command_Some[OF r] by simp
  have calm: "d1 = d" if "\<forall>x. oe_trip env d x (Some (aw_session r)) now = None"
  proof -
    have "jprop (Some m) ''commandId'' = Some (JStr c)" using command_id_field[OF v] i(1) by (simp add: receipt_input_of_def)
    then show ?thesis using p r that
      by (auto simp: recover_pause_def pause_for_governance_def split: option.split_asm if_split_asm)
  qed
  show ?thesis
  proof (cases "r1 = r")
    case True
    have "addressed d1 r (receipt_input_of q m)"
      using i c x recover_pause_row(2)[OF p d r] by (auto simp: addressed_def answers_attempt_def receipt_input_of_def)
    moreover have "find_command d1 c = Some r" using r1(1) True by simp
    ultimately obtain r2 where "find_command d2 c = Some r2" "aw_state r2 = ri_state (receipt_input_of q m)"
      using receipt_settles[OF t i1 v _ _ u i(5,6)] by blast
    with i(5) show ?thesis unfolding st by auto
  next
    case False
    then have s: "settled (aw_state r1)" using r1(2) by simp
    from settled_stays[OF outbox_receipt_transactions[OF t i1] i1 r1(1) s] s
    obtain r2 where "find_command d2 c = Some r2" "settled (aw_state r2)" by auto
    moreover have "\<not> (\<forall>x. oe_trip env d x (Some (aw_session r)) now = None)" using calm r1(1) r False by (metis option.inject)
    ultimately show ?thesis unfolding st by blast
  qed
qed

section \<open>Properties\<close>

text \<open>C7: a command the control plane records as completed is recorded as completed by the runner it is assigned
  to, however messages are lost, delayed or repeated and whatever processes of the runner crash: its journal
  never shows another state for it, until the record expires or is damaged.\<close>

theorem completed_commands_completed_on_their_runner:
  assumes "ordered_events D cenv t (runner_events evs)"
    and "s = run_delivery oenv cenv runner (new_delivery d) evs"
    and "find_command (dl_tables s) c = Some r" "aw_runner r = runner" "aw_state r = Completed"
  shows "case map_of (cj_files (dl_journal s)) c of
      None \<Rightarrow> D c < of_int (runner_clock t evs)
    | Some Garbled \<Rightarrow> True
    | Some (Stored q) \<Rightarrow> cr_state q = CCompleted"
proof -
  have "rows_ok (\<lambda>r. aw_runner r = runner \<longrightarrow> row_backed D (runner_clock t evs) (cj_files (dl_journal s)) r) (dl_tables s)"
    using run_linked[OF new_linked assms(1)] assms(2) by (simp add: linked_def)
  then have "finished D (runner_clock t evs) (cj_files (dl_journal s)) c"
    using find_command_Some[OF assms(3)] assms(4,5) by (auto simp: rows_ok_def list_all_iff row_backed_def)
  then show ?thesis by (auto simp: finished_def kept_def split: option.splits record_file.splits)
qed

text \<open>C13: reconnecting settles what was decided while the runner was away: whatever happened before, when the
  journal holds a verdict for a command the control plane still has open, taking in the one update a
  reconnect republishes for it settles the command, with that verdict unless a governance trip of its
  session pauses the execution first. No earlier receipt can have made the update stale.\<close>

theorem reconnect_settles_decided_commands:
  assumes "ordered_events D cenv t (runner_events evs)"
    and "s = run_delivery oenv cenv runner (new_delivery d) evs"
    and "find_command (dl_tables s) c = Some r" "aw_runner r = runner" "\<not> settled (aw_state r)" "aw_session r \<noteq> []"
      "find_execution (dl_tables s) (aw_execution r) \<noteq> None"
    and "read_command (dl_journal s) c = Some q" "is_terminal (cr_state q)" "unexpired now q" "cr_session q = aw_session r"
      "case cr_user_seq q of None \<Rightarrow> True | Some n \<Rightarrow> 0 \<le> n"
    and "s' = run_delivery oenv cenv runner s
      [RepublishOne c now, AtControlPlane (TakeReceipt uuid runner (durable_update_message (receipt_of q True)) now')]"
  shows "\<exists>r'. find_command (dl_tables s') c = Some r' \<and> settled (aw_state r') \<and>
    ((\<forall>x. oe_trip oenv (dl_tables s) x (Some (aw_session r)) now' = None) \<longrightarrow> aw_state r' = stored_state (cr_state q))"
proof -
  let ?m = "durable_update_message (receipt_of q True)"
  have l: "linked runner D (runner_clock t evs) s" using run_linked[OF new_linked assms(1)] assms(2) by simp
  then obtain opened where so: "sound D (runner_clock t evs) opened (cj_files (dl_journal s)) (handles (dl_journal s))"
    and ok: "rows_ok (\<lambda>r. aw_runner r = runner \<longrightarrow> row_backed D (runner_clock t evs) (cj_files (dl_journal s)) r) (dl_tables s)"
    by (auto simp: linked_def)
  have f: "map_of (cj_files (dl_journal s)) c = Some (Stored q)" "valid_record q" using read_command_Some[OF assms(8)] by simp_all
  have c: "cr_command q = c" using f(1) sound_keyed[OF so] by (simp add: keyed_def)
  have "row_backed D (runner_clock t evs) (cj_files (dl_journal s)) r"
    using ok find_command_Some[OF assms(3)] assms(4) by (auto simp: rows_ok_def list_all_iff)
  then have rev: "aw_revision r \<le> cr_revision q"
    using assms(5) f find_command_Some[OF assms(3)] by (auto simp: row_backed_def reached_def kept_def valid_record_def)
  have st: "rc_state (receipt_of q True) = cr_state q" using assms(9) by (auto simp: receipt_of_def is_terminal_def)
  have rc: "rc_command (receipt_of q True) = c" "rc_session (receipt_of q True) = aw_session r" "rc_revision (receipt_of q True) = cr_revision q"
    "rc_user_seq (receipt_of q True) = cr_user_seq q" using c assms(11) by (simp_all add: receipt_of_def)
  have "c \<noteq> []" "0 \<le> cr_revision q" using f(2) c by (auto simp: valid_record_def command_id_ok_def elim!: ident_like.elims)
  then have "rc_command (receipt_of q True) \<noteq> []" "rc_session (receipt_of q True) \<noteq> []" "0 \<le> rc_revision (receipt_of q True)"
    "case rc_user_seq (receipt_of q True) of None \<Rightarrow> True | Some n \<Rightarrow> 0 \<le> n" using rc assms(6,12) by simp_all
  note m = update_message_valid[OF this] and in_m = says_input[OF says_update, of runner "receipt_of q True"]
  have "recent_update (dl_journal s) c now = Some (receipt_of q True)" using assms(8,10) by (simp add: recent_update_def)
  then have s': "dl_tables s' = fst (outbox_step oenv (dl_tables s) (TakeReceipt uuid runner ?m now'))"
    unfolding assms(13) by (simp add: delivery_step_def deliverable_def)
  have "settled (stored_state (cr_state q))" using assms(9) by (auto simp: is_terminal_def stored_state_def settled_def)
  then show ?thesis
    unfolding s' using taking_settles[OF _ m(1) assms(3) _ _ assms(4) m(3) _ _ assms(7,5), of oenv uuid now'] ok in_m m(2) rc st rev
    by (simp add: rows_ok_def)
qed

section \<open>Examples\<close>

text \<open>A launch is staged, sent and claimed; its runner starts and completes it.\<close>

definition delivery_message :: json where
  "delivery_message = JObj [(''type'', JStr ''durable_session_command''), (''requestId'', JStr ''a''), (''commandId'', JStr ''a''),
     (''executionId'', JStr ''x''), (''payloadDigest'', JStr sample_digest), (''expiresAt'', JNum 1000),
     (''command'', JObj [(''type'', JStr ''prompt_session''), (''sessionId'', JStr ''sa''), (''text'', JStr ''hi'')])]"

definition delivery_env :: command_env where
  "delivery_env = \<lparr>ce_sha = (\<lambda>s. sample_digest), ce_hmac = (\<lambda>s. sample_digest), ce_num = unary_text, ce_to_num = (\<lambda>v. None),
     ce_max_receipts = 8, ce_owner_stale = 30\<rparr>"

definition delivery_sample :: "delivery_event list" where
  "delivery_sample = map AtControlPlane sample_sent_run @ map AtRunner
     [StartProcess ''p'' 0 Written, Claim ''p'' 4 delivery_message sample_claim_io, HandleOp ''p'' 0 5 sample_op_io (OpStarted None),
      HandleOp ''p'' 0 6 sample_op_io OpCompleted]"

definition delivered_sample :: "delivery_event list" where
  "delivered_sample = delivery_sample @ [RepublishOne ''a'' 7,
     AtControlPlane (TakeReceipt id ''r'' (sample_receipt ''a'' ''completed'') 9),
     AtControlPlane (TakeReceipt id ''r'' (durable_update_message \<lparr>rc_command = ''a'', rc_session = ''sa'', rc_state = CCompleted, rc_revision = 3,
        rc_duplicate = True, rc_error = None, rc_code = None, rc_user_seq = None\<rparr>) 9)]"

theorem completed_commands_completed_on_their_runner_witness:
  "case run_delivery sample_outbox_env delivery_env ''r'' (new_delivery sample_tables) delivered_sample of s \<Rightarrow>
     map_option aw_state (find_command (dl_tables s) ''a'') = Some Completed \<and>
     (case map_of (cj_files (dl_journal s)) ''a'' of
        None \<Rightarrow> 1000 < (of_int (runner_clock 0 delivered_sample) :: rat)
      | Some Garbled \<Rightarrow> True
      | Some (Stored q) \<Rightarrow> cr_state q = CCompleted)"
proof -
  let ?s = "run_delivery sample_outbox_env delivery_env ''r'' (new_delivery sample_tables) delivered_sample"
  have o: "ordered_events (\<lambda>c. 1000) delivery_env 0 (runner_events delivered_sample)" by code_simp
  have "case find_command (dl_tables ?s) ''a'' of None \<Rightarrow> False | Some r \<Rightarrow> aw_runner r = ''r'' \<and> aw_state r = Completed" by code_simp
  then obtain r where r: "find_command (dl_tables ?s) ''a'' = Some r" "aw_runner r = ''r''" "aw_state r = Completed"
    by (auto split: option.splits)
  from completed_commands_completed_on_their_runner[OF o refl r] r show ?thesis by simp
qed

theorem reconnect_settles_decided_commands_witness:
  "case run_delivery sample_outbox_env delivery_env ''r'' (new_delivery sample_tables) delivery_sample of s \<Rightarrow>
     map_option aw_state (find_command (dl_tables s) ''a'') = Some Sent \<and>
     (case read_command (dl_journal s) ''a'' of
        None \<Rightarrow> False
      | Some q \<Rightarrow>
          map_option aw_state (find_command (dl_tables (run_delivery sample_outbox_env delivery_env ''r'' s
            [RepublishOne ''a'' 7, AtControlPlane (TakeReceipt id ''r'' (durable_update_message (receipt_of q True)) 9)])) ''a'') = Some Completed)"
proof -
  let ?s = "run_delivery sample_outbox_env delivery_env ''r'' (new_delivery sample_tables) delivery_sample"
  have o: "ordered_events (\<lambda>c. 1000) delivery_env 0 (runner_events delivery_sample)" by code_simp
  have "case find_command (dl_tables ?s) ''a'' of None \<Rightarrow> False | Some r \<Rightarrow> aw_runner r = ''r'' \<and> aw_state r = Sent \<and>
      aw_session r = ''sa'' \<and> find_execution (dl_tables ?s) (aw_execution r) \<noteq> None" by code_simp
  then obtain r where r: "find_command (dl_tables ?s) ''a'' = Some r" "aw_runner r = ''r''" "aw_state r = Sent" "aw_session r = ''sa''"
    "find_execution (dl_tables ?s) (aw_execution r) \<noteq> None" by (auto split: option.splits)
  have "case read_command (dl_journal ?s) ''a'' of None \<Rightarrow> False | Some q \<Rightarrow> cr_state q = CCompleted \<and> unexpired 7 q \<and>
      cr_session q = ''sa'' \<and> cr_user_seq q = None" by code_simp
  then obtain q where q: "read_command (dl_journal ?s) ''a'' = Some q" "cr_state q = CCompleted" "unexpired 7 q" "cr_session q = ''sa''"
    "cr_user_seq q = None" by (auto split: option.splits)
  have "\<not> settled (aw_state r)" "aw_session r \<noteq> []" "is_terminal (cr_state q)" "cr_session q = aw_session r"
    "case cr_user_seq q of None \<Rightarrow> True | Some n \<Rightarrow> 0 \<le> n" using r q by (simp_all add: settled_def is_terminal_def)
  note h = this
  have calm: "\<forall>x. oe_trip sample_outbox_env (dl_tables ?s) x (Some (aw_session r)) 9 = None" by (simp add: sample_outbox_env_def)
  obtain r' where "find_command (dl_tables (run_delivery sample_outbox_env delivery_env ''r'' ?s
      [RepublishOne ''a'' 7, AtControlPlane (TakeReceipt id ''r'' (durable_update_message (receipt_of q True)) 9)])) ''a'' = Some r'"
    "aw_state r' = stored_state (cr_state q)"
    using reconnect_settles_decided_commands[OF o refl r(1,2) h(1,2) r(5) q(1) h(3) q(3) h(4,5) refl, of id 9] calm by blast
  with r q show ?thesis by (simp add: stored_state_def)
qed

text \<open>
  A retry that reaches the runner after the deadline by the runner's clock is refused with revision zero
  before the journal is read; while the control plane has heard nothing, that settles the command as
  rejected although the runner completed it.
\<close>

lemma late_retry_contradicts_the_journal:
  "case run_delivery sample_outbox_env delivery_env ''r'' (new_delivery sample_tables)
       (delivery_sample @ [AtRunner (Claim ''p'' 1001 delivery_message sample_claim_io)]) of s \<Rightarrow>
     (case dl_tables (run_delivery sample_outbox_env delivery_env ''r'' s [AtControlPlane (TakeReceipt id ''r'' (last (dl_posted s)) 999)]) of d \<Rightarrow>
        map_option aw_state (find_command d ''a'') = Some Rejected \<and>
        map_option aw_code (find_command d ''a'') = Some (Some CommandExpired)) \<and>
     map_option cr_state (read_command (dl_journal s) ''a'') = Some CCompleted"
  by code_simp

end
