(* ===== verification/Wal_Checkpointer.thy ===== *)
theory Wal_Checkpointer
  imports Json "HOL-Library.Word"
begin

text \<open>
  The control plane's checkpoint worker (\<open>WalCheckpointer\<close> of \<open>apps/control-plane/src/wal-checkpointer.ts\<close>):
  the thread that checkpoints the write-ahead log, its restarts with back-off, and the heartbeat by which
  the main thread reports a worker that stays alive without completing a pass.

  The state is the object's fields with the threads, timers and intervals that exist outside it. A worker
  counts its passes in a word of 32 bits that it shares with the main thread. \<open>performance.now()\<close> is a
  rational, \<open>Date.now()\<close> an integer; whether a thread can be created, a pragma runs or the last pass is seen
  is an argument of its event.
\<close>

section \<open>Options and versions\<close>

definition WAL_CHECKPOINT_BACKSTOP_PAGES :: int where "WAL_CHECKPOINT_BACKSTOP_PAGES = 16384"
definition DEFAULT_WAL_AUTOCHECKPOINT_PAGES :: int where "DEFAULT_WAL_AUTOCHECKPOINT_PAGES = 1000"
definition WAL_CHECKPOINT_INTERVAL_MS :: int where "WAL_CHECKPOINT_INTERVAL_MS = 250"
definition RESTART_DELAYS_MS :: "int list" where "RESTART_DELAYS_MS = [1000, 5000, 30000]"
definition HEALTHY_AFTER_MS :: int where "HEALTHY_AFTER_MS = 60000"
definition WAL_CHECKPOINT_STALL_MS :: rat where "WAL_CHECKPOINT_STALL_MS = 30000"

record wal_options =
  wo_interval :: int
  wo_backstop :: int
  wo_delays :: "int list"
  wo_healthy :: int
  wo_stall :: rat
  wo_version :: "string option"

definition default_wal_options :: "string option \<Rightarrow> wal_options" where
  "default_wal_options version =
     \<lparr>wo_interval = WAL_CHECKPOINT_INTERVAL_MS, wo_backstop = WAL_CHECKPOINT_BACKSTOP_PAGES, wo_delays = RESTART_DELAYS_MS,
      wo_healthy = HEALTHY_AFTER_MS, wo_stall = WAL_CHECKPOINT_STALL_MS, wo_version = version\<rparr>"

definition sqlite_has_wal_reset_fix :: "string option \<Rightarrow> bool" where
  "sqlite_has_wal_reset_fix version =
     (case version_triple (case version of None \<Rightarrow> '''' | Some v \<Rightarrow> v) of
        None \<Rightarrow> False
      | Some (major, minor, patch) \<Rightarrow>
          if major \<noteq> 3 then major > 3
          else if minor = 44 then patch \<ge> 6
          else if minor = 50 then patch \<ge> 7
          else minor > 51 \<or> (minor = 51 \<and> patch \<ge> 3))"

section \<open>State, reports and commands\<close>

datatype wal_event =
    Online
  | Disabled "string option"
  | Checkpoint int int int
  | Failed string
  | Exited int int
  | Stalled int "int option"
  | Recovered int

datatype wal_output = Report wal_event | Autocheckpoint int | StartWorker nat | PostStop nat | Terminate nat

record wal_state =
  wk_threads :: "nat list"
  wk_memory :: "nat \<Rightarrow> 32 word"
  wk_timers :: "nat list"
  wk_intervals :: "nat list"
  wk_next :: nat
  wk_worker :: "nat option"
  wk_restart :: "nat option"
  wk_failures :: nat
  wk_online_at :: "int option"
  wk_stopped :: bool
  wk_passes :: "nat option"
  wk_heartbeat :: "nat option"
  wk_seen :: "32 word"
  wk_seen_at :: rat
  wk_checks :: nat
  wk_stalled :: bool
  wk_sizing :: "nat option"
  wk_bytes :: "int option"
  wk_generation :: nat

text \<open>\<open>wk_sizing\<close> is the generation captured by the size reading under way.\<close>

definition new_checkpointer :: wal_state where
  "new_checkpointer =
     \<lparr>wk_threads = [], wk_memory = (\<lambda>w. 0), wk_timers = [], wk_intervals = [], wk_next = 0, wk_worker = None, wk_restart = None,
      wk_failures = 0, wk_online_at = None, wk_stopped = False, wk_passes = None, wk_heartbeat = None, wk_seen = 0, wk_seen_at = 0,
      wk_checks = 0, wk_stalled = False, wk_sizing = None, wk_bytes = None, wk_generation = 0\<rparr>"

definition js_round :: "rat \<Rightarrow> int" where
  "js_round q = \<lfloor>q + 1 / 2\<rfloor>"

section \<open>The heartbeat\<close>

text \<open>\<open>progressed\<close>: a pass completed or a worker started, and a new stretch begins.\<close>

definition progressed :: "32 word \<Rightarrow> rat \<Rightarrow> wal_state \<Rightarrow> wal_state" where
  "progressed passes now s =
     s\<lparr>wk_seen := passes, wk_seen_at := now, wk_checks := 0, wk_stalled := False, wk_bytes := None,
       wk_generation := wk_generation s + 1\<rparr>"

definition start_heartbeat :: "nat \<Rightarrow> rat \<Rightarrow> wal_state \<Rightarrow> wal_state" where
  "start_heartbeat w now s =
     (let s1 = progressed 0 now (s\<lparr>wk_passes := Some w\<rparr>); t = wk_next s1
      in s1\<lparr>wk_heartbeat := Some t, wk_intervals := wk_intervals s1 @ [t], wk_next := t + 1\<rparr>)"

definition stop_heartbeat :: "wal_state \<Rightarrow> wal_state" where
  "stop_heartbeat s =
     s\<lparr>wk_intervals := (case wk_heartbeat s of None \<Rightarrow> wk_intervals s | Some t \<Rightarrow> remove1 t (wk_intervals s)),
       wk_heartbeat := None, wk_passes := None, wk_stalled := False\<rparr>"

definition sample_wal_size :: "wal_state \<Rightarrow> wal_state" where
  "sample_wal_size s = (if wk_sizing s \<noteq> None then s else s\<lparr>wk_sizing := Some (wk_generation s)\<rparr>)"

definition sized :: "int option \<Rightarrow> wal_state \<Rightarrow> wal_state" where
  "sized bytes s =
     (case wk_sizing s of
        None \<Rightarrow> s
      | Some g \<Rightarrow> s\<lparr>wk_sizing := None, wk_bytes := (if g = wk_generation s then bytes else wk_bytes s)\<rparr>)"

definition check_heartbeat :: "wal_options \<Rightarrow> rat \<Rightarrow> wal_state \<Rightarrow> wal_state \<times> wal_output list" where
  "check_heartbeat opts now s =
     (case wk_passes s of
        None \<Rightarrow> (s, [])
      | Some w \<Rightarrow>
          (let passes = wk_memory s w
           in if passes \<noteq> wk_seen s
              then (progressed passes now s, if wk_stalled s then [Report (Recovered (js_round (now - wk_seen_at s)))] else [])
              else (let s1 = sample_wal_size (s\<lparr>wk_checks := wk_checks s + 1\<rparr>)
                    in if wk_stalled s1 \<or> wk_checks s1 < 2 \<or> now - wk_seen_at s1 < wo_stall opts then (s1, [])
                       else (s1\<lparr>wk_stalled := True\<rparr>, [Report (Stalled (js_round (now - wk_seen_at s1)) (wk_bytes s1))]))))"

section \<open>Workers\<close>

definition restart_delay :: "wal_options \<Rightarrow> nat \<Rightarrow> int" where
  "restart_delay opts failures =
     (if wo_delays opts = [] then 30000 else wo_delays opts ! min failures (length (wo_delays opts) - 1))"

definition schedule_restart :: "wal_options \<Rightarrow> int \<Rightarrow> wal_state \<Rightarrow> wal_state \<times> wal_output list" where
  "schedule_restart opts code s =
     (if wk_stopped s then (s, [])
      else (let t = wk_next s
            in (s\<lparr>wk_failures := wk_failures s + 1, wk_restart := Some t, wk_timers := wk_timers s @ [t], wk_next := t + 1\<rparr>,
                [Report (Exited code (restart_delay opts (wk_failures s)))])))"

text \<open>\<open>err\<close> is the message of the error creating the thread throws, if it does.\<close>

definition spawn :: "wal_options \<Rightarrow> string option \<Rightarrow> rat \<Rightarrow> wal_state \<Rightarrow> wal_state \<times> wal_output list" where
  "spawn opts err now s =
     (case err of
        Some m \<Rightarrow> (let (s1, os) = schedule_restart opts 1 s in (s1, Report (Failed m) # os))
      | None \<Rightarrow>
          (let w = wk_next s;
               s1 = s\<lparr>wk_threads := wk_threads s @ [w], wk_memory := (wk_memory s)(w := 0), wk_next := w + 1, wk_worker := Some w\<rparr>
           in (start_heartbeat w now s1, [StartWorker w])))"

definition start_checkpointer ::
    "wal_options \<Rightarrow> bool \<Rightarrow> string option \<Rightarrow> rat \<Rightarrow> wal_state \<Rightarrow> wal_state \<times> wal_output list" where
  "start_checkpointer opts exec_ok err now s =
     (if wk_stopped s \<or> wk_worker s \<noteq> None then (s, [])
      else if \<not> sqlite_has_wal_reset_fix (wo_version opts) then (s\<lparr>wk_stopped := True\<rparr>, [Report (Disabled (wo_version opts))])
      else if \<not> exec_ok then (s, [])
      else (let (s1, os) = spawn opts err now s in (s1, Autocheckpoint (wo_backstop opts) # os)))"

text \<open>\<open>done_seen\<close>: the worker's last pass ended within the wait.\<close>

definition stop_checkpointer :: "bool \<Rightarrow> wal_state \<Rightarrow> wal_state \<times> wal_output list" where
  "stop_checkpointer done_seen s =
     (if wk_stopped s then (s, [])
      else (let s1 = s\<lparr>wk_stopped := True, wk_restart := None,
                  wk_timers := (case wk_restart s of None \<Rightarrow> wk_timers s | Some t \<Rightarrow> remove1 t (wk_timers s))\<rparr>;
                s2 = stop_heartbeat s1
            in (s2\<lparr>wk_worker := None\<rparr>,
                (case wk_worker s2 of None \<Rightarrow> [] | Some w \<Rightarrow> PostStop w # (if done_seen then [] else [Terminate w])) @
                [Autocheckpoint DEFAULT_WAL_AUTOCHECKPOINT_PAGES])))"

definition worker_exited :: "wal_options \<Rightarrow> nat \<Rightarrow> int \<Rightarrow> int \<Rightarrow> wal_state \<Rightarrow> wal_state \<times> wal_output list" where
  "worker_exited opts w code now s =
     (if wk_worker s \<noteq> Some w then (s, [])
      else (let s1 = stop_heartbeat (s\<lparr>wk_worker := None\<rparr>);
                healthy = (case wk_online_at s1 of None \<Rightarrow> False | Some t \<Rightarrow> now - t \<ge> wo_healthy opts)
            in schedule_restart opts code (s1\<lparr>wk_failures := (if healthy then 0 else wk_failures s1), wk_online_at := None\<rparr>)))"

section \<open>Events\<close>

datatype wal_input =
    Start bool "string option" rat
  | Stop bool
  | RestartFires nat "string option" rat
  | HeartbeatFires nat rat
  | SizeRead "int option"
  | PassDone nat
  | OnlineMessage nat int
  | CheckpointMessage nat int int int
  | ErrorMessage nat string
  | WorkerExit nat int int

definition wal_step :: "wal_options \<Rightarrow> wal_state \<Rightarrow> wal_input \<Rightarrow> wal_state \<times> wal_output list" where
  "wal_step opts s e =
     (case e of
        Start exec_ok err now \<Rightarrow> start_checkpointer opts exec_ok err now s
      | Stop done_seen \<Rightarrow> stop_checkpointer done_seen s
      | RestartFires t err now \<Rightarrow>
          if t \<in> set (wk_timers s)
          then spawn opts err now (s\<lparr>wk_timers := remove1 t (wk_timers s), wk_restart := None\<rparr>) else (s, [])
      | HeartbeatFires t now \<Rightarrow> if t \<in> set (wk_intervals s) then check_heartbeat opts now s else (s, [])
      | SizeRead bytes \<Rightarrow> (sized bytes s, [])
      | PassDone w \<Rightarrow> (if w \<in> set (wk_threads s) then s\<lparr>wk_memory := (wk_memory s)(w := wk_memory s w + 1)\<rparr> else s, [])
      | OnlineMessage w now \<Rightarrow> if w \<in> set (wk_threads s) then (s\<lparr>wk_online_at := Some now\<rparr>, [Report Online]) else (s, [])
      | CheckpointMessage w busy k n \<Rightarrow> (s, if w \<in> set (wk_threads s) then [Report (Checkpoint busy k n)] else [])
      | ErrorMessage w m \<Rightarrow> (s, if w \<in> set (wk_threads s) then [Report (Failed m)] else [])
      | WorkerExit w code now \<Rightarrow>
          if w \<in> set (wk_threads s) then worker_exited opts w code now (s\<lparr>wk_threads := remove1 w (wk_threads s)\<rparr>) else (s, []))"

section \<open>Versions\<close>

lemma fix_is_exact:
  assumes "version_triple v = Some (a, b, c)"
  shows "sqlite_has_wal_reset_fix (Some v) \<longleftrightarrow> (a, b, c) \<in> {(x, y, z). x > 3} \<union> {(3, y, z) | y z. y > 51 \<or> (y = 51 \<and> z \<ge> 3)} \<union>
    {(3, 44, z) | z. z \<ge> 6} \<union> {(3, 50, z) | z. z \<ge> 7}"
  using assms by (auto simp: sqlite_has_wal_reset_fix_def)

section \<open>One worker or one restart\<close>

text \<open>The object is started once; nothing else is asked of the events.\<close>

definition wal_enabled :: "wal_state \<Rightarrow> wal_input \<Rightarrow> bool" where
  "wal_enabled s e = (case e of Start _ _ _ \<Rightarrow> wk_restart s = None | _ \<Rightarrow> True)"

definition wal_good :: "wal_state \<Rightarrow> bool" where
  "wal_good s \<longleftrightarrow>
     wk_timers s = (case wk_restart s of None \<Rightarrow> [] | Some t \<Rightarrow> [t]) \<and>
     wk_intervals s = (case wk_heartbeat s of None \<Rightarrow> [] | Some t \<Rightarrow> [t]) \<and>
     wk_passes s = wk_worker s \<and> (wk_heartbeat s = None \<longleftrightarrow> wk_worker s = None) \<and>
     (wk_worker s = None \<longrightarrow> \<not> wk_stalled s) \<and>
     (if wk_stopped s then length (wk_threads s) \<le> 1 \<and> wk_worker s = None \<and> wk_restart s = None
      else wk_threads s = (case wk_worker s of None \<Rightarrow> [] | Some w \<Rightarrow> [w]) \<and> (wk_restart s \<noteq> None \<longrightarrow> wk_worker s = None))"

lemmas wal_defs = start_checkpointer_def stop_checkpointer_def spawn_def schedule_restart_def worker_exited_def start_heartbeat_def
  stop_heartbeat_def progressed_def

lemma sample_frame [simp]:
  "wal_good (sample_wal_size s) = wal_good s" "wk_stalled (sample_wal_size s) = wk_stalled s" "wk_checks (sample_wal_size s) = wk_checks s"
  "wk_seen_at (sample_wal_size s) = wk_seen_at s" "wk_bytes (sample_wal_size s) = wk_bytes s" "wk_passes (sample_wal_size s) = wk_passes s"
  "wk_memory (sample_wal_size s) = wk_memory s" "wk_seen (sample_wal_size s) = wk_seen s" "wk_generation (sample_wal_size s) = wk_generation s"
  "wk_threads (sample_wal_size s) = wk_threads s" "wk_worker (sample_wal_size s) = wk_worker s"
  by (simp_all add: sample_wal_size_def wal_good_def)

lemma watching_good:
  assumes "wal_good s" "wk_passes s = Some w" "wk_timers s' = wk_timers s" "wk_intervals s' = wk_intervals s" "wk_restart s' = wk_restart s"
    "wk_heartbeat s' = wk_heartbeat s" "wk_passes s' = wk_passes s" "wk_worker s' = wk_worker s" "wk_stopped s' = wk_stopped s"
    "wk_threads s' = wk_threads s"
  shows "wal_good s'"
  using assms by (auto simp: wal_good_def split: if_splits)

lemma check_heartbeat_good:
  assumes "wal_good s"
  shows "wal_good (fst (check_heartbeat opts now s))"
proof (cases "wk_passes s")
  case None
  with assms show ?thesis by (simp add: check_heartbeat_def)
next
  case (Some w)
  show ?thesis
    by (rule watching_good[OF assms Some]) (simp_all add: check_heartbeat_def Some Let_def progressed_def sample_wal_size_def)
qed

lemma spawn_good:
  assumes "wal_good s" "wk_worker s = None" "wk_restart s = None" "\<not> wk_stopped s"
  shows "wal_good (fst (spawn opts err now s))"
  using assms by (auto simp: wal_good_def wal_defs Let_def split: option.splits)

lemma length_remove1_le: "length (remove1 x xs) \<le> length xs"
  by (induction xs) auto

lemma wal_step_good:
  assumes g: "wal_good s" and e: "wal_enabled s e"
  shows "wal_good (fst (wal_step opts s e))"
proof (cases e)
  case (Start exec_ok err now)
  show ?thesis
  proof (cases "wk_stopped s \<or> wk_worker s \<noteq> None \<or> \<not> sqlite_has_wal_reset_fix (wo_version opts) \<or> \<not> exec_ok")
    case True
    then show ?thesis using g e Start by (auto simp: wal_step_def start_checkpointer_def wal_enabled_def wal_good_def)
  next
    case False
    then have "wal_good (fst (spawn opts err now s))" using spawn_good g e Start by (auto simp: wal_enabled_def)
    then show ?thesis using Start False by (simp add: wal_step_def start_checkpointer_def case_prod_beta Let_def)
  qed
next
  case (RestartFires t err now)
  show ?thesis
  proof (cases "t \<in> set (wk_timers s)")
    case True
    let ?s = "s\<lparr>wk_timers := remove1 t (wk_timers s), wk_restart := None\<rparr>"
    have "wk_restart s = Some t" using g True by (auto simp: wal_good_def split: option.splits)
    with g have "wal_good ?s" "wk_worker ?s = None" "\<not> wk_stopped ?s" by (auto simp: wal_good_def split: if_splits)
    then show ?thesis using RestartFires True spawn_good by (simp add: wal_step_def)
  qed (use g RestartFires in \<open>simp add: wal_step_def\<close>)
next
  case (WorkerExit w code now)
  show ?thesis
  proof (cases "wk_worker s = Some w")
    case True
    with g have "\<not> wk_stopped s" "wk_restart s = None" by (auto simp: wal_good_def split: if_splits)
    with True show ?thesis using g WorkerExit by (auto simp: wal_step_def wal_good_def wal_defs Let_def split: option.splits)
  next
    case False
    then show ?thesis using g WorkerExit length_remove1_le[of w "wk_threads s"]
      by (auto simp: wal_step_def wal_good_def worker_exited_def split: option.splits if_splits)
  qed
next
  case (Stop done_seen)
  then show ?thesis using g by (auto simp: wal_step_def wal_good_def wal_defs Let_def split: option.splits if_splits)
next
  case (HeartbeatFires t now)
  then show ?thesis using check_heartbeat_good[OF g] g by (simp add: wal_step_def)
next
  case (SizeRead bytes)
  then show ?thesis using g by (auto simp: wal_step_def sized_def wal_good_def split: option.split)
qed (use g in \<open>auto simp: wal_step_def wal_good_def\<close>)

lemma new_checkpointer_good: "wal_good new_checkpointer"
  by (simp add: wal_good_def new_checkpointer_def)

interpretation wal: guarded_machine "\<lambda>s e. fst (wal_step opts s e)" wal_good wal_enabled for opts
  by unfold_locales (rule wal_step_good)

section \<open>What a stall report is about\<close>

text \<open>An event by which a stretch without a pass begins: a worker starts, or a check sees a pass.\<close>

fun begins :: "wal_input \<Rightarrow> rat \<Rightarrow> bool" where
  "begins (Start exec_ok err now) t \<longleftrightarrow> err = None \<and> now = t"
| "begins (RestartFires i err now) t \<longleftrightarrow> err = None \<and> now = t"
| "begins (HeartbeatFires i now) t \<longleftrightarrow> now = t"
| "begins _ t \<longleftrightarrow> False"

fun is_check :: "wal_input \<Rightarrow> bool" where
  "is_check (HeartbeatFires i now) = True"
| "is_check _ = False"

definition passes_of :: "nat \<Rightarrow> wal_input list \<Rightarrow> nat" where
  "passes_of w es = length (filter (\<lambda>e. e = PassDone w) es)"

text \<open>The size was read after a check in the stretch asked for it.\<close>

definition sized_in :: "int option \<Rightarrow> wal_input list \<Rightarrow> bool" where
  "sized_in bytes es \<longleftrightarrow>
     (case bytes of None \<Rightarrow> True | Some n \<Rightarrow> (\<exists>a b. es = a @ SizeRead (Some n) # b \<and> list_ex is_check a))"

definition stretch_of :: "nat \<Rightarrow> wal_input list \<Rightarrow> wal_state \<Rightarrow> bool" where
  "stretch_of w es s \<longleftrightarrow> wk_memory s w = wk_seen s + of_nat (passes_of w es) \<and> w \<in> set (wk_threads s) \<and>
     (wk_sizing s = Some (wk_generation s) \<or> wk_checks s > 0 \<longrightarrow> list_ex is_check es) \<and> sized_in (wk_bytes s) es"

definition sizing_ok :: "wal_state \<Rightarrow> bool" where
  "sizing_ok s \<longleftrightarrow> (\<forall>g. wk_sizing s = Some g \<longrightarrow> g \<le> wk_generation s)"

definition stretch :: "wal_input list \<Rightarrow> wal_state \<Rightarrow> bool" where
  "stretch hist s \<longleftrightarrow> sizing_ok s \<and>
     (case wk_passes s of
        None \<Rightarrow> True
      | Some w \<Rightarrow> (\<exists>es1 e es2. hist = es1 @ e # es2 \<and> begins e (wk_seen_at s) \<and> stretch_of w es2 s))"

lemma sized_in_snoc: "sized_in bytes es \<Longrightarrow> sized_in bytes (es @ [e])"
  unfolding sized_in_def by (auto split: option.splits) (metis append.assoc append_Cons)

lemma stretch_extend:
  assumes "stretch hist s" "wk_passes s = Some w" "wk_passes s' = Some w" "wk_seen_at s' = wk_seen_at s"
    and "\<And>es. stretch_of w es s \<Longrightarrow> stretch_of w (es @ [e]) s'"
    and "sizing_ok s'"
  shows "stretch (hist @ [e]) s'"
proof -
  obtain es1 e0 es2 where "hist = es1 @ e0 # es2" "begins e0 (wk_seen_at s)" "stretch_of w es2 s"
    using assms(1,2) by (auto simp: stretch_def)
  then have "hist @ [e] = es1 @ e0 # (es2 @ [e]) \<and> begins e0 (wk_seen_at s') \<and> stretch_of w (es2 @ [e]) s'"
    using assms(4,5) by simp
  then show ?thesis unfolding stretch_def using assms(3,6) by auto
qed

lemma stretch_begin:
  assumes "begins e (wk_seen_at s)" "wk_passes s = Some w" "stretch_of w [] s" "sizing_ok s"
  shows "stretch (hist @ [e]) s"
  using assms unfolding stretch_def by auto

lemma stretch_none: "wk_passes s = None \<Longrightarrow> sizing_ok s \<Longrightarrow> stretch hist s"
  by (simp add: stretch_def)

lemma stretch_sizing: "stretch hist s \<Longrightarrow> sizing_ok s"
  by (simp add: stretch_def)

text \<open>An event that touches nothing of the heartbeat.\<close>

lemma stretch_same:
  assumes "stretch hist s" "wk_passes s' = wk_passes s" "wk_seen_at s' = wk_seen_at s" "wk_memory s' = wk_memory s" "wk_seen s' = wk_seen s"
    "\<And>w. wk_passes s = Some w \<Longrightarrow> w \<in> set (wk_threads s) \<Longrightarrow> w \<in> set (wk_threads s')" "wk_sizing s' = wk_sizing s" "wk_checks s' = wk_checks s"
    "wk_bytes s' = wk_bytes s" "wk_generation s' = wk_generation s" "\<And>w. e \<noteq> PassDone w"
  shows "stretch (hist @ [e]) s'"
proof (cases "wk_passes s")
  case None
  then show ?thesis using assms stretch_sizing[OF assms(1)] by (intro stretch_none) (simp_all add: sizing_ok_def)
next
  case (Some w)
  show ?thesis
  proof (rule stretch_extend[OF assms(1) Some])
    show "stretch_of w (es @ [e]) s'" if "stretch_of w es s" for es
      using that assms Some by (auto simp: stretch_of_def passes_of_def sized_in_snoc)
  qed (use assms Some stretch_sizing[OF assms(1)] in \<open>simp_all add: sizing_ok_def\<close>)
qed

lemma spawn_stretch:
  assumes "stretch hist s" "err = None \<Longrightarrow> begins e now" "wk_worker s = None" "wk_passes s = None"
  shows "stretch (hist @ [e]) (fst (spawn opts err now s))"
proof (cases err)
  case None
  show ?thesis
    by (rule stretch_begin[of _ _ "wk_next s"]) (use None assms(2) stretch_sizing[OF assms(1)] in
        \<open>auto simp: wal_defs Let_def stretch_of_def passes_of_def sized_in_def sizing_ok_def split: option.splits\<close>)
next
  case (Some m)
  then show ?thesis using assms(4) stretch_sizing[OF assms(1)] by (intro stretch_none) (auto simp: sizing_ok_def wal_defs Let_def)
qed

lemma check_stretch:
  assumes s: "stretch hist s" and e: "e = HeartbeatFires t now"
  shows "stretch (hist @ [e]) (fst (check_heartbeat opts now s))"
proof (cases "wk_passes s")
  case None
  then show ?thesis using stretch_sizing[OF s] by (simp add: check_heartbeat_def stretch_none)
next
  case (Some w)
  show ?thesis
  proof (cases "wk_memory s w = wk_seen s")
    case False
    then obtain es1 e0 es2 where "stretch_of w es2 s" using s Some by (auto simp: stretch_def)
    then have "w \<in> set (wk_threads s)" by (simp add: stretch_of_def)
    then show ?thesis
      by (intro stretch_begin[of _ _ w]) (use False Some e stretch_sizing[OF s] in
          \<open>auto simp: check_heartbeat_def Let_def progressed_def stretch_of_def passes_of_def sized_in_def sizing_ok_def split: option.splits\<close>)
  next
    case True
    show ?thesis
    proof (rule stretch_extend[OF s Some])
      show "stretch_of w (es @ [e]) (fst (check_heartbeat opts now s))" if "stretch_of w es s" for es
        using that True Some e by (auto simp: check_heartbeat_def Let_def stretch_of_def passes_of_def sized_in_snoc sample_wal_size_def)
    qed (use True Some e stretch_sizing[OF s] in \<open>auto simp: sizing_ok_def check_heartbeat_def Let_def sample_wal_size_def split: option.splits\<close>)
  qed
qed

lemma step_stretch:
  assumes g: "wal_good s" and en: "wal_enabled s e" and s: "stretch hist s"
  shows "stretch (hist @ [e]) (fst (wal_step opts s e))"
proof (cases e)
  case (Start exec_ok err now)
  show ?thesis
  proof (cases "wk_stopped s \<or> wk_worker s \<noteq> None \<or> \<not> sqlite_has_wal_reset_fix (wo_version opts) \<or> \<not> exec_ok")
    case True
    then show ?thesis using Start by (intro stretch_same[OF s]) (auto simp: wal_step_def start_checkpointer_def)
  next
    case False
    then have "stretch (hist @ [e]) (fst (spawn opts err now s))" using spawn_stretch[OF s] g Start by (auto simp: wal_good_def)
    then show ?thesis using Start False by (simp add: wal_step_def start_checkpointer_def case_prod_beta Let_def)
  qed
next
  case (RestartFires t err now)
  show ?thesis
  proof (cases "t \<in> set (wk_timers s)")
    case True
    let ?s = "s\<lparr>wk_timers := remove1 t (wk_timers s), wk_restart := None\<rparr>"
    have "wk_restart s = Some t" using g True by (auto simp: wal_good_def split: option.splits)
    with g have "wk_worker ?s = None" "wk_passes ?s = None" by (auto simp: wal_good_def split: if_splits)
    moreover from this have "stretch hist ?s" using stretch_sizing[OF s] by (intro stretch_none) (auto simp: sizing_ok_def)
    ultimately show ?thesis using RestartFires True spawn_stretch[of hist ?s err e now opts] by (simp add: wal_step_def)
  next
    case False
    then show ?thesis using RestartFires by (intro stretch_same[OF s]) (auto simp: wal_step_def)
  qed
next
  case (HeartbeatFires t now)
  show ?thesis
  proof (cases "t \<in> set (wk_intervals s)")
    case True
    then show ?thesis using check_stretch[OF s HeartbeatFires] HeartbeatFires by (simp add: wal_step_def)
  next
    case False
    then show ?thesis using HeartbeatFires by (intro stretch_same[OF s]) (auto simp: wal_step_def)
  qed
next
  case (SizeRead bytes)
  show ?thesis
  proof (cases "wk_passes s")
    case None
    then show ?thesis using SizeRead stretch_sizing[OF s] by (intro stretch_none) (auto simp: sizing_ok_def wal_step_def sized_def split: option.splits)
  next
    case (Some w)
    show ?thesis
    proof (rule stretch_extend[OF s Some])
      show "stretch_of w (es @ [e]) (fst (wal_step opts s e))" if "stretch_of w es s" for es
      proof -
        have "sized_in bytes (es @ [e])" if "list_ex is_check es" using that SizeRead by (auto simp: sized_in_def split: option.split)
        with that SizeRead show ?thesis
          by (auto simp: wal_step_def sized_def stretch_of_def passes_of_def sized_in_snoc split: option.split)
      qed
    qed (use Some SizeRead stretch_sizing[OF s] in \<open>auto simp: sizing_ok_def wal_step_def sized_def split: option.splits\<close>)
  qed
next
  case (PassDone v)
  show ?thesis
  proof (cases "wk_passes s")
    case None
    then show ?thesis using PassDone stretch_sizing[OF s] by (intro stretch_none) (auto simp: sizing_ok_def wal_step_def)
  next
    case (Some w)
    show ?thesis
    proof (rule stretch_extend[OF s Some])
      show "stretch_of w (es @ [e]) (fst (wal_step opts s e))" if "stretch_of w es s" for es
        using that PassDone by (auto simp: wal_step_def stretch_of_def passes_of_def sized_in_snoc)
    qed (use Some PassDone stretch_sizing[OF s] in \<open>auto simp: sizing_ok_def wal_step_def\<close>)
  qed
next
  case (WorkerExit w code now)
  show ?thesis
  proof (cases "w \<in> set (wk_threads s) \<and> wk_worker s = Some w")
    case True
    then show ?thesis using WorkerExit stretch_sizing[OF s]
      by (intro stretch_none) (auto simp: sizing_ok_def wal_step_def wal_defs Let_def)
  next
    case False
    then have "wk_passes s = Some v \<Longrightarrow> v \<in> set (wk_threads s) \<Longrightarrow> v \<in> set (wk_threads (fst (wal_step opts s e)))" for v
      using WorkerExit g by (auto simp: wal_step_def worker_exited_def wal_good_def in_set_remove1)
    then show ?thesis using WorkerExit False
      by (intro stretch_same[OF s]) (auto simp: wal_step_def worker_exited_def)
  qed
next
  case (Stop done_seen)
  show ?thesis
  proof (cases "wk_stopped s")
    case True
    then show ?thesis using Stop by (intro stretch_same[OF s]) (auto simp: wal_step_def stop_checkpointer_def)
  next
    case False
    then show ?thesis using Stop stretch_sizing[OF s] by (intro stretch_none) (auto simp: sizing_ok_def wal_step_def wal_defs Let_def)
  qed
qed (intro stretch_same[OF s]; auto simp: wal_step_def)+

definition wal_after :: "wal_options \<Rightarrow> wal_input list \<Rightarrow> wal_state" where
  "wal_after opts es = foldl (\<lambda>s e. fst (wal_step opts s e)) new_checkpointer es"

definition wal_events :: "wal_options \<Rightarrow> wal_input list \<Rightarrow> bool" where
  "wal_events opts es \<longleftrightarrow> enabled_run (\<lambda>s e. fst (wal_step opts s e)) wal_enabled new_checkpointer es"

lemma after_good: "wal_events opts es \<Longrightarrow> wal_good (wal_after opts es)"
  unfolding wal_events_def wal_after_def by (rule wal.enabled_run_good[OF new_checkpointer_good])

lemma after_stretch:
  assumes "wal_events opts es"
  shows "stretch es (wal_after opts es)"
proof -
  have "stretch (hist @ es) (foldl (\<lambda>s e. fst (wal_step opts s e)) s es)"
    if "wal_good s" "stretch hist s" "enabled_run (\<lambda>s e. fst (wal_step opts s e)) wal_enabled s es" for hist s
    using that
  proof (induction es arbitrary: hist s)
    case (Cons e es)
    then show ?case using Cons.IH[OF wal_step_good step_stretch[of s e hist opts]] by simp
  qed simp
  moreover have "stretch [] new_checkpointer" by (simp add: stretch_def sizing_ok_def new_checkpointer_def)
  ultimately show ?thesis using assms new_checkpointer_good unfolding wal_after_def wal_events_def by fastforce
qed

lemma check_reports_stall:
  assumes "check_heartbeat opts now s = (s', os)" "Report (Stalled ms bytes) \<in> set os"
  shows "\<exists>w. wk_passes s = Some w \<and> wk_memory s w = wk_seen s \<and> wk_checks s > 0 \<and> wo_stall opts \<le> now - wk_seen_at s \<and>
    ms = js_round (now - wk_seen_at s) \<and> bytes = wk_bytes s"
  using assms by (auto simp: check_heartbeat_def Let_def split: option.splits if_splits)

section \<open>Properties\<close>

text \<open>C37: a stall report is true: the worker being watched was started, or a check last saw it make a pass, at
  least the stall time before the report and as long ago as it says; an earlier check has seen nothing
  since; the passes the worker made since are a multiple of two to the 32, what its counter can hold; and
  a log size it carries was asked for and read since then, not left over from an earlier stretch.\<close>

theorem stall_reports_are_true:
  assumes "wal_events opts es"
    and "wal_step opts (wal_after opts es) (HeartbeatFires t now) = (s', os)" "Report (Stalled ms bytes) \<in> set os"
  shows "\<exists>w es1 e es2 since. es = es1 @ e # es2 \<and> begins e since \<and> wk_passes (wal_after opts es) = Some w \<and>
    wo_stall opts \<le> now - since \<and> ms = js_round (now - since) \<and> list_ex is_check es2 \<and>
    2 ^ 32 dvd passes_of w es2 \<and> sized_in bytes es2"
proof -
  let ?s = "wal_after opts es"
  have "check_heartbeat opts now ?s = (s', os)" using assms(2,3) by (auto simp: wal_step_def split: if_splits)
  from check_reports_stall[OF this assms(3)] obtain w where w: "wk_passes ?s = Some w" "wk_memory ?s w = wk_seen ?s" "wk_checks ?s > 0"
    "wo_stall opts \<le> now - wk_seen_at ?s" "ms = js_round (now - wk_seen_at ?s)" "bytes = wk_bytes ?s" by blast
  obtain es1 e es2 where e: "es = es1 @ e # es2" "begins e (wk_seen_at ?s)" "stretch_of w es2 ?s"
    using after_stretch[OF assms(1)] w(1) by (auto simp: stretch_def)
  have "of_nat (passes_of w es2) = (0 :: 32 word)" using e(3) w(2) by (simp add: stretch_of_def)
  then have "2 ^ 32 dvd passes_of w es2" by (simp add: word_of_nat_eq_0_iff)
  moreover have "list_ex is_check es2" "sized_in bytes es2" using e(3) w(3,6) by (simp_all add: stretch_of_def)
  ultimately show ?thesis
    by (intro exI[of _ w] exI[of _ es1] exI[of _ e] exI[of _ es2] exI[of _ "wk_seen_at ?s"] conjI e(1,2) w)
qed

text \<open>C38: once started, the checkpointer neither gives up nor doubles: until it is stopped there is one live
  worker thread or one restart pending, never both, and at no time are there two threads; after it is
  stopped no thread is started again.\<close>

theorem checkpointer_never_gives_up_nor_doubles:
  assumes "wal_events opts (Start True err now # es)" "sqlite_has_wal_reset_fix (wo_version opts)"
  shows "case wal_after opts (Start True err now # es) of s \<Rightarrow>
    length (wk_threads s) \<le> 1 \<and>
    (if wk_stopped s then wk_timers s = [] else (length (wk_threads s) = 1) \<noteq> (length (wk_timers s) = 1))"
proof -
  let ?busy = "\<lambda>s. wk_stopped s \<or> wk_worker s \<noteq> None \<or> wk_restart s \<noteq> None"
  have step: "?busy (fst (wal_step opts s e))" if "?busy s" for s e
    using that by (cases e) (auto simp: wal_step_def wal_defs check_heartbeat_def sample_wal_size_def sized_def Let_def split: option.split)
  have "?busy (foldl (\<lambda>s e. fst (wal_step opts s e)) s es)" if "?busy s" for s
    using that by (induction es arbitrary: s) (use step in simp_all)
  moreover have "?busy (fst (wal_step opts new_checkpointer (Start True err now)))"
    using assms(2) by (cases err) (simp_all add: wal_step_def wal_defs new_checkpointer_def Let_def)
  ultimately have "?busy (wal_after opts (Start True err now # es))" by (simp add: wal_after_def)
  with after_good[OF assms(1)] show ?thesis by (auto simp: wal_good_def split: if_splits option.splits)
qed

text \<open>A worker that hangs on its first pass for half a minute, with checks every ten seconds.\<close>

definition sample_wal :: wal_options where
  "sample_wal = default_wal_options (Some ''3.51.3'')"

definition sample_hang :: "wal_input list" where
  "sample_hang = [Start True None 0, HeartbeatFires 1 10000, SizeRead (Some 7), HeartbeatFires 1 20000]"

theorem stall_reports_are_true_witness:
  "\<exists>w es1 e es2 since. sample_hang = es1 @ e # es2 \<and> begins e since \<and> wk_passes (wal_after sample_wal sample_hang) = Some w \<and>
    30000 \<le> 30000 - since \<and> 30000 = js_round (30000 - since) \<and> list_ex is_check es2 \<and>
    2 ^ 32 dvd passes_of w es2 \<and> sized_in (Some 7) es2"
proof -
  obtain s' os where st: "wal_step sample_wal (wal_after sample_wal sample_hang) (HeartbeatFires 1 30000) = (s', os)" by (metis surj_pair)
  have "wal_events sample_wal sample_hang" by code_simp
  moreover have "snd (wal_step sample_wal (wal_after sample_wal sample_hang) (HeartbeatFires 1 30000)) = [Report (Stalled 30000 (Some 7))]"
    by code_simp
  then have "Report (Stalled 30000 (Some 7)) \<in> set os" using st by simp
  moreover have "wo_stall sample_wal = 30000" by code_simp
  ultimately show ?thesis using stall_reports_are_true[OF _ st] by metis
qed

theorem checkpointer_never_gives_up_nor_doubles_witness:
  "case wal_after sample_wal (Start True None 0 # [WorkerExit 0 1 5, RestartFires 2 None 1005, Stop True]) of s \<Rightarrow>
    wk_threads s = [3] \<and> wk_stopped s \<and> wk_timers s = []"
proof -
  let ?es = "[WorkerExit 0 1 5, RestartFires 2 None 1005, Stop True]"
  have "wal_events sample_wal (Start True None 0 # ?es)" "sqlite_has_wal_reset_fix (wo_version sample_wal)" by code_simp+
  note h = checkpointer_never_gives_up_nor_doubles[OF this]
  have "wk_threads (wal_after sample_wal (Start True None 0 # ?es)) = [3]" "wk_stopped (wal_after sample_wal (Start True None 0 # ?es))"
    by code_simp+
  with h show ?thesis by simp
qed

end
