(* ===== verification/Processing_Window.thy ===== *)
theory Processing_Window
  imports Prelude
begin

text \<open>
  The pacing of a reconnect (\<open>ProcessingWindow\<close> of \<open>apps/runner/src/processing-window.ts\<close>): the runner
  republishes its inventory a window at a time, each closed by a barrier that the control plane must
  acknowledge before the next. An entry is read again when its turn comes, never cached over a wait.

  The state is the object's fields. What reading an entry yields, the size of a frame in bytes and which
  write throws are arguments of the callback that uses them; frames, reports and the failure callback are
  outputs, a frame with the entry it was read from.
\<close>

section \<open>State\<close>

definition RUNNER_WINDOW_BYTES :: int where "RUNNER_WINDOW_BYTES = 2 * 1024 * 1024"
definition RUNNER_WINDOW_FRAMES :: nat where "RUNNER_WINDOW_FRAMES = 128"

datatype read_result = ReadThrew | Nothing_Read | Wire string

datatype window_output =
    Wrote string string
  | WroteBarrier nat
  | BarrierStalled nat int int nat
  | SnapshotFailed
  | WriteFailed int nat
  | FailCalled

record barrier =
  ba_id :: nat
  ba_since :: rat
  ba_bytes :: int
  ba_frames :: nat

record window =
  pw_ids :: "string list"
  pw_index :: nat
  pw_scheduled :: bool
  pw_waiting :: "barrier option"
  pw_next :: nat
  pw_closed :: bool
  pw_read_failed :: bool
  pw_reported :: bool

definition window_complete :: "window \<Rightarrow> bool" where
  "window_complete s \<longleftrightarrow> pw_closed s \<and> pw_index s = length (pw_ids s)"

section \<open>Operations\<close>

definition close_window :: "window \<Rightarrow> window" where
  "close_window s = s\<lparr>pw_closed := True, pw_scheduled := False, pw_waiting := None\<rparr>"

definition schedule :: "window \<Rightarrow> window" where
  "schedule s = (if pw_closed s \<or> pw_waiting s \<noteq> None \<or> pw_scheduled s then s else s\<lparr>pw_scheduled := True\<rparr>)"

definition new_window :: "string list \<Rightarrow> window" where
  "new_window ids = schedule
     \<lparr>pw_ids = ids, pw_index = 0, pw_scheduled = False, pw_waiting = None, pw_next = 1, pw_closed = False,
      pw_read_failed = False, pw_reported = False\<rparr>"

definition acknowledge :: "nat \<Rightarrow> window \<Rightarrow> window" where
  "acknowledge i s =
     (case pw_waiting s of
        None \<Rightarrow> s
      | Some b \<Rightarrow>
          if pw_closed s \<or> i \<noteq> ba_id b then s
          else (let s1 = s\<lparr>pw_waiting := None\<rparr> in if pw_index s1 = length (pw_ids s1) then close_window s1 else schedule s1))"

text \<open>
  The loop of the scheduled callback over the entries left, \<open>visits\<close> of which it may still look at. It
  yields how many it finished, the bytes and frames it wrote, whether a read has failed, the outputs and
  whether a write threw; \<open>throws\<close> tells, of the frames written so far, whether the next write does.
\<close>

record window_io =
  wi_read :: "string \<Rightarrow> read_result"
  wi_size :: "string \<Rightarrow> int"
  wi_throws :: "nat \<Rightarrow> bool"

record window_pass =
  wp_done :: nat
  wp_bytes :: int
  wp_frames :: nat
  wp_failed :: bool
  wp_out :: "window_output list"
  wp_threw :: bool

fun window_loop :: "window_io \<Rightarrow> nat \<Rightarrow> window_pass \<Rightarrow> string list \<Rightarrow> window_pass" where
  "window_loop io visits p [] = p"
| "window_loop io 0 p (i # ids) = p"
| "window_loop io (Suc v) p (i # ids) =
     (case wi_read io i of
        ReadThrew \<Rightarrow> window_loop io v (p\<lparr>wp_done := wp_done p + 1, wp_failed := True,
            wp_out := wp_out p @ (if wp_failed p then [] else [SnapshotFailed])\<rparr>) ids
      | Nothing_Read \<Rightarrow> window_loop io v (p\<lparr>wp_done := wp_done p + 1\<rparr>) ids
      | Wire w \<Rightarrow>
          if wp_frames p \<noteq> 0 \<and> wp_bytes p + wi_size io w > RUNNER_WINDOW_BYTES then p
          else if wi_throws io (wp_frames p) then p\<lparr>wp_threw := True\<rparr>
          else window_loop io v (p\<lparr>wp_done := wp_done p + 1, wp_bytes := wp_bytes p + wi_size io w, wp_frames := wp_frames p + 1,
            wp_out := wp_out p @ [Wrote i w]\<rparr>) ids)"

definition window_pass_of :: "window_io \<Rightarrow> window \<Rightarrow> window_pass" where
  "window_pass_of io s = window_loop io RUNNER_WINDOW_FRAMES
     \<lparr>wp_done = 0, wp_bytes = 0, wp_frames = 0, wp_failed = pw_read_failed s, wp_out = [], wp_threw = False\<rparr>
     (drop (pw_index s) (pw_ids s))"

text \<open>The callback that \<open>schedule\<close> sets.\<close>

definition run_window :: "window_io \<Rightarrow> rat \<Rightarrow> window \<Rightarrow> window \<times> window_output list" where
  "run_window io now s =
     (let p = window_pass_of io s;
          s1 = s\<lparr>pw_scheduled := False, pw_index := pw_index s + wp_done p, pw_read_failed := wp_failed p\<rparr>;
          broken = (\<lambda>s. (close_window s, wp_out p @ [WriteFailed (wp_bytes p) (wp_frames p), FailCalled]))
      in if wp_threw p then broken s1
         else if wp_frames p \<noteq> 0
         then (let s2 = s1\<lparr>pw_next := pw_next s1 + 1,
                     pw_waiting := Some \<lparr>ba_id = pw_next s1, ba_since = now, ba_bytes = wp_bytes p, ba_frames = wp_frames p\<rparr>\<rparr>
               in if wi_throws io (wp_frames p) then broken s2 else (s2, wp_out p @ [WroteBarrier (pw_next s1)]))
         else if pw_index s1 = length (pw_ids s1) then (close_window s1, wp_out p)
         else (schedule s1, wp_out p))"

definition check_stalled :: "rat \<Rightarrow> window \<Rightarrow> window \<times> window_output list" where
  "check_stalled now s =
     (case pw_waiting s of
        None \<Rightarrow> (s, [])
      | Some b \<Rightarrow>
          if pw_reported s \<or> now - ba_since b < 2000 then (s, [])
          else (s\<lparr>pw_reported := True\<rparr>, [BarrierStalled (ba_id b) \<lfloor>now - ba_since b + 1 / 2\<rfloor> (ba_bytes b) (ba_frames b)]))"

datatype window_event = RunScheduled window_io rat | Acknowledge nat | CloseWindow | WatchdogFires rat

fun window_step :: "window \<Rightarrow> window_event \<Rightarrow> window \<times> window_output list" where
  "window_step s (RunScheduled io now) = (if pw_scheduled s then run_window io now s else (s, []))"
| "window_step s (Acknowledge i) = (acknowledge i s, [])"
| "window_step s CloseWindow = (close_window s, [])"
| "window_step s (WatchdogFires now) = (if pw_closed s then (s, []) else check_stalled now s)"

section \<open>One pass\<close>

fun wrote :: "window_output list \<Rightarrow> (string \<times> string) list" where
  "wrote [] = []"
| "wrote (Wrote i w # os) = (i, w) # wrote os"
| "wrote (out # os) = wrote os"

lemma wrote_append [simp]: "wrote (xs @ ys) = wrote xs @ wrote ys"
  by (induction xs rule: wrote.induct) auto

text \<open>What a pass has written, against the entries it has finished.\<close>

definition pass_ok :: "window_io \<Rightarrow> string list \<Rightarrow> window_pass \<Rightarrow> bool" where
  "pass_ok io ids p \<longleftrightarrow> wp_done p \<le> length ids \<and> wp_frames p \<le> wp_done p \<and> wp_frames p = length (wrote (wp_out p)) \<and>
     wp_bytes p = sum_list (map (\<lambda>(i, w). wi_size io w) (wrote (wp_out p))) \<and>
     (wp_frames p \<le> 1 \<or> wp_bytes p \<le> RUNNER_WINDOW_BYTES) \<and>
     map fst (wrote (wp_out p)) = filter (\<lambda>i. case wi_read io i of Wire w \<Rightarrow> True | _ \<Rightarrow> False) (take (wp_done p) ids)"

lemma pass_ok_threw: "pass_ok io ids (p\<lparr>wp_threw := b\<rparr>) = pass_ok io ids p"
  by (simp add: pass_ok_def)

lemma take_done: "drop n ids = i # rest \<Longrightarrow> take (Suc n) ids = take n ids @ [i] \<and> Suc n \<le> length ids \<and> drop (Suc n) ids = rest"
  by (metis Suc_leI append_eq_conv_conj append_take_drop_id drop_Suc drop_eq_Nil linorder_not_le list.sel(3) list.simps(3)
      nth_via_drop take_Suc_conv_app_nth tl_drop)

lemma window_loop_ok:
  "pass_ok io all p \<Longrightarrow> ids = drop (wp_done p) all \<Longrightarrow> wp_done p + v \<le> n \<Longrightarrow> pass_ok io all (window_loop io v p ids) \<and> wp_done (window_loop io v p ids) \<le> n"
proof (induction io v p ids rule: window_loop.induct)
  case (3 io v p i ids)
  note t = take_done[OF "3.prems"(2)[symmetric]] and v = "3.prems"(3)
  have next_ok: "pass_ok io all q" if "wp_done q = Suc (wp_done p)"
    "(case wi_read io i of Wire w \<Rightarrow> \<not> (wp_frames p \<noteq> 0 \<and> wp_bytes p + wi_size io w > RUNNER_WINDOW_BYTES) \<and>
        wp_bytes q = wp_bytes p + wi_size io w \<and> wp_frames q = Suc (wp_frames p) \<and> wrote (wp_out q) = wrote (wp_out p) @ [(i, w)]
      | _ \<Rightarrow> wp_bytes q = wp_bytes p \<and> wp_frames q = wp_frames p \<and> wrote (wp_out q) = wrote (wp_out p))" for q
    using that "3.prems"(1) t by (cases "wi_read io i") (auto simp: pass_ok_def)
  show ?case
  proof (cases "wi_read io i")
    case ReadThrew
    show ?thesis unfolding window_loop.simps ReadThrew read_result.case
      by (rule "3.IH"(1)[OF ReadThrew]) (use t v ReadThrew in \<open>auto intro!: next_ok\<close>)
  next
    case Nothing_Read
    show ?thesis unfolding window_loop.simps Nothing_Read read_result.case
      by (rule "3.IH"(2)[OF Nothing_Read]) (use t v Nothing_Read in \<open>auto intro!: next_ok\<close>)
  next
    case (Wire w)
    show ?thesis
    proof (cases "wp_frames p \<noteq> 0 \<and> wp_bytes p + wi_size io w > RUNNER_WINDOW_BYTES")
      case True
      then show ?thesis using Wire "3.prems"(1,3) by simp
    next
      case small: False
      show ?thesis
      proof (cases "wi_throws io (wp_frames p)")
        case True
        show ?thesis unfolding window_loop.simps Wire read_result.case if_not_P[OF small] if_P[OF True]
          using "3.prems"(1,3) pass_ok_threw by simp
      next
        case False
        show ?thesis unfolding window_loop.simps Wire read_result.case if_not_P[OF small] if_not_P[OF False]
          by (rule "3.IH"(3)[OF Wire small False]) (use t v small Wire in \<open>auto intro!: next_ok\<close>)
      qed
    qed
  qed
next
  case (2 io p i ids)
  from "2.prems"(1,3) show ?case by simp
qed simp

lemma window_pass_ok:
  "pass_ok io (drop (pw_index s) (pw_ids s)) (window_pass_of io s)" "wp_frames (window_pass_of io s) \<le> RUNNER_WINDOW_FRAMES"
proof -
  let ?p = "\<lparr>wp_done = 0, wp_bytes = 0, wp_frames = 0, wp_failed = pw_read_failed s, wp_out = [], wp_threw = False\<rparr>"
  have "pass_ok io (drop (pw_index s) (pw_ids s)) ?p" by (simp add: pass_ok_def)
  from window_loop_ok[OF this, of _ RUNNER_WINDOW_FRAMES RUNNER_WINDOW_FRAMES]
  show "pass_ok io (drop (pw_index s) (pw_ids s)) (window_pass_of io s)" "wp_frames (window_pass_of io s) \<le> RUNNER_WINDOW_FRAMES"
    by (auto simp: window_pass_of_def pass_ok_def)
qed

lemma window_loop_grows: "wp_done p \<le> wp_done (window_loop io v p ids)"
  by (induction io v p ids rule: window_loop.induct) (auto split: read_result.split)

lemma window_loop_progress:
  assumes "ids \<noteq> []" "wp_frames p = 0" "\<not> wi_throws io 0"
  shows "wp_done p < wp_done (window_loop io (Suc v) p ids)"
proof -
  obtain i rest where ids: "ids = i # rest" using assms(1) by (cases ids) auto
  have "wp_done p < wp_done (window_loop io v q rest)" if "wp_done q = Suc (wp_done p)" for q
    using window_loop_grows[of q io v rest] that by simp
  then show ?thesis using assms(2,3) by (simp add: ids split: read_result.split)
qed

lemma window_loop_calm: "(\<And>n. \<not> wi_throws io n) \<Longrightarrow> \<not> wp_threw p \<Longrightarrow> \<not> wp_threw (window_loop io v p ids)"
  by (induction io v p ids rule: window_loop.induct) (auto split: read_result.split)

section \<open>The window outstanding\<close>

definition sized_by :: "(string \<Rightarrow> int) \<Rightarrow> window_event \<Rightarrow> bool" where
  "sized_by bytes e = (case e of RunScheduled io now \<Rightarrow> wi_size io = bytes | _ \<Rightarrow> True)"

text \<open>The frames written since the last acknowledgement that was taken.\<close>

fun outstanding :: "window \<Rightarrow> string list \<Rightarrow> window_event list \<Rightarrow> string list" where
  "outstanding s ws [] = ws"
| "outstanding s ws (e # es) =
     (let (s', os) = window_step s e
      in outstanding s' (if (case e of Acknowledge i \<Rightarrow> pw_waiting s \<noteq> None \<and> pw_waiting s' = None | _ \<Rightarrow> False) then []
           else ws @ map snd (wrote os)) es)"

definition within_window :: "(string \<Rightarrow> int) \<Rightarrow> string list \<Rightarrow> bool" where
  "within_window bytes ws \<longleftrightarrow> length ws \<le> RUNNER_WINDOW_FRAMES \<and> (length ws \<le> 1 \<or> sum_list (map bytes ws) \<le> RUNNER_WINDOW_BYTES)"

definition paced :: "(string \<Rightarrow> int) \<Rightarrow> window \<Rightarrow> string list \<Rightarrow> bool" where
  "paced bytes s ws \<longleftrightarrow> within_window bytes ws \<and> (pw_scheduled s \<longrightarrow> ws = [] \<and> \<not> pw_closed s \<and> pw_waiting s = None) \<and>
     (pw_closed s \<longrightarrow> pw_waiting s = None) \<and> (\<not> pw_closed s \<longrightarrow> pw_waiting s = None \<longrightarrow> ws = [])"

lemma run_window_paced:
  assumes "pw_waiting s = None" "\<not> pw_closed s" "wi_size io = bytes"
  shows "paced bytes (fst (run_window io now s)) (map snd (wrote (snd (run_window io now s))))"
proof -
  let ?p = "window_pass_of io s"
  note ok = window_pass_ok[of io s]
  have w: "within_window bytes (map snd (wrote (wp_out ?p)))"
    using ok assms(3) by (auto simp: pass_ok_def within_window_def comp_def split_def)
  have n: "wp_frames ?p = 0 \<longleftrightarrow> wrote (wp_out ?p) = []" using ok(1) by (simp add: pass_ok_def)
  show ?thesis using w n assms(1,2)
    by (auto simp: run_window_def Let_def paced_def close_window_def schedule_def)
qed

lemma step_paced:
  assumes p: "paced bytes s ws" and e: "sized_by bytes e"
  shows "paced bytes (fst (window_step s e)) (if (case e of Acknowledge i \<Rightarrow> pw_waiting s \<noteq> None \<and> pw_waiting (fst (window_step s e)) = None | _ \<Rightarrow> False)
     then [] else ws @ map snd (wrote (snd (window_step s e))))"
proof (cases e)
  case (RunScheduled io now)
  show ?thesis
  proof (cases "pw_scheduled s")
    case True
    then have "ws = []" "\<not> pw_closed s" "pw_waiting s = None" using p by (simp_all add: paced_def)
    then show ?thesis using run_window_paced[of s io bytes now] RunScheduled True e by (simp add: sized_by_def)
  qed (use p RunScheduled in simp)
next
  case (Acknowledge i)
  have "within_window bytes []" by (simp add: within_window_def)
  then show ?thesis using p Acknowledge
    by (auto simp: paced_def acknowledge_def close_window_def schedule_def Let_def split: option.split)
next
  case CloseWindow
  then show ?thesis using p by (auto simp: paced_def close_window_def)
next
  case (WatchdogFires now)
  then show ?thesis using p by (auto simp: paced_def check_stalled_def split: option.split)
qed

text \<open>C39: the control plane never has more than one window to process: the frames a reconnect has written since
  the last acknowledgement are at most 128, and at most two mebibytes unless there is a single one.\<close>

theorem reconnect_stays_within_its_window:
  assumes "list_all (sized_by bytes) es"
  shows "within_window bytes (outstanding (new_window ids) [] es)"
proof -
  have "within_window bytes (outstanding s ws es)" if "paced bytes s ws" "list_all (sized_by bytes) es" for s ws
    using that
  proof (induction es arbitrary: s ws)
    case (Cons e es)
    then show ?case using step_paced[OF Cons.prems(1), of e] by (simp add: case_prod_beta Let_def)
  qed (simp add: paced_def)
  moreover have "paced bytes (new_window ids) []" by (simp add: paced_def new_window_def schedule_def within_window_def)
  ultimately show ?thesis using assms by blast
qed

section \<open>A peer that acknowledges\<close>

text \<open>Rounds of the callback, each answered by the acknowledgement of its barrier.\<close>

definition answered_round :: "window_io \<Rightarrow> rat \<Rightarrow> window \<Rightarrow> window \<times> window_output list" where
  "answered_round io now s =
     (let (s1, os) = window_step s (RunScheduled io now)
      in (case pw_waiting s1 of None \<Rightarrow> s1 | Some b \<Rightarrow> fst (window_step s1 (Acknowledge (ba_id b))), os))"

fun answered :: "(window_io \<times> rat) list \<Rightarrow> window \<Rightarrow> window \<times> window_output list" where
  "answered [] s = (s, [])"
| "answered ((io, now) # rounds) s =
     (let (s1, os) = answered_round io now s; (s2, os') = answered rounds s1 in (s2, os @ os'))"

definition readable :: "window_io \<Rightarrow> string \<Rightarrow> bool" where
  "readable io i = (case wi_read io i of Wire w \<Rightarrow> True | _ \<Rightarrow> False)"

definition idle :: "window \<Rightarrow> bool" where
  "idle s \<longleftrightarrow> pw_closed s \<and> \<not> pw_scheduled s \<and> pw_waiting s = None"

definition ready :: "window \<Rightarrow> bool" where
  "ready s \<longleftrightarrow> \<not> pw_closed s \<and> pw_scheduled s \<and> pw_waiting s = None \<and> pw_index s \<le> length (pw_ids s)"

lemma answered_idle: "idle s \<Longrightarrow> answered rounds s = (s, [])"
  by (induction rounds) (auto simp: idle_def answered_round_def)

text \<open>A round that finds entries left finishes at least one, and closes the window with the last.\<close>

lemma round_advances:
  assumes s: "ready s" and calm: "\<And>n. \<not> wi_throws io n" and r: "answered_round io now s = (s2, os)"
  shows "\<exists>n. pw_ids s2 = pw_ids s \<and> pw_index s2 = pw_index s + n \<and> pw_index s2 \<le> length (pw_ids s) \<and>
    map fst (wrote os) = filter (readable io) (take n (drop (pw_index s) (pw_ids s))) \<and>
    (if pw_index s2 = length (pw_ids s) then idle s2 else ready s2 \<and> n > 0)"
proof -
  let ?p = "window_pass_of io s"
  note ok = window_pass_ok(1)[of io s]
  have calm_p: "\<not> wp_threw ?p" unfolding window_pass_of_def by (rule window_loop_calm) (simp_all add: calm)
  have progress: "wp_done ?p > 0" if "pw_index s < length (pw_ids s)"
    using window_loop_progress[of "drop (pw_index s) (pw_ids s)"
        "\<lparr>wp_done = 0, wp_bytes = 0, wp_frames = 0, wp_failed = pw_read_failed s, wp_out = [], wp_threw = False\<rparr>" io 127] that calm
    by (simp add: window_pass_of_def RUNNER_WINDOW_FRAMES_def)
  have w: "map fst (wrote (wp_out ?p)) = filter (readable io) (take (wp_done ?p) (drop (pw_index s) (pw_ids s)))"
    using ok by (simp add: pass_ok_def readable_def[abs_def])
  have le: "pw_index s + wp_done ?p \<le> length (pw_ids s)" "wp_frames ?p \<le> wp_done ?p" using ok s by (auto simp: pass_ok_def ready_def)
  show ?thesis using r s calm calm_p progress w le
    by (intro exI[of _ "wp_done ?p"])
      (auto simp: answered_round_def run_window_def ready_def idle_def close_window_def schedule_def acknowledge_def Let_def
        split: if_splits)
qed

text \<open>C40: a reconnect whose barriers are answered ends and forgets nothing: after one round more than there are
  entries at most, the window is complete; its entries have been taken in order, each in exactly one
  round, and written then when they could be read then.\<close>

theorem answered_reconnect_completes:
  assumes "list_all (\<lambda>(io, now). \<forall>n. \<not> wi_throws io n) rounds" "length ids < length rounds"
    and "answered rounds (new_window ids) = (s, os)"
  shows "window_complete s \<and> (\<exists>segments. length segments = length rounds \<and> concat segments = ids \<and>
    map fst (wrote os) = concat (map2 (\<lambda>(io, now) seg. filter (readable io) seg) rounds segments))"
proof -
  have "window_complete s2 \<and> (\<exists>segments. length segments = length rounds \<and> concat segments = drop (pw_index s) (pw_ids s) \<and>
      map fst (wrote os) = concat (map2 (\<lambda>(io, now) seg. filter (readable io) seg) rounds segments))"
    if "ready s" "list_all (\<lambda>(io, now). \<forall>n. \<not> wi_throws io n) rounds" "length (pw_ids s) - pw_index s < length rounds"
      "answered rounds s = (s2, os)" for s s2 os rounds
    using that
  proof (induction rounds arbitrary: s os)
    case (Cons r rounds)
    obtain io now where r: "r = (io, now)" by (cases r)
    obtain s1 o1 where 1: "answered_round io now s = (s1, o1)" by (metis surj_pair)
    obtain o2 where 2: "answered rounds s1 = (s2, o2)" "os = o1 @ o2" using Cons.prems(4) r 1 by (auto split: prod.splits)
    have calm: "\<not> wi_throws io n" for n using Cons.prems(2) r by simp
    obtain n where n: "pw_ids s1 = pw_ids s" "pw_index s1 = pw_index s + n" "pw_index s1 \<le> length (pw_ids s)"
      "map fst (wrote o1) = filter (readable io) (take n (drop (pw_index s) (pw_ids s)))"
      "if pw_index s1 = length (pw_ids s) then idle s1 else ready s1 \<and> n > 0"
      using round_advances[OF Cons.prems(1) calm 1] by blast
    have rest: "take n (drop (pw_index s) (pw_ids s)) @ drop (pw_index s1) (pw_ids s1) = drop (pw_index s) (pw_ids s)"
      using n(1,2) by (metis add.commute append_take_drop_id drop_drop)
    show ?case
    proof (cases "pw_index s1 = length (pw_ids s)")
      case True
      then have "idle s1" using n(5) by simp
      then have "s2 = s1" "o2 = []" using answered_idle 2(1) by auto
      moreover have "concat (map2 (\<lambda>(io, now) seg. filter (readable io) seg) rounds (replicate (length rounds) [])) = []"
        by (induction rounds) auto
      ultimately show ?thesis using True n rest \<open>idle s1\<close> 2(2) r
        by (intro conjI exI[of _ "take n (drop (pw_index s) (pw_ids s)) # replicate (length rounds) []"])
          (simp_all add: window_complete_def idle_def)
    next
      case False
      then have "ready s1" "n > 0" using n(5) by simp_all
      moreover from this n(2,3) Cons.prems(3) have "length (pw_ids s1) - pw_index s1 < length rounds" using n(1) False by simp
      ultimately obtain segments where c: "window_complete s2" "length segments = length rounds"
        "concat segments = drop (pw_index s1) (pw_ids s1)"
        "map fst (wrote o2) = concat (map2 (\<lambda>(io, now) seg. filter (readable io) seg) rounds segments)"
        using Cons.IH[OF _ _ _ 2(1)] Cons.prems(2) by auto
      then show ?thesis using rest 2(2) n(4) r
        by (intro conjI exI[of _ "take n (drop (pw_index s) (pw_ids s)) # segments"]) simp_all
    qed
  qed simp
  from this[of "new_window ids" rounds s os] assms show ?thesis
    by (simp add: ready_def new_window_def schedule_def)
qed

section \<open>Examples\<close>

text \<open>Three entries of a mebibyte each, the second gone by its turn and the third too large for the first window.\<close>

definition sample_window_io :: window_io where
  "sample_window_io = \<lparr>wi_read = (\<lambda>i. if i = ''b'' then Nothing_Read else Wire i), wi_size = (\<lambda>w. if w = ''d'' then 2000000 else 1048576),
     wi_throws = (\<lambda>n. False)\<rparr>"

theorem reconnect_stays_within_its_window_witness:
  "within_window (wi_size sample_window_io) (outstanding (new_window [''a'', ''b'', ''c'', ''d'']) []
     [RunScheduled sample_window_io 0, RunScheduled sample_window_io 1]) \<and>
   outstanding (new_window [''a'', ''b'', ''c'', ''d'']) [] [RunScheduled sample_window_io 0, RunScheduled sample_window_io 1] = [''a'', ''c'']"
proof -
  have "list_all (sized_by (wi_size sample_window_io)) [RunScheduled sample_window_io 0, RunScheduled sample_window_io 1]"
    by (simp add: sized_by_def)
  from reconnect_stays_within_its_window[OF this] show ?thesis by (rule conjI) code_simp
qed

theorem answered_reconnect_completes_witness:
  "case answered (replicate 5 (sample_window_io, 0)) (new_window [''a'', ''b'', ''c'', ''d'']) of (s, os) \<Rightarrow>
     window_complete s \<and> map fst (wrote os) = [''a'', ''c'', ''d'']"
proof -
  obtain s os where r: "answered (replicate 5 (sample_window_io, 0)) (new_window [''a'', ''b'', ''c'', ''d'']) = (s, os)" by (metis surj_pair)
  have "list_all (\<lambda>(io, now). \<forall>n. \<not> wi_throws io n) (replicate 5 (sample_window_io, 0 :: rat))"
    by (simp add: list_all_iff sample_window_io_def)
  moreover have "length [''a'', ''b'', ''c'', ''d''] < length (replicate 5 (sample_window_io, 0 :: rat))" by simp
  ultimately have "window_complete s" using answered_reconnect_completes[OF _ _ r] by blast
  moreover have "map fst (wrote (snd (answered (replicate 5 (sample_window_io, 0)) (new_window [''a'', ''b'', ''c'', ''d''])))) = [''a'', ''c'', ''d'']"
    by code_simp
  ultimately show ?thesis using r by simp
qed

end
