(* ===== verification/Spec2Isabelle.thy ===== *)
theory Spec2Isabelle
  imports Outbox Text_Coalescer Frame_Queue Worktree_Coordinator Session_Waits Port_Allocator
    Merge_Dependencies Guardrails Policy_Validation Workflow_Graph Json_Rpc Command_Authority Cron_Schedule Fuzzy_Path Rate_Priced_Usage Claude_Usage Work_Times Durable_Submissions Outbox_Passes Command_Delivery Wal_Checkpointer Processing_Window
begin

text \<open>
  A verification library for Wollipog: a control plane that runs coding agents on many machines.

  \<^bold>\<open>The program and how its parts interact.\<close> A \<^emph>\<open>runner\<close> (\<open>apps/runner\<close>) owns the agent
  processes of one machine, drives them over stdio, and sends what they do to the \<^emph>\<open>control plane\<close>
  (\<open>apps/control-plane\<close>), which keeps the sessions, decides policy, coordinates campaigns and serves the
  browser. Both speak the messages of \<open>packages/protocol\<close>. The library follows an event from the agent
  to the control plane's decisions:

  \<^enum> an agent's output is cut into lines (\<open>Ndjson_Buffer\<close>), matched to requests (\<open>Json_Rpc\<close>) and its usage
    is accounted (\<open>Claude_Usage\<close>, \<open>Rate_Priced_Usage\<close>); the commands it may be asked to run are a catalog
    per session (\<open>Command_Authority\<close>);
  \<^enum> its events are coalesced (\<open>Text_Coalescer\<close>), buffered while disconnected (\<open>Outbox\<close>) and handled one
    at a time on the other side (\<open>Frame_Queue\<close>);
  \<^enum> the control plane asks a runner for worktrees (\<open>Worktree_Coordinator\<close>), whose port blocks are durable on
    the machine (\<open>Port_Allocator\<close>), follows what each session waits for (\<open>Session_Waits\<close>), and decides
    approvals and guardrails (\<open>Policy_Matching\<close>, \<open>Guardrails\<close>, \<open>Policy_Validation\<close>);
  \<^enum> a campaign's work items depend on each other (\<open>Dependency_Graph\<close>); their states (\<open>Work_State\<close>), times
    (\<open>Work_Times\<close>) and merge order (\<open>Merge_Dependencies\<close>) are derived from that; a workflow is a graph that
    must be able to run (\<open>Workflow_Graph\<close>), and automations fire by a cron schedule (\<open>Cron_Schedule\<close>);
  \<^enum> what an automation wants done is a durable command: the control plane's outbox stores, sends, retries,
    replaces and judges it (\<open>Command_Table\<close>, \<open>Outbox_Transactions\<close>, \<open>Command_Outbox\<close>), classifying
    the provider's failures (\<open>Provider_Error\<close>); the runner's journal of files makes the retries safe
    (\<open>Durable_Commands\<close>), comparing commands by their canonical text (\<open>Canonical_Json\<close>) and admitting the
    attachments of a prompt (\<open>Prompt_Attachments\<close>);
  \<^enum> the user interface finds files by a fuzzy search (\<open>Fuzzy_Path\<close>).

  \<^bold>\<open>How the code is modelled.\<close> A class is a record of its fields and one definition per method, each
  returning the new state and what the method hands to its callbacks; a step function over an event type
  composes them, one event per public method, timer, or outcome of an awaited call, so that interleavings
  are sequences of events. A pure function is a HOL function. A \<open>Map\<close> is an association list in
  insertion order where the order is observable, and a map otherwise. JavaScript integers are \<open>int\<close> or
  \<open>nat\<close> (the code keeps them below 2 to the 53), money and JSON numbers are \<open>rat\<close>, strings are lists of
  8-bit units (\<open>Fuzzy_Path\<close> uses lists of UTF-16 units), a thrown error is a value of a sum or option type.
  The clock, fresh identifiers, \<open>localeCompare\<close>, \<open>Intl\<close>, \<open>URL\<close>, \<open>JSON.parse\<close>, locks and the outcome of
  a write are arguments or events.

  \<^bold>\<open>The theories\<close>, each with its source and what its lemmas show.

  \<^item> \<open>Prelude\<close>: the locales \<open>event_machine\<close> and \<open>output_machine\<close> (runs of a step function, their
    invariants and outputs), JavaScript's list operations, generic lemmas. \<open>Json\<close>: JSON values, property
    lookup, character classes. \<open>Protocol\<close>, \<open>Usage_Event\<close>: vocabulary of \<open>packages/protocol/src/index.ts\<close>.
    \<open>Memo_Resolve\<close>: the locale \<open>memo_resolver\<close> of memoised recursive resolutions, interpreted by
    \<open>Work_State\<close> and \<open>Work_Times\<close>: totality, the equations of an acyclic graph, their unique solution.
  \<^item> \<open>Ndjson_Buffer\<close> (\<open>apps/runner/src/bounded-ndjson.ts\<close>): framing refines splitting the whole stream.
  \<^item> \<open>Json_Rpc\<close> (\<open>apps/runner/src/jsonrpc.ts\<close>): every request settles once; which errors say "not sent".
  \<^item> \<open>Claude_Usage\<close> (\<open>apps/runner/src/drivers/claude-usage-accounting.ts\<close>): \<open>cu_step\<close> over the provider's
    messages; tokens are accounted once; the journal shows the open window.
    \<open>Rate_Priced_Usage\<close> (\<open>packages/protocol/src/rate-priced-usage.ts\<close>): exact totals, round trip.
  \<^item> \<open>Command_Authority\<close> (\<open>apps/runner/src/session-command-authority.ts\<close>): a request is authorized exactly
    by the latest catalog.
  \<^item> \<open>Text_Coalescer\<close> (\<open>apps/runner/src/text-delta-coalescer.ts\<close>): emitted plus held text refines the
    driver's stream. \<open>Outbox\<close> (\<open>apps/runner/src/outbox.ts\<close>): coalescing, cap, the unsent suffix.
    \<open>Frame_Queue\<close> (\<open>apps/control-plane/src/runner-frame-queue.ts\<close>): order, single release of prepared
    values, accounting, progress of the drain loop.
  \<^item> \<open>Worktree_Coordinator\<close> (\<open>apps/control-plane/src/worktree-create-coordinator.ts\<close>): one running
    request per coordinates, stable results, every entry settles or expires. \<open>Port_Allocator\<close>
    (\<open>apps/runner/src/worktree-port-allocator.ts\<close>): disjoint, durable, first-fit blocks across processes.
  \<^item> \<open>Session_Waits\<close> (\<open>apps/control-plane/src/session-waits.ts\<close>, \<open>packages/protocol/src/session-waits.ts\<close>):
    reported changes are exactly the visible ones; identity of waits; parser round trip.
  \<^item> \<open>Policy_Matching\<close>, \<open>Guardrails\<close>, \<open>Policy_Validation\<close> (\<open>apps/control-plane/src/policy-engine.ts\<close>): the
    strongest applicable policy decides; the gate parks exactly at a limit; accepted policies are safe.
  \<^item> \<open>Dependency_Graph\<close> (\<open>apps/control-plane/src/campaign-work-ledger-store.ts\<close>, the edges only),
    \<open>Work_State\<close> (\<open>campaign-work-state.ts\<close>), \<open>Work_Times\<close> (\<open>campaign-work-times.ts\<close>),
    \<open>Merge_Dependencies\<close> (\<open>campaign-merge-dependencies.ts\<close>): stored graphs stay acyclic; the derived
    states satisfy the rules; timelines agree with them at every instant; the merge gate.
    The last section of this theory composes store and derivation.
  \<^item> \<open>Processing_Window\<close> (\<open>apps/runner/src/processing-window.ts\<close>): the pacing of a reconnect; never more
    than a window outstanding, and an answered reconnect takes every entry once.
  \<^item> \<open>Wal_Checkpointer\<close> (\<open>apps/control-plane/src/wal-checkpointer.ts\<close>): the thread that checkpoints the control
    plane's log; one worker or one restart, true stall reports over a 32-bit counter.
  \<^item> \<open>Workflow_Graph\<close> (\<open>apps/control-plane/src/workflow-graphs.ts\<close>): accepted workflows can run.
    \<open>Cron_Schedule\<close> (\<open>packages/protocol/src/cron-schedule.ts\<close>): the earliest next fire.
    \<open>Fuzzy_Path\<close> (\<open>packages/protocol/src/fuzzy-path-match.ts\<close>): the best placement.
  \<^item> \<open>Canonical_Json\<close> (\<open>canonicalJson\<close> of \<open>apps/runner/src/durable-command-store.ts\<close>): key order is the only
    thing the canonical text forgets. \<open>Prompt_Attachments\<close>
    (\<open>packages/protocol/src/prompt-attachments.ts\<close>): the checks of a prompt's attachments.
  \<^item> \<open>Durable_Commands\<close>, \<open>Durable_Submissions\<close> (\<open>apps/runner/src/durable-command-store.ts\<close>): the files,
    leases and lock files that the processes of a machine share, \<open>command_step\<close> over the awaited steps of all
    of them; the invariants \<open>sound\<close> and \<open>kept\<close> give that submissions of a command never overlap, that a
    verdict is final and that a command identifies one payload until its deadline has passed. A lock whose
    token cannot be read stays busy. Creating the key file and syncing directories are not modelled.
  \<^item> \<open>Provider_Error\<close> (\<open>packages/protocol/src/index.ts\<close>): which failures are quota and which are transient.
    \<open>Command_Table\<close> (the \<open>automation_commands\<close> tables of \<open>apps/control-plane/src/db.ts\<close>, a table as the
    list of its rows and each statement as a list operation), \<open>Outbox_Transactions\<close> (the transactions over
    them), \<open>Command_Outbox\<close> (\<open>apps/control-plane/src/automation-command-outbox.ts\<close> and the parts of
    \<open>automations.ts\<close> that drive it). \<open>Outbox_Verdicts\<close> shows that verdicts stand, that a command that may
    have reached a runner is not written off, that only its runner completes it and in whatever order the
    receipts arrive, and that launches are replaced boundedly; \<open>Outbox_Passes\<close> that whatever is sent was
    recorded first and that draining ends; \<open>Outbox_Sample\<close> holds the concrete states of the witnesses.
  \<^item> \<open>Command_Delivery\<close> (\<open>apps/runner/src/reconnect-republish.ts\<close>, the durable commands of
    \<open>apps/runner/src/index.ts\<close>): both sides over a connection that may lose, repeat and delay; what the control
    plane has as completed is completed in the journal, and a reconnect settles what the journal decided.
  \<^bold>\<open>Fuel and bounds.\<close> Recursions that are not structural either carry a termination proof (loops over a
  shrinking list or an interval) or fuel that is proved sufficient: the resolutions of \<open>Work_State\<close> and
  \<open>Work_Times\<close> run with one more unit than there are records (the path of visited items is duplicate
  free), the depth-first search of \<open>Dependency_Graph\<close> with one more than there are edge lists; their
  totality lemmas hold for every input, cyclic ones included. The loops of \<open>Workflow_Graph\<close> terminate by
  the nodes they have not reached, those of \<open>Cron_Schedule\<close> by the days, hours and minutes left, and the
  drain loop of \<open>Frame_Queue\<close> is a bounded number of resumptions per queued message. The drain loop of
  \<open>Command_Outbox\<close> has one unit of fuel more than there are stored commands: every batch but the last
  settles a row.

  \<^bold>\<open>Not modelled.\<close> The browser and desktop interface (\<open>apps/web\<close>, \<open>apps/desktop\<close>), which render what the
  control plane sends; the HTTP routes and WebSocket wiring (\<open>index.ts\<close>, the \<open>*-route.ts\<close> files); the
  SQLite stores (\<open>db.ts\<close> but for the tables of durable commands, and the \<open>*-store.ts\<close> files), whose
  behaviour is the SQL they run; the triggers and the scheduler of \<open>automations.ts\<close>; the two session
  orchestrators (\<open>sessions.ts\<close>, \<open>session-manager.ts\<close>), which glue hundreds of the parts above and below to
  storage and processes; the agent drivers but for usage accounting; process, sandbox, container and file
  handling of the runner; discovery, provider accounts and credentials; video and image evidence; skills.
  Doubles are not rounded, promises are events rather than a scheduler, and text shown to people is the
  value it is made from.
\<close>

section \<open>Properties that span components\<close>

text \<open>
  C29: The campaign board is well defined. The dependency store refuses every replacement that would
  close a cycle, and the state derivation needs exactly that: after any history of replacement
  requests, accepted or refused, the states derived from records that carry the stored dependencies
  exist, do not depend on the order the records are read in, and give every item the state its own
  rules demand over the states of the items it depends on.
\<close>

theorem campaign_board_is_well_defined:
  assumes "distinct (map wi_id rs)" and "mset rs = mset rs'"
    and stored: "\<forall>r\<in>set rs. wi_depends_on r = succs (foldl deps_step [] reqs) (wi_id r)"
  shows "\<exists>d d'. derive_states rs = Some d \<and> derive_states rs' = Some d' \<and> map_of d = map_of d' \<and>
     (\<forall>r\<in>set rs. map_of d (wi_id r) = Some (derive_state r (map (state_in d) (wi_depends_on r))))"
proof (rule acyclic_states_are_well_defined[OF assms(1,2)])
  have "{(wi_id r, x) | r x. r \<in> set rs \<and> x \<in> set (wi_depends_on r)} \<subseteq> edge_rel (foldl deps_step [] reqs)"
    using stored by (auto simp: edge_rel_def)
  moreover have "acyclic (edge_rel (foldl deps_step [] reqs))" using deps_run_good[of reqs] by (simp add: deps_good_def)
  ultimately show "acyclic {(wi_id r, x) | r x. r \<in> set rs \<and> x \<in> set (wi_depends_on r)}" using acyclic_subset by blast
qed

text \<open>Item \<open>b\<close> is made to depend on \<open>a\<close>; the request that would close the cycle is refused.\<close>

definition demo_requests :: "((string \<Rightarrow> bool) \<times> (string \<Rightarrow> bool) \<times> replacement list) list" where
  "demo_requests =
     [(\<lambda>_. True, \<lambda>_. False, [\<lparr>rd_item = ''b'', rd_depends_on = [''a'']\<rparr>]),
      (\<lambda>_. True, \<lambda>_. False, [\<lparr>rd_item = ''a'', rd_depends_on = [''b'']\<rparr>])]"

lemma demo_requests_stored: "foldl deps_step [] demo_requests = [(''b'', [''a''])]"
  by code_simp

theorem campaign_board_is_well_defined_witness:
  "\<exists>d d'. derive_states demo_campaign = Some d \<and> derive_states (rev demo_campaign) = Some d' \<and> map_of d = map_of d'"
proof -
  have "\<forall>r\<in>set demo_campaign. wi_depends_on r = succs (foldl deps_step [] demo_requests) (wi_id r)"
    unfolding demo_requests_stored by (simp add: demo_campaign_def demo_item_def succs_def)
  moreover have "distinct (map wi_id demo_campaign)" "mset demo_campaign = mset (rev demo_campaign)"
    by (simp_all add: demo_campaign_def demo_item_def)
  ultimately show ?thesis using campaign_board_is_well_defined[of demo_campaign "rev demo_campaign" demo_requests] by blast
qed

end
